(* ===== verification/Prelude.thy ===== *)
theory Prelude
  imports
    Complex_Main
    "HOL-Library.AList"
    "HOL-Library.Char_ord"
    "HOL-Library.List_Lexorder"
    "HOL-Library.Product_Lexorder"
    "HOL-Library.Sublist"
begin

section \<open>Prelude: shared types, string and dictionary operations\<close>

text \<open>
  What every component of the model of sf2loki shares.

  Python's \<^verbatim>\<open>str\<close> is \<open>string\<close> wherever only equality, prefixes and lengths
  matter (labels, checkpoint keys, identifiers); a log line, whose UTF-8 size matters, is a
  \<open>ustring\<close>, the list of its code points. A Python \<^verbatim>\<open>dict\<close> is an association
  list in insertion order: \<open>AList.update\<close> overwrites in place or appends, exactly as
  item assignment does, and \<open>dict_merge\<close> is the display \<^verbatim>\<open>{**a, **b}\<close>.
  A raised exception is the left side of a sum. Clock readings and durations are rational
  seconds (\<open>seconds\<close>); a \<^verbatim>\<open>datetime\<close> is its number of microseconds since
  the epoch (\<open>datetime\<close>), Python's own resolution.
\<close>

type_synonym ustring = "nat list"
type_synonym seconds = rat
type_synonym datetime = int
type_synonym ('k, 'v) dict = "('k \<times> 'v) list"
type_synonym labelset = "(string, string) dict"

named_theorems py_defs \<open>definitions of the string and dictionary operations\<close>

subsection \<open>Strings\<close>

text \<open>\<^verbatim>\<open>s.replace(c, r)\<close> for a one-character pattern.\<close>

definition replace1 :: "char \<Rightarrow> string \<Rightarrow> string \<Rightarrow> string" where
  "replace1 c r s = concat (map (\<lambda>x. if x = c then r else [x]) s)"

text \<open>\<^verbatim>\<open>sep.join(parts)\<close>.\<close>

fun join :: "string \<Rightarrow> string list \<Rightarrow> string" where
  "join sep [] = []"
| "join sep [p] = p"
| "join sep (p # q # ps) = p @ sep @ join sep (q # ps)"

definition startswith :: "string \<Rightarrow> string \<Rightarrow> bool" where
  "startswith s p \<longleftrightarrow> take (length p) s = p"

definition endswith :: "string \<Rightarrow> string \<Rightarrow> bool" where
  "endswith s p \<longleftrightarrow> length p \<le> length s \<and> drop (length s - length p) s = p"

text \<open>ASCII case folding: \<^verbatim>\<open>s.lower()\<close> and \<^verbatim>\<open>s.upper()\<close>.\<close>

definition lower_char :: "char \<Rightarrow> char" where
  "lower_char c = (if CHR ''A'' \<le> c \<and> c \<le> CHR ''Z'' then char_of (of_char c + (32::nat)) else c)"

definition upper_char :: "char \<Rightarrow> char" where
  "upper_char c = (if CHR ''a'' \<le> c \<and> c \<le> CHR ''z'' then char_of (of_char c - (32::nat)) else c)"

definition lower :: "string \<Rightarrow> string" where
  "lower s = map lower_char s"

definition upper :: "string \<Rightarrow> string" where
  "upper s = map upper_char s"

text \<open>\<^verbatim>\<open>s.strip()\<close>, over the ASCII white space.\<close>

definition is_space :: "char \<Rightarrow> bool" where
  "is_space c \<longleftrightarrow> of_char c \<in> set [9::nat, 10, 11, 12, 13, 28, 29, 30, 31, 32]"

definition strip :: "string \<Rightarrow> string" where
  "strip s = rev (dropWhile is_space (rev (dropWhile is_space s)))"

definition is_digit :: "char \<Rightarrow> bool" where
  "is_digit c \<longleftrightarrow> CHR ''0'' \<le> c \<and> c \<le> CHR ''9''"

definition digit_val :: "char \<Rightarrow> nat" where
  "digit_val c = of_char c - 48"

text \<open>\<^verbatim>\<open>s.isdigit()\<close> and \<^verbatim>\<open>int(s)\<close> for such a string.\<close>

definition isdigit :: "string \<Rightarrow> bool" where
  "isdigit s \<longleftrightarrow> s \<noteq> [] \<and> list_all is_digit s"

definition nat_of_digits :: "string \<Rightarrow> nat" where
  "nat_of_digits s = foldl (\<lambda>n c. 10 * n + digit_val c) 0 s"

text \<open>\<^verbatim>\<open>str(n)\<close> for a non-negative integer.\<close>

fun show_nat :: "nat \<Rightarrow> string" where
  "show_nat n =
     (if n < 10 then [char_of (48 + n)]
      else show_nat (n div 10) @ [char_of (48 + n mod 10)])"

declare show_nat.simps [simp del]

declare replace1_def [py_defs] startswith_def [py_defs] endswith_def [py_defs]
  lower_def [py_defs] upper_def [py_defs] strip_def [py_defs] isdigit_def [py_defs]

lemma replace1_Nil [simp]: "replace1 c r [] = []"
  by (simp add: replace1_def)

lemma replace1_Cons [simp]:
  "replace1 c r (x # s) = (if x = c then r else [x]) @ replace1 c r s"
  by (simp add: replace1_def)

lemma replace1_append [simp]: "replace1 c r (s @ t) = replace1 c r s @ replace1 c r t"
  by (simp add: replace1_def)

lemma replace1_id: "c \<notin> set s \<Longrightarrow> replace1 c r s = s"
  by (induction s) auto

lemma startswith_append [simp]: "startswith (p @ s) p"
  by (simp add: startswith_def)

lemma startswith_prefix: "startswith s p \<longleftrightarrow> (\<exists>t. s = p @ t)"
  by (metis append_take_drop_id append_eq_conv_conj startswith_def)

lemma endswith_suffix: "endswith s p \<longleftrightarrow> (\<exists>t. s = t @ p)"
proof
  assume "endswith s p"
  then have "s = take (length s - length p) s @ p"
    by (metis append_take_drop_id endswith_def)
  then show "\<exists>t. s = t @ p" by blast
next
  assume "\<exists>t. s = t @ p"
  then show "endswith s p" by (auto simp: endswith_def)
qed

subsection \<open>Dictionaries\<close>

definition dict_merge :: "('k, 'v) dict \<Rightarrow> ('k, 'v) dict \<Rightarrow> ('k, 'v) dict" where
  "dict_merge a b = fold (\<lambda>(k, v). AList.update k v) b a"

definition dict_keys :: "('k, 'v) dict \<Rightarrow> 'k list" where
  "dict_keys d = map fst d"

text \<open>A Python dictionary never holds one key twice.\<close>

definition wf_dict :: "('k, 'v) dict \<Rightarrow> bool" where
  "wf_dict d \<longleftrightarrow> distinct (map fst d)"

definition get_default :: "('k, 'v) dict \<Rightarrow> 'k \<Rightarrow> 'v \<Rightarrow> 'v" where
  "get_default d k v = (case map_of d k of None \<Rightarrow> v | Some x \<Rightarrow> x)"

lemma dict_merge_Nil [simp]: "dict_merge a [] = a"
  by (simp add: dict_merge_def)

lemma dict_merge_Cons [simp]:
  "dict_merge a ((k, v) # b) = dict_merge (AList.update k v a) b"
  by (simp add: dict_merge_def)

lemma wf_dict_update [simp]: "wf_dict d \<Longrightarrow> wf_dict (AList.update k v d)"
  by (simp add: wf_dict_def distinct_update)

lemma wf_dict_merge: "wf_dict a \<Longrightarrow> wf_dict (dict_merge a b)"
  by (induction b arbitrary: a) auto

lemma wf_dict_Nil [simp]: "wf_dict []"
  by (simp add: wf_dict_def)

lemma map_of_update [simp]: "map_of (AList.update k v d) = (map_of d)(k \<mapsto> v)"
  by (simp add: update_conv')

lemma map_of_dict_merge:
  "map_of (dict_merge a b) k =
     (case map_of (rev b) k of Some v \<Rightarrow> Some v | None \<Rightarrow> map_of a k)"
  by (induction b arbitrary: a) (auto simp: map_add_def split: option.splits)

lemma map_of_rev_wf: "wf_dict b \<Longrightarrow> map_of (rev b) = map_of b"
  by (rule map_of_eqI) (auto simp: wf_dict_def map_of_eq_Some_iff rev_map [symmetric])

lemma map_of_dict_merge_wf:
  "wf_dict b \<Longrightarrow>
   map_of (dict_merge a b) k = (case map_of b k of Some v \<Rightarrow> Some v | None \<Rightarrow> map_of a k)"
  by (simp add: map_of_dict_merge map_of_rev_wf)

lemma set_keys_update: "fst ` set (AList.update k v d) = insert k (fst ` set d)"
  by (simp add: dom_update)

lemma set_keys_merge: "fst ` set (dict_merge a b) = fst ` set a \<union> fst ` set b"
proof (induction b arbitrary: a)
  case Nil
  then show ?case by simp
next
  case (Cons p b)
  obtain k v where "p = (k, v)" by (cases p)
  then show ?case by (simp add: Cons.IH set_keys_update)
qed

text \<open>Two well-formed dictionaries with the same items are equal as mappings, and sorting
  their items gives one list: the canonical form \<^verbatim>\<open>sorted(d.items())\<close>.\<close>

lemma sort_items_eq_iff:
  fixes a b :: "('k::linorder, 'v::linorder) dict"
  assumes "wf_dict a" and "wf_dict b"
  shows "sort a = sort b \<longleftrightarrow> map_of a = map_of b"
proof
  assume "sort a = sort b"
  then have "set a = set b" by (metis set_sort)
  then show "map_of a = map_of b"
    using assms by (simp add: wf_dict_def map_of_inject_set)
next
  assume "map_of a = map_of b"
  then have "set a = set b"
    using assms by (simp add: wf_dict_def map_of_inject_set)
  moreover have "distinct a" "distinct b"
    using assms by (simp_all add: wf_dict_def distinct_map)
  ultimately show "sort a = sort b"
    by (metis sorted_list_of_set_sort_remdups distinct_remdups_id)
qed

subsection \<open>Maps\<close>

text \<open>The first index at which a value other than \<open>None\<close> is found.\<close>

fun first_some :: "('a \<Rightarrow> 'b option) \<Rightarrow> 'a list \<Rightarrow> 'b option" where
  "first_some f [] = None"
| "first_some f (x # xs) = (case f x of Some y \<Rightarrow> Some y | None \<Rightarrow> first_some f xs)"

lemma first_some_None [simp]: "first_some f xs = None \<longleftrightarrow> (\<forall>x \<in> set xs. f x = None)"
  by (induction xs) (auto split: option.splits)

lemma first_some_SomeD:
  "first_some f xs = Some y \<Longrightarrow>
   \<exists>us x vs. xs = us @ x # vs \<and> f x = Some y \<and> (\<forall>u \<in> set us. f u = None)"
proof (induction xs)
  case Nil
  then show ?case by simp
next
  case (Cons a xs)
  show ?case
  proof (cases "f a")
    case None
    with Cons obtain us x vs where
      "xs = us @ x # vs" "f x = Some y" "\<forall>u \<in> set us. f u = None" by auto
    with None have "a # xs = (a # us) @ x # vs" "f x = Some y" "\<forall>u \<in> set (a # us). f u = None"
      by auto
    then show ?thesis by blast
  next
    case (Some b)
    with Cons.prems have "a # xs = [] @ a # xs" "f a = Some y" by auto
    then show ?thesis by fastforce
  qed
qed

subsection \<open>Lists of tasks\<close>

lemma count_update:
  assumes "i < length ws"
  shows "length (filter P (ws[i := w])) + (if P (ws ! i) then 1 else 0) = length (filter P ws) + (if P w then 1 else (0::nat))"
  using assms
proof (induction ws arbitrary: i)
  case (Cons x ws)
  then show ?case by (cases i) auto
qed simp

lemma list_all_set: "list_all P xs \<Longrightarrow> P x \<Longrightarrow> list_all P (xs[i := x])"
  using set_update_subset_insert [of xs i x] by (auto simp: list_all_iff)

end
