(* ===== verification/Utf8.thy ===== *)
theory Utf8
  imports Prelude
begin

section \<open>UTF-8, as the code uses it\<close>

text \<open>
  \<^verbatim>\<open>str.encode("utf-8")\<close> and \<^verbatim>\<open>bytes.decode("utf-8", errors="ignore")\<close>:
  the only two codec calls on the delivery path (\<^verbatim>\<open>model.py\<close> sizes a line,
  \<^verbatim>\<open>shaping.py\<close> truncates one). A byte is a natural number below 256. The decoder
  drops every byte that does not begin a well-formed sequence, which is the behaviour of
  the \<^verbatim>\<open>ignore\<close> error handler: an ill-formed lead byte is skipped, and so is each
  stray continuation byte after it.

  The lemmas show that decoding a truncated encoding gives the longest prefix of whole
  characters that fits.
\<close>

definition valid_cp :: "nat \<Rightarrow> bool" where
  "valid_cp c \<longleftrightarrow> c < 0x110000 \<and> \<not> (0xD800 \<le> c \<and> c \<le> 0xDFFF)"

abbreviation wf_ustring :: "ustring \<Rightarrow> bool" where
  "wf_ustring s \<equiv> list_all valid_cp s"

definition encode_cp :: "nat \<Rightarrow> nat list" where
  "encode_cp c =
     (if c < 0x80 then [c]
      else if c < 0x800 then [0xC0 + c div 64, 0x80 + c mod 64]
      else if c < 0x10000 then [0xE0 + c div 4096, 0x80 + c div 64 mod 64, 0x80 + c mod 64]
      else [0xF0 + c div 262144, 0x80 + c div 4096 mod 64, 0x80 + c div 64 mod 64, 0x80 + c mod 64])"

definition utf8_encode :: "ustring \<Rightarrow> nat list" where
  "utf8_encode s = concat (map encode_cp s)"

text \<open>Length of the sequence a lead byte announces; 0 for a byte that begins none.\<close>

definition seq_len :: "nat \<Rightarrow> nat" where
  "seq_len b =
     (if b < 0x80 then 1 else if b < 0xC0 then 0 else if b < 0xE0 then 2
      else if b < 0xF0 then 3 else if b < 0xF8 then 4 else 0)"

definition is_cont :: "nat \<Rightarrow> bool" where
  "is_cont b \<longleftrightarrow> 0x80 \<le> b \<and> b < 0xC0"

definition lead_bits :: "nat \<Rightarrow> nat" where
  "lead_bits b =
     (if b < 0x80 then b else if b < 0xE0 then b - 0xC0
      else if b < 0xF0 then b - 0xE0 else b - 0xF0)"

definition seq_value :: "nat \<Rightarrow> nat list \<Rightarrow> nat" where
  "seq_value b bs = foldl (\<lambda>n x. 64 * n + (x - 0x80)) (lead_bits b) bs"

text \<open>The smallest code point that needs a sequence of this length: anything below is an
  overlong form, which the decoder rejects.\<close>

definition min_cp :: "nat \<Rightarrow> nat" where
  "min_cp k = (if k = 2 then 0x80 else if k = 3 then 0x800 else if k = 4 then 0x10000 else 0)"

fun utf8_decode_ignore :: "nat list \<Rightarrow> ustring" where
  "utf8_decode_ignore [] = []"
| "utf8_decode_ignore (b # bs) =
     (let k = seq_len b; rest = take (k - 1) bs; c = seq_value b rest in
      if k > 0 \<and> length rest = k - 1 \<and> list_all is_cont rest \<and> min_cp k \<le> c \<and> valid_cp c
      then c # utf8_decode_ignore (drop (k - 1) bs)
      else utf8_decode_ignore bs)"

definition utf8_len :: "ustring \<Rightarrow> nat" where
  "utf8_len s = length (utf8_encode s)"

text \<open>An ASCII string as code points.\<close>

definition ascii :: "string \<Rightarrow> ustring" where
  "ascii s = map of_char s"

declare utf8_decode_ignore.simps(2) [simp del]

subsection \<open>Encoding lengths\<close>

lemma utf8_encode_Nil [simp]: "utf8_encode [] = []"
  and utf8_encode_Cons [simp]: "utf8_encode (c # s) = encode_cp c @ utf8_encode s"
  and utf8_encode_append [simp]: "utf8_encode (s @ t) = utf8_encode s @ utf8_encode t"
  by (simp_all add: utf8_encode_def)

lemma utf8_len_Nil [simp]: "utf8_len [] = 0"
  and utf8_len_Cons [simp]: "utf8_len (c # s) = length (encode_cp c) + utf8_len s"
  and utf8_len_append [simp]: "utf8_len (s @ t) = utf8_len s + utf8_len t"
  by (simp_all add: utf8_len_def)

lemma encode_cp_nonempty [simp]: "encode_cp c \<noteq> []"
  by (simp add: encode_cp_def)

lemma length_encode_cp_pos [simp]: "0 < length (encode_cp c)"
  by (simp add: encode_cp_def)

subsection \<open>Decoding what was encoded\<close>

lemma cont_bytes [simp]:
  "is_cont (0x80 + x mod 64)"
  by (simp add: is_cont_def)

lemma recombine2: "64 * (c div 64) + c mod 64 = (c::nat)"
  by simp

lemma recombine3: "64 * (64 * (c div 4096) + c div 64 mod 64) + c mod 64 = (c::nat)"
proof -
  have "c div 4096 = c div 64 div 64" by (simp add: div_mult2_eq [symmetric])
  then show ?thesis by simp
qed

lemma recombine4:
  "64 * (64 * (64 * (c div 262144) + c div 4096 mod 64) + c div 64 mod 64) + c mod 64 = (c::nat)"
proof -
  have a: "c div 262144 = c div 4096 div 64" by (simp add: div_mult2_eq [symmetric])
  have "64 * (c div 262144) + c div 4096 mod 64 = c div 4096" by (simp add: a)
  then show ?thesis using recombine3 [of c] by simp
qed

text \<open>One well-formed sequence decodes to its value; the four encoded shapes are well formed.\<close>

lemma decode_seq:
  assumes "seq_len b = Suc (length rest)" "list_all is_cont rest"
    and "min_cp (Suc (length rest)) \<le> seq_value b rest" "valid_cp (seq_value b rest)"
  shows "utf8_decode_ignore (b # rest @ bs) = seq_value b rest # utf8_decode_ignore bs"
  using assms by (simp add: utf8_decode_ignore.simps(2) Let_def)

lemma encode_cp_seq:
  assumes "valid_cp c"
  shows "\<exists>b rest. encode_cp c = b # rest \<and> seq_len b = Suc (length rest) \<and> list_all is_cont rest
    \<and> min_cp (Suc (length rest)) \<le> c \<and> seq_value b rest = c"
proof -
  consider "c < 0x80" | "0x80 \<le> c" "c < 0x800" | "0x800 \<le> c" "c < 0x10000" | "0x10000 \<le> c"
    by linarith
  then show ?thesis
  proof cases
    case 1
    then show ?thesis by (simp add: encode_cp_def seq_len_def seq_value_def lead_bits_def min_cp_def)
  next
    case 2
    then have "c div 64 < 32" "2 \<le> c div 64" by auto
    with 2 show ?thesis
      by (simp add: encode_cp_def seq_len_def seq_value_def lead_bits_def min_cp_def)
  next
    case 3
    then have "c div 4096 < 16" by auto
    with 3 recombine3 [of c] show ?thesis
      by (simp add: encode_cp_def seq_len_def seq_value_def lead_bits_def min_cp_def)
  next
    case 4
    then have "c div 262144 < 8" using assms by (auto simp: valid_cp_def)
    with 4 recombine4 [of c] show ?thesis
      by (simp add: encode_cp_def seq_len_def seq_value_def lead_bits_def min_cp_def)
  qed
qed

lemma decode_encode_cp:
  "valid_cp c \<Longrightarrow> utf8_decode_ignore (encode_cp c @ bs) = c # utf8_decode_ignore bs"
  by (metis append_Cons decode_seq encode_cp_seq)

lemma decode_conts [simp]: "list_all is_cont bs \<Longrightarrow> utf8_decode_ignore bs = []"
  by (induction bs) (auto simp: utf8_decode_ignore.simps(2) seq_len_def is_cont_def)

lemma decode_partial_cp:
  assumes "valid_cp c" and "n < length (encode_cp c)"
  shows "utf8_decode_ignore (take n (encode_cp c)) = []"
proof (cases n)
  case 0
  then show ?thesis by simp
next
  case (Suc m)
  obtain b bs where shape: "encode_cp c = b # bs" "seq_len b = Suc (length bs)" "list_all is_cont bs"
    using encode_cp_seq [OF assms(1)] by blast
  have conts: "list_all is_cont (take m bs)"
    using shape(3) by (auto simp: list_all_iff dest: in_set_takeD)
  have "length (take (seq_len b - 1) (take m bs)) \<noteq> seq_len b - 1"
    using assms(2) Suc shape by simp
  then have "utf8_decode_ignore (b # take m bs) = utf8_decode_ignore (take m bs)"
    by (simp add: utf8_decode_ignore.simps(2) Let_def del: length_take)
  with conts Suc shape show ?thesis by simp
qed

lemma utf8_roundtrip: "wf_ustring s \<Longrightarrow> utf8_decode_ignore (utf8_encode s) = s"
  by (induction s) (auto simp: decode_encode_cp)

text \<open>The longest prefix of \<open>s\<close> whose encoding is at most \<open>n\<close> bytes.\<close>

fun fit :: "nat \<Rightarrow> ustring \<Rightarrow> ustring" where
  "fit n [] = []"
| "fit n (c # s) =
     (if length (encode_cp c) \<le> n then c # fit (n - length (encode_cp c)) s else [])"

lemma decode_truncated:
  "wf_ustring s \<Longrightarrow> utf8_decode_ignore (take n (utf8_encode s)) = fit n s"
proof (induction s arbitrary: n)
  case Nil
  then show ?case by simp
next
  case (Cons c s)
  show ?case
  proof (cases "length (encode_cp c) \<le> n")
    case True
    with Cons show ?thesis by (simp add: decode_encode_cp)
  next
    case False
    with Cons.prems show ?thesis by (simp add: decode_partial_cp)
  qed
qed

lemma fit_prefix: "prefix (fit n s) s"
  by (induction n s rule: fit.induct) auto

lemma fit_len: "utf8_len (fit n s) \<le> n"
  by (induction n s rule: fit.induct) auto

lemma fit_id: "utf8_len s \<le> n \<Longrightarrow> fit n s = s"
  by (induction n s rule: fit.induct) auto

lemma fit_longest:
  assumes "prefix p s" and "utf8_len p \<le> n"
  shows "prefix p (fit n s)"
  using assms
proof (induction n s arbitrary: p rule: fit.induct)
  case (1 n)
  then show ?case by simp
next
  case (2 n c s)
  show ?case
  proof (cases p)
    case Nil
    then show ?thesis by simp
  next
    case (Cons d q)
    with 2 show ?thesis by auto
  qed
qed

lemma wf_ascii [simp]: "wf_ustring (ascii s)"
proof -
  have "valid_cp (of_char c)" for c
  proof -
    have "of_char c < (256::nat)" by (rule nat_of_char_less_256)
    then show ?thesis unfolding valid_cp_def by linarith
  qed
  then show ?thesis by (simp add: ascii_def list_all_iff)
qed

end
