(* ===== verification/Model.thy ===== *)
theory Model
  imports Utf8
begin

section \<open>model.py: the data types that cross every seam\<close>

text \<open>
  \<^verbatim>\<open>CheckpointToken\<close>, \<^verbatim>\<open>LogEntry\<close> and \<^verbatim>\<open>Batch\<close> of
  \<^verbatim>\<open>src/sf2loki/model.py\<close>. An entry memoizes the UTF-8 length of its line; the
  memo is part of the record, \<open>memo_ok\<close> is the invariant that keeps it from going stale,
  and \<open>line_nbytes\<close> is the method, which returns the length and the entry with its memo
  written. Under the invariant the memo never changes an answer
  (\<open>line_nbytes_correct\<close>), so the other components read \<open>nbytes\<close>.
\<close>

record checkpoint_token =
  tok_key :: string
  tok_value :: string

record log_entry =
  timestamp :: datetime
  labels :: labelset
  line :: ustring
  structured_metadata :: labelset
  checkpoint :: checkpoint_token
  checkpoint_only :: bool
  line_nbytes_memo :: int

type_synonym batch = "log_entry list"

definition line_nbytes :: "log_entry \<Rightarrow> nat \<times> log_entry" where
  "line_nbytes e =
     (if line_nbytes_memo e < 0
      then (let n = length (utf8_encode (line e)) in (n, e\<lparr>line_nbytes_memo := int n\<rparr>))
      else (nat (line_nbytes_memo e), e))"

abbreviation nbytes :: "log_entry \<Rightarrow> nat" where
  "nbytes e \<equiv> fst (line_nbytes e)"

definition memo_ok :: "log_entry \<Rightarrow> bool" where
  "memo_ok e \<longleftrightarrow> line_nbytes_memo e < 0 \<or> line_nbytes_memo e = int (utf8_len (line e))"

text \<open>Equality of entries ignores the memo (\<^verbatim>\<open>compare=False\<close>).\<close>

definition strip_memo :: "log_entry \<Rightarrow> log_entry" where
  "strip_memo e = e\<lparr>line_nbytes_memo := - 1\<rparr>"

definition same_entry :: "log_entry \<Rightarrow> log_entry \<Rightarrow> bool" where
  "same_entry a b \<longleftrightarrow> strip_memo a = strip_memo b"

text \<open>What a source may hand to the pipeline: a line of valid code points, a sound memo.\<close>

definition entry_ok :: "log_entry \<Rightarrow> bool" where
  "entry_ok e \<longleftrightarrow> memo_ok e \<and> wf_ustring (line e)"

lemma same_entry_refl [simp]: "same_entry e e"
  by (simp add: same_entry_def)

lemma strip_memo_simps [simp]:
  "strip_memo (strip_memo e) = strip_memo e"
  "strip_memo (e\<lparr>line_nbytes_memo := i\<rparr>) = strip_memo e"
  "checkpoint (strip_memo e) = checkpoint e"
  "checkpoint_only (strip_memo e) = checkpoint_only e"
  "labels (strip_memo e) = labels e"
  "line (strip_memo e) = line e"
  by (simp_all add: strip_memo_def)

lemma nbytes_eq: "memo_ok e \<Longrightarrow> nbytes e = utf8_len (line e)"
  by (auto simp: line_nbytes_def memo_ok_def utf8_len_def Let_def)

lemma line_nbytes_keeps:
  "memo_ok e \<Longrightarrow> memo_ok (snd (line_nbytes e))"
  "same_entry (snd (line_nbytes e)) e"
  "line (snd (line_nbytes e)) = line e"
  by (auto simp: line_nbytes_def memo_ok_def utf8_len_def same_entry_def Let_def strip_memo_def)

lemma nbytes_stable: "memo_ok e \<Longrightarrow> nbytes (snd (line_nbytes e)) = nbytes e"
  by (simp add: nbytes_eq line_nbytes_keeps)

lemma memo_ok_reset [simp]: "memo_ok (e\<lparr>line := l, line_nbytes_memo := - 1\<rparr>)"
  by (simp add: memo_ok_def)

text \<open>
  The memo of \<^verbatim>\<open>LogEntry.line_nbytes\<close> is transparent: starting from a sound memo
  the method returns the UTF-8 length of the line, leaves the entry equal to what it was
  (equality ignores the memo) with a sound memo, and a second call gives the same answer.
\<close>

theorem line_nbytes_correct:
  assumes "memo_ok e"
  shows "nbytes e = length (utf8_encode (line e))
    \<and> same_entry (snd (line_nbytes e)) e
    \<and> memo_ok (snd (line_nbytes e))
    \<and> nbytes (snd (line_nbytes e)) = nbytes e"
  using assms by (simp add: nbytes_eq line_nbytes_keeps utf8_len_def)

end
