(* ===== verification/Labels.thy ===== *)
theory Labels
  imports Model
begin

section \<open>sinks/loki/labels.py and the grouping of sinks/loki/push.py\<close>

text \<open>
  The label allowlist guards, the rendering of a label set as a LogQL string, and the
  grouping of a batch into streams. Dictionaries are association lists; Python's sets of
  keys are the lists \<open>ALLOWED_LABELS\<close> and \<open>RESERVED_STATIC_LABELS\<close>.

  The main result is that rendering is injective on well-formed label sets whose keys are
  plain names: two entries share a rendered stream exactly when their labels are equal as
  mappings, whatever quotes, backslashes or newlines the values hold.
\<close>

definition ALLOWED_LABELS :: "string list" where
  "ALLOWED_LABELS =
     [''job'', ''service_name'', ''source'', ''event_type'', ''sf_org_id'', ''environment'', ''org'']"

definition RESERVED_STATIC_LABELS :: "string list" where
  "RESERVED_STATIC_LABELS = [''source'', ''event_type'']"

text \<open>\<^verbatim>\<open>LabelGuardError\<close> carries the sorted offending keys its message lists.\<close>

datatype label_error =
    Disallowed "string list"
  | Reserved "string list"

definition guard_labels :: "labelset \<Rightarrow> string list \<Rightarrow> label_error + unit" where
  "guard_labels ls allowed =
     (let bad = sort (filter (\<lambda>k. k \<notin> set allowed) (dict_keys ls))
      in if bad \<noteq> [] then Inl (Disallowed bad) else Inr ())"

definition guard_static_labels ::
  "labelset \<Rightarrow> string list \<Rightarrow> string list \<Rightarrow> label_error + unit" where
  "guard_static_labels ls allowed reserved =
     (case guard_labels ls allowed of
        Inl err \<Rightarrow> Inl err
      | Inr _ \<Rightarrow>
          (let bad = sort (filter (\<lambda>k. k \<in> set reserved) (dict_keys ls))
           in if bad \<noteq> [] then Inl (Reserved bad) else Inr ()))"

abbreviation backslash :: char where "backslash \<equiv> CHR 0x5C"
abbreviation dquote :: char where "dquote \<equiv> CHR 0x22"
abbreviation newline :: char where "newline \<equiv> CHR 0x0A"

definition escape_value :: "string \<Rightarrow> string" where
  "escape_value v =
     (let v1 = replace1 backslash [backslash, backslash] v;
          v2 = replace1 dquote [backslash, dquote] v1;
          v3 = replace1 newline [backslash, CHR ''n''] v2
      in v3)"

definition render_pair :: "string \<times> string \<Rightarrow> string" where
  "render_pair kv = fst kv @ [CHR ''='', dquote] @ escape_value (snd kv) @ [dquote]"

definition render_labels :: "labelset \<Rightarrow> string" where
  "render_labels ls =
     (if ls = [] then ''{}''
      else ''{'' @ join '','' (map render_pair (sort ls)) @ ''}'')"

text \<open>\<^verbatim>\<open>push.py\<close>: entries grouped by their sorted label items, groups in order of
  first appearance, entries of a group in batch order.\<close>

definition label_key :: "labelset \<Rightarrow> (string \<times> string) list" where
  "label_key ls = sort ls"

definition group_by_labels ::
  "batch \<Rightarrow> ((string \<times> string) list, log_entry list) dict" where
  "group_by_labels es =
     fold (\<lambda>e d. AList.update (label_key (labels e))
                   (get_default d (label_key (labels e)) [] @ [e]) d) es []"

subsection \<open>The guards\<close>

lemma sort_eq_Nil_iff [simp]: "sort xs = [] \<longleftrightarrow> xs = []"
  by (metis length_0_conv length_sort)

lemma guard_labels_ok:
  "guard_labels ls allowed = Inr () \<longleftrightarrow> fst ` set ls \<subseteq> set allowed"
  by (auto simp: guard_labels_def Let_def dict_keys_def filter_empty_conv)

lemma guard_static_labels_ok:
  "guard_static_labels ls allowed reserved = Inr () \<longleftrightarrow>
     fst ` set ls \<subseteq> set allowed \<and> fst ` set ls \<inter> set reserved = {}"
proof (cases "guard_labels ls allowed")
  case (Inl err)
  then have "\<not> fst ` set ls \<subseteq> set allowed" by (metis guard_labels_ok Inl_Inr_False)
  with Inl show ?thesis by (simp add: guard_static_labels_def)
next
  case (Inr u)
  then have "fst ` set ls \<subseteq> set allowed" by (cases u) (simp add: guard_labels_ok)
  with Inr show ?thesis
    by (auto simp: guard_static_labels_def Let_def dict_keys_def filter_empty_conv)
qed

subsection \<open>Escaping\<close>

text \<open>The three replacements in sequence act on each character independently, because each
  one only introduces characters the later ones leave alone.\<close>

definition esc_char :: "char \<Rightarrow> string" where
  "esc_char c =
     (if c = backslash then [backslash, backslash]
      else if c = dquote then [backslash, dquote]
      else if c = newline then [backslash, CHR ''n''] else [c])"

lemma escape_value_Nil [simp]: "escape_value [] = []"
  by (simp add: escape_value_def)

lemma escape_value_Cons [simp]: "escape_value (c # s) = esc_char c @ escape_value s"
  by (simp add: escape_value_def esc_char_def)

lemma escape_value_concat: "escape_value s = concat (map esc_char s)"
  by (induction s) simp_all

text \<open>A quoted value ends at its first unescaped quote, so what follows it is determined.\<close>

lemma escape_value_sep:
  "escape_value v @ dquote # r = escape_value v' @ dquote # r' \<Longrightarrow> v = v' \<and> r = r'"
proof (induction v arbitrary: v')
  case Nil
  then show ?case
    by (cases v') (auto simp: esc_char_def split: if_splits)
next
  case (Cons c v)
  show ?case
  proof (cases v')
    case Nil
    with Cons.prems show ?thesis by (auto simp: esc_char_def split: if_splits)
  next
    case (Cons c' w)
    with Cons.prems have "c = c'" and "escape_value v @ dquote # r = escape_value w @ dquote # r'"
      by (auto simp: esc_char_def split: if_splits)
    with Cons.IH Cons show ?thesis by blast
  qed
qed

lemma escape_value_inj: "escape_value v = escape_value w \<Longrightarrow> v = w"
  using escape_value_sep [of v "[]" w "[]"] by simp

lemma escape_value_no_newline: "newline \<notin> set (escape_value v)"
  by (induction v) (auto simp: esc_char_def)

subsection \<open>Rendering is injective\<close>

definition plain_keys :: "labelset \<Rightarrow> bool" where
  "plain_keys ls \<longleftrightarrow> (\<forall>k \<in> fst ` set ls. CHR ''='' \<notin> set k)"

text \<open>The separator \<open>=\<close> ends a key.\<close>

lemma key_sep:
  assumes "CHR ''='' \<notin> set k" "CHR ''='' \<notin> set k'" "k @ CHR ''='' # r = k' @ CHR ''='' # r'"
  shows "k = k' \<and> r = r'"
  using assms
proof (induction k arbitrary: k')
  case Nil
  then show ?case by (cases k') auto
next
  case (Cons c k)
  then show ?case by (cases k') auto
qed

lemma render_pair_sep:
  assumes "CHR ''='' \<notin> set (fst p)" "CHR ''='' \<notin> set (fst q)"
    and "render_pair p @ r = render_pair q @ r'"
  shows "p = q \<and> r = r'"
proof -
  have "fst p @ CHR ''='' # (dquote # escape_value (snd p) @ dquote # r)
      = fst q @ CHR ''='' # (dquote # escape_value (snd q) @ dquote # r')"
    using assms(3) by (simp add: render_pair_def)
  from key_sep [OF assms(1,2) this]
  have "fst p = fst q" and "escape_value (snd p) @ dquote # r = escape_value (snd q) @ dquote # r'"
    by auto
  then show ?thesis by (metis escape_value_sep prod_eqI)
qed

text \<open>What follows the first pair: the closing brace, or a comma and the next pair.\<close>

fun pairs_tail :: "(string \<times> string) list \<Rightarrow> string" where
  "pairs_tail [] = ''}''"
| "pairs_tail (p # ps) = '','' @ render_pair p @ pairs_tail ps"

lemma join_pairs_tail: "join '','' (map render_pair (p # ps)) @ ''}'' = render_pair p @ pairs_tail ps"
  by (induction ps arbitrary: p) auto

lemma pairs_tail_inj:
  "plain_keys ps \<Longrightarrow> plain_keys qs \<Longrightarrow> pairs_tail ps = pairs_tail qs \<Longrightarrow> ps = qs"
proof (induction ps arbitrary: qs)
  case Nil
  then show ?case by (cases qs) auto
next
  case (Cons p ps)
  then obtain q rs where qs: "qs = q # rs" by (cases qs) auto
  with Cons.prems have "render_pair p @ pairs_tail ps = render_pair q @ pairs_tail rs" by simp
  then have "p = q" "pairs_tail ps = pairs_tail rs"
    using render_pair_sep [of p q] Cons.prems(1,2) qs by (simp_all add: plain_keys_def)
  moreover have "plain_keys ps" "plain_keys rs"
    using Cons.prems(1,2) qs by (simp_all add: plain_keys_def)
  ultimately have "ps = rs" by (intro Cons.IH)
  with \<open>p = q\<close> show ?case by (simp add: qs)
qed

lemma render_sorted_inj:
  assumes "plain_keys ps" "plain_keys qs" "ps \<noteq> []" "qs \<noteq> []"
    and "join '','' (map render_pair ps) @ ''}'' = join '','' (map render_pair qs) @ ''}''"
  shows "ps = qs"
proof -
  obtain p ps' q qs' where s: "ps = p # ps'" "qs = q # qs'"
    using assms(3,4) by (meson list.exhaust)
  with assms(5) have "render_pair p @ pairs_tail ps' = render_pair q @ pairs_tail qs'"
    by (simp only: join_pairs_tail)
  then have "pairs_tail ps = pairs_tail qs" by (simp add: s)
  with assms(1,2) show ?thesis by (rule pairs_tail_inj)
qed

lemma plain_keys_sort [simp]: "plain_keys (sort ls) = plain_keys ls"
  by (simp add: plain_keys_def)

lemma render_pair_not_brace: "render_pair p @ r \<noteq> ''}''"
  by (simp add: render_pair_def Cons_eq_append_conv append_eq_Cons_conv)

lemma render_labels_nonempty_not_empty:
  "ls \<noteq> [] \<Longrightarrow> render_labels ls \<noteq> ''{}''"
proof -
  assume "ls \<noteq> []"
  then obtain p ps where "sort ls = p # ps" by (metis list.exhaust sort_eq_Nil_iff)
  then have "join '','' (map render_pair (sort ls)) @ ''}'' = render_pair p @ pairs_tail ps"
    by (simp only: join_pairs_tail)
  with \<open>ls \<noteq> []\<close> render_pair_not_brace [of p "pairs_tail ps"] show ?thesis
    by (simp add: render_labels_def)
qed

lemma render_labels_sort_iff:
  assumes "plain_keys a" "plain_keys b"
  shows "render_labels a = render_labels b \<longleftrightarrow> sort a = sort b"
proof (cases "a = [] \<or> b = []")
  case True
  then show ?thesis
    by (metis render_labels_def render_labels_nonempty_not_empty sort_eq_Nil_iff)
next
  case False
  then show ?thesis
    using render_sorted_inj [of "sort a" "sort b"] assms by (auto simp: render_labels_def)
qed

text \<open>
  Stream identity: for label sets without repeated keys whose keys hold no equals sign
  (every allowed key is such), the rendered Loki label strings are equal exactly when the
  label sets are equal as mappings. No choice of label values, with quotes, backslashes or
  newlines in them, can make two different streams collide, and key order never splits one.
\<close>

theorem render_labels_injective:
  assumes "wf_dict a" "wf_dict b" "plain_keys a" "plain_keys b"
  shows "render_labels a = render_labels b \<longleftrightarrow> map_of a = map_of b"
  using assms by (simp add: render_labels_sort_iff sort_items_eq_iff)

theorem render_labels_injective_witness:
  "render_labels [(''source'', ''x''), (''job'', [dquote, CHR '','', dquote])]
     = render_labels [(''job'', [dquote, CHR '','', dquote]), (''source'', ''x'')]"
proof -
  have "map_of [(''source'', ''x''), (''job'', [dquote, CHR '','', dquote])]
      = map_of [(''job'', [dquote, CHR '','', dquote]), (''source'', ''x'')]"
    by (rule ext) simp
  then show ?thesis
    using render_labels_injective [of "[(''source'', ''x''), (''job'', [dquote, CHR '','', dquote])]"
        "[(''job'', [dquote, CHR '','', dquote]), (''source'', ''x'')]"]
    by (simp add: wf_dict_def plain_keys_def)
qed

lemma allowed_plain:
  assumes "guard_labels ls ALLOWED_LABELS = Inr ()"
  shows "plain_keys ls"
proof -
  have "\<forall>k \<in> set ALLOWED_LABELS. CHR ''='' \<notin> set k" by (simp add: ALLOWED_LABELS_def)
  with assms show ?thesis by (auto simp: plain_keys_def guard_labels_ok)
qed

subsection \<open>Grouping a batch into streams\<close>

definition add_to_group ::
  "log_entry \<Rightarrow> ((string \<times> string) list, log_entry list) dict
     \<Rightarrow> ((string \<times> string) list, log_entry list) dict" where
  "add_to_group e d =
     AList.update (label_key (labels e)) (get_default d (label_key (labels e)) [] @ [e]) d"

lemma group_by_labels_fold: "group_by_labels es = fold add_to_group es []"
  by (simp add: group_by_labels_def add_to_group_def [abs_def])

lemma map_of_fold_group:
  "get_default (fold add_to_group es d) k [] =
     get_default d k [] @ filter (\<lambda>e. label_key (labels e) = k) es"
  by (induction es arbitrary: d) (auto simp: add_to_group_def get_default_def)

lemma wf_fold_group: "wf_dict d \<Longrightarrow> wf_dict (fold add_to_group es d)"
  by (induction es arbitrary: d) (simp_all add: add_to_group_def)

lemma keys_fold_group:
  "fst ` set (fold add_to_group es d) = fst ` set d \<union> (\<lambda>e. label_key (labels e)) ` set es"
  by (induction es arbitrary: d) (auto simp: add_to_group_def set_keys_update)

lemma map_of_group_by_labels:
  "map_of (group_by_labels es) k =
     (if k \<in> (\<lambda>e. label_key (labels e)) ` set es
      then Some (filter (\<lambda>e. label_key (labels e) = k) es) else None)"
proof -
  have keys: "fst ` set (group_by_labels es) = (\<lambda>e. label_key (labels e)) ` set es"
    by (simp add: group_by_labels_fold keys_fold_group)
  have g: "get_default (group_by_labels es) k [] = filter (\<lambda>e. label_key (labels e) = k) es"
    by (simp add: group_by_labels_fold map_of_fold_group) (simp add: get_default_def)
  show ?thesis
  proof (cases "map_of (group_by_labels es) k")
    case None
    then show ?thesis by (simp add: map_of_eq_None_iff keys)
  next
    case (Some v)
    then have "k \<in> fst ` set (group_by_labels es)" by (metis map_of_eq_None_iff option.distinct(1))
    with Some g show ?thesis by (simp add: keys get_default_def)
  qed
qed

text \<open>
  Grouping loses and invents nothing: each stream of an encoded push holds exactly the
  batch's entries with that stream's labels, in batch order; every entry's stream is present
  and no stream appears twice.
\<close>

theorem group_by_labels_partition:
  "wf_dict (group_by_labels es)
   \<and> map_of (group_by_labels es) k =
       (if k \<in> (\<lambda>e. label_key (labels e)) ` set es
        then Some (filter (\<lambda>e. label_key (labels e) = k) es) else None)"
  by (simp add: map_of_group_by_labels) (simp add: group_by_labels_fold wf_fold_group)

text \<open>
  The startup guard accepts a static label set exactly when every key is in the allowlist
  and none is a per-entry identity key; in particular an accepted set can neither add an
  unknown stream label nor override \<^verbatim>\<open>source\<close> or \<^verbatim>\<open>event_type\<close>.
\<close>

theorem guard_static_labels_exact:
  "guard_static_labels ls ALLOWED_LABELS RESERVED_STATIC_LABELS = Inr () \<longleftrightarrow>
     fst ` set ls \<subseteq> {''job'', ''service_name'', ''sf_org_id'', ''environment'', ''org''}"
proof -
  have "set ALLOWED_LABELS - set RESERVED_STATIC_LABELS
      = {''job'', ''service_name'', ''sf_org_id'', ''environment'', ''org''}"
    by (auto simp: ALLOWED_LABELS_def RESERVED_STATIC_LABELS_def)
  moreover have "A \<subseteq> B \<and> A \<inter> C = {} \<longleftrightarrow> A \<subseteq> B - C" for A B C :: "string set"
    by blast
  ultimately show ?thesis by (simp add: guard_static_labels_ok)
qed

end
