(* ===== verification/PyInt.thy ===== *)
theory PyInt
  imports Prelude
begin

section \<open>Integers as text\<close>

text \<open>
  \<^verbatim>\<open>str(i)\<close> and \<^verbatim>\<open>int(s)\<close>. The state document and both leases keep their epoch
  as decimal text, so the fencing argument needs that the text read back is the number written
  (\<open>py_int_show_int\<close>). \<open>int(s)\<close> accepts surrounding white space, one sign and single
  underscores between digits, and raises \<^verbatim>\<open>ValueError\<close> (here \<open>None\<close>) otherwise.
\<close>

definition show_int :: "int \<Rightarrow> string" where
  "show_int i = (if i < 0 then ''-'' @ show_nat (nat (- i)) else show_nat (nat i))"

fun digit_groups :: "string \<Rightarrow> bool" where
  "digit_groups [] \<longleftrightarrow> False"
| "digit_groups [c] \<longleftrightarrow> is_digit c"
| "digit_groups (c # d # s) \<longleftrightarrow>
     is_digit c \<and> (if d = CHR ''_'' then digit_groups s else digit_groups (d # s))"

definition py_int :: "string \<Rightarrow> int option" where
  "py_int s =
     (let t = strip s;
          (sgn, ds) = (case t of
             [] \<Rightarrow> (1, t)
           | c # r \<Rightarrow> if c = CHR ''-'' then (- 1, r) else if c = CHR ''+'' then (1, r) else (1, t))
      in if digit_groups ds then Some (sgn * int (nat_of_digits (filter is_digit ds))) else None)"

lemma of_char_digit: "d < 10 \<Longrightarrow> of_char (char_of (48 + d)) = 48 + d"
  for d :: nat
  by simp

lemma is_digit_char_of: "d < 10 \<Longrightarrow> is_digit (char_of (48 + d))"
  for d :: nat
  by (simp add: is_digit_def less_eq_char_def)

lemma digit_val_char_of: "d < 10 \<Longrightarrow> digit_val (char_of (48 + d)) = d"
  for d :: nat
  by (simp add: digit_val_def)

lemma show_nat_digits: "list_all is_digit (show_nat n)"
proof (induction n rule: show_nat.induct)
  case (1 n)
  then show ?case
    by (subst show_nat.simps) (auto simp: is_digit_char_of)
qed

lemma show_nat_nonempty [simp]: "show_nat n \<noteq> []"
  by (subst show_nat.simps) simp

lemma nat_of_digits_snoc: "nat_of_digits (s @ [c]) = 10 * nat_of_digits s + digit_val c"
  by (simp add: nat_of_digits_def)

lemma nat_of_show_nat [simp]: "nat_of_digits (show_nat n) = n"
proof (induction n rule: show_nat.induct)
  case (1 n)
  show ?case
  proof (cases "n < 10")
    case True
    then show ?thesis
      by (subst show_nat.simps) (simp add: nat_of_digits_def digit_val_char_of)
  next
    case False
    then have "nat_of_digits (show_nat (n div 10)) = n div 10" by (rule 1)
    with False show ?thesis
      by (subst show_nat.simps) (simp add: nat_of_digits_snoc digit_val_char_of)
  qed
qed

lemma show_nat_inj [simp]: "show_nat m = show_nat n \<longleftrightarrow> m = n"
  by (metis nat_of_show_nat)

lemma digit_not_special:
  "is_digit c \<Longrightarrow> \<not> is_space c \<and> c \<noteq> CHR ''_'' \<and> c \<noteq> CHR ''-'' \<and> c \<noteq> CHR ''+''"
  by (auto simp: is_digit_def is_space_def less_eq_char_def)

lemma digits_no_space: "list_all is_digit s \<Longrightarrow> c \<in> set s \<Longrightarrow> \<not> is_space c"
  using digit_not_special by (metis list_all_iff)

lemma digit_groups_digits: "list_all is_digit s \<Longrightarrow> digit_groups s \<longleftrightarrow> s \<noteq> []"
  by (induction s rule: digit_groups.induct) (auto dest: digit_not_special)

lemma strip_id:
  assumes "s \<noteq> []" "\<not> is_space (hd s)" "\<not> is_space (last s)"
  shows "strip s = s"
proof -
  have "dropWhile is_space s = s" using assms by (cases s) auto
  moreover have "dropWhile is_space (rev s) = rev s"
    using assms by (cases s rule: rev_cases) auto
  ultimately show ?thesis by (simp add: strip_def)
qed

lemma strip_digits: "list_all is_digit s \<Longrightarrow> s \<noteq> [] \<Longrightarrow> strip s = s"
  by (rule strip_id) (metis digits_no_space hd_in_set last_in_set)+

lemma py_int_digits:
  assumes "list_all is_digit s" "s \<noteq> []"
  shows "py_int s = Some (int (nat_of_digits s))"
proof -
  obtain c r where s: "s = c # r" using assms(2) by (cases s) auto
  with assms(1) have "c \<noteq> CHR ''-''" "c \<noteq> CHR ''+''" by (auto dest: digit_not_special)
  moreover have "filter is_digit s = s" using assms(1) by (simp add: list_all_iff)
  ultimately show ?thesis
    using assms by (simp add: py_int_def strip_digits digit_groups_digits s Let_def)
qed

lemma strip_minus_digits:
  assumes "list_all is_digit s" "s \<noteq> []"
  shows "strip (CHR ''-'' # s) = CHR ''-'' # s"
proof (rule strip_id)
  show "\<not> is_space (hd (CHR ''-'' # s))" by (simp add: is_space_def)
  show "\<not> is_space (last (CHR ''-'' # s))"
    using assms digits_no_space [of s "last s"] by simp
qed simp

lemma py_int_show_int [simp]: "py_int (show_int i) = Some i"
proof (cases "i < 0")
  case True
  let ?s = "show_nat (nat (- i))"
  have "filter is_digit ?s = ?s" using show_nat_digits [of "nat (- i)"] by (simp add: list_all_iff)
  with True show ?thesis
    by (simp add: py_int_def show_int_def strip_minus_digits show_nat_digits digit_groups_digits)
next
  case False
  then show ?thesis by (simp add: show_int_def py_int_digits show_nat_digits)
qed

lemma show_int_inj [simp]: "show_int i = show_int j \<longleftrightarrow> i = j"
  by (metis option.inject py_int_show_int)

end
