(* ===== verification/Shaping.thy ===== *)
theory Shaping
  imports Model PyInt
begin

section \<open>shaping.py: the event-shaping helpers every source uses\<close>

text \<open>
  \<^verbatim>\<open>src/sf2loki/shaping.py\<close>. A decoded payload is a dictionary of Python values
  (\<open>pyval\<close>); a float or a nested object carries the text \<^verbatim>\<open>str()\<close> gives it, which
  the code only ever compares or copies. SHA-256, \<^verbatim>\<open>json.dumps\<close> and the two
  \<^verbatim>\<open>datetime\<close> parsers are parameters: every theorem holds for whatever they return.

  Results: truncation never exceeds the byte cap, never splits a character and is idempotent;
  sampling is monotone in the rate; the severity depends on the nine listed fields only; a
  fallback timestamp always lies inside Loki's out-of-order window.
\<close>

datatype pyval =
    VNone
  | VBool bool
  | VInt int
  | VFloat rat string
  | VStr string
  | VObj string

type_synonym payload = "(string, pyval) dict"

fun py_str :: "pyval \<Rightarrow> string" where
  "py_str VNone = ''None''"
| "py_str (VBool b) = (if b then ''True'' else ''False'')"
| "py_str (VInt i) = show_int i"
| "py_str (VFloat r s) = s"
| "py_str (VStr s) = s"
| "py_str (VObj s) = s"

text \<open>\<^verbatim>\<open>payload.get(k)\<close>: absent keys and explicit nulls read alike.\<close>

definition pget :: "payload \<Rightarrow> string \<Rightarrow> pyval option" where
  "pget p k = (case map_of p k of None \<Rightarrow> None | Some VNone \<Rightarrow> None | Some v \<Rightarrow> Some v)"

text \<open>The truth of a value, and \<^verbatim>\<open>str(x or "")\<close>.\<close>

fun truthy :: "pyval \<Rightarrow> bool" where
  "truthy VNone = False"
| "truthy (VBool b) = b"
| "truthy (VInt i) = (i \<noteq> 0)"
| "truthy (VFloat r s) = (r \<noteq> 0)"
| "truthy (VStr s) = (s \<noteq> [])"
| "truthy (VObj s) = (s \<noteq> ''{}'' \<and> s \<noteq> ''[]'')"

definition or_empty :: "pyval option \<Rightarrow> string" where
  "or_empty v = (case v of None \<Rightarrow> [] | Some u \<Rightarrow> if truthy u then py_str u else [])"

subsection \<open>Sampling\<close>

definition SAMPLE_BUCKETS :: nat where
  "SAMPLE_BUCKETS = 10000"

definition from_bytes_big :: "nat list \<Rightarrow> nat" where
  "from_bytes_big bs = foldl (\<lambda>n b. 256 * n + b) 0 bs"

definition should_keep :: "(string \<Rightarrow> nat list) \<Rightarrow> string \<Rightarrow> rat \<Rightarrow> bool" where
  "should_keep sha256 row_key rate =
     (if rate \<ge> 1 then True
      else (let bucket = from_bytes_big (take 8 (sha256 row_key)) mod SAMPLE_BUCKETS
            in of_nat bucket < rate * of_nat SAMPLE_BUCKETS))"

subsection \<open>Severity\<close>

definition SUCCESS_TOKENS :: "string list" where
  "SUCCESS_TOKENS =
     [''s'', ''success'', ''successful'', ''ok'', ''complete'', ''completed'', ''true'']"

definition ABSENT_TOKENS :: "string list" where
  "ABSENT_TOKENS = ['''', ''0'', ''none'', ''null'', ''na'', ''n/a'']"

datatype level = Error | Warn | Info

fun level_text :: "level \<Rightarrow> string" where
  "level_text Error = ''error''"
| "level_text Warn = ''warn''"
| "level_text Info = ''info''"

definition present :: "payload \<Rightarrow> string \<Rightarrow> string option" where
  "present p k =
     (case pget p k of
        None \<Rightarrow> None
      | Some v \<Rightarrow> (let t = strip (py_str v) in
                   if lower t \<notin> set ABSENT_TOKENS then Some t else None))"

definition http_level :: "string \<Rightarrow> level option" where
  "http_level t =
     (if \<not> isdigit t then None
      else (let code = nat_of_digits t in
            if code \<ge> 500 then Some Error
            else if code \<ge> 400 then Some Warn
            else if 100 \<le> code \<and> code < 400 then Some Info
            else None))"

definition success_level :: "string \<Rightarrow> level" where
  "success_level t = (if lower t \<in> set SUCCESS_TOKENS then Info else Warn)"

definition derive_level :: "payload \<Rightarrow> level" where
  "derive_level p =
     (if list_ex (\<lambda>k. present p k \<noteq> None)
           [''EXCEPTION_MESSAGE'', ''EXCEPTION_TYPE'', ''ERROR_MESSAGE'', ''ERROR_CODE'']
      then Error
      else case Option.bind (present p ''STATUS_CODE'') http_level of
        Some l \<Rightarrow> l
      | None \<Rightarrow>
          (case present p ''REQUEST_STATUS'' of
             Some t \<Rightarrow> success_level t
           | None \<Rightarrow>
               (case present p ''LOGIN_STATUS'' of
                  Some t \<Rightarrow> (if upper t = ''LOGIN_NO_ERROR'' then Info else Warn)
                | None \<Rightarrow>
                    (case first_some (present p) [''OPERATION_STATUS'', ''Status''] of
                       Some t \<Rightarrow> success_level t
                     | None \<Rightarrow> Info))))"

subsection \<open>Field routing\<close>

definition promote_labels :: "payload \<Rightarrow> string list \<Rightarrow> labelset" where
  "promote_labels p label_fields =
     fold (\<lambda>k d. case pget p k of None \<Rightarrow> d | Some v \<Rightarrow> AList.update k (py_str v) d)
       label_fields []"

definition route_fields :: "(payload \<Rightarrow> ustring) \<Rightarrow> payload \<Rightarrow> string list \<Rightarrow> ustring \<times> labelset" where
  "route_fields dumps p sm_fields =
     (let sm = fold (\<lambda>k d. case pget p k of None \<Rightarrow> d | Some v \<Rightarrow> AList.update k (py_str v) d)
                 sm_fields [];
          sm' = AList.update ''level'' (level_text (derive_level p)) sm
      in (dumps p, sm'))"

subsection \<open>The line cap\<close>

text \<open>The marker starts with the one-character ellipsis U+2026, three bytes in UTF-8.\<close>

definition truncation_marker :: "nat \<Rightarrow> ustring" where
  "truncation_marker orig =
     0x2026 # ascii (''[truncated, original '' @ show_nat orig @ '' bytes]'')"

definition cap_line :: "ustring \<Rightarrow> int \<Rightarrow> ustring \<times> bool" where
  "cap_line l max_bytes =
     (if max_bytes \<le> 0 then (l, False)
      else
        (let encoded = utf8_encode l in
         if int (length encoded) \<le> max_bytes then (l, False)
         else
           (let marker = truncation_marker (length encoded);
                marker_bytes = length (utf8_encode marker);
                budget = max_bytes - int marker_bytes
            in if budget \<le> 0
               then (utf8_decode_ignore (take (nat max_bytes) encoded), True)
               else (utf8_decode_ignore (take (nat budget) encoded) @ marker, True))))"

subsection \<open>Timestamps\<close>

definition hour :: int where "hour = 3600 * 1000000"
definition MAX_FALLBACK_AGE :: int where "MAX_FALLBACK_AGE = hour"
definition FALLBACK_CLAMP_MARGIN :: int where "FALLBACK_CLAMP_MARGIN = 5 * 60 * 1000000"

text \<open>
  The parsers return the instant and whether it carries an offset; a naive result is read as
  UTC, which leaves the instant alone. Epoch milliseconds are rounded to the microsecond.
\<close>

type_synonym dt_parser = "string \<Rightarrow> datetime option"

text \<open>\<^verbatim>\<open>to_soql_datetime_literal\<close> of \<^verbatim>\<open>salesforce/soql_client.py\<close>: \<open>fmt\<close> prints an instant in UTC;
  what lies below the millisecond is cut.\<close>

definition to_soql_datetime_literal :: "dt_parser \<Rightarrow> (datetime \<Rightarrow> string) \<Rightarrow> string \<Rightarrow> string" where
  "to_soql_datetime_literal fromiso fmt s =
     (case fromiso (replace1 (CHR ''Z'') ''+00:00'' s) of
        None \<Rightarrow> s
      | Some t \<Rightarrow> fmt (t - t mod 1000))"

definition parse_ts_value :: "dt_parser \<Rightarrow> dt_parser \<Rightarrow> pyval \<Rightarrow> datetime option" where
  "parse_ts_value fromiso strp v =
     (case v of
        VInt i \<Rightarrow> Some (i * 1000)
      | VBool b \<Rightarrow> Some (if b then 1000 else 0)
      | VFloat r _ \<Rightarrow> Some (round (r * 1000))
      | _ \<Rightarrow>
          (case fromiso (replace1 (CHR ''Z'') ''+00:00'' (py_str v)) of
             Some dt \<Rightarrow> Some dt
           | None \<Rightarrow> strp (py_str v)))"

definition extract_timestamp_checked ::
  "dt_parser \<Rightarrow> dt_parser \<Rightarrow> datetime \<Rightarrow> payload \<Rightarrow> string list \<Rightarrow> datetime option
     \<Rightarrow> datetime \<times> bool" where
  "extract_timestamp_checked fromiso strp now p field_names fallback =
     (case first_some (\<lambda>f. Option.bind (pget p f) (parse_ts_value fromiso strp)) field_names of
        Some dt \<Rightarrow> (dt, False)
      | None \<Rightarrow>
          (case fallback of
             None \<Rightarrow> (now, True)
           | Some fb \<Rightarrow>
               if now - fb > MAX_FALLBACK_AGE then (now - FALLBACK_CLAMP_MARGIN, True)
               else (fb, True)))"

definition extract_timestamp ::
  "dt_parser \<Rightarrow> dt_parser \<Rightarrow> datetime \<Rightarrow> payload \<Rightarrow> string list \<Rightarrow> datetime option
     \<Rightarrow> datetime" where
  "extract_timestamp fromiso strp now p field_names fallback =
     fst (extract_timestamp_checked fromiso strp now p field_names fallback)"

subsection \<open>The line cap: bound, boundary, idempotence\<close>

lemma wf_marker [simp]: "wf_ustring (truncation_marker n)"
  by (simp add: truncation_marker_def valid_cp_def)

lemma cap_line_fits: "0 < m \<Longrightarrow> int (utf8_len l) \<le> m \<Longrightarrow> cap_line l m = (l, False)"
  by (simp add: cap_line_def utf8_len_def)

lemma cap_line_disabled: "m \<le> 0 \<Longrightarrow> cap_line l m = (l, False)"
  by (simp add: cap_line_def)

lemma cap_line_cut:
  assumes "0 < m" "m < int (utf8_len l)" "wf_ustring l"
  shows "cap_line l m =
    (let mk = truncation_marker (utf8_len l) in
     if m \<le> int (utf8_len mk) then (fit (nat m) l, True)
     else (fit (nat (m - int (utf8_len mk))) l @ mk, True))"
  using assms by (simp add: cap_line_def Let_def decode_truncated utf8_len_def [symmetric])

lemma cap_line_len: "0 < m \<Longrightarrow> wf_ustring l \<Longrightarrow> int (utf8_len (fst (cap_line l m))) \<le> m"
proof (cases "int (utf8_len l) \<le> m")
  case True
  then show ?thesis if "0 < m" using that by (simp add: cap_line_fits)
next
  case False
  assume "0 < m" "wf_ustring l"
  have "utf8_len (fit (nat k) l) \<le> nat k" for k by (rule fit_len)
  with False \<open>0 < m\<close> \<open>wf_ustring l\<close> show ?thesis
    by (auto simp: cap_line_cut Let_def) (smt (verit) fit_len int_nat_eq of_nat_mono)+
qed

lemma cap_line_wf: "wf_ustring l \<Longrightarrow> wf_ustring (fst (cap_line l m))"
proof -
  assume wf: "wf_ustring l"
  have "wf_ustring (fit k l)" for k
    using wf fit_prefix [of k l] by (metis list_all_append prefixE)
  then show ?thesis
    using wf by (cases "0 < m"; cases "m < int (utf8_len l)")
      (auto simp: cap_line_cut Let_def cap_line_fits cap_line_disabled)
qed

lemma cap_line_truncated:
  "0 < m \<Longrightarrow> wf_ustring l \<Longrightarrow> snd (cap_line l m) \<longleftrightarrow> m < int (utf8_len l)"
  by (cases "m < int (utf8_len l)") (auto simp: cap_line_cut Let_def cap_line_fits)

text \<open>The shape of a cut line: the longest prefix that fits, then the marker or nothing.\<close>

lemma cap_line_shape:
  assumes "0 < m" "wf_ustring l" "m < int (utf8_len l)"
  shows "\<exists>head tail. fst (cap_line l m) = head @ tail \<and> prefix head l
    \<and> tail \<in> {[], truncation_marker (utf8_len l)}
    \<and> (\<forall>p. prefix p l \<and> int (utf8_len p) + int (utf8_len tail) \<le> m \<longrightarrow> prefix p head)"
proof -
  let ?mk = "truncation_marker (utf8_len l)"
  define tail where "tail = (if m \<le> int (utf8_len ?mk) then [] else ?mk)"
  define k where "k = nat (m - int (utf8_len tail))"
  have "fst (cap_line l m) = fit k l @ tail"
    using assms by (auto simp: cap_line_cut Let_def k_def tail_def)
  moreover have "prefix p (fit k l)"
    if "prefix p l" "int (utf8_len p) + int (utf8_len tail) \<le> m" for p
    using that by (intro fit_longest) (auto simp: k_def)
  ultimately show ?thesis
    using fit_prefix [of k l]
    by (intro exI [of _ "fit k l"] exI [of _ tail]) (auto simp: tail_def)
qed

text \<open>
  C40. The line cap: for a positive cap the result never exceeds it in UTF-8 bytes; the line is
  cut exactly when it was too long and otherwise returned as it is; a cut line is the longest
  prefix of whole characters that fits in front of the marker (or in the cap when the marker
  does not fit); and capping again changes nothing and reports no truncation.
\<close>

theorem cap_line_correct:
  assumes "0 < m" and "wf_ustring l"
  shows "int (utf8_len (fst (cap_line l m))) \<le> m
    \<and> snd (cap_line l m) = (m < int (utf8_len l))
    \<and> (if m < int (utf8_len l)
       then \<exists>head tail. fst (cap_line l m) = head @ tail \<and> prefix head l
              \<and> tail \<in> {[], truncation_marker (utf8_len l)}
              \<and> (\<forall>p. prefix p l \<and> int (utf8_len p) + int (utf8_len tail) \<le> m \<longrightarrow> prefix p head)
       else fst (cap_line l m) = l)
    \<and> cap_line (fst (cap_line l m)) m = (fst (cap_line l m), False)"
proof -
  note len = cap_line_len [OF assms]
  have "cap_line (fst (cap_line l m)) m = (fst (cap_line l m), False)"
    using assms(1) len by (rule cap_line_fits)
  moreover have "\<not> m < int (utf8_len l) \<Longrightarrow> fst (cap_line l m) = l"
    using assms by (simp add: cap_line_fits)
  ultimately show ?thesis
    using len cap_line_truncated [OF assms] cap_line_shape [OF assms] by auto
qed

theorem cap_line_correct_witness:
  "int (utf8_len (fst (cap_line [0x20AC, 0x20AC, 97] 4))) \<le> 4
   \<and> fst (cap_line [0x20AC, 0x20AC, 97] 4) = [0x20AC]"
proof -
  have "fst (cap_line [0x20AC, 0x20AC, 97] 4) = [0x20AC]"
    by (simp add: cap_line_cut Let_def valid_cp_def encode_cp_def truncation_marker_def ascii_def)
  then show ?thesis
    using cap_line_correct [of 4 "[0x20AC, 0x20AC, 97]"] by (simp add: valid_cp_def)
qed

subsection \<open>Sampling\<close>

text \<open>
  Sampling is deterministic and monotone: a row kept at one rate is kept at every higher
  rate, a rate of one or more keeps every row and a rate of zero or less keeps none, whatever
  the hash function.
\<close>

theorem should_keep_monotone:
  "(r \<le> r' \<longrightarrow> should_keep sha256 key r \<longrightarrow> should_keep sha256 key r')
   \<and> (1 \<le> r \<longrightarrow> should_keep sha256 key r)
   \<and> (r \<le> 0 \<longrightarrow> \<not> should_keep sha256 key r)"
proof -
  have "x * of_nat SAMPLE_BUCKETS \<le> y * of_nat SAMPLE_BUCKETS" if "x \<le> y" for x y :: rat
    using that by (simp add: SAMPLE_BUCKETS_def)
  moreover have "\<not> of_nat n < r * of_nat SAMPLE_BUCKETS" if "r \<le> 0" for n :: nat
    using that mult_nonpos_nonneg [of r "of_nat SAMPLE_BUCKETS"]
    by (smt (verit) of_nat_0_le_iff not_less order_trans)
  ultimately show ?thesis
    by (auto simp: should_keep_def Let_def) (meson order_less_le_trans)
qed

theorem should_keep_monotone_witness:
  "should_keep (\<lambda>_. [0, 0, 0, 0, 0, 0, 0, 9]) ''row'' (1 / 2)"
proof -
  have "should_keep (\<lambda>_. [0, 0, 0, 0, 0, 0, 0, 9]) ''row'' (1 / 100)"
    by (simp add: should_keep_def from_bytes_big_def SAMPLE_BUCKETS_def)
  then show ?thesis
    using should_keep_monotone [of "1 / 100" "1 / 2" "\<lambda>_. [0, 0, 0, 0, 0, 0, 0, 9]" "''row''"]
    by simp
qed

subsection \<open>Severity\<close>

definition LEVEL_FIELDS :: "string list" where
  "LEVEL_FIELDS =
     [''EXCEPTION_MESSAGE'', ''EXCEPTION_TYPE'', ''ERROR_MESSAGE'', ''ERROR_CODE'', ''STATUS_CODE'',
      ''REQUEST_STATUS'', ''LOGIN_STATUS'', ''OPERATION_STATUS'', ''Status'']"

lemma present_cong: "pget p k = pget q k \<Longrightarrow> present p k = present q k"
  by (simp add: present_def)

text \<open>
  Severity looks at nothing but its allowlist: payloads that agree on the nine status
  fields get the same level, whatever look-alike columns they carry, and a meaningfully
  present exception or error field makes the level error whatever the others say.
\<close>

theorem derive_level_allowlist:
  assumes "\<forall>k \<in> set LEVEL_FIELDS. pget p k = pget q k"
  shows "derive_level p = derive_level q
    \<and> (list_ex (\<lambda>k. present p k \<noteq> None) (take 4 LEVEL_FIELDS) \<longrightarrow> derive_level p = Error)"
proof -
  have "\<forall>k \<in> set LEVEL_FIELDS. present p k = present q k"
    using assms present_cong by blast
  then show ?thesis by (simp add: derive_level_def LEVEL_FIELDS_def split: option.split)
qed

theorem derive_level_allowlist_witness:
  "derive_level [(''SESSION_LEVEL'', VStr ''HIGH'')] = derive_level []"
  using derive_level_allowlist [of "[(''SESSION_LEVEL'', VStr ''HIGH'')]" "[]"]
  by (simp add: LEVEL_FIELDS_def pget_def)

text \<open>The level is a recognised one, and an HTTP status of any length maps by its number.\<close>

lemma http_level_four_digits: "http_level ''1234'' = Some Error"
  by code_simp

subsection \<open>Field routing\<close>

lemma fold_promote:
  "map_of (fold (\<lambda>k d. case pget p k of None \<Rightarrow> d | Some v \<Rightarrow> AList.update k (py_str v) d) ks d) k =
     (if k \<in> set ks \<and> pget p k \<noteq> None then map_option py_str (pget p k) else map_of d k)"
  by (induction ks arbitrary: d) (auto split: option.splits)

lemma wf_fold_promote:
  "wf_dict d \<Longrightarrow>
   wf_dict (fold (\<lambda>k d. case pget p k of None \<Rightarrow> d | Some v \<Rightarrow> AList.update k (py_str v) d) ks d)"
  by (induction ks arbitrary: d) (auto split: option.splits)

text \<open>
  Structured metadata: besides \<^verbatim>\<open>level\<close>, which is always present and always the
  derived severity even when a promoted field has that name, the metadata of a routed event
  holds exactly the requested fields that are present and non-null, stringified.
\<close>

theorem route_fields_metadata:
  "wf_dict (snd (route_fields dumps p sm_fields))
   \<and> fst (route_fields dumps p sm_fields) = dumps p
   \<and> map_of (snd (route_fields dumps p sm_fields)) k =
       (if k = ''level'' then Some (level_text (derive_level p))
        else if k \<in> set sm_fields then map_option py_str (pget p k) else None)"
  by (auto simp: route_fields_def Let_def fold_promote wf_fold_promote)

subsection \<open>Timestamps\<close>

text \<open>
  Fallback timestamps stay acceptable to Loki: when no field parses, the timestamp used is
  at most one hour old; a supplied fallback that recent is used unchanged, so a replayed row
  keeps its timestamp; and a parseable field always wins over any fallback.
\<close>

theorem extract_timestamp_window:
  assumes "extract_timestamp_checked fromiso strp now p fs fallback = (ts, used)"
  shows "(used \<longleftrightarrow> (\<forall>f \<in> set fs. Option.bind (pget p f) (parse_ts_value fromiso strp) = None))
    \<and> (used \<longrightarrow> now - ts \<le> hour)
    \<and> (\<forall>fb. used \<and> fallback = Some fb \<and> now - fb \<le> hour \<longrightarrow> ts = fb)"
proof -
  let ?parse = "\<lambda>f. Option.bind (pget p f) (parse_ts_value fromiso strp)"
  have "used \<longleftrightarrow> first_some ?parse fs = None"
    using assms
    by (cases "first_some ?parse fs")
      (auto simp del: first_some_None simp: extract_timestamp_checked_def split: option.splits if_splits)
  moreover have "now - ts \<le> hour" if "first_some ?parse fs = None"
    using assms that
    by (auto simp: extract_timestamp_checked_def MAX_FALLBACK_AGE_def FALLBACK_CLAMP_MARGIN_def
        hour_def split: option.splits if_splits)
  moreover have "ts = fb"
    if "first_some ?parse fs = None" "fallback = Some fb" "now - fb \<le> hour" for fb
    using assms that
    by (auto simp: extract_timestamp_checked_def MAX_FALLBACK_AGE_def split: if_splits)
  ultimately show ?thesis by auto
qed

theorem extract_timestamp_window_witness:
  "extract_timestamp_checked (\<lambda>_. None) (\<lambda>_. None) 4000000000 [] [''EventDate''] (Some 3000000000)
     = (3000000000, True) \<and> (4000000000::int) - 3000000000 \<le> hour"
  using extract_timestamp_window [of "\<lambda>_. None" "\<lambda>_. None" 4000000000 "[]" "[''EventDate'']"
      "Some 3000000000" 3000000000 True]
  by (simp add: extract_timestamp_checked_def pget_def MAX_FALLBACK_AGE_def hour_def)

end
