(* ===== verification/Retry.thy ===== *)
theory Retry
  imports Prelude
begin

section \<open>The retry engine the code configures\<close>

text \<open>
  The sink and both object stores wrap their requests in \<^verbatim>\<open>tenacity.AsyncRetrying\<close>,
  which is not part of the repository. An attempt is a state transformer that returns a value
  or raises; \<open>run_attempts n retryable\<close> is what the library documents for
  \<^verbatim>\<open>stop_after_attempt(n)\<close> with a retry predicate: run the attempt, stop at the first
  value or the first exception that is not retryable, give up with the last exception after
  \<open>n\<close> attempts. The components take the engine as a parameter, and the theorems that need
  it assume that it behaves like this function.
\<close>

type_synonym ('s, 'e, 'a) attempt_fn = "'s \<Rightarrow> ('e + 'a) \<times> 's"

fun run_attempts :: "nat \<Rightarrow> ('e \<Rightarrow> bool) \<Rightarrow> ('s, 'e, 'a) attempt_fn \<Rightarrow> ('s, 'e, 'a) attempt_fn" where
  "run_attempts 0 retryable att s = att s"
| "run_attempts (Suc n) retryable att s =
     (case att s of
        (Inr v, s') \<Rightarrow> (Inr v, s')
      | (Inl err, s') \<Rightarrow>
          if retryable err \<and> n \<noteq> 0 then run_attempts n retryable att s' else (Inl err, s'))"

abbreviation after :: "('s, 'e, 'a) attempt_fn \<Rightarrow> nat \<Rightarrow> 's \<Rightarrow> 's" where
  "after att k s \<equiv> ((\<lambda>s. snd (att s)) ^^ k) s"

text \<open>Every run is some number of attempts below the limit, all but the last retryable.\<close>

lemma run_attempts_bounded:
  assumes "run_attempts n retryable att s = (r, s')" "0 < n"
  shows "\<exists>k. k < n \<and> s' = after att (Suc k) s \<and> r = fst (att (after att k s))
    \<and> (\<forall>j < k. \<exists>err. retryable err \<and> fst (att (after att j s)) = Inl err)
    \<and> (\<forall>err. r = Inl err \<and> retryable err \<longrightarrow> k = n - 1)"
  using assms
proof (induction n arbitrary: s)
  case 0
  then show ?case by simp
next
  case (Suc n)
  obtain r1 s1 where att: "att s = (r1, s1)" by force
  show ?case
  proof (cases "n \<noteq> 0 \<and> (\<exists>err. r1 = Inl err \<and> retryable err)")
    case False
    with Suc.prems att have "r = r1" "s' = s1" by (cases r1; auto split: if_splits)+
    with False att show ?thesis by (intro exI [of _ 0]) auto
  next
    case True
    then obtain err where r1: "r1 = Inl err" "retryable err" by blast
    with True Suc.prems att have "run_attempts n retryable att s1 = (r, s')" "0 < n" by auto
    then obtain k where k: "k < n" "s' = after att (Suc k) s1" "r = fst (att (after att k s1))"
      "\<forall>j < k. \<exists>err. retryable err \<and> fst (att (after att j s1)) = Inl err"
      "\<forall>err. r = Inl err \<and> retryable err \<longrightarrow> k = n - 1"
      using Suc.IH by blast
    have step: "after att (Suc j) s = after att j s1" for j
      using att by (simp add: funpow_Suc_right del: funpow.simps)
    have "\<forall>j < Suc k. \<exists>err. retryable err \<and> fst (att (after att j s)) = Inl err"
    proof (intro allI impI)
      fix j assume "j < Suc k"
      then show "\<exists>err. retryable err \<and> fst (att (after att j s)) = Inl err"
        using k(4) att r1 step by (cases j) (auto simp del: funpow.simps simp: funpow_0)
    qed
    with k step \<open>0 < n\<close> show ?thesis
      by (intro exI [of _ "Suc k"]) (auto simp del: funpow.simps)
  qed
qed

text \<open>A fact kept by every attempt is kept by the whole run, and the result comes from one.\<close>

lemma run_attempts_inv:
  assumes "run_attempts n retryable att s = (r, s')" "P s"
    and "\<And>t r t'. P t \<Longrightarrow> att t = (r, t') \<Longrightarrow> P t'"
  shows "P s' \<and> (\<exists>t. P t \<and> att t = (r, s'))"
  using assms(1,2)
proof (induction n arbitrary: s)
  case 0
  then show ?case using assms(3) by auto
next
  case (Suc n)
  obtain r1 s1 where att: "att s = (r1, s1)" by force
  then have "P s1" using assms(3) Suc.prems(2) by blast
  with Suc att show ?case by (cases r1) (auto split: if_splits)
qed

end
