(* ===== verification/Sink.thy ===== *)
theory Sink
  imports Labels Shaping Retry "HOL-Library.Multiset"
begin

section \<open>sinks/base.py and sinks/loki/sink.py: the Loki sink\<close>

text \<open>
  \<^verbatim>\<open>LokiSink.push\<close> with everything below it: line capping, the POST with its bounded
  retries, the classification of the answer, and the recursive 400/413 split.

  Outside the repository, and so parameters collected in \<open>sink_env\<close>: the HTTP server
  (\<open>srv\<close>, a state transformer answering a body), the payload encoder
  (\<open>encode_body\<close>: protobuf and snappy, or JSON and gzip) and the retry engine
  (\<open>retrying\<close>: \<^verbatim>\<open>tenacity.AsyncRetrying\<close>, which runs an attempt until it answers or
  the attempts are spent). What the code relies on of the engine is the hypothesis
  \<open>retry_contract\<close>.

  The state of the sink is its own counters plus two histories that the theorems speak about:
  \<open>accepted\<close>, the batches the server answered with 2xx, and \<open>dropped\<close>, each batch whose
  length was added to \<^verbatim>\<open>loki_entries_dropped\<close>, with its reason.
\<close>

datatype sink_error =
    RetryableSinkError
  | PermanentSinkError string

datatype http_outcome =
    TransportError
  | Response nat "string option"

type_synonym 'b request = "'b \<times> labelset"

definition MAX_ATTEMPTS :: nat where "MAX_ATTEMPTS = 5"
definition RETRY_AFTER_CAP :: seconds where "RETRY_AFTER_CAP = 60"
definition AUTH_CONFIG_STATUSES :: "nat list" where "AUTH_CONFIG_STATUSES = [401, 403, 404]"
definition AUTH_LOG_EVERY :: nat where "AUTH_LOG_EVERY = 10"

datatype encoding = Protobuf | Json
datatype compression = Gzip | NoCompression

record loki_config =
  auth_token :: "string option"
  tenant_id :: "string option"
  encoding :: encoding
  compression :: compression
  max_line_bytes :: int

type_synonym 's post_attempt = "('s, seconds option, nat) attempt_fn"

record ('s, 'b) sink_env =
  loki_cfg :: loki_config
  srv :: "'b request \<Rightarrow> 's \<Rightarrow> http_outcome \<times> 's"
  encode_body :: "encoding \<Rightarrow> compression \<Rightarrow> batch \<Rightarrow> 'b"
  body_size :: "'b \<Rightarrow> nat"
  retrying :: "'s post_attempt \<Rightarrow> 's post_attempt"
  parse_float :: "string \<Rightarrow> seconds option"
  b64 :: "string \<Rightarrow> string"

record 's sink_state =
  server :: 's
  consecutive_auth_failures :: nat
  loki_bytes_pushed :: nat
  lines_truncated :: "string list"
  auth_errors_logged :: nat
  dropped :: "(string \<times> batch) list"
  accepted :: "batch list"

subsection \<open>Waiting between attempts\<close>

definition parse_retry_after :: "(string \<Rightarrow> seconds option) \<Rightarrow> string option \<Rightarrow> seconds option" where
  "parse_retry_after pf v =
     (case v of
        None \<Rightarrow> None
      | Some t \<Rightarrow> (case pf (strip t) of None \<Rightarrow> None | Some secs \<Rightarrow> Some (max 0 secs)))"

text \<open>\<open>base\<close> is the exponential back-off drawn for this attempt; \<open>retry_after\<close> is the
  delay carried by the failed attempt's \<^verbatim>\<open>_TransientError\<close>.\<close>

definition compute_wait :: "seconds \<Rightarrow> seconds option \<Rightarrow> seconds" where
  "compute_wait base retry_after =
     (case retry_after of
        None \<Rightarrow> base
      | Some ra \<Rightarrow> min (max base ra) RETRY_AFTER_CAP)"

subsection \<open>Headers\<close>

definition build_headers :: "(string \<Rightarrow> string) \<Rightarrow> loki_config \<Rightarrow> labelset" where
  "build_headers b64encode cfg =
     (case auth_token cfg of
        Some pw \<Rightarrow>
          (let user = (case tenant_id cfg of None \<Rightarrow> '''' | Some t \<Rightarrow> t)
           in [(''Authorization'', ''Basic '' @ b64encode (user @ '':'' @ pw))])
      | None \<Rightarrow>
          (case tenant_id cfg of
             Some t \<Rightarrow> [(''X-Scope-OrgID'', t)]
           | None \<Rightarrow> []))"

definition encode :: "('s, 'b) sink_env \<Rightarrow> batch \<Rightarrow> 'b \<times> labelset" where
  "encode env b =
     (let cfg = loki_cfg env in
      if encoding cfg = Protobuf
      then (encode_body env Protobuf NoCompression b,
            [(''Content-Type'', ''application/x-protobuf''), (''Content-Encoding'', ''snappy'')])
      else if compression cfg = Gzip
      then (encode_body env Json Gzip b,
            [(''Content-Type'', ''application/json''), (''Content-Encoding'', ''gzip'')])
      else (encode_body env Json NoCompression b, [(''Content-Type'', ''application/json'')]))"

subsection \<open>One POST with its retries\<close>

definition transient_status :: "nat \<Rightarrow> bool" where
  "transient_status status \<longleftrightarrow> status = 429 \<or> (500 \<le> status \<and> status < 600)"

text \<open>\<^verbatim>\<open>_attempt\<close>: \<open>Inl\<close> is the raised \<^verbatim>\<open>_TransientError\<close> with its
  \<^verbatim>\<open>retry_after\<close>, \<open>Inr\<close> the status returned for the caller to inspect.\<close>

definition attempt :: "('s, 'b) sink_env \<Rightarrow> 'b request \<Rightarrow> 's post_attempt" where
  "attempt env req s =
     (case srv env req s of
        (TransportError, s') \<Rightarrow> (Inl None, s')
      | (Response status retry_after, s') \<Rightarrow>
          if transient_status status
          then (Inl (parse_retry_after (parse_float env) retry_after), s')
          else (Inr status, s'))"

text \<open>What the code relies on of the retry engine: every \<^verbatim>\<open>_TransientError\<close> is
  retried, five attempts at most.\<close>

definition retry_contract :: "('s, 'b) sink_env \<Rightarrow> bool" where
  "retry_contract env \<longleftrightarrow> (\<forall>att s. retrying env att s = run_attempts MAX_ATTEMPTS (\<lambda>_. True) att s)"

definition post :: "('s, 'b) sink_env \<Rightarrow> 'b \<Rightarrow> labelset \<Rightarrow> 's \<Rightarrow> (sink_error + nat) \<times> 's" where
  "post env body content_headers s =
     (let headers = dict_merge (build_headers (b64 env) (loki_cfg env)) content_headers in
      case retrying env (attempt env (body, headers)) s of
        (Inr status, s') \<Rightarrow> (Inr status, s')
      | (Inl _, s') \<Rightarrow> (Inl RetryableSinkError, s'))"

subsection \<open>Capping, auth bookkeeping, push\<close>

definition cap_entry :: "int \<Rightarrow> log_entry \<Rightarrow> log_entry" where
  "cap_entry cap e =
     (if cap \<le> 0 then e
      else case line_nbytes e of
        (n, e1) \<Rightarrow>
          if int n \<le> cap then e1
          else case cap_line (line e1) cap of
            (capped, truncated) \<Rightarrow>
              if truncated then e1\<lparr>line := capped, line_nbytes_memo := - 1\<rparr> else e1)"

definition over_cap :: "int \<Rightarrow> log_entry \<Rightarrow> bool" where
  "over_cap cap e \<longleftrightarrow> 0 < cap \<and> cap < int (nbytes e) \<and> snd (cap_line (line e) cap)"

definition cap_lines :: "int \<Rightarrow> batch \<Rightarrow> batch \<times> string list" where
  "cap_lines cap b =
     (map (cap_entry cap) b,
      map (\<lambda>e. get_default (labels e) ''source'' ''unknown'') (filter (over_cap cap) b))"

definition note_auth_failure :: "'s sink_state \<Rightarrow> 's sink_state" where
  "note_auth_failure st =
     (let n = consecutive_auth_failures st + 1;
          st1 = st\<lparr>consecutive_auth_failures := n\<rparr>
      in if n = 1 \<or> n mod AUTH_LOG_EVERY = 0
         then st1\<lparr>auth_errors_logged := auth_errors_logged st + 1\<rparr> else st1)"

definition note_auth_ok :: "'s sink_state \<Rightarrow> 's sink_state" where
  "note_auth_ok st = st\<lparr>consecutive_auth_failures := 0\<rparr>"

text \<open>The \<^verbatim>\<open>except PermanentSinkError\<close> of the split loop.\<close>

fun absorb_permanent ::
  "batch \<Rightarrow> (sink_error + unit) \<times> 's sink_state \<Rightarrow> (sink_error + unit) \<times> 's sink_state" where
  "absorb_permanent half (Inl (PermanentSinkError reason), st) =
     (Inr (), st\<lparr>dropped := dropped st @ [(reason, half)]\<rparr>)"
| "absorb_permanent half (r, st) = (r, st)"

text \<open>The first half of \<^verbatim>\<open>push\<close>: cap the lines, encode, POST. Returns the answer,
  the batch as it was sent and the size of its body.\<close>

definition send ::
  "('s, 'b) sink_env \<Rightarrow> batch \<Rightarrow> 's sink_state \<Rightarrow> (sink_error + nat) \<times> batch \<times> nat \<times> 's sink_state"
  where
  "send env b st =
     (let (b', srcs) = cap_lines (max_line_bytes (loki_cfg env)) b;
          (body, hdrs) = encode env b';
          (r, sv) = post env body hdrs (server st)
      in (r, b', body_size env body,
          st\<lparr>server := sv, lines_truncated := lines_truncated st @ srcs\<rparr>))"

function push ::
  "('s, 'b) sink_env \<Rightarrow> batch \<Rightarrow> 's sink_state \<Rightarrow> (sink_error + unit) \<times> 's sink_state" where
  "push env b st =
     (if b = [] then (Inr (), st)
      else
        (case send env b st of
           (Inl err, b', n, st1) \<Rightarrow> (Inl err, st1)
         | (Inr status, b', n, st1) \<Rightarrow>
             if 200 \<le> status \<and> status < 300
             then (Inr (), note_auth_ok
                     (st1\<lparr>loki_bytes_pushed := loki_bytes_pushed st1 + n,
                          accepted := accepted st1 @ [b']\<rparr>))
             else if status \<in> set AUTH_CONFIG_STATUSES
             then (Inl RetryableSinkError, note_auth_failure st1)
             else if status = 400 \<or> status = 413
             then (let reason = (if status = 413 then ''oversized_413'' else ''bad_request'') in
                   if length b' = 1 then (Inl (PermanentSinkError reason), st1)
                   else (let mid = length b' div 2 in
                         case absorb_permanent (take mid b') (push env (take mid b') st1) of
                           (Inl err, st2) \<Rightarrow> (Inl err, st2)
                         | (Inr _, st2) \<Rightarrow>
                             absorb_permanent (drop mid b') (push env (drop mid b') st2)))
             else (Inl RetryableSinkError, st1)))"
  by pat_completeness auto

abbreviation line_cap :: "('s, 'b) sink_env \<Rightarrow> int" where
  "line_cap env \<equiv> max_line_bytes (loki_cfg env)"

lemma send_facts:
  "send env b st = (r, b', n, st1) \<Longrightarrow>
   b' = map (cap_entry (line_cap env)) b \<and> accepted st1 = accepted st \<and> dropped st1 = dropped st
   \<and> (\<forall>err. r = Inl err \<longrightarrow> err = RetryableSinkError)"
  by (auto simp: send_def post_def cap_lines_def Let_def split: prod.splits sum.splits)

lemma send_length: "(r, b', n, st1) = send env b st \<Longrightarrow> length b' = length b"
  using send_facts [of env b st r b' n st1] by simp

lemma drop_half_less: "b \<noteq> [] \<Longrightarrow> length b \<noteq> Suc 0 \<Longrightarrow> length b - length b div 2 < length b"
  by (cases b; cases "tl b") auto

termination push
  by (relation "measure (\<lambda>(env, b, st). length b)") (auto dest!: send_length simp: drop_half_less)

declare push.simps [simp del]

subsection \<open>Capping once is capping for good\<close>

definition delivered_form :: "int \<Rightarrow> log_entry \<Rightarrow> log_entry" where
  "delivered_form cap e = strip_memo (e\<lparr>line := fst (cap_line (line e) cap)\<rparr>)"

lemma strip_cap_entry:
  assumes "entry_ok e"
  shows "strip_memo (cap_entry cap e) = delivered_form cap e"
proof (cases "cap \<le> 0")
  case True
  then show ?thesis by (simp add: cap_entry_def delivered_form_def cap_line_disabled)
next
  case False
  obtain n e1 where le: "line_nbytes e = (n, e1)" by (cases "line_nbytes e")
  then have n: "n = utf8_len (line e)" and e1: "strip_memo e1 = strip_memo e" "line e1 = line e"
    using nbytes_eq [of e] line_nbytes_keeps [of e] assms
    by (auto simp: entry_ok_def same_entry_def)
  have upd: "strip_memo (e1\<lparr>line := l, line_nbytes_memo := i\<rparr>) = strip_memo (e\<lparr>line := l\<rparr>)" for l i
    using e1(1) by (cases e1; cases e) (simp add: strip_memo_def)
  have same: "strip_memo e1 = strip_memo (e\<lparr>line := line e\<rparr>)" using e1(1) by simp
  show ?thesis
  proof (cases "int n \<le> cap")
    case True
    with False n le same show ?thesis
      by (simp add: cap_entry_def delivered_form_def cap_line_fits)
  next
    case cut: False
    then have "snd (cap_line (line e) cap)"
      using False n assms by (simp add: cap_line_truncated entry_ok_def)
    then obtain l where "cap_line (line e) cap = (l, True)" by (metis eq_snd_iff)
    with False cut le upd e1(2) show ?thesis
      by (simp add: cap_entry_def delivered_form_def)
  qed
qed

lemma cap_entry_ok:
  assumes "entry_ok e"
  shows "entry_ok (cap_entry cap e)"
proof -
  obtain n e1 where le: "line_nbytes e = (n, e1)" by (cases "line_nbytes e")
  then have "entry_ok e1" using line_nbytes_keeps [of e] assms by (auto simp: entry_ok_def)
  then show ?thesis
    using assms le cap_line_wf [of "line e1" cap]
    by (auto simp: cap_entry_def entry_ok_def memo_ok_def split: prod.split)
qed

lemma delivered_form_idem:
  assumes "entry_ok e"
  shows "delivered_form cap (cap_entry cap e) = delivered_form cap e"
proof -
  have l: "line (cap_entry cap e) = fst (cap_line (line e) cap)"
    using arg_cong [OF strip_cap_entry [OF assms, of cap], of line] by (simp add: delivered_form_def)
  have again: "fst (cap_line (fst (cap_line (line e) cap)) cap) = fst (cap_line (line e) cap)"
  proof (cases "0 < cap")
    case True
    then show ?thesis
      using assms by (simp add: cap_line_fits cap_line_len entry_ok_def)
  qed (simp add: cap_line_disabled)
  have "delivered_form cap (cap_entry cap e)
      = strip_memo ((cap_entry cap e)\<lparr>line := line (cap_entry cap e)\<rparr>)"
    by (simp add: delivered_form_def l again)
  then show ?thesis by (simp add: strip_cap_entry [OF assms])
qed

lemma cap_entry_len:
  assumes "entry_ok e" "0 < cap"
  shows "int (utf8_len (line (cap_entry cap e))) \<le> cap"
proof -
  have "line (cap_entry cap e) = fst (cap_line (line e) cap)"
    using arg_cong [OF strip_cap_entry [OF assms(1), of cap], of line] by (simp add: delivered_form_def)
  with assms show ?thesis by (simp add: cap_line_len entry_ok_def)
qed

subsection \<open>What a push does to the histories\<close>

text \<open>
  \<open>push_spec env b acc dr r\<close>: pushing \<open>b\<close> added the batches \<open>acc\<close> to \<open>accepted\<close> and
  the single-entry batches \<open>dr\<close> to \<open>dropped\<close>, and ended with \<open>r\<close>. The split loop
  composes such facts (\<open>push_spec_split\<close>).
\<close>

definition wire :: "batch list \<Rightarrow> log_entry multiset" where
  "wire bs = image_mset strip_memo (mset (concat bs))"

definition due :: "int \<Rightarrow> batch \<Rightarrow> log_entry multiset" where
  "due cap b = image_mset (delivered_form cap) (mset b)"

definition fits_cap :: "int \<Rightarrow> batch \<Rightarrow> bool" where
  "fits_cap cap b \<longleftrightarrow> (\<forall>e \<in> set b. 0 < cap \<longrightarrow> int (utf8_len (line e)) \<le> cap)"

definition handled :: "batch list \<Rightarrow> (string \<times> batch) list \<Rightarrow> log_entry multiset" where
  "handled acc dr = wire acc + wire (map snd dr)"

text \<open>The server rejected this batch, a single entry, with a 400 or a 413.\<close>

definition rejected_alone :: "('s, 'b) sink_env \<Rightarrow> batch \<Rightarrow> bool" where
  "rejected_alone env h \<longleftrightarrow>
     length h = 1 \<and> (\<exists>st status b' n st'. send env h st = (Inr status, b', n, st') \<and> status \<in> {400, 413})"

definition push_spec ::
  "('s, 'b) sink_env \<Rightarrow> batch \<Rightarrow> batch list \<Rightarrow> (string \<times> batch) list \<Rightarrow> sink_error + unit \<Rightarrow> bool" where
  "push_spec env b acc dr r \<longleftrightarrow>
     (\<forall>d \<in> set dr. rejected_alone env (snd d))
     \<and> (\<forall>a \<in> set acc. fits_cap (line_cap env) a)
     \<and> handled acc dr \<subseteq># due (line_cap env) b
     \<and> (r = Inr () \<longrightarrow> handled acc dr = due (line_cap env) b)
     \<and> (\<forall>reason. r = Inl (PermanentSinkError reason) \<longrightarrow>
           rejected_alone env b \<and> acc = [] \<and> dr = [])"

lemma wire_simps [simp]:
  "wire [] = {#}" "wire (b # bs) = image_mset strip_memo (mset b) + wire bs"
  "wire (as @ bs) = wire as + wire bs"
  by (simp_all add: wire_def)

lemma handled_append: "handled (a1 @ a2) (d1 @ d2) = handled a1 d1 + handled a2 d2"
  by (simp add: handled_def ac_simps)

lemma handled_simps [simp]:
  "handled [] [] = {#}" "handled [b] [] = image_mset strip_memo (mset b)"
  "handled [] [(r, b)] = image_mset strip_memo (mset b)"
  by (simp_all add: handled_def)

lemma due_append [simp]: "due cap (a @ b) = due cap a + due cap b"
  by (simp add: due_def)

lemma due_capped:
  "list_all entry_ok b \<Longrightarrow> due cap (map (cap_entry cap) b) = due cap b"
  by (auto simp: due_def list_all_iff delivered_form_idem multiset.map_comp intro!: image_mset_cong)

lemma wire_capped:
  "list_all entry_ok b \<Longrightarrow> image_mset strip_memo (mset (map (cap_entry cap) b)) = due cap b"
  by (auto simp: due_def list_all_iff strip_cap_entry multiset.map_comp intro!: image_mset_cong)

lemma push_spec_accept:
  assumes "list_all entry_ok b"
  shows "push_spec env b [map (cap_entry (line_cap env)) b] [] (Inr ())"
  using assms wire_capped [OF assms, of "line_cap env"]
  by (auto simp: push_spec_def fits_cap_def list_all_iff cap_entry_len)

lemma push_spec_retry: "push_spec env b [] [] (Inl RetryableSinkError)"
  by (simp add: push_spec_def)

lemma push_spec_permanent: "rejected_alone env b \<Longrightarrow> push_spec env b [] [] (Inl (PermanentSinkError r))"
  by (simp add: push_spec_def)

text \<open>How the split loop composes: the second half only runs after the first, and only a
  retryable error leaves the loop early.\<close>

lemma push_spec_split:
  assumes "push_spec env h1 a1 d1 (Inr ())" "push_spec env h2 a2 d2 r"
    and "\<And>reason. r \<noteq> Inl (PermanentSinkError reason)"
  shows "push_spec env (h1 @ h2) (a1 @ a2) (d1 @ d2) r"
  using assms by (auto simp: push_spec_def handled_append)

lemma push_spec_stop:
  assumes "push_spec env h1 a1 d1 (Inl RetryableSinkError)"
  shows "push_spec env (h1 @ h2) a1 d1 (Inl RetryableSinkError)"
  using assms by (auto simp: push_spec_def intro: subset_mset.order_trans)

lemma absorb_spec:
  assumes "push_spec env h acc dr r" "accepted st = A @ acc" "dropped st = D @ dr"
    and "image_mset strip_memo (mset h) = due (line_cap env) h"
    and "absorb_permanent h (r, st) = (r2, st2)"
  shows "\<exists>dr2. accepted st2 = A @ acc \<and> dropped st2 = D @ dr2 \<and> push_spec env h acc dr2 r2
    \<and> (\<forall>reason. r2 \<noteq> Inl (PermanentSinkError reason))"
proof (cases "\<exists>reason. r = Inl (PermanentSinkError reason)")
  case True
  then obtain reason where r: "r = Inl (PermanentSinkError reason)" by blast
  with assms(1) have h: "rejected_alone env h" "acc = []" "dr = []" by (auto simp: push_spec_def)
  with assms r have "push_spec env h acc [(reason, h)] r2" "dropped st2 = D @ [(reason, h)]"
    "accepted st2 = A @ acc" "r2 = Inr ()"
    by (auto simp: push_spec_def)
  then show ?thesis by blast
next
  case False
  with assms(5) have "r2 = r" "st2 = st"
    by (cases r; cases "projl r"; simp)+
  with False assms show ?thesis by blast
qed

lemma capped_wire:
  "list_all entry_ok b \<Longrightarrow> h = take n (map (cap_entry cap) b) \<or> h = drop n (map (cap_entry cap) b)
   \<Longrightarrow> list_all entry_ok h \<and> image_mset strip_memo (mset h) = due cap h"
  by (auto simp: due_def list_all_iff strip_cap_entry delivered_form_idem cap_entry_ok
      simp flip: mset_map intro!: arg_cong [where f = mset]
      dest!: in_set_takeD in_set_dropD)

definition push_hist :: "('s, 'b) sink_env \<Rightarrow> batch \<Rightarrow> 's sink_state \<Rightarrow> bool" where
  "push_hist env b st \<longleftrightarrow>
     (\<exists>acc dr. accepted (snd (push env b st)) = accepted st @ acc
        \<and> dropped (snd (push env b st)) = dropped st @ dr
        \<and> push_spec env b acc dr (fst (push env b st)))"

lemma push_hist_absorb:
  assumes "push_hist env h st" "image_mset strip_memo (mset h) = due (line_cap env) h"
    and "absorb_permanent h (push env h st) = (r, st')"
  shows "\<exists>acc dr. accepted st' = accepted st @ acc \<and> dropped st' = dropped st @ dr
    \<and> push_spec env h acc dr r \<and> (\<forall>reason. r \<noteq> Inl (PermanentSinkError reason))"
proof -
  obtain acc dr where "accepted (snd (push env h st)) = accepted st @ acc"
    "dropped (snd (push env h st)) = dropped st @ dr" "push_spec env h acc dr (fst (push env h st))"
    using assms(1) by (auto simp: push_hist_def)
  then show ?thesis
    using absorb_spec [of env h acc dr "fst (push env h st)" "snd (push env h st)"] assms(2,3)
    by (metis prod.collapse)
qed

lemma push_split_history:
  assumes h1: "push_hist env h1 st1" "image_mset strip_memo (mset h1) = due (line_cap env) h1"
    and h2: "\<And>st2. fst (absorb_permanent h1 (push env h1 st1)) = Inr () \<Longrightarrow>
        snd (absorb_permanent h1 (push env h1 st1)) = st2 \<Longrightarrow> push_hist env h2 st2"
      "image_mset strip_memo (mset h2) = due (line_cap env) h2"
    and run: "(case absorb_permanent h1 (push env h1 st1) of
        (Inl err, st2) \<Rightarrow> (Inl err, st2)
      | (Inr _, st2) \<Rightarrow> absorb_permanent h2 (push env h2 st2)) = (r, st')"
  shows "\<exists>acc dr. accepted st' = accepted st1 @ acc \<and> dropped st' = dropped st1 @ dr
    \<and> push_spec env (h1 @ h2) acc dr r"
proof -
  obtain r1 st2 where ab1: "absorb_permanent h1 (push env h1 st1) = (r1, st2)" by force
  obtain a1 d1 where one: "accepted st2 = accepted st1 @ a1" "dropped st2 = dropped st1 @ d1"
      "push_spec env h1 a1 d1 r1" "\<forall>reason. r1 \<noteq> Inl (PermanentSinkError reason)"
    using push_hist_absorb [OF h1 ab1] by auto
  show ?thesis
  proof (cases r1)
    case (Inl e)
    then have "e = RetryableSinkError" using one(4) by (cases e) auto
    with Inl run ab1 have "r = Inl RetryableSinkError" "st' = st2" by auto
    with \<open>e = RetryableSinkError\<close> Inl one push_spec_stop show ?thesis
      by (intro exI [of _ a1] exI [of _ d1]) simp
  next
    case (Inr u)
    then have ab2: "absorb_permanent h2 (push env h2 st2) = (r, st')" and "push_hist env h2 st2"
      using run ab1 h2(1) by auto
    then obtain a2 d2 where "accepted st' = accepted st2 @ a2" "dropped st' = dropped st2 @ d2"
        "push_spec env h2 a2 d2 r" "\<forall>reason. r \<noteq> Inl (PermanentSinkError reason)"
      using push_hist_absorb [OF _ h2(2) ab2] by auto
    with one Inr push_spec_split [of env h1 a1 d1 h2 a2 d2 r] show ?thesis
      by (intro exI [of _ "a1 @ a2"] exI [of _ "d1 @ d2"]) simp
  qed
qed

lemma push_histI:
  "accepted (snd (push env b st)) = accepted st @ acc \<Longrightarrow>
   dropped (snd (push env b st)) = dropped st @ dr \<Longrightarrow>
   push_spec env b acc dr (fst (push env b st)) \<Longrightarrow> push_hist env b st"
  by (auto simp: push_hist_def)

lemma push_hist_reject:
  assumes ok: "list_all entry_ok b" and sent: "send env b st = (Inr s, b', n, st1)"
    and s: "s = 400 \<or> s = 413" and many: "2 \<le> length b"
    and IH: "\<And>h st. length h < length b \<Longrightarrow> list_all entry_ok h \<Longrightarrow> push_hist env h st"
  shows "push_hist env b st"
proof -
  let ?cap = "line_cap env"
  let ?h1 = "take (length b' div 2) b'" and ?h2 = "drop (length b' div 2) b'"
  have b': "b' = map (cap_entry ?cap) b" "accepted st1 = accepted st" "dropped st1 = dropped st"
    using send_facts [OF sent] by blast+
  have halves: "list_all entry_ok h \<and> image_mset strip_memo (mset h) = due ?cap h \<and> length h < length b"
    if "h = ?h1 \<or> h = ?h2" for h
    using that capped_wire [OF ok, of h "length b' div 2" ?cap] b'(1) many by auto
  obtain r st' where run: "push env b st = (r, st')" by force
  have len: "length b' \<noteq> Suc 0" "b \<noteq> []"
    using send_length [OF sent [symmetric]] many by auto
  have "(case absorb_permanent ?h1 (push env ?h1 st1) of
      (Inl err, st2) \<Rightarrow> (Inl err, st2)
    | (Inr _, st2) \<Rightarrow> absorb_permanent ?h2 (push env ?h2 st2)) = (r, st')"
    unfolding run [symmetric] using s
    by (elim disjE) (simp_all add: push.simps [of env b st] sent len AUTH_CONFIG_STATUSES_def Let_def)
  then have "\<exists>acc dr. accepted st' = accepted st1 @ acc \<and> dropped st' = dropped st1 @ dr
      \<and> push_spec env (?h1 @ ?h2) acc dr r"
    by (intro push_split_history) (use halves IH in blast)+
  then obtain acc dr where "accepted st' = accepted st @ acc" "dropped st' = dropped st @ dr"
    "push_spec env b' acc dr r" using b' by auto
  moreover from this(3) have "push_spec env b acc dr r"
    using due_capped [OF ok, of ?cap] b'(1) many
    by (auto simp: push_spec_def rejected_alone_def [of env "map _ _"])
  ultimately show ?thesis using run by (intro push_histI) simp_all
qed

lemma push_hist_answered:
  assumes "list_all entry_ok b" "b \<noteq> []" "send env b st = (Inr s, b', n, st1)"
    and "s \<noteq> 400" "s \<noteq> 413"
  shows "push_hist env b st"
proof -
  have b': "b' = map (cap_entry (line_cap env)) b" "accepted st1 = accepted st" "dropped st1 = dropped st"
    using send_facts assms(3) by blast+
  consider "200 \<le> s \<and> s < 300" | "\<not> (200 \<le> s \<and> s < 300)" by blast
  then show ?thesis
  proof cases
    case 1
    with assms b' push_spec_accept [OF assms(1)] show ?thesis
      by (intro push_histI [where acc = "[b']" and dr = "[]"])
        (auto simp: push.simps [of env b st] note_auth_ok_def)
  next
    case 2
    with assms b' push_spec_retry show ?thesis
      by (intro push_histI [where acc = "[]" and dr = "[]"])
        (auto simp: push.simps [of env b st] note_auth_failure_def Let_def)
  qed
qed

lemma push_history:
  "list_all entry_ok b \<Longrightarrow> push_hist env b st"
proof (induction "length b" arbitrary: b st rule: less_induct)
  case (less b st)
  let ?cap = "line_cap env"
  show ?case
  proof (cases "b = []")
    case True
    then show ?thesis
      by (intro push_histI [where acc = "[]" and dr = "[]"])
        (auto simp: push.simps push_spec_def due_def)
  next
    case False
    obtain r0 b' n st1 where sent: "send env b st = (r0, b', n, st1)" by (metis prod_cases4)
    note facts = send_facts [OF sent] and unf = push.simps [of env b st] sent False
    show ?thesis
    proof (cases r0)
      case (Inl e)
      with facts push_spec_retry show ?thesis
        by (intro push_histI [where acc = "[]" and dr = "[]"]) (auto simp: unf)
    next
      case (Inr s)
      then consider "s \<noteq> 400" "s \<noteq> 413" | (one) "s = 400 \<or> s = 413" "length b = 1"
        | (many) "s = 400 \<or> s = 413" "2 \<le> length b"
        using False by (cases b; cases "tl b") auto
      then show ?thesis
      proof cases
        case 1
        with push_hist_answered [OF less.prems False] sent Inr show ?thesis by blast
      next
        case one
        moreover from one sent Inr have "rejected_alone env b"
          unfolding rejected_alone_def by blast
        ultimately show ?thesis
          using facts push_spec_permanent [of env b]
          by (intro push_histI [where acc = "[]" and dr = "[]"])
            (auto simp: unf Inr AUTH_CONFIG_STATUSES_def)
      next
        case many
        show ?thesis
          by (rule push_hist_reject [OF less.prems sent [unfolded Inr] many less.hyps])
      qed
    qed
  qed
qed

subsection \<open>The sink's contract\<close>

text \<open>
  C2. Delivery accounting of a push that returns: every entry of the batch, with its line
  capped, was either part of a batch the server accepted or was dropped and counted, each
  exactly once; every accepted line respects the cap; and whatever was dropped is a single
  entry that the server itself rejected with 400 or 413, so a poison entry never takes a
  healthy one with it.
\<close>

theorem push_accounting:
  assumes "list_all entry_ok b" and "push env b st = (Inr (), st')"
  shows "\<exists>acc dr. accepted st' = accepted st @ acc \<and> dropped st' = dropped st @ dr
    \<and> wire acc + wire (map snd dr) = due (line_cap env) b
    \<and> (\<forall>a \<in> set acc. fits_cap (line_cap env) a)
    \<and> (\<forall>d \<in> set dr. rejected_alone env (snd d))"
  using push_history [OF assms(1), of env st] assms(2)
  by (fastforce simp: push_hist_def push_spec_def handled_def)

text \<open>
  C27. Errors of a push: a permanent error is raised only for a single-entry batch the server
  rejected with 400 or 413, and it leaves the histories untouched; with any other error the
  batch is retryable and whatever was already handled is part of it, so retrying the whole
  batch can duplicate but never lose.
\<close>

theorem push_errors:
  assumes "list_all entry_ok b" and "push env b st = (Inl err, st')"
  shows "\<exists>acc dr. accepted st' = accepted st @ acc \<and> dropped st' = dropped st @ dr
    \<and> wire acc + wire (map snd dr) \<subseteq># due (line_cap env) b
    \<and> (err \<noteq> RetryableSinkError \<longrightarrow> rejected_alone env b \<and> acc = [] \<and> dr = [])"
proof -
  obtain acc dr where "accepted st' = accepted st @ acc" "dropped st' = dropped st @ dr"
    "push_spec env b acc dr (Inl err)"
    using push_history [OF assms(1), of env st] assms(2) by (auto simp: push_hist_def)
  then show ?thesis
    by (cases err) (auto simp: push_spec_def handled_def)
qed

subsection \<open>Retries\<close>

text \<open>
  The POST of one body is retried a bounded number of times: the server is asked between
  one and five times, every answer before the last was a transport error, a 429 or a 5xx, a
  status that is returned is the last answer and is none of these, and the retry budget is
  reported as exhausted only after five such failures.
\<close>

theorem post_bounded:
  assumes "retry_contract env" and "post env body hdrs s = (r, s')"
  shows "\<exists>req k. k < 5
    \<and> s' = ((\<lambda>s. snd (srv env req s)) ^^ Suc k) s
    \<and> (\<forall>j < k. \<forall>status ra. fst (srv env req (((\<lambda>s. snd (srv env req s)) ^^ j) s)) = Response status ra
          \<longrightarrow> transient_status status)
    \<and> (\<forall>status. r = Inr status \<longrightarrow> \<not> transient_status status
          \<and> (\<exists>ra. fst (srv env req (((\<lambda>s. snd (srv env req s)) ^^ k) s)) = Response status ra))
    \<and> (\<forall>err. r = Inl err \<longrightarrow> k = 4 \<and> err = RetryableSinkError)"
proof -
  define req where "req = (body, dict_merge (build_headers (b64 env) (loki_cfg env)) hdrs)"
  let ?att = "attempt env req"
  have srv: "(\<lambda>s. snd (?att s)) = (\<lambda>s. snd (srv env req s))"
    by (rule ext) (auto simp: attempt_def split: prod.split http_outcome.split)
  obtain ra where ra: "run_attempts 5 (\<lambda>_. True) ?att s = (ra, s')"
    and r: "r = (case ra of Inr st \<Rightarrow> Inr st | Inl _ \<Rightarrow> Inl RetryableSinkError)"
    using assms by (auto simp: post_def retry_contract_def MAX_ATTEMPTS_def req_def
        split: prod.splits sum.splits)
  obtain k where k: "k < 5" "s' = ((\<lambda>s. snd (srv env req s)) ^^ Suc k) s"
    "ra = fst (?att (((\<lambda>s. snd (srv env req s)) ^^ k) s))"
    "\<forall>j < k. \<exists>x. fst (?att (((\<lambda>s. snd (srv env req s)) ^^ j) s)) = Inl x"
    "\<forall>x. ra = Inl x \<longrightarrow> k = 4"
    using run_attempts_bounded [OF ra] by (auto simp: srv)
  have trans: "transient_status status"
    if "fst (?att t) = Inl x" "fst (srv env req t) = Response status h" for t x status h
    using that by (auto simp: attempt_def split: prod.splits if_splits)
  have final: "\<not> transient_status status \<and> (\<exists>h. fst (srv env req t) = Response status h)"
    if "fst (?att t) = Inr status" for t status
    using that by (auto simp: attempt_def split: prod.splits if_splits http_outcome.splits)
  have "\<forall>status. r = Inr status \<longrightarrow> ra = Inr status" "\<forall>err. r = Inl err \<longrightarrow> (\<exists>x. ra = Inl x) \<and> err = RetryableSinkError"
    using r by (auto split: sum.splits)
  then show ?thesis
    using k trans final by (intro exI [of _ req] exI [of _ k]) fastforce
qed

text \<open>
  Broken credentials never cost data: while the server answers 401, 403 or 404, a push of
  a non-empty batch reports a retryable error, accepts nothing and drops nothing.
\<close>

theorem push_auth_never_drops:
  assumes "retry_contract env" and "b \<noteq> []"
    and "\<And>req s. \<exists>status ra s'. srv env req s = (Response status ra, s') \<and> status \<in> {401, 403, 404}"
  shows "\<exists>st'. push env b st = (Inl RetryableSinkError, st')
    \<and> accepted st' = accepted st \<and> dropped st' = dropped st
    \<and> consecutive_auth_failures st' = Suc (consecutive_auth_failures st)"
proof -
  have answer: "\<exists>status s'. post env body hdrs s = (Inr status, s') \<and> status \<in> {401, 403, 404}"
    for body hdrs s
  proof -
    let ?req = "(body, dict_merge (build_headers (b64 env) (loki_cfg env)) hdrs)"
    obtain status ra s' where srv: "srv env ?req s = (Response status ra, s')"
      and "status \<in> {401, 403, 404}" using assms(3) by blast
    then have "attempt env ?req s = (Inr status, s')"
      by (auto simp: attempt_def transient_status_def)
    then have "run_attempts 5 (\<lambda>_. True) (attempt env ?req) s = (Inr status, s')"
      by (simp add: numeral_eq_Suc)
    with assms(1) \<open>status \<in> _\<close> show ?thesis
      by (simp add: post_def retry_contract_def MAX_ATTEMPTS_def)
  qed
  obtain r b' n st1 where sent: "send env b st = (r, b', n, st1)" by (metis prod_cases4)
  then have "\<exists>status. r = Inr status \<and> status \<in> {401, 403, 404}"
    and "consecutive_auth_failures st1 = consecutive_auth_failures st"
    using answer by (auto simp: send_def Let_def split: prod.splits) (metis prod.inject)+
  then show ?thesis
    using send_facts [OF sent] assms(2) sent
    by (auto simp: push.simps [of env b st] AUTH_CONFIG_STATUSES_def note_auth_failure_def Let_def)
qed

text \<open>
  Back-off honours the server: with a parsed Retry-After the wait is at least the smaller
  of that delay and sixty seconds, never more than sixty seconds, and never less than the
  drawn back-off unless the cap cuts it; a negative header counts as zero.
\<close>

theorem compute_wait_bounds:
  assumes "parse_retry_after pf hdr = Some ra"
  shows "0 \<le> ra \<and> min ra 60 \<le> compute_wait base (Some ra)
    \<and> compute_wait base (Some ra) \<le> 60 \<and> min base 60 \<le> compute_wait base (Some ra)"
  using assms
  by (auto simp: parse_retry_after_def compute_wait_def RETRY_AFTER_CAP_def split: option.splits)

subsection \<open>A concrete server\<close>

text \<open>A server over whole batches that rejects any batch holding a line \<open>[0]\<close> with 400, one
  that always answers 401, and an engine that meets the contract.\<close>

definition example_cfg :: loki_config where
  "example_cfg = \<lparr>auth_token = None, tenant_id = Some ''t'', encoding = Protobuf,
     compression = Gzip, max_line_bytes = 0\<rparr>"

definition example_env :: "(batch request \<Rightarrow> nat \<Rightarrow> http_outcome \<times> nat) \<Rightarrow> (nat, batch) sink_env" where
  "example_env sv = \<lparr>loki_cfg = example_cfg, srv = sv, encode_body = (\<lambda>_ _ b. b), body_size = length,
     retrying = run_attempts MAX_ATTEMPTS (\<lambda>_. True), parse_float = (\<lambda>_. Some (- 3)), b64 = id\<rparr>"

definition poison_server :: "batch request \<Rightarrow> nat \<Rightarrow> http_outcome \<times> nat" where
  "poison_server req n =
     (if list_ex (\<lambda>e. line e = [0]) (fst req) then Response 400 None else Response 204 None, Suc n)"

definition example_entry :: "ustring \<Rightarrow> log_entry" where
  "example_entry l = \<lparr>timestamp = 0, labels = [(''source'', ''pubsub'')], line = l,
     structured_metadata = [], checkpoint = \<lparr>tok_key = ''k'', tok_value = ''v''\<rparr>,
     checkpoint_only = False, line_nbytes_memo = - 1\<rparr>"

definition fresh_sink :: "nat sink_state" where
  "fresh_sink = \<lparr>server = 0, consecutive_auth_failures = 0, loki_bytes_pushed = 0,
     lines_truncated = [], auth_errors_logged = 0, dropped = [], accepted = []\<rparr>"

lemmas example_defs = example_cfg_def example_env_def poison_server_def example_entry_def
  fresh_sink_def

lemma example_env_sel [simp]:
  "srv (example_env sv) = sv" "line_cap (example_env sv) = 0"
  by (simp_all add: example_env_def example_cfg_def)

lemma example_retry_contract [simp]: "retry_contract (example_env sv)"
  by (simp add: retry_contract_def example_env_def)

lemma example_entry_ok [simp]: "wf_ustring l \<Longrightarrow> entry_ok (example_entry l)"
  by (simp add: entry_ok_def example_entry_def memo_ok_def)

lemma run_attempts_MAX:
  "run_attempts MAX_ATTEMPTS (\<lambda>_. True) att s =
     (case att s of
        (Inr v, s') \<Rightarrow> (Inr v, s')
      | (Inl err, s') \<Rightarrow> run_attempts 4 (\<lambda>_. True) att s')"
  using run_attempts.simps(2) [of 4 "\<lambda>_. True" att s]
  by (simp add: MAX_ATTEMPTS_def split: prod.split sum.split)

lemmas push_eval = send_def cap_lines_def cap_entry_def encode_def post_def attempt_def
  transient_status_def AUTH_CONFIG_STATUSES_def run_attempts_MAX note_auth_ok_def
  note_auth_failure_def over_cap_def

lemma push_poison_run:
  "push (example_env poison_server) [example_entry [65], example_entry [0], example_entry [66]] fresh_sink
   = (Inr (), fresh_sink\<lparr>server := 5, loki_bytes_pushed := 2,
        dropped := [(''bad_request'', [example_entry [0]])],
        accepted := [[example_entry [65]], [example_entry [66]]]\<rparr>)"
  by (simp add: push.simps push_eval example_defs)

theorem push_accounting_witness:
  "wire [[example_entry [65]], [example_entry [66]]] + wire [[example_entry [0]]]
     = due 0 [example_entry [65], example_entry [0], example_entry [66]]
   \<and> dropped (snd (push (example_env poison_server)
       [example_entry [65], example_entry [0], example_entry [66]] fresh_sink))
     = [(''bad_request'', [example_entry [0]])]"
proof -
  have "list_all entry_ok [example_entry [65], example_entry [0], example_entry [66]]"
    by (simp add: valid_cp_def)
  from push_accounting [OF this push_poison_run] show ?thesis
    unfolding push_poison_run by (auto simp: fresh_sink_def)
qed

theorem push_errors_witness:
  "fst (push (example_env poison_server) [example_entry [0]] fresh_sink)
     = Inl (PermanentSinkError ''bad_request'')
   \<and> rejected_alone (example_env poison_server) [example_entry [0]]"
proof -
  have "push (example_env poison_server) [example_entry [0]] fresh_sink
      = (Inl (PermanentSinkError ''bad_request''), fresh_sink\<lparr>server := 1\<rparr>)"
    by (simp add: push.simps push_eval example_defs)
  with push_errors [OF _ this] show ?thesis by (auto simp: valid_cp_def)
qed

theorem post_bounded_witness:
  "\<exists>k. k < 5 \<and> snd (post (example_env (\<lambda>req n. (Response 503 None, Suc n))) [] [] 0) = Suc k"
proof -
  let ?env = "example_env (\<lambda>req n. (Response 503 None, Suc n))"
  have "(Suc ^^ k) 0 = k" for k :: nat by (induction k) simp_all
  moreover obtain r s' where "post ?env [] [] 0 = (r, s')" by force
  ultimately show ?thesis
    using post_bounded [of ?env "[]" "[]" 0 r s'] by auto
qed

theorem push_auth_never_drops_witness:
  "dropped (snd (push (example_env (\<lambda>req n. (Response 401 None, Suc n))) [example_entry [65]] fresh_sink)) = []"
  using push_auth_never_drops [of "example_env (\<lambda>req n. (Response 401 None, Suc n))"
      "[example_entry [65]]" fresh_sink]
  by (auto simp: fresh_sink_def)

theorem compute_wait_bounds_witness:
  "compute_wait 2 (Some 90) \<le> 60 \<and> parse_retry_after (\<lambda>_. Some 90) (Some '' 90 '') = Some 90"
  using compute_wait_bounds [of "\<lambda>_. Some 90" "Some '' 90 ''" 90 2]
  by (simp add: parse_retry_after_def)

subsection \<open>The Sink protocol as the pipeline relies on it\<close>

text \<open>
  \<^verbatim>\<open>Sink\<close> of \<^verbatim>\<open>sinks/base.py\<close>: \<open>settled\<close> is what the sink has delivered or
  counted as dropped so far, each entry in the form \<open>form\<close> it takes on the wire.
\<close>

locale sink_contract =
  fixes do_push :: "batch \<Rightarrow> 's \<Rightarrow> (sink_error + unit) \<times> 's"
    and settled :: "'s \<Rightarrow> log_entry multiset"
    and form :: "log_entry \<Rightarrow> log_entry"
  assumes push_returns: "list_all entry_ok b \<Longrightarrow> do_push b s = (Inr (), s') \<Longrightarrow>
        settled s' = settled s + image_mset form (mset b)"
    and push_permanent: "list_all entry_ok b \<Longrightarrow> do_push b s = (Inl (PermanentSinkError r), s') \<Longrightarrow>
        settled s' = settled s"
    and push_keeps: "list_all entry_ok b \<Longrightarrow> do_push b s = (res, s') \<Longrightarrow> settled s \<subseteq># settled s'"

definition loki_settled :: "'s sink_state \<Rightarrow> log_entry multiset" where
  "loki_settled st = handled (accepted st) (dropped st)"

lemma push_settled:
  assumes "list_all entry_ok b" "push env b st = (r, st')"
  shows "\<exists>acc dr. loki_settled st' = loki_settled st + handled acc dr \<and> push_spec env b acc dr r"
proof -
  obtain acc dr where "accepted st' = accepted st @ acc" "dropped st' = dropped st @ dr" "push_spec env b acc dr r"
    using push_history [OF assms(1), of env st] assms(2) by (auto simp: push_hist_def)
  then show ?thesis by (auto simp: loki_settled_def handled_append)
qed

interpretation loki: sink_contract "push env" loki_settled "delivered_form (line_cap env)" for env
proof (unfold_locales, goal_cases)
  case (1 b s s')
  then show ?case using push_settled [OF 1] by (auto simp: push_spec_def due_def)
next
  case (2 b s r s')
  then show ?case using push_settled [OF 2] by (auto simp: push_spec_def)
next
  case (3 b s res s')
  then show ?case using push_settled [OF 3] by auto
qed

end
