(* ===== verification/Egress.thy ===== *)
theory Egress
  imports PyInt
begin

section \<open>egress.py: rate caps and the daily byte budget\<close>

text \<open>
  \<^verbatim>\<open>src/sf2loki/egress.py\<close>. A token bucket is the record \<open>bucket\<close> and three
  functions of the monotonic clock; the governor is the record \<open>governor\<close>. A UTC date is
  the number of days since the epoch. The two waits of \<^verbatim>\<open>admit\<close> (until midnight, until
  tokens are back) are loops over a list of wake-ups, each a stop or a timeout with the clock
  readings at that moment; a loop whose list is used up is still waiting. The JSON text of the
  persisted counter is a parameter pair (\<open>dump\<close>, \<open>parse\<close>).

  Results: over any stretch of time the bytes (or lines) let through stay within the rate plus
  one burst; one sleep is enough; in drop mode a single lane never exceeds the budget; the
  counter survives a restart. Two results describe what goes wrong with two lanes and after a
  stop: a second paused lane sleeps a whole further day, and the paused mark is never cleared.
\<close>

definition DAY :: int where "DAY = 86400 * 1000000"

type_synonym date = int

definition date_of :: "datetime \<Rightarrow> date" where
  "date_of now = now div DAY"

definition BUDGET_KEY :: string where "BUDGET_KEY = ''egress:budget''"
definition DROP_LOG_INTERVAL :: seconds where "DROP_LOG_INTERVAL = 60"

definition seconds_until_next_utc_midnight :: "datetime \<Rightarrow> seconds" where
  "seconds_until_next_utc_midnight now =
     max 0 (of_int ((date_of now + 1) * DAY - now) / 1000000)"

subsection \<open>The token bucket\<close>

record bucket =
  rate :: rat
  tokens :: rat
  last_refill :: seconds

abbreviation capacity :: "bucket \<Rightarrow> rat" where
  "capacity b \<equiv> rate b"

definition new_bucket :: "rat \<Rightarrow> seconds \<Rightarrow> bucket" where
  "new_bucket r now = \<lparr>rate = r, tokens = r, last_refill = now\<rparr>"

definition refill :: "seconds \<Rightarrow> bucket \<Rightarrow> bucket" where
  "refill now b =
     (if now > last_refill b
      then b\<lparr>tokens := min (capacity b) (tokens b + (now - last_refill b) * rate b), last_refill := now\<rparr>
      else b)"

definition wait_time :: "seconds \<Rightarrow> rat \<Rightarrow> bucket \<Rightarrow> seconds \<times> bucket" where
  "wait_time now amount b =
     (let b1 = refill now b; need = min amount (capacity b1) in
      (if tokens b1 \<ge> need then 0 else (need - tokens b1) / rate b1, b1))"

definition consume :: "seconds \<Rightarrow> rat \<Rightarrow> bucket \<Rightarrow> bucket" where
  "consume now amount b = (let b1 = refill now b in b1\<lparr>tokens := tokens b1 - amount\<rparr>)"

subsection \<open>The governor\<close>

datatype budget_action = Pause | Drop

record egress_config =
  max_lines_per_second :: rat
  max_bytes_per_second :: rat
  daily_byte_budget :: int
  cfg_budget_action :: budget_action

record governor =
  g_budget :: int
  g_action :: budget_action
  line_bucket :: "bucket option"
  byte_bucket :: "bucket option"
  g_date :: date
  g_used :: int
  g_paused :: bool
  warned_80 :: bool
  pause_logged :: bool
  last_drop_log :: "seconds option"

definition new_governor :: "egress_config \<Rightarrow> seconds \<Rightarrow> datetime \<Rightarrow> governor" where
  "new_governor cfg mt now =
     \<lparr>g_budget = daily_byte_budget cfg, g_action = cfg_budget_action cfg,
      line_bucket = (if max_lines_per_second cfg > 0 then Some (new_bucket (max_lines_per_second cfg) mt) else None),
      byte_bucket = (if max_bytes_per_second cfg > 0 then Some (new_bucket (max_bytes_per_second cfg) mt) else None),
      g_date = date_of now, g_used = 0, g_paused = False, warned_80 = False, pause_logged = False,
      last_drop_log = None\<rparr>"

definition enabled :: "egress_config \<Rightarrow> bool" where
  "enabled cfg \<longleftrightarrow>
     max_lines_per_second cfg > 0 \<or> max_bytes_per_second cfg > 0 \<or> daily_byte_budget cfg > 0"

text \<open>\<open>raw\<close> is what \<^verbatim>\<open>state.load(BUDGET_KEY)\<close> returned; \<open>parse\<close> is
  \<^verbatim>\<open>json.loads\<close> with the field accesses, \<open>None\<close> for a corrupt value.\<close>

definition start :: "(string \<Rightarrow> (date \<times> int) option) \<Rightarrow> datetime \<Rightarrow> string option \<Rightarrow> governor \<Rightarrow> governor" where
  "start parse now raw g =
     (let g = g\<lparr>g_date := date_of now, g_used := 0\<rparr> in
      if g_budget g > 0
      then (case raw of
              None \<Rightarrow> g
            | Some t \<Rightarrow>
                if t = [] then g
                else (case parse t of
                        None \<Rightarrow> g
                      | Some (d, bytes) \<Rightarrow> if d = g_date g then g\<lparr>g_used := bytes\<rparr> else g))
      else g)"

definition rollover_to :: "date \<Rightarrow> governor \<Rightarrow> governor" where
  "rollover_to d g =
     g\<lparr>g_date := d, g_used := 0, warned_80 := False, pause_logged := False, last_drop_log := None\<rparr>"

definition maybe_rollover :: "datetime \<Rightarrow> governor \<Rightarrow> governor" where
  "maybe_rollover now g = (if date_of now \<noteq> g_date g then rollover_to (date_of now) g else g)"

definition log_drop :: "seconds \<Rightarrow> governor \<Rightarrow> governor" where
  "log_drop mt g =
     (case last_drop_log g of
        None \<Rightarrow> g\<lparr>last_drop_log := Some mt\<rparr>
      | Some t \<Rightarrow> if mt - t \<ge> DROP_LOG_INTERVAL then g\<lparr>last_drop_log := Some mt\<rparr> else g)"

datatype wake = StopFired | Timeout (wake_utc: datetime) (wake_mono: seconds)
datatype wait_end = Stopped | Over | Waiting

definition pause_enter :: "governor \<Rightarrow> governor" where
  "pause_enter g = g\<lparr>g_paused := True, pause_logged := True\<rparr>"

text \<open>One pass through the pause loop after a timeout.\<close>

definition pause_wake :: "datetime \<Rightarrow> governor \<Rightarrow> wait_end \<times> governor" where
  "pause_wake now g =
     (if date_of now \<noteq> g_date g then (Over, (rollover_to (date_of now) g)\<lparr>g_paused := False\<rparr>)
      else (Waiting, g))"

fun pause_until_rollover_or_stop :: "bool \<Rightarrow> wake list \<Rightarrow> governor \<Rightarrow> wait_end \<times> wake list \<times> governor" where
  "pause_until_rollover_or_stop True ws g = (Stopped, ws, g)"
| "pause_until_rollover_or_stop False [] g = (Waiting, [], g)"
| "pause_until_rollover_or_stop False (StopFired # ws) g = (Stopped, ws, g)"
| "pause_until_rollover_or_stop False (Timeout now mt # ws) g =
     (case pause_wake now g of
        (Over, g1) \<Rightarrow> (Over, ws, g1)
      | (_, g1) \<Rightarrow> pause_until_rollover_or_stop False ws g1)"

definition opt_wait :: "seconds \<Rightarrow> rat \<Rightarrow> bucket option \<Rightarrow> seconds \<times> bucket option" where
  "opt_wait mt amount bo =
     (case bo of None \<Rightarrow> (0, None) | Some b \<Rightarrow> (case wait_time mt amount b of (w, b1) \<Rightarrow> (w, Some b1)))"

text \<open>One pass through the throttle loop: \<open>Inr\<close> let through, \<open>Inl w\<close> sleep \<open>w\<close>.\<close>

definition throttle_try :: "seconds \<Rightarrow> rat \<Rightarrow> rat \<Rightarrow> governor \<Rightarrow> (seconds + unit) \<times> governor" where
  "throttle_try mt lines bytes g =
     (let (w1, lb) = opt_wait mt lines (line_bucket g);
          (w2, bb) = opt_wait mt bytes (byte_bucket g);
          wait = max (max 0 w1) w2
      in if wait \<le> 0
         then (Inr (), g\<lparr>line_bucket := map_option (consume mt lines) lb,
                         byte_bucket := map_option (consume mt bytes) bb\<rparr>)
         else (Inl wait, g\<lparr>line_bucket := lb, byte_bucket := bb\<rparr>))"

fun throttle :: "bool \<Rightarrow> seconds \<Rightarrow> rat \<Rightarrow> rat \<Rightarrow> wake list \<Rightarrow> governor \<Rightarrow> wait_end \<times> governor" where
  "throttle stop mt lines bytes ws g =
     (if line_bucket g = None \<and> byte_bucket g = None then (Over, g)
      else if stop then (Stopped, g)
      else case throttle_try mt lines bytes g of
        (Inr _, g1) \<Rightarrow> (Over, g1)
      | (Inl w, g1) \<Rightarrow>
          (case ws of
             [] \<Rightarrow> (Waiting, g1)
           | StopFired # ws' \<Rightarrow> (Stopped, g1)
           | Timeout now mt' # ws' \<Rightarrow> throttle False mt' lines bytes ws' g1))"

declare throttle.simps [simp del]

datatype admission = Admitted | Refused | AdmitWaiting

definition throttle_admit :: "bool \<Rightarrow> seconds \<Rightarrow> rat \<Rightarrow> rat \<Rightarrow> wake list \<Rightarrow> governor \<Rightarrow> admission \<times> governor" where
  "throttle_admit stop mt lines bytes ws g =
     (case throttle stop mt lines bytes ws g of
        (Waiting, g1) \<Rightarrow> (AdmitWaiting, g1)
      | (_, g1) \<Rightarrow> (Admitted, g1))"

text \<open>\<open>mt_after\<close> is the monotonic clock when the throttle starts.\<close>

definition admit ::
  "bool \<Rightarrow> datetime \<Rightarrow> seconds \<Rightarrow> seconds \<Rightarrow> nat \<Rightarrow> nat \<Rightarrow> wake list \<Rightarrow> governor \<Rightarrow> admission \<times> governor" where
  "admit stop now mt mt_after lines bytes ws g =
     (if g_budget g > 0
      then (let g1 = maybe_rollover now g in
            if g_used g1 + int bytes > g_budget g1
            then if g_action g1 = Drop then (Refused, log_drop mt g1)
                 else (case pause_until_rollover_or_stop stop ws (pause_enter g1) of
                         (Stopped, ws', g2) \<Rightarrow> (Admitted, g2)
                       | (Waiting, ws', g2) \<Rightarrow> (AdmitWaiting, g2)
                       | (Over, ws', g2) \<Rightarrow> throttle_admit stop mt_after (of_nat lines) (of_nat bytes) ws' g2)
            else throttle_admit stop mt_after (of_nat lines) (of_nat bytes) ws g1)
      else throttle_admit stop mt_after (of_nat lines) (of_nat bytes) ws g)"

text \<open>\<open>commit_ok\<close> is whether \<^verbatim>\<open>state.commit\<close> returned; the second component is what it
  was asked to write.\<close>

definition record_push ::
  "(date \<Rightarrow> int \<Rightarrow> string) \<Rightarrow> datetime \<Rightarrow> nat \<Rightarrow> bool \<Rightarrow> governor \<Rightarrow> bool \<times> (string \<times> string) option \<times> governor" where
  "record_push dump now bytes commit_ok g =
     (if g_budget g \<le> 0 then (True, None, g)
      else let g1 = maybe_rollover now g;
               g2 = g1\<lparr>g_used := g_used g1 + int bytes\<rparr>;
               item = (BUDGET_KEY, dump (g_date g2) (g_used g2))
           in if \<not> commit_ok then (False, Some item, g2)
              else (True, Some item,
                    if \<not> warned_80 g2 \<and> 10 * g_used g2 \<ge> 8 * g_budget g2 then g2\<lparr>warned_80 := True\<rparr> else g2))"

definition degraded_reason :: "governor \<Rightarrow> date option" where
  "degraded_reason g =
     (if g_budget g \<le> 0 \<or> g_action g \<noteq> Pause \<or> \<not> g_paused g then None else Some (g_date g + 1))"

subsection \<open>The bucket bounds the rate\<close>

lemma refill_simps [simp]:
  "rate (refill now b) = rate b"
  "refill now (refill now b) = refill now b"
  by (auto simp: refill_def)

lemma refill_gain:
  "tokens (refill now b) \<le> tokens b + rate b * (last_refill (refill now b) - last_refill b)"
  by (simp add: refill_def mult.commute)

lemma refill_last: "last_refill b \<le> T \<Longrightarrow> now \<le> T \<Longrightarrow> last_refill (refill now b) \<le> T"
  by (simp add: refill_def)

lemma refill_mono: "0 < rate b \<Longrightarrow> tokens b \<le> rate b \<Longrightarrow> tokens b \<le> tokens (refill now b)"
  by (simp add: refill_def)

lemma refill_cap: "tokens b \<le> rate b \<Longrightarrow> tokens (refill now b) \<le> rate b"
  by (simp add: refill_def)

text \<open>Any number of throttle passes, by any number of lanes, in the order they run; the bytes
  of those that were let through.\<close>

fun throttle_run :: "(seconds \<times> rat \<times> rat) list \<Rightarrow> governor \<Rightarrow> rat list \<times> governor" where
  "throttle_run [] g = ([], g)"
| "throttle_run ((mt, lines, bytes) # evs) g =
     (case throttle_try mt lines bytes g of
        (Inr _, g1) \<Rightarrow> (case throttle_run evs g1 of (bs, g2) \<Rightarrow> (bytes # bs, g2))
      | (Inl w, g1) \<Rightarrow> throttle_run evs g1)"

lemma throttle_try_bucket:
  assumes "byte_bucket g = Some b" "0 < rate b" "throttle_try mt lines bytes g = (r, g1)"
  shows "case r of
      Inl w \<Rightarrow> byte_bucket g1 = Some (refill mt b)
    | Inr _ \<Rightarrow> min bytes (rate b) \<le> tokens (refill mt b)
        \<and> byte_bucket g1 = Some ((refill mt b)\<lparr>tokens := tokens (refill mt b) - bytes\<rparr>)"
proof -
  have short: "tokens (refill mt b) < min bytes (rate b) \<Longrightarrow> 0 < fst (wait_time mt bytes b)"
    using assms(2) by (simp add: wait_time_def Let_def min_def split: if_splits)
  have pass: "r = Inr () \<Longrightarrow> fst (wait_time mt bytes b) \<le> 0"
    using assms by (auto simp: throttle_try_def opt_wait_def Let_def split: prod.splits if_splits)
  have shape: "byte_bucket g1 = Some (case r of Inl w \<Rightarrow> refill mt b
      | Inr _ \<Rightarrow> (refill mt b)\<lparr>tokens := tokens (refill mt b) - bytes\<rparr>)"
    using assms
    by (auto simp: throttle_try_def opt_wait_def wait_time_def consume_def Let_def split: prod.splits if_splits)
  show ?thesis
  proof (cases r)
    case (Inl w)
    with shape show ?thesis by simp
  next
    case (Inr u)
    with pass have "fst (wait_time mt bytes b) \<le> 0" by simp
    with short have "min bytes (rate b) \<le> tokens (refill mt b)" by (meson not_le)
    with shape Inr show ?thesis by simp
  qed
qed

lemma byte_rate_bound:
  assumes "byte_bucket g = Some b" "0 < rate b" "last_refill b \<le> T" "0 \<le> M"
    and "- max 0 (M - rate b) \<le> tokens b" "tokens b \<le> rate b"
    and "\<forall>(mt, lines, bytes) \<in> set evs. mt \<le> T \<and> 0 \<le> bytes \<and> bytes \<le> M"
  shows "sum_list (fst (throttle_run evs g)) \<le> rate b * (T - last_refill b) + tokens b + max 0 (M - rate b)"
  using assms
proof (induction evs arbitrary: g b)
  case Nil
  then have "0 \<le> rate b * (T - last_refill b)" by simp
  with Nil.prems(5) show ?case by (auto simp only: throttle_run.simps fst_conv sum_list.Nil)
next
  case (Cons ev evs)
  obtain mt lines bytes where ev: "ev = (mt, lines, bytes)" by (metis prod_cases3)
  obtain r g1 where t: "throttle_try mt lines bytes g = (r, g1)" by (metis surj_pair)
  let ?b1 = "refill mt b"
  note B = throttle_try_bucket [OF Cons.prems(1,2) t]
  have gain: "tokens ?b1 \<le> tokens b + rate b * (last_refill ?b1 - last_refill b)" by (rule refill_gain)
  have last: "last_refill ?b1 \<le> T" using Cons.prems ev by (intro refill_last) auto
  have low: "tokens b \<le> tokens ?b1" using Cons.prems by (intro refill_mono) auto
  have cap: "tokens ?b1 \<le> rate b" using Cons.prems by (intro refill_cap) auto
  have dist: "rate b * (T - last_refill ?b1) + rate b * (last_refill ?b1 - last_refill b) = rate b * (T - last_refill b)"
    by (simp add: algebra_simps)
  show ?case
  proof (cases r)
    case (Inl w)
    with B have b1: "byte_bucket g1 = Some ?b1" by simp
    have "sum_list (fst (throttle_run evs g1)) \<le> rate b * (T - last_refill ?b1) + tokens ?b1 + max 0 (M - rate b)"
      using Cons.IH [OF b1] Cons.prems low last cap by simp
    with gain dist ev t Inl show ?thesis by simp
  next
    case (Inr u)
    let ?b2 = "?b1\<lparr>tokens := tokens ?b1 - bytes\<rparr>"
    from B Inr have enough: "min bytes (rate b) \<le> tokens ?b1" and b2: "byte_bucket g1 = Some ?b2" by auto
    have sz: "0 \<le> bytes" "bytes \<le> M" using Cons.prems(7) ev by auto
    have "- max 0 (M - rate b) \<le> tokens ?b1 - bytes" using enough sz by (auto simp: min_def max_def split: if_splits)
    then have "sum_list (fst (throttle_run evs g1)) \<le>
        rate b * (T - last_refill ?b1) + (tokens ?b1 - bytes) + max 0 (M - rate b)"
      using Cons.IH [OF b2] Cons.prems last cap sz by simp
    moreover obtain bs g2 where "throttle_run evs g1 = (bs, g2)" by (metis surj_pair)
    ultimately show ?thesis using gain dist ev t Inr by simp
  qed
qed

text \<open>
  C32. The byte rate cap holds over any stretch of time. Starting from a fresh bucket at time
  \<open>t0\<close>, whatever batches (of at most \<open>M\<close> bytes) any number of lanes ask to send up to time
  \<open>T\<close>, in whatever order their throttle passes run, the bytes let through are at most the
  rate times the elapsed time plus one second's burst, plus the excess of one batch larger
  than the burst.
\<close>

theorem byte_rate_cap:
  assumes "byte_bucket g = Some (new_bucket r t0)" "0 < r" "t0 \<le> T" "0 \<le> M"
    and "\<forall>(mt, lines, bytes) \<in> set evs. mt \<le> T \<and> 0 \<le> bytes \<and> bytes \<le> M"
  shows "sum_list (fst (throttle_run evs g)) \<le> r * (T - t0) + r + max 0 (M - r)"
  using byte_rate_bound [OF assms(1) _ _ assms(4) _ _ assms(5)] assms(2,3)
  by (simp add: new_bucket_def)

lemma wait_time_enough:
  assumes "0 < rate b" "last_refill b \<le> mt" "wait_time mt amount b = (w, b1)" "mt + w \<le> mt'" "0 \<le> w"
  shows "fst (wait_time mt' amount b1) = 0"
proof -
  have b1: "b1 = refill mt b" and w: "w = (if tokens b1 \<ge> min amount (rate b) then 0 else (min amount (rate b) - tokens b1) / rate b)"
    using assms(3) by (auto simp: wait_time_def Let_def)
  have last: "last_refill b1 = mt" "rate b1 = rate b" using assms(2) b1 by (auto simp: refill_def)
  have "min amount (rate b) \<le> tokens b1 + w * rate b"
    using w assms(1) by (auto simp: field_simps split: if_splits)
  moreover have "w * rate b \<le> (mt' - mt) * rate b" using assms(1,4) by simp
  ultimately have "min amount (rate b) \<le> tokens b1 + (mt' - mt) * rate b" by linarith
  moreover have "mt \<le> mt'" using assms(4,5) by simp
  moreover have "min amount (rate b) \<le> rate b" by simp
  ultimately have "min amount (rate b) \<le> tokens (refill mt' b1)"
    using last by (cases "mt' = mt") (auto simp: refill_def)
  then show ?thesis using last by (simp add: wait_time_def Let_def)
qed

definition bucket_ready :: "seconds \<Rightarrow> bucket option \<Rightarrow> bool" where
  "bucket_ready mt bo \<longleftrightarrow> (case bo of None \<Rightarrow> True | Some b \<Rightarrow> 0 < rate b \<and> last_refill b \<le> mt)"

lemma opt_wait_enough:
  assumes "bucket_ready mt bo" "opt_wait mt amount bo = (w, bo1)" "mt + max 0 w \<le> mt'"
  shows "fst (opt_wait mt' amount bo1) = 0"
proof (cases bo)
  case None
  with assms show ?thesis by (simp add: opt_wait_def)
next
  case (Some b)
  obtain w1 b1 where wb: "wait_time mt amount b = (w1, b1)" by (metis surj_pair)
  with assms Some have eq: "w = w1" "bo1 = Some b1" and r: "0 < rate b" "last_refill b \<le> mt"
    by (auto simp: opt_wait_def bucket_ready_def)
  have "0 \<le> w1" using wb r(1) by (auto simp: wait_time_def Let_def not_le intro: less_imp_le split: if_splits)
  with wait_time_enough [OF r wb, of mt'] assms(3) eq have "fst (wait_time mt' amount b1) = 0" by simp
  with eq show ?thesis by (cases "wait_time mt' amount b1") (simp add: opt_wait_def)
qed

text \<open>
  One sleep is enough. When a throttle pass asks for a sleep, the sleep is positive, and
  a pass made after at least that long, with nothing let through in between, lets the batch
  through: the throttle loop cannot starve.
\<close>

theorem throttle_one_sleep:
  assumes "bucket_ready mt (line_bucket g)" "bucket_ready mt (byte_bucket g)"
    and "throttle_try mt lines bytes g = (Inl w, g1)" "mt + w \<le> mt'"
  shows "0 < w \<and> (\<exists>g2. throttle_try mt' lines bytes g1 = (Inr (), g2))"
proof -
  obtain w1 lb where l: "opt_wait mt lines (line_bucket g) = (w1, lb)" by (metis surj_pair)
  obtain w2 bb where b: "opt_wait mt bytes (byte_bucket g) = (w2, bb)" by (metis surj_pair)
  have w: "w = max (max 0 w1) w2" "0 < w" and g1: "g1 = g\<lparr>line_bucket := lb, byte_bucket := bb\<rparr>"
    using assms(3) l b by (auto simp: throttle_try_def Let_def split: if_splits)
  have "fst (opt_wait mt' lines lb) = 0"
    using assms(4) w(1) by (intro opt_wait_enough [OF assms(1) l]) (auto simp: max_def split: if_splits)
  moreover have "fst (opt_wait mt' bytes bb) = 0"
    using assms(4) w(1) by (intro opt_wait_enough [OF assms(2) b]) (auto simp: max_def split: if_splits)
  ultimately show ?thesis
    using w(2) g1 by (auto simp: throttle_try_def Let_def split: prod.splits)
qed

subsection \<open>The daily budget\<close>

lemma throttle_keeps:
  "throttle stop mt lines bytes ws g = (r, g1) \<Longrightarrow>
   g_used g1 = g_used g \<and> g_budget g1 = g_budget g \<and> g_date g1 = g_date g \<and> g_action g1 = g_action g"
proof (induction stop mt lines bytes ws g arbitrary: r g1 rule: throttle.induct)
  case (1 stop mt lines bytes ws g)
  obtain t g2 where t: "throttle_try mt lines bytes g = (t, g2)" by (metis surj_pair)
  then have k: "g_used g2 = g_used g" "g_budget g2 = g_budget g" "g_date g2 = g_date g" "g_action g2 = g_action g"
    by (auto simp: throttle_try_def Let_def split: prod.splits if_splits)
  show ?case
    using "1.prems" "1.IH" [OF _ _ t [symmetric]] t k
    by (subst (asm) throttle.simps) (auto split: if_splits sum.splits list.splits wake.splits)
qed

text \<open>
  In drop mode the budget is never exceeded by a lane of its own, and nothing is dropped
  needlessly: an admitted batch, once recorded (on the same day or after a rollover), leaves
  the day's counter within the budget, and a batch is refused exactly when it would not fit
  into what is left of the day.
\<close>

theorem drop_mode_budget:
  assumes "g_budget g > 0" "g_action g = Drop" "0 \<le> g_used g"
    and "admit stop now mt mt2 lines bytes ws g = (a, g1)"
  shows "(a = Refused \<longleftrightarrow> g_used (maybe_rollover now g) + int bytes > g_budget g)
    \<and> (a = Admitted \<longrightarrow> (case record_push dump now2 bytes ok g1 of (_, _, g2) \<Rightarrow>
          g_used g2 \<le> g_budget g2 \<and> 0 \<le> g_used g2))"
proof -
  let ?g = "maybe_rollover now g"
  have r: "g_budget ?g = g_budget g" "g_action ?g = g_action g" "0 \<le> g_used ?g"
    using assms(3) by (auto simp: maybe_rollover_def rollover_to_def)
  show ?thesis
  proof (cases "g_used ?g + int bytes > g_budget g")
    case True
    with assms r show ?thesis by (auto simp: admit_def Let_def)
  next
    case False
    obtain e g3 where t: "throttle stop mt2 (of_nat lines) (of_nat bytes) ws ?g = (e, g3)" by (metis surj_pair)
    with False assms r have eq: "g1 = g3" "a \<noteq> Refused"
      by (cases e; auto simp: admit_def Let_def throttle_admit_def)+
    have "g_used g1 = g_used ?g" "g_budget g1 = g_budget g"
      using throttle_keeps [OF t] eq r by auto
    with False eq r show ?thesis
      by (auto simp: record_push_def maybe_rollover_def rollover_to_def Let_def)
  qed
qed

text \<open>
  The counter survives a restart. What \<^verbatim>\<open>record\<close> asks the store to write is, read
  back by \<^verbatim>\<open>start\<close> on the same UTC day, the same number of used bytes; read back on
  another day, or corrupt, it counts as zero.
\<close>

theorem budget_survives_restart:
  assumes "\<forall>d n. parse (dump d n) = Some (d, n) \<and> dump d n \<noteq> []" "g_budget g > 0" "g_budget h > 0"
    and "record_push dump now bytes ok g = (r, Some (k, raw), g2)"
  shows "k = BUDGET_KEY
    \<and> g_used (start parse now2 (Some raw) h) = (if date_of now2 = date_of now then g_used g2 else 0)
    \<and> g_used (start (\<lambda>_. None) now2 (Some raw) h) = 0"
proof -
  have "date_of now = g_date (maybe_rollover now g)" by (simp add: maybe_rollover_def rollover_to_def)
  with assms show ?thesis by (auto simp: record_push_def start_def Let_def split: if_splits)
qed

subsection \<open>Two lanes, and a stop during a pause\<close>

text \<open>
  Of two lanes paused on an exhausted budget only one resumes at midnight. The first to
  wake rolls the shared day over; the second, waking later on the same new day, finds the date
  already current, so it goes back to sleep until the following midnight, with the whole new
  budget free and with readiness no longer reporting a pause.
\<close>

theorem second_lane_sleeps_again:
  assumes "date_of now \<noteq> g_date g" "date_of now2 = date_of now" "pause_wake now g = (e, g1)"
  shows "e = Over \<and> pause_wake now2 g1 = (Waiting, g1) \<and> g_used g1 = 0 \<and> degraded_reason g1 = None
    \<and> of_int (now2 div DAY * DAY + DAY - now2) / 1000000 = seconds_until_next_utc_midnight now2"
proof -
  define x where "x = now2 div DAY * DAY + DAY - now2"
  have "now2 mod DAY < DAY" by (simp add: DAY_def)
  then have "0 \<le> x" by (simp add: x_def minus_div_mult_eq_mod [symmetric])
  then have "(0::rat) \<le> of_int x / 1000000" by simp
  then have "(0::rat) \<le> of_int (now2 div DAY * DAY + DAY - now2) / 1000000" unfolding x_def .
  moreover have "(date_of now2 + 1) * DAY - now2 = now2 div DAY * DAY + DAY - now2"
    by (simp add: date_of_def algebra_simps)
  ultimately have "of_int (now2 div DAY * DAY + DAY - now2) / 1000000 = seconds_until_next_utc_midnight now2"
    by (simp add: seconds_until_next_utc_midnight_def max_absorb2)
  with assms show ?thesis
    by (auto simp: pause_wake_def rollover_to_def degraded_reason_def)
qed

text \<open>
  A stop during a pause leaves the governor marked paused for good. The pause that a stop
  ends keeps the mark, and neither \<^verbatim>\<open>start\<close> on the next acquisition of the leadership, on
  whatever day and with whatever stored counter, nor a rollover clears it: readiness reports
  an exhausted budget although a day's budget may be untouched.
\<close>

theorem stop_leaves_paused:
  assumes "g_budget g > 0" "g_action g = Pause" "g_used (maybe_rollover now g) + int bytes > g_budget g"
    and "admit False now mt mt2 lines bytes (StopFired # ws) g = (a, g1)"
  shows "a = Admitted \<and> degraded_reason (maybe_rollover now3 (start parse now2 raw g1)) = Some (date_of now3 + 1)"
proof -
  have r: "g_budget (maybe_rollover now g) = g_budget g" "g_action (maybe_rollover now g) = g_action g"
    by (auto simp: maybe_rollover_def rollover_to_def)
  with assms have g1: "a = Admitted" "g1 = pause_enter (maybe_rollover now g)"
    by (auto simp: admit_def Let_def)
  have "g_paused (start parse now2 raw g1)" "g_budget (start parse now2 raw g1) = g_budget g"
    "g_action (start parse now2 raw g1) = Pause"
    using g1 r assms(2) by (auto simp: start_def pause_enter_def Let_def split: option.splits)
  with g1 assms(1) show ?thesis
    by (auto simp: maybe_rollover_def rollover_to_def degraded_reason_def)
qed

subsection \<open>Witnesses\<close>

definition small_config :: "budget_action \<Rightarrow> egress_config" where
  "small_config a = \<lparr>max_lines_per_second = 0, max_bytes_per_second = 10, daily_byte_budget = 100, cfg_budget_action = a\<rparr>"

lemmas egress_eval = small_config_def new_governor_def new_bucket_def throttle_try_def opt_wait_def wait_time_def
  consume_def refill_def bucket_ready_def maybe_rollover_def rollover_to_def date_of_def DAY_def admit_def
  throttle_admit_def throttle.simps pause_enter_def pause_wake_def

theorem byte_rate_cap_witness:
  "sum_list (fst (throttle_run [(0, 1, 8), (1 / 2, 1, 6), (1, 1, 5)] (new_governor (small_config Drop) 0 0))) \<le> 20"
  using byte_rate_cap [of "new_governor (small_config Drop) 0 0" 10 0 1 10 "[(0, 1, 8), (1 / 2, 1, 6), (1, 1, 5)]"]
  by (simp add: small_config_def new_governor_def)

theorem throttle_one_sleep_witness:
  "\<exists>g1 g2. throttle_try 0 1 10 ((new_governor (small_config Drop) 0 0)\<lparr>byte_bucket := Some \<lparr>rate = 10, tokens = 4, last_refill = 0\<rparr>\<rparr>)
      = (Inl (3 / 5), g1) \<and> throttle_try 1 1 10 g1 = (Inr (), g2)"
proof -
  let ?g = "(new_governor (small_config Drop) 0 0)\<lparr>byte_bucket := Some \<lparr>rate = 10, tokens = 4, last_refill = 0\<rparr>\<rparr>"
  obtain g1 where t: "throttle_try 0 1 10 ?g = (Inl (3 / 5), g1)" by (simp add: egress_eval)
  have "bucket_ready 0 (line_bucket ?g)" "bucket_ready 0 (byte_bucket ?g)" by (simp_all add: egress_eval)
  from throttle_one_sleep [OF this t, of 1] t show ?thesis by auto
qed

theorem drop_mode_budget_witness:
  "\<exists>g1. admit False 0 0 0 1 60 [] ((new_governor (small_config Drop) 0 0)\<lparr>g_used := 50\<rparr>) = (Refused, g1)"
proof -
  let ?g = "(new_governor (small_config Drop) 0 0)\<lparr>g_used := 50\<rparr>"
  obtain a g1 where a: "admit False 0 0 0 1 60 [] ?g = (a, g1)" by (metis surj_pair)
  have "a = Refused"
    using drop_mode_budget [OF _ _ _ a, of "\<lambda>_ _. []" 0 True] by (simp add: egress_eval)
  with a show ?thesis by simp
qed

definition toy_dump :: "date \<Rightarrow> int \<Rightarrow> string" where
  "toy_dump d n = show_int d @ ''/'' @ show_int n"

definition toy_parse :: "string \<Rightarrow> (date \<times> int) option" where
  "toy_parse t =
     (case (py_int (takeWhile (\<lambda>c. c \<noteq> CHR ''/'') t), py_int (drop 1 (dropWhile (\<lambda>c. c \<noteq> CHR ''/'') t))) of
        (Some d, Some n) \<Rightarrow> Some (d, n)
      | _ \<Rightarrow> None)"

lemma slash_not_in_int: "c \<in> set (show_int i) \<Longrightarrow> c \<noteq> CHR ''/''"
  using show_nat_digits [of "nat i"] show_nat_digits [of "nat (- i)"]
  by (auto simp: show_int_def list_all_iff is_digit_def less_eq_char_def split: if_splits)

lemma toy_parse_dump: "toy_parse (toy_dump d n) = Some (d, n) \<and> toy_dump d n \<noteq> []"
proof -
  have "takeWhile (\<lambda>c. c \<noteq> CHR ''/'') (show_int d @ ''/'' @ show_int n) = show_int d"
    "dropWhile (\<lambda>c. c \<noteq> CHR ''/'') (show_int d @ ''/'' @ show_int n) = ''/'' @ show_int n"
    using slash_not_in_int by (simp_all add: takeWhile_append2 dropWhile_append2)
  then show ?thesis by (simp add: toy_parse_def toy_dump_def)
qed

theorem budget_survives_restart_witness:
  "g_used (start toy_parse 5 (Some (toy_dump 0 60)) (new_governor (small_config Drop) 9 5)) = 60"
proof -
  let ?g = "new_governor (small_config Drop) 0 0"
  have r: "record_push toy_dump 0 60 True ?g = (True, Some (BUDGET_KEY, toy_dump 0 60), ?g\<lparr>g_used := 60\<rparr>)"
    by (simp add: record_push_def egress_eval)
  from budget_survives_restart [OF _ _ _ r, of toy_parse "new_governor (small_config Drop) 9 5" 5] toy_parse_dump
  show ?thesis by (simp add: egress_eval)
qed

theorem second_lane_sleeps_again_witness:
  "pause_wake (DAY + 1) ((rollover_to 1 (pause_enter (new_governor (small_config Pause) 0 0)))\<lparr>g_paused := False\<rparr>)
     = (Waiting, (rollover_to 1 (pause_enter (new_governor (small_config Pause) 0 0)))\<lparr>g_paused := False\<rparr>)"
  using second_lane_sleeps_again [of DAY "pause_enter (new_governor (small_config Pause) 0 0)" "DAY + 1"]
  by (simp add: pause_wake_def date_of_def DAY_def new_governor_def pause_enter_def)

theorem stop_leaves_paused_witness:
  "\<exists>g1. admit False 0 0 0 1 200 [StopFired] (new_governor (small_config Pause) 0 0) = (Admitted, g1)
     \<and> degraded_reason (maybe_rollover DAY (start (\<lambda>_. None) DAY None g1)) = Some 2"
proof -
  let ?g = "new_governor (small_config Pause) 0 0"
  obtain a g1 where a: "admit False 0 0 0 1 200 [StopFired] ?g = (a, g1)" by (metis surj_pair)
  from stop_leaves_paused [OF _ _ _ a, of DAY "\<lambda>_. None" DAY None] a show ?thesis
    by (simp add: small_config_def new_governor_def maybe_rollover_def rollover_to_def date_of_def DAY_def)
qed

end
