(* ===== verification/StoreSpec.thy ===== *)
theory StoreSpec
  imports Prelude
begin

section \<open>The checkpoint store contract (state/base.py)\<close>

text \<open>
  \<^verbatim>\<open>src/sf2loki/state/base.py\<close> declares the seam every backend fills: \<open>load\<close> one
  key, \<open>commit\<close> (with the batched \<open>commit_many\<close>) and \<open>reset\<close>. A backend is a state
  \<open>'s\<close> (its cache together with the medium it writes to) and operations that return a
  value or raise.

  The locale \<open>checkpoint_store\<close> states what the pipeline and the sources rely on: what is
  durable is a finite map \<open>view\<close>; a load of a key that is not reserved reads it; a commit that
  returns has merged exactly its items; a commit that raises has merged all of them or none,
  and after \<open>reset\<close> the store serves what is durable. The client lemmas below are proved
  once from these laws and used through the interpretations on the file store, the object
  store and the per-org view.

  Code that raises threads its state through \<open>and_then\<close>: state changes made before an
  exception stay, as they do in Python.
\<close>

type_synonym ('s, 'e, 'a) op = "'s \<Rightarrow> ('e + 'a) \<times> 's"
type_synonym doc = "(string, string) dict"

definition and_then :: "('s, 'e, 'a) op \<Rightarrow> ('a \<Rightarrow> ('s, 'e, 'b) op) \<Rightarrow> ('s, 'e, 'b) op" where
  "and_then m f s = (case m s of (Inl e, s') \<Rightarrow> (Inl e, s') | (Inr a, s') \<Rightarrow> f a s')"

definition ret :: "'a \<Rightarrow> ('s, 'e, 'a) op" where
  "ret a s = (Inr a, s)"

definition raise :: "'e \<Rightarrow> ('s, 'e, 'a) op" where
  "raise e s = (Inl e, s)"

definition get_state :: "('s, 'e, 's) op" where
  "get_state s = (Inr s, s)"

lemma and_then_Inr:
  "and_then m f s = (Inr b, t) \<longleftrightarrow> (\<exists>a s'. m s = (Inr a, s') \<and> f a s' = (Inr b, t))"
  by (auto simp: and_then_def split: sum.splits prod.splits)

lemma and_then_Inl:
  "and_then m f s = (Inl e, t) \<longleftrightarrow>
     m s = (Inl e, t) \<or> (\<exists>a s'. m s = (Inr a, s') \<and> f a s' = (Inl e, t))"
  by (auto simp: and_then_def split: sum.splits prod.splits)

lemma ret_eq [simp]: "ret a s = (r, t) \<longleftrightarrow> r = Inr a \<and> t = s"
  by (auto simp: ret_def)

lemma raise_eq [simp]: "raise e s = (r, t) \<longleftrightarrow> r = Inl e \<and> t = s"
  by (auto simp: raise_def)

text \<open>Items a caller may commit: a dictionary that stays off the reserved keys.\<close>

definition items_ok :: "string set \<Rightarrow> doc \<Rightarrow> bool" where
  "items_ok R items \<longleftrightarrow> wf_dict items \<and> fst ` set items \<inter> R = {}"

definition outside :: "string set \<Rightarrow> (string \<rightharpoonup> string) \<Rightarrow> string \<rightharpoonup> string" where
  "outside R m = m |` (- R)"

lemma outside_in [simp]: "k \<notin> R \<Longrightarrow> outside R m k = m k"
  by (simp add: outside_def)

lemma outside_out [simp]: "k \<in> R \<Longrightarrow> outside R m k = None"
  by (simp add: outside_def)

lemma outside_idem [simp]: "outside R (outside R m) = outside R m"
  by (simp add: outside_def)

lemma items_ok_None: "items_ok R items \<Longrightarrow> k \<in> R \<Longrightarrow> map_of items k = None"
  by (force simp: items_ok_def map_of_eq_None_iff)

lemma outside_add: "items_ok R items \<Longrightarrow> outside R (m ++ map_of items) = outside R m ++ map_of items"
  by (rule ext) (auto simp: outside_def restrict_map_def map_add_def items_ok_None split: option.splits)

lemma map_of_merge_add: "wf_dict b \<Longrightarrow> map_of (dict_merge a b) = map_of a ++ map_of b"
  by (rule ext) (simp add: map_of_dict_merge_wf map_add_def)

locale checkpoint_store =
  fixes load :: "string \<Rightarrow> ('s, 'e, string option) op"
    and commit_many :: "'env \<Rightarrow> doc \<Rightarrow> ('s, 'e, unit) op"
    and reset :: "'s \<Rightarrow> 's"
    and inv :: "'s \<Rightarrow> bool"
    and view :: "'s \<Rightarrow> string \<rightharpoonup> string"
    and reserved :: "string set"
  assumes view_outside: "inv s \<Longrightarrow> outside reserved (view s) = view s"
    and load_law: "inv s \<Longrightarrow> k \<notin> reserved \<Longrightarrow> load k s = (r, s') \<Longrightarrow>
        inv s' \<and> view s' = view s \<and> (\<forall>v. r = Inr v \<longrightarrow> v = view s k)"
    and commit_law: "inv s \<Longrightarrow> items_ok reserved items \<Longrightarrow> commit_many env items s = (Inr (), s') \<Longrightarrow>
        inv s' \<and> view s' = view s ++ map_of items"
    and commit_raise_law: "inv s \<Longrightarrow> items_ok reserved items \<Longrightarrow> commit_many env items s = (Inl e, s') \<Longrightarrow>
        inv (reset s') \<and> (view (reset s') = view s \<or> view (reset s') = view s ++ map_of items)"
begin

text \<open>A run of commits; one that raises is followed by \<open>reset\<close> (leadership loss).\<close>

definition commit_step :: "'env \<times> doc \<Rightarrow> 's \<Rightarrow> bool \<times> 's" where
  "commit_step c s =
     (case commit_many (fst c) (snd c) s of
        (Inr _, s') \<Rightarrow> (True, s')
      | (Inl _, s') \<Rightarrow> (False, reset s'))"

primrec commit_run :: "('env \<times> doc) list \<Rightarrow> 's \<Rightarrow> bool list \<times> 's" where
  "commit_run [] s = ([], s)"
| "commit_run (c # cs) s =
     (let (ok, s1) = commit_step c s; (oks, s2) = commit_run cs s1 in (ok # oks, s2))"

lemma commit_stepD:
  assumes "inv s" "items_ok reserved (snd c)" "commit_step c s = (ok, s')"
  shows "inv s'"
    and "ok \<Longrightarrow> view s' = view s ++ map_of (snd c)"
    and "view s' = view s \<or> view s' = view s ++ map_of (snd c)"
proof -
  obtain r t where r: "commit_many (fst c) (snd c) s = (r, t)" by force
  have "inv s' \<and> (ok \<longrightarrow> view s' = view s ++ map_of (snd c))
    \<and> (view s' = view s \<or> view s' = view s ++ map_of (snd c))"
  proof (cases r)
    case (Inl e)
    with r assms(3) have "\<not> ok" "s' = reset t" by (auto simp: commit_step_def)
    with commit_raise_law [of s "snd c" "fst c" e t] assms(1,2) r Inl show ?thesis by blast
  next
    case (Inr u)
    with r assms(3) have "ok" "s' = t" by (auto simp: commit_step_def)
    with commit_law [of s "snd c" "fst c" t] assms(1,2) r Inr show ?thesis by simp
  qed
  then show "inv s'" "ok \<Longrightarrow> view s' = view s ++ map_of (snd c)"
    "view s' = view s \<or> view s' = view s ++ map_of (snd c)" by blast+
qed

text \<open>When no commit raises, the durable map is the items merged in order.\<close>

lemma commit_run_all:
  assumes "inv s" "\<forall>c \<in> set cs. items_ok reserved (snd c)" "commit_run cs s = (oks, s')" "\<forall>ok \<in> set oks. ok"
  shows "inv s' \<and> view s' = fold (\<lambda>c m. m ++ map_of (snd c)) cs (view s)"
  using assms
proof (induction cs arbitrary: s oks)
  case Nil
  then show ?case by simp
next
  case (Cons c cs)
  obtain ok s1 where one: "commit_step c s = (ok, s1)" by force
  obtain oks' s2 where rest: "commit_run cs s1 = (oks', s2)" by force
  from Cons.prems(3) one rest have eq: "oks = ok # oks'" "s' = s2" by auto
  from eq Cons.prems(4) have ok: "ok" "\<forall>ok \<in> set oks'. ok" by auto
  have "inv s1" and v: "view s1 = view s ++ map_of (snd c)"
    using commit_stepD [OF Cons.prems(1) _ one] ok Cons.prems(2) by auto
  then show ?case
    using Cons.IH [of s1 oks'] rest ok eq Cons.prems(2) by simp
qed

text \<open>Whatever raises, a durable value is the initial one or one that was committed.\<close>

lemma commit_run_no_invention:
  assumes "inv s" "\<forall>c \<in> set cs. items_ok reserved (snd c)" "commit_run cs s = (oks, s')"
  shows "inv s' \<and> (view s' k = view s k \<or> (\<exists>c \<in> set cs. \<exists>v. map_of (snd c) k = Some v \<and> view s' k = Some v))"
  using assms
proof (induction cs arbitrary: s oks)
  case Nil
  then show ?case by simp
next
  case (Cons c cs)
  obtain ok s1 where one: "commit_step c s = (ok, s1)" by force
  obtain oks' s2 where rest: "commit_run cs s1 = (oks', s2)" by force
  from Cons.prems(3) one rest have s2: "s' = s2" by auto
  have i: "inv s1" and v: "view s1 = view s \<or> view s1 = view s ++ map_of (snd c)"
    using commit_stepD [OF Cons.prems(1) _ one] Cons.prems(2) by auto
  have "view s1 k = view s k \<or> (\<exists>x. map_of (snd c) k = Some x \<and> view s1 k = Some x)"
    using v by (auto simp: map_add_def split: option.splits)
  moreover have "inv s2 \<and> (view s2 k = view s1 k \<or>
      (\<exists>c \<in> set cs. \<exists>v. map_of (snd c) k = Some v \<and> view s2 k = Some v))"
    using Cons.IH [of s1 oks'] i rest s2 Cons.prems(2) by simp
  ultimately show ?case using s2 by fastforce
qed

text \<open>A source that resumes after a commit reads the token that was committed.\<close>

lemma load_after_commit:
  assumes "inv s" "items_ok reserved items" "commit_many env items s = (Inr (), s1)"
    and "k \<notin> reserved" "load k s1 = (Inr v, s2)"
  shows "v = (case map_of items k of Some x \<Rightarrow> Some x | None \<Rightarrow> view s k)"
proof -
  have "inv s1" "view s1 = view s ++ map_of items" using commit_law assms(1-3) by blast+
  then show ?thesis using load_law [OF _ assms(4,5)] by (auto simp: map_add_def split: option.splits)
qed

end

end
