(* ===== verification/FileStore.thy ===== *)
theory FileStore
  imports StoreSpec PyInt
begin

section \<open>state/file_store.py: the JSON-file checkpoint store\<close>

text \<open>
  \<^verbatim>\<open>src/sf2loki/state/file_store.py\<close>. The medium is a \<open>disk\<close>: the state file and
  the owner of the \<^verbatim>\<open>.lock\<close> sidecar's flock. A store is the record \<open>file_store\<close>
  (cache, held lock, the installed fence and epoch callbacks); a callback is a function of a
  world \<open>'w\<close>, the moment at which the call evaluates it. \<open>write_io\<close> is how the
  operating system answers the write: the temporary file cannot be written (the state file is
  untouched, since the rename comes after), the directory cannot be synced after the rename,
  or all is well.

  Results: the laws of \<open>checkpoint_store\<close>, a failed commit is all or nothing, the flock
  admits one store, a fence veto leaves everything as it was, and the epoch check lets no
  older leader overwrite a newer one as long as read and rename are not interleaved; when they
  are, it does (\<open>epoch_fence_not_atomic\<close>).
\<close>

definition EPOCH_KEY :: string where
  "EPOCH_KEY = ''__fence_epoch__''"

datatype file_error =
    StateFenceError
  | StateFileLockError
  | StateFileCorruptError
  | EpochValueError
  | WriteOSError

datatype file_content =
    FileAbsent
  | FileNotJson
  | FileNotObject
  | FileDoc doc

record disk =
  content :: file_content
  lock_owner :: "nat option"

record 'w file_store =
  store_id :: nat
  exclusive_lock :: bool
  cache :: "doc option"
  lock_held :: bool
  fence :: "('w \<Rightarrow> bool) option"
  epoch_fn :: "('w \<Rightarrow> int option) option"

datatype write_io = WriteOk | WriteFails | DirSyncFails

type_synonym ('w, 'a) file_op = "(disk \<times> 'w file_store, file_error, 'a) op"

definition new_file_store :: "nat \<Rightarrow> bool \<Rightarrow> 'w file_store" where
  "new_file_store i excl =
     \<lparr>store_id = i, exclusive_lock = excl, cache = None, lock_held = False, fence = None, epoch_fn = None\<rparr>"

definition set_fence :: "('w \<Rightarrow> bool) \<Rightarrow> 'w file_store \<Rightarrow> 'w file_store" where
  "set_fence f s = s\<lparr>fence := Some f\<rparr>"

definition set_epoch :: "('w \<Rightarrow> int option) \<Rightarrow> 'w file_store \<Rightarrow> 'w file_store" where
  "set_epoch f s = s\<lparr>epoch_fn := Some f\<rparr>"

definition close :: "disk \<times> 'w file_store \<Rightarrow> disk \<times> 'w file_store" where
  "close = (\<lambda>(d, s).
     if lock_held s then (d\<lparr>lock_owner := None\<rparr>, s\<lparr>lock_held := False\<rparr>) else (d, s))"

subsection \<open>Helpers called under the store's lock\<close>

definition acquire_instance_lock :: "('w, unit) file_op" where
  "acquire_instance_lock = (\<lambda>(d, s).
     if \<not> exclusive_lock s then (Inr (), d, s)
     else if lock_held s then (Inr (), d, s)
     else if lock_owner d \<noteq> None then (Inl StateFileLockError, d, s)
     else (Inr (), d\<lparr>lock_owner := Some (store_id s)\<rparr>, s\<lparr>lock_held := True\<rparr>))"

definition read_file_fresh :: "('w, doc) file_op" where
  "read_file_fresh = (\<lambda>(d, s).
     (case content d of
        FileAbsent \<Rightarrow> (Inr [], d, s)
      | FileNotJson \<Rightarrow> (Inl StateFileCorruptError, d, s)
      | FileNotObject \<Rightarrow> (Inl StateFileCorruptError, d, s)
      | FileDoc doc \<Rightarrow> (Inr doc, d, s)))"

definition put_cache :: "doc \<Rightarrow> ('w, unit) file_op" where
  "put_cache doc = (\<lambda>(d, s). (Inr (), d, s\<lparr>cache := Some doc\<rparr>))"

definition ensure_loaded :: "('w, doc) file_op" where
  "ensure_loaded =
     and_then acquire_instance_lock (\<lambda>_. and_then get_state (\<lambda>(d, s).
       (case cache s of
          Some doc \<Rightarrow> ret doc
        | None \<Rightarrow> and_then read_file_fresh (\<lambda>doc. and_then (put_cache doc) (\<lambda>_. ret doc)))))"

definition flush :: "write_io \<Rightarrow> ('w, unit) file_op" where
  "flush io = (\<lambda>(d, s).
     (case io of
        WriteFails \<Rightarrow> (Inl WriteOSError, d, s)
      | DirSyncFails \<Rightarrow> (Inl WriteOSError, d\<lparr>content := FileDoc (the (cache s))\<rparr>, s)
      | WriteOk \<Rightarrow> (Inr (), d\<lparr>content := FileDoc (the (cache s))\<rparr>, s)))"

subsection \<open>The protocol\<close>

definition reset :: "disk \<times> 'w file_store \<Rightarrow> disk \<times> 'w file_store" where
  "reset = (\<lambda>(d, s). (d, s\<lparr>cache := None\<rparr>))"

definition load :: "string \<Rightarrow> ('w, string option) file_op" where
  "load key = and_then ensure_loaded (\<lambda>doc. ret (map_of doc key))"

definition check_fence :: "'w \<Rightarrow> ('w, unit) file_op" where
  "check_fence w = (\<lambda>(d, s).
     (case fence s of
        None \<Rightarrow> (Inr (), d, s)
      | Some f \<Rightarrow> if f w then (Inr (), d, s) else (Inl StateFenceError, d, s)))"

text \<open>\<^verbatim>\<open>int(stored_raw) if stored_raw is not None else None\<close>.\<close>

definition stored_epoch :: "doc \<Rightarrow> file_error + int option" where
  "stored_epoch doc =
     (case map_of doc EPOCH_KEY of
        None \<Rightarrow> Inr None
      | Some raw \<Rightarrow> (case py_int raw of None \<Rightarrow> Inl EpochValueError | Some e \<Rightarrow> Inr (Some e)))"

definition stale :: "int option \<Rightarrow> int option \<Rightarrow> bool" where
  "stale stored mine \<longleftrightarrow>
     (case (stored, mine) of (Some a, Some b) \<Rightarrow> a > b | _ \<Rightarrow> False)"

definition stamp :: "int option \<Rightarrow> doc \<Rightarrow> doc" where
  "stamp mine doc = (case mine of None \<Rightarrow> doc | Some e \<Rightarrow> AList.update EPOCH_KEY (show_int e) doc)"

text \<open>The part both epoch-fenced paths share: lock, fresh read, staleness check.\<close>

definition fresh_fenced :: "int option \<Rightarrow> ('w, doc) file_op" where
  "fresh_fenced mine =
     and_then acquire_instance_lock (\<lambda>_.
     and_then read_file_fresh (\<lambda>doc.
       (case stored_epoch doc of
          Inl e \<Rightarrow> raise e
        | Inr stored \<Rightarrow> if stale stored mine then raise StateFenceError else ret doc)))"

definition commit_many_epoch_fenced :: "write_io \<Rightarrow> int option \<Rightarrow> doc \<Rightarrow> ('w, unit) file_op" where
  "commit_many_epoch_fenced io mine items =
     and_then (fresh_fenced mine) (\<lambda>doc.
     and_then (put_cache (stamp mine (dict_merge doc items))) (\<lambda>_. flush io))"

definition delete_epoch_fenced :: "write_io \<Rightarrow> int option \<Rightarrow> string \<Rightarrow> ('w, unit) file_op" where
  "delete_epoch_fenced io mine key =
     and_then (fresh_fenced mine) (\<lambda>doc.
       if map_of doc key = None then put_cache doc
       else and_then (put_cache (stamp mine (AList.delete key doc))) (\<lambda>_. flush io))"

definition commit_many :: "'w \<times> write_io \<Rightarrow> doc \<Rightarrow> ('w, unit) file_op" where
  "commit_many env items =
     and_then (check_fence (fst env)) (\<lambda>_. and_then get_state (\<lambda>(d, s).
       (case epoch_fn s of
          Some f \<Rightarrow> commit_many_epoch_fenced (snd env) (f (fst env)) items
        | None \<Rightarrow>
            and_then ensure_loaded (\<lambda>doc.
            and_then (put_cache (dict_merge doc items)) (\<lambda>_. flush (snd env))))))"

definition commit :: "'w \<times> write_io \<Rightarrow> string \<Rightarrow> string \<Rightarrow> ('w, unit) file_op" where
  "commit env key v = commit_many env [(key, v)]"

definition delete :: "'w \<times> write_io \<Rightarrow> string \<Rightarrow> ('w, unit) file_op" where
  "delete env key =
     and_then (check_fence (fst env)) (\<lambda>_. and_then get_state (\<lambda>(d, s).
       (case epoch_fn s of
          Some f \<Rightarrow> delete_epoch_fenced (snd env) (f (fst env)) key
        | None \<Rightarrow>
            and_then ensure_loaded (\<lambda>doc.
              if map_of doc key = None then ret ()
              else and_then (put_cache (AList.delete key doc)) (\<lambda>_. flush (snd env))))))"

lemmas file_defs = acquire_instance_lock_def read_file_fresh_def put_cache_def ensure_loaded_def
  flush_def check_fence_def fresh_fenced_def and_then_def ret_def raise_def get_state_def

subsection \<open>What is durable\<close>

definition readable :: "disk \<Rightarrow> doc option" where
  "readable d = (case content d of FileAbsent \<Rightarrow> Some [] | FileDoc doc \<Rightarrow> Some doc | _ \<Rightarrow> None)"

definition persisted :: "disk \<Rightarrow> string \<rightharpoonup> string" where
  "persisted d = (case readable d of Some doc \<Rightarrow> map_of doc | None \<Rightarrow> Map.empty)"

text \<open>The single-writer invariant: a loaded cache is the document on disk.\<close>

definition file_inv :: "disk \<times> 'w file_store \<Rightarrow> bool" where
  "file_inv = (\<lambda>(d, s). \<forall>doc. cache s = Some doc \<longrightarrow> readable d = Some doc)"

definition file_view :: "disk \<times> 'w file_store \<Rightarrow> string \<rightharpoonup> string" where
  "file_view = (\<lambda>(d, s). outside {EPOCH_KEY} (persisted d))"

lemma readable_content [simp]:
  "content d = FileAbsent \<Longrightarrow> readable d = Some []"
  "content d = FileDoc doc \<Longrightarrow> readable d = Some doc"
  "content d = FileNotJson \<Longrightarrow> readable d = None"
  "content d = FileNotObject \<Longrightarrow> readable d = None"
  by (simp_all add: readable_def)

lemma readable_cong: "content d' = content d \<Longrightarrow> readable d' = readable d"
  by (simp add: readable_def)

lemma read_file_fresh_eq:
  "read_file_fresh (d, s) =
     ((case readable d of Some doc \<Rightarrow> Inr doc | None \<Rightarrow> Inl StateFileCorruptError), d, s)"
  by (simp add: read_file_fresh_def readable_def split: file_content.split)

lemma acquire_instance_lockD:
  assumes "acquire_instance_lock (d, s) = (r, d', s')"
  shows "content d' = content d" "cache s' = cache s" "fence s' = fence s" "epoch_fn s' = epoch_fn s"
    "store_id s' = store_id s" "exclusive_lock s' = exclusive_lock s"
  using assms by (auto simp: acquire_instance_lock_def split: if_splits)

lemma ensure_loadedD:
  assumes "ensure_loaded (d, s) = (r, d', s')"
  shows "content d' = content d"
    and "cache s = Some doc \<Longrightarrow> cache s' = Some doc \<and> (\<forall>v. r = Inr v \<longrightarrow> v = doc)"
    and "cache s = None \<Longrightarrow> (\<forall>v. r = Inr v \<longrightarrow> readable d = Some v \<and> cache s' = Some v)"
    and "cache s = None \<Longrightarrow> r = Inl e \<Longrightarrow> cache s' = None"
proof -
  obtain r1 d1 s1 where a: "acquire_instance_lock (d, s) = (r1, d1, s1)" by (metis prod_cases3)
  note aD = acquire_instance_lockD [OF a]
  have rd: "readable d1 = readable d" using aD(1) by (rule readable_cong)
  from assms a aD rd
  show "content d' = content d"
    "cache s = Some doc \<Longrightarrow> cache s' = Some doc \<and> (\<forall>v. r = Inr v \<longrightarrow> v = doc)"
    "cache s = None \<Longrightarrow> (\<forall>v. r = Inr v \<longrightarrow> readable d = Some v \<and> cache s' = Some v)"
    "cache s = None \<Longrightarrow> r = Inl e \<Longrightarrow> cache s' = None"
    by (auto simp: ensure_loaded_def and_then_def read_file_fresh_eq put_cache_def ret_def get_state_def
        split: sum.splits option.splits)
qed

lemma ensure_loaded_inv:
  assumes "ensure_loaded (d, s) = (r, d', s')" "file_inv (d, s)"
  shows "file_inv (d', s') \<and> content d' = content d
    \<and> (\<forall>v. r = Inr v \<longrightarrow> readable d = Some v \<and> cache s' = Some v)"
proof -
  note D = ensure_loadedD [OF assms(1)]
  have rd: "readable d' = readable d" using D(1) by (rule readable_cong)
  show ?thesis
  proof (cases "cache s")
    case None
    then show ?thesis using D(1,3,4) rd by (cases r) (auto simp: file_inv_def)
  next
    case (Some doc)
    with assms(2) have "readable d = Some doc" by (simp add: file_inv_def)
    with Some D(1) D(2) [of doc] rd show ?thesis by (auto simp: file_inv_def)
  qed
qed

lemma fresh_fencedD:
  assumes "fresh_fenced mine (d, s) = (r, d', s')"
  shows "content d' = content d \<and> cache s' = cache s \<and> fence s' = fence s \<and> epoch_fn s' = epoch_fn s
    \<and> (\<forall>v. r = Inr v \<longrightarrow> readable d = Some v \<and> (\<exists>st. stored_epoch v = Inr st \<and> \<not> stale st mine))"
proof -
  obtain r1 d1 s1 where a: "acquire_instance_lock (d, s) = (r1, d1, s1)" by (metis prod_cases3)
  note aD = acquire_instance_lockD [OF a]
  have rd: "readable d1 = readable d" using aD(1) by (rule readable_cong)
  from assms a aD rd show ?thesis
    by (auto simp: fresh_fenced_def and_then_def read_file_fresh_eq ret_def raise_def
        split: sum.splits option.splits if_splits)
qed

subsection \<open>One write per commit\<close>

text \<open>The epoch a call stamps, and the document it starts from.\<close>

definition mine_of :: "'w \<Rightarrow> 'w file_store \<Rightarrow> int option" where
  "mine_of w s = (case epoch_fn s of None \<Rightarrow> None | Some f \<Rightarrow> f w)"

definition base_doc :: "disk \<Rightarrow> 'w file_store \<Rightarrow> doc option" where
  "base_doc d s = (if epoch_fn s = None \<and> cache s \<noteq> None then cache s else readable d)"

lemma write_new_doc:
  assumes "and_then (put_cache new) (\<lambda>_. flush io) (d, s) = (r, d', s')"
  shows "s' = s\<lparr>cache := Some new\<rparr>"
    "content d' = (if io = WriteFails then content d else FileDoc new)"
    "r = (if io = WriteOk then Inr () else Inl WriteOSError)"
  using assms by (auto simp: and_then_def put_cache_def flush_def split: write_io.splits)

text \<open>Either nothing was written and the call raised, or exactly the merged document was.\<close>

lemma commit_many_cases:
  assumes "commit_many (w, io) items (d, s) = (r, d', s')"
  obtains (refused) e where "r = Inl e" "content d' = content d" "cache s' = cache s \<or> cache s' = readable d"
  | (written) base new where "base_doc d s = Some base" "new = stamp (mine_of w s) (dict_merge base items)"
      "cache s' = Some new" "content d' = (if io = WriteFails then content d else FileDoc new)"
      "r = (if io = WriteOk then Inr () else Inl WriteOSError)"
      "\<And>f. epoch_fn s = Some f \<Longrightarrow> \<exists>st. stored_epoch base = Inr st \<and> \<not> stale st (f w)"
proof -
  obtain r0 d0 s0 where f: "check_fence w (d, s) = (r0, d0, s0)" by (metis prod_cases3)
  then have s0: "d0 = d" "s0 = s" by (auto simp: check_fence_def split: option.splits if_splits)
  show thesis
  proof (cases r0)
    case (Inl e)
    with assms f s0 refused show thesis by (auto simp: commit_many_def and_then_def get_state_def)
  next
    case (Inr u)
    show thesis
    proof (cases "epoch_fn s")
      case None
      obtain r1 d1 s1 where l: "ensure_loaded (d, s) = (r1, d1, s1)" by (metis prod_cases3)
      note D = ensure_loadedD [OF l]
      show thesis
      proof (cases r1)
        case (Inl e)
        have "cache s1 = cache s" using D(2,4) Inl by (cases "cache s") auto
        with Inl l None Inr f s0 assms refused D(1) show thesis
          by (auto simp: commit_many_def and_then_def get_state_def)
      next
        case (Inr base)
        have b: "base_doc d s = Some base"
          using D(2,3) Inr None by (cases "cache s") (auto simp: base_doc_def)
        have wr: "and_then (put_cache (dict_merge base items)) (\<lambda>_. flush io) (d1, s1) = (r, d', s')"
          using assms f s0 \<open>r0 = Inr u\<close> None l Inr by (simp add: commit_many_def and_then_def get_state_def)
        from write_new_doc [OF wr] b None D(1) show thesis
          by (intro written [of base "dict_merge base items"]) (auto simp: mine_of_def stamp_def)
      qed
    next
      case (Some g)
      obtain r1 d1 s1 where l: "fresh_fenced (g w) (d, s) = (r1, d1, s1)" by (metis prod_cases3)
      note D = fresh_fencedD [OF l]
      show thesis
      proof (cases r1)
        case (Inl e)
        with l Some Inr f s0 assms refused D show thesis
          by (auto simp: commit_many_def commit_many_epoch_fenced_def and_then_def get_state_def)
      next
        case (Inr base)
        let ?new = "stamp (g w) (dict_merge base items)"
        have wr: "and_then (put_cache ?new) (\<lambda>_. flush io) (d1, s1) = (r, d', s')"
          using assms f s0 \<open>r0 = Inr u\<close> Some l Inr
          by (simp add: commit_many_def commit_many_epoch_fenced_def and_then_def get_state_def)
        from write_new_doc [OF wr] D Inr Some show thesis
          by (intro written [of base ?new]) (auto simp: mine_of_def base_doc_def)
      qed
    qed
  qed
qed

lemma map_of_stamp:
  "map_of (stamp m doc) = (case m of None \<Rightarrow> map_of doc | Some e \<Rightarrow> (map_of doc)(EPOCH_KEY \<mapsto> show_int e))"
  by (simp add: stamp_def split: option.split)

lemma outside_stamp [simp]: "outside {EPOCH_KEY} (map_of (stamp m doc)) = outside {EPOCH_KEY} (map_of doc)"
  by (rule ext) (auto simp: map_of_stamp outside_def restrict_map_def split: option.split)

lemma base_doc_inv: "file_inv (d, s) \<Longrightarrow> base_doc d s = Some base \<Longrightarrow> readable d = Some base"
  by (auto simp: base_doc_def file_inv_def split: if_splits)

lemma file_view_written:
  assumes "items_ok {EPOCH_KEY} items" "readable d = Some base"
    and "content d' = FileDoc (stamp m (dict_merge base items))"
  shows "file_view (d', s') = file_view (d, s) ++ map_of items"
  using assms
  by (simp add: file_view_def persisted_def map_of_merge_add outside_add items_ok_def)

subsection \<open>The contract holds\<close>

interpretation fs: checkpoint_store load commit_many reset file_inv file_view "{EPOCH_KEY}"
proof (unfold_locales, goal_cases)
  case (1 s)
  then show ?case by (cases s) (simp add: file_view_def)
next
  case (2 st k r st')
  obtain d s d' s' where st: "st = (d, s)" "st' = (d', s')" by fastforce
  obtain r1 where l: "ensure_loaded (d, s) = (r1, d', s')"
    using 2(3) st by (auto simp: load_def and_then_def ret_def split: prod.splits sum.splits)
  from ensure_loaded_inv [OF l] 2(1) st have
    i: "file_inv (d', s')" "content d' = content d" "\<forall>v. r1 = Inr v \<longrightarrow> readable d = Some v" by auto
  have "r = map_sum id (\<lambda>doc. map_of doc k) r1"
    using 2(3) st l by (auto simp: load_def and_then_def ret_def split: sum.splits)
  with i 2(2) st readable_cong [OF i(2)] show ?case
    by (cases r1) (auto simp: file_view_def persisted_def)
next
  case (3 st items env st')
  obtain d s d' s' w io where st: "st = (d, s)" "st' = (d', s')" "env = (w, io)"
    by (metis surj_pair)
  from 3(3) [unfolded st] show ?case
  proof (cases rule: commit_many_cases)
    case (refused e)
    then show ?thesis by simp
  next
    case (written base new)
    then have io: "io = WriteOk" by (auto split: if_splits)
    from base_doc_inv written(1) 3(1) st have "readable d = Some base" by blast
    from file_view_written [OF 3(2) this, of d' "mine_of w s" s' s] written(2-4) io st
    show ?thesis by (simp add: file_inv_def)
  qed
next
  case (4 st items env e st')
  obtain d s d' s' w io where st: "st = (d, s)" "st' = (d', s')" "env = (w, io)"
    by (metis surj_pair)
  have i: "file_inv (reset st')" by (simp add: st file_inv_def reset_def)
  have v: "file_view (reset st') = file_view st'" by (simp add: st file_view_def reset_def)
  have same: "content d' = content d \<Longrightarrow> file_view st' = file_view st"
    by (simp add: st file_view_def persisted_def readable_def)
  from 4(3) [unfolded st] show ?case
  proof (cases rule: commit_many_cases)
    case (refused e')
    with i v same show ?thesis by simp
  next
    case (written base new)
    from base_doc_inv written(1) 4(1) st have "readable d = Some base" by blast
    from file_view_written [OF 4(2) this, of d' "mine_of w s" s' s] written(2-4) i v same st
    show ?thesis by (cases "io = WriteFails") simp_all
  qed
qed

subsection \<open>Several stores on one disk\<close>

text \<open>
  C28. Any number of stores, in one process or in several, taking turns on one disk: each step is
  one complete call by one of them.
\<close>

inductive file_step ::
  "disk \<times> (nat \<Rightarrow> 'w file_store) \<Rightarrow> disk \<times> (nat \<Rightarrow> 'w file_store) \<Rightarrow> bool" where
  load_step: "load k (d, st i) = (r, d', s') \<Longrightarrow> file_step (d, st) (d', st(i := s'))"
| commit_step: "commit_many env items (d, st i) = (r, d', s') \<Longrightarrow> items_ok {EPOCH_KEY} items \<Longrightarrow>
    file_step (d, st) (d', st(i := s'))"
| delete_step: "delete env k (d, st i) = (r, d', s') \<Longrightarrow> k \<noteq> EPOCH_KEY \<Longrightarrow>
    file_step (d, st) (d', st(i := s'))"
| reset_step: "reset (d, st i) = (d', s') \<Longrightarrow> file_step (d, st) (d', st(i := s'))"
| close_step: "close (d, st i) = (d', s') \<Longrightarrow> file_step (d, st) (d', st(i := s'))"

inductive_cases file_stepE: "file_step (d, st) (d', st')"

text \<open>What a call may change of the lock: nothing, or it takes the free lock.\<close>

definition lock_rel :: "disk \<times> 'w file_store \<Rightarrow> disk \<times> 'w file_store \<Rightarrow> bool" where
  "lock_rel = (\<lambda>(d, s) (d', s').
     store_id s' = store_id s \<and> exclusive_lock s' = exclusive_lock s
     \<and> fence s' = fence s \<and> epoch_fn s' = epoch_fn s
     \<and> (lock_owner d' = lock_owner d \<and> lock_held s' = lock_held s
        \<or> exclusive_lock s \<and> lock_owner d = None \<and> \<not> lock_held s
          \<and> lock_owner d' = Some (store_id s) \<and> lock_held s'))"

definition op_frame :: "('w, 'a) file_op \<Rightarrow> bool" where
  "op_frame m \<longleftrightarrow> (\<forall>x r y. m x = (r, y) \<longrightarrow> lock_rel x y)"

lemma lock_rel_refl [simp]: "lock_rel x x"
  by (simp add: lock_rel_def split: prod.split)

lemma lock_rel_trans: "lock_rel x y \<Longrightarrow> lock_rel y z \<Longrightarrow> lock_rel x z"
  by (auto simp: lock_rel_def split: prod.splits)

lemma op_frame_and_then:
  assumes "op_frame m" "\<And>a. op_frame (f a)"
  shows "op_frame (and_then m f)"
  unfolding op_frame_def
proof (intro allI impI)
  fix x r z
  assume run: "and_then m f x = (r, z)"
  obtain r1 y where one: "m x = (r1, y)" by (metis surj_pair)
  then have xy: "lock_rel x y" using assms(1) unfolding op_frame_def by blast
  show "lock_rel x z"
  proof (cases r1)
    case (Inl e)
    with run one xy show ?thesis by (simp add: and_then_def)
  next
    case (Inr a)
    with run one have "f a y = (r, z)" by (simp add: and_then_def)
    then have "lock_rel y z" using assms(2) unfolding op_frame_def by blast
    with xy show ?thesis by (rule lock_rel_trans)
  qed
qed

lemma op_frame_basic [simp]:
  "op_frame (ret a)" "op_frame (raise e)" "op_frame read_file_fresh" "op_frame (put_cache doc)"
  "op_frame (flush io)" "op_frame (check_fence w)" "op_frame acquire_instance_lock"
  by (auto simp: op_frame_def read_file_fresh_def put_cache_def flush_def check_fence_def lock_rel_def
      acquire_instance_lock_def split: file_content.splits option.splits if_splits write_io.splits)

lemma op_frame_get_state: "(\<And>d s. op_frame (f (d, s))) \<Longrightarrow> op_frame (and_then get_state f)"
  by (rule op_frame_and_then) (auto simp: op_frame_def get_state_def)

lemmas op_frameI = op_frame_and_then op_frame_get_state

lemma op_frame_fresh_fenced [simp]: "op_frame (fresh_fenced mine)"
  by (auto simp: fresh_fenced_def intro!: op_frameI split: sum.split)

lemma op_frame_ensure_loaded [simp]: "op_frame ensure_loaded"
  by (auto simp: ensure_loaded_def intro!: op_frameI split: option.split)

lemma op_frame_load: "op_frame (load k)"
  by (auto simp: load_def intro!: op_frameI)

lemma op_frame_commit: "op_frame (commit_many env items)"
  by (auto simp: commit_many_def commit_many_epoch_fenced_def intro!: op_frameI split: option.split)

lemma op_frame_delete: "op_frame (delete env k)"
  by (auto simp: delete_def delete_epoch_fenced_def intro!: op_frameI split: option.split)

subsection \<open>The flock admits one writer\<close>

definition lock_ok :: "'w file_store \<Rightarrow> bool" where
  "lock_ok s \<longleftrightarrow> (exclusive_lock s \<longrightarrow> lock_held s)"

definition no_write :: "('w, 'a) file_op \<Rightarrow> bool" where
  "no_write m \<longleftrightarrow> (\<forall>x r y. m x = (r, y) \<longrightarrow> content (fst y) = content (fst x))"

definition locks :: "('w, 'a) file_op \<Rightarrow> bool" where
  "locks m \<longleftrightarrow> (\<forall>x a y. m x = (Inr a, y) \<longrightarrow> lock_ok (snd y))"

definition writes_locked :: "('w, 'a) file_op \<Rightarrow> bool" where
  "writes_locked m \<longleftrightarrow>
     (\<forall>x r y. m x = (r, y) \<longrightarrow> content (fst y) \<noteq> content (fst x) \<longrightarrow> lock_ok (snd y))"

lemma writes_locked_later:
  assumes "no_write m" "\<And>a. writes_locked (f a)"
  shows "writes_locked (and_then m f)"
  using assms unfolding writes_locked_def no_write_def and_then_def
  by (auto split: prod.splits sum.splits) (metis fst_conv snd_conv)+

lemma writes_locked_after:
  assumes "no_write m" "locks m" "\<And>a. op_frame (f a)"
  shows "writes_locked (and_then m f)"
  unfolding writes_locked_def
proof (intro allI impI)
  fix x r z
  assume run: "and_then m f x = (r, z)" and ch: "content (fst z) \<noteq> content (fst x)"
  obtain r1 y where one: "m x = (r1, y)" by (metis surj_pair)
  then have eq: "content (fst y) = content (fst x)" using assms(1) unfolding no_write_def by blast
  show "lock_ok (snd z)"
  proof (cases r1)
    case (Inl e)
    with run one eq ch show ?thesis by (simp add: and_then_def)
  next
    case (Inr a)
    with one assms(2) have "lock_ok (snd y)" unfolding locks_def by blast
    moreover have "lock_rel y z"
    proof -
      have "f a y = (r, z)" using run one Inr by (simp add: and_then_def)
      then show ?thesis using assms(3) unfolding op_frame_def by blast
    qed
    ultimately show ?thesis by (auto simp: lock_rel_def lock_ok_def split: prod.splits)
  qed
qed

lemma ensure_loaded_locks: "no_write ensure_loaded" "locks ensure_loaded"
  unfolding no_write_def locks_def
  by (auto simp: file_defs lock_ok_def split: option.splits if_splits sum.splits prod.splits file_content.splits)

lemma fresh_fenced_locks: "no_write (fresh_fenced mine)" "locks (fresh_fenced mine)"
  unfolding no_write_def locks_def
  by (auto simp: file_defs lock_ok_def split: option.splits if_splits sum.splits prod.splits file_content.splits)

lemma no_write_check [simp]: "no_write (check_fence w)" "no_write get_state"
  by (auto simp: no_write_def check_fence_def get_state_def split: option.splits if_splits)

lemma commit_writes_locked: "writes_locked (commit_many env items)"
  unfolding commit_many_def commit_many_epoch_fenced_def
  by (auto intro!: writes_locked_later [of "check_fence w" for w] writes_locked_later [of get_state]
      writes_locked_after ensure_loaded_locks fresh_fenced_locks op_frameI split: option.splits)

lemma delete_writes_locked: "writes_locked (delete env k)"
  unfolding delete_def delete_epoch_fenced_def
  by (auto intro!: writes_locked_later [of "check_fence w" for w] writes_locked_later [of get_state]
      writes_locked_after ensure_loaded_locks fresh_fenced_locks op_frameI split: option.splits)

text \<open>The owner recorded in the sidecar is the one store that believes it holds the lock.\<close>

definition owns :: "disk \<Rightarrow> nat \<Rightarrow> 'w file_store \<Rightarrow> bool" where
  "owns d i s \<longleftrightarrow>
     store_id s = i \<and> exclusive_lock s \<and> (lock_held s \<longleftrightarrow> lock_owner d = Some i)"

definition lock_inv :: "disk \<times> (nat \<Rightarrow> 'w file_store) \<Rightarrow> bool" where
  "lock_inv = (\<lambda>(d, st). \<forall>i. owns d i (st i))"

lemma lock_invD: "lock_inv (d, st) \<Longrightarrow> owns d i (st i)"
  by (simp add: lock_inv_def)

lemma lock_inv_single: "lock_inv (d, st) \<Longrightarrow> lock_held (st i) \<Longrightarrow> lock_held (st j) \<Longrightarrow> i = j"
  using lock_invD [of d st i] lock_invD [of d st j] by (simp add: owns_def)

lemma lock_inv_update:
  assumes "lock_inv (d, st)" "owns d' i s'" "\<And>j. j \<noteq> i \<Longrightarrow> owns d j (st j) \<Longrightarrow> owns d' j (st j)"
  shows "lock_inv (d', st(i := s'))"
  using assms by (simp add: lock_inv_def)

lemma lock_inv_op:
  assumes "lock_inv (d, st)" "op_frame m" "m (d, st i) = (r, d', s')"
  shows "lock_inv (d', st(i := s'))"
proof -
  have "lock_rel (d, st i) (d', s')" using assms(2,3) unfolding op_frame_def by blast
  with lock_invD [OF assms(1), of i] show ?thesis
    by (intro lock_inv_update [OF assms(1)]) (auto simp: owns_def lock_rel_def)
qed

lemma load_no_write: "load k (d, s) = (r, d', s') \<Longrightarrow> content d' = content d"
  using ensure_loaded_locks(1)
  by (fastforce simp: load_def and_then_def ret_def no_write_def split: sum.splits prod.splits)

lemma locked_writer:
  assumes inv: "lock_inv (d1, st1)" and m: "op_frame m" "writes_locked m" and run: "m (d1, st1 i) = (r, d2, s2)" "content d2 \<noteq> content d1"
  shows "lock_held s2 \<and> (\<forall>j. j \<noteq> i \<longrightarrow> \<not> lock_held (st1 j))"
proof -
  have inv2: "lock_inv (d2, st1(i := s2))" by (rule lock_inv_op [OF inv m(1) run(1)])
  have "lock_ok s2" using m(2) run unfolding writes_locked_def by fastforce
  with lock_invD [OF inv2, of i] have held: "lock_held s2" by (simp add: lock_ok_def owns_def)
  have "\<not> lock_held (st1 j)" if "j \<noteq> i" for j
    using lock_inv_single [OF inv2, of i j] held that by auto
  with held show ?thesis by blast
qed

lemma lock_inv_step: "file_step x y \<Longrightarrow> lock_inv x \<Longrightarrow> lock_inv y"
proof (induction rule: file_step.induct)
  case (load_step k d st i r d' s')
  then show ?case using lock_inv_op op_frame_load by blast
next
  case (commit_step env items d st i r d' s')
  then show ?case using lock_inv_op op_frame_commit by blast
next
  case (delete_step env k d st i r d' s')
  then show ?case using lock_inv_op op_frame_delete by blast
next
  case (reset_step d st i d' s')
  with lock_invD [OF reset_step.prems, of i] show ?case
    by (auto intro!: lock_inv_update [OF reset_step.prems] simp: owns_def reset_def)
next
  case (close_step d st i d' s')
  with lock_invD [OF close_step.prems, of i] show ?case
    by (auto intro!: lock_inv_update [OF close_step.prems] simp: owns_def close_def split: if_splits)
qed

lemma lock_inv_reachable: "file_step\<^sup>*\<^sup>* x y \<Longrightarrow> lock_inv x \<Longrightarrow> lock_inv y"
  by (induction rule: rtranclp_induct) (auto intro: lock_inv_step)

text \<open>
C28. The sidecar flock makes the file store single-writer. Whatever interleaving of calls by
  any number of exclusive stores on one disk, at most one of them holds the lock; a call of
  \<^verbatim>\<open>commit_many\<close> or \<^verbatim>\<open>delete\<close> that changes the state file is made by that one, while no
  other store holds it; and \<^verbatim>\<open>load\<close>, \<^verbatim>\<open>reset\<close> and \<^verbatim>\<open>close\<close> never change the file.
\<close>

theorem flock_single_writer:
  assumes "\<forall>i. st i = new_file_store i True" "lock_owner d = None"
    and "file_step\<^sup>*\<^sup>* (d, st) (d1, st1)"
  shows "(\<forall>i j. lock_held (st1 i) \<and> lock_held (st1 j) \<longrightarrow> i = j)
    \<and> (\<forall>env items k i r d2 s2.
         (commit_many env items (d1, st1 i) = (r, d2, s2) \<or> delete env k (d1, st1 i) = (r, d2, s2)) \<and> content d2 \<noteq> content d1
         \<longrightarrow> lock_held s2 \<and> (\<forall>j. j \<noteq> i \<longrightarrow> \<not> lock_held (st1 j)))
    \<and> (\<forall>k i. content (fst (snd (load k (d1, st1 i)))) = content d1 \<and> content (fst (reset (d1, st1 i))) = content d1
         \<and> content (fst (close (d1, st1 i))) = content d1)"
proof -
  have "lock_inv (d, st)" using assms(1,2) by (simp add: lock_inv_def owns_def new_file_store_def)
  with assms(3) have inv: "lock_inv (d1, st1)" by (rule lock_inv_reachable)
  have "lock_held s2 \<and> (\<forall>j. j \<noteq> i \<longrightarrow> \<not> lock_held (st1 j))"
    if "commit_many env items (d1, st1 i) = (r, d2, s2) \<or> delete env k (d1, st1 i) = (r, d2, s2)" "content d2 \<noteq> content d1"
    for env items k i r d2 s2
    using that locked_writer [OF inv op_frame_commit commit_writes_locked] locked_writer [OF inv op_frame_delete delete_writes_locked]
    by blast
  moreover have "content (fst (snd (load k (d1, st1 i)))) = content d1" "content (fst (reset (d1, st1 i))) = content d1"
    "content (fst (close (d1, st1 i))) = content d1" for k i
    using load_no_write [of k d1 "st1 i"] by (auto simp: reset_def close_def split: prod.splits) (metis prod.exhaust_sel)
  ultimately show ?thesis using lock_inv_single [OF inv] by blast
qed

subsection \<open>The epoch fence\<close>

definition file_epoch :: "disk \<Rightarrow> int option" where
  "file_epoch d =
     (case readable d of None \<Rightarrow> None | Some doc \<Rightarrow> (case stored_epoch doc of Inl _ \<Rightarrow> None | Inr e \<Rightarrow> e))"

definition epoch_le :: "int option \<Rightarrow> int option \<Rightarrow> bool" where
  "epoch_le a b \<longleftrightarrow> (case a of None \<Rightarrow> True | Some x \<Rightarrow> (\<exists>y. b = Some y \<and> x \<le> y))"

lemma epoch_le_refl [simp]: "epoch_le a a"
  by (simp add: epoch_le_def split: option.split)

lemma epoch_le_trans: "epoch_le a b \<Longrightarrow> epoch_le b c \<Longrightarrow> epoch_le a c"
  by (auto simp: epoch_le_def split: option.splits)

lemma stored_epoch_stamp:
  assumes "stored_epoch base = Inr st" "map_of doc EPOCH_KEY = map_of base EPOCH_KEY"
  shows "stored_epoch (stamp mine doc) = Inr (case mine of None \<Rightarrow> st | Some m \<Rightarrow> Some m)"
proof (cases mine)
  case None
  with assms show ?thesis by (simp add: stored_epoch_def map_of_stamp)
next
  case (Some m)
  then show ?thesis by (simp add: stored_epoch_def map_of_stamp)
qed

lemma epoch_write:
  assumes "readable d = Some base" "stored_epoch base = Inr st" "\<not> stale st mine"
    and "map_of doc EPOCH_KEY = map_of base EPOCH_KEY" "content d' = FileDoc (stamp mine doc)"
  shows "epoch_le (file_epoch d) (file_epoch d') \<and> \<not> stale (file_epoch d) mine \<and> (\<forall>m. mine = Some m \<longrightarrow> file_epoch d' = Some m)"
  using assms stored_epoch_stamp [OF assms(2,4), of mine]
  by (auto simp: file_epoch_def epoch_le_def stale_def split: option.splits)

lemma epoch_same: "content d' = content d \<Longrightarrow> file_epoch d' = file_epoch d"
  by (simp add: file_epoch_def readable_def)

text \<open>What a fenced call may do: nothing when its epoch is older than the one on disk, and a write leaves its epoch there.\<close>

definition fence_kept :: "int option \<Rightarrow> disk \<Rightarrow> file_error + 'a \<Rightarrow> disk \<Rightarrow> bool" where
  "fence_kept mine d r d' \<longleftrightarrow>
     epoch_le (file_epoch d) (file_epoch d')
     \<and> (stale (file_epoch d) mine \<longrightarrow> (\<exists>e. r = Inl e) \<and> content d' = content d)
     \<and> (content d' \<noteq> content d \<longrightarrow> (\<forall>m. mine = Some m \<longrightarrow> file_epoch d' = Some m))"

lemma fence_kept_same: "content d' = content d \<Longrightarrow> \<not> stale (file_epoch d) mine \<or> (\<exists>e. r = Inl e) \<Longrightarrow> fence_kept mine d r d'"
  using epoch_same [of d' d] by (auto simp: fence_kept_def)

lemma epoch_commit:
  assumes "epoch_fn s = Some f" "items_ok {EPOCH_KEY} items"
    and "commit_many (w, io) items (d, s) = (r, d', s')"
  shows "fence_kept (f w) d r d'"
  using assms(3)
proof (cases rule: commit_many_cases)
  case (refused e)
  then show ?thesis by (intro fence_kept_same) simp_all
next
  case (written base new)
  then have rd: "readable d = Some base" using assms(1) by (simp add: base_doc_def)
  obtain st where st: "stored_epoch base = Inr st" "\<not> stale st (f w)" using written(6) assms(1) by blast
  have key: "map_of (dict_merge base items) EPOCH_KEY = map_of base EPOCH_KEY"
    using assms(2) items_ok_None [OF assms(2), of EPOCH_KEY]
    by (simp add: map_of_merge_add items_ok_def map_add_def)
  have ns: "\<not> stale (file_epoch d) (f w)" using rd st by (simp add: file_epoch_def)
  show ?thesis
  proof (cases "io = WriteFails")
    case True
    then show ?thesis using written ns by (intro fence_kept_same) simp_all
  next
    case False
    then have "content d' = FileDoc (stamp (f w) (dict_merge base items))"
      using written assms(1) by (simp add: mine_of_def)
    from epoch_write [OF rd st key this] ns show ?thesis by (simp add: fence_kept_def)
  qed
qed

lemma delete_fenced:
  assumes "epoch_fn s = Some f" "delete (w, io) k (d, s) = (r, d', s')"
  shows "(\<exists>e. r = Inl e) \<and> content d' = content d \<or> delete_epoch_fenced io (f w) k (d, s) = (r, d', s')"
proof -
  obtain r0 d0 s0 where c: "check_fence w (d, s) = (r0, d0, s0)" by (metis prod_cases3)
  then have "d0 = d" "s0 = s" by (auto simp: check_fence_def split: option.splits if_splits)
  with assms c show ?thesis by (cases r0) (auto simp: delete_def and_then_def get_state_def)
qed

lemma epoch_delete:
  assumes "epoch_fn s = Some f" "k \<noteq> EPOCH_KEY" "delete (w, io) k (d, s) = (r, d', s')"
  shows "fence_kept (f w) d r d'"
  using delete_fenced [OF assms(1,3)]
proof
  assume "(\<exists>e. r = Inl e) \<and> content d' = content d"
  then show ?thesis by (intro fence_kept_same) simp_all
next
  assume body: "delete_epoch_fenced io (f w) k (d, s) = (r, d', s')"
  obtain r1 d1 s1 where l: "fresh_fenced (f w) (d, s) = (r1, d1, s1)" by (metis prod_cases3)
  note D = fresh_fencedD [OF l]
  show ?thesis
  proof (cases r1)
    case (Inl e)
    then have "r = Inl e" "d' = d1" using body l by (simp_all add: delete_epoch_fenced_def and_then_def)
    then show ?thesis using D by (intro fence_kept_same) simp_all
  next
    case (Inr base)
    then obtain st where st: "readable d = Some base" "stored_epoch base = Inr st" "\<not> stale st (f w)" using D by blast
    then have ns: "\<not> stale (file_epoch d) (f w)" by (simp add: file_epoch_def)
    show ?thesis
    proof (cases "content d' = content d")
      case True
      with ns show ?thesis by (intro fence_kept_same) simp_all
    next
      case False
      have wr: "and_then (put_cache (stamp (f w) (AList.delete k base))) (\<lambda>_. flush io) (d1, s1) = (r, d', s')"
        using body l Inr False D
        by (auto simp: delete_epoch_fenced_def and_then_def put_cache_def split: if_splits)
      have "content d' = FileDoc (stamp (f w) (AList.delete k base))"
        using write_new_doc(2) [OF wr] D False by (auto split: if_splits)
      moreover have "map_of (AList.delete k base) EPOCH_KEY = map_of base EPOCH_KEY"
        using assms(2) by (simp add: delete_conv')
      ultimately show ?thesis using epoch_write [OF st] ns by (simp add: fence_kept_def)
    qed
  qed
qed

lemma epoch_step:
  "file_step x y \<Longrightarrow> \<forall>i. epoch_fn (snd x i) \<noteq> None \<Longrightarrow>
   (\<forall>i. epoch_fn (snd y i) = epoch_fn (snd x i)) \<and> epoch_le (file_epoch (fst x)) (file_epoch (fst y))"
proof (induction rule: file_step.induct)
  case (load_step k d st i r d' s')
  then have "lock_rel (d, st i) (d', s')" using op_frame_load unfolding op_frame_def by blast
  with load_step show ?case
    by (auto simp: epoch_same [OF load_no_write [OF load_step(1)]] lock_rel_def)
next
  case (commit_step env items d st i r d' s')
  then have "lock_rel (d, st i) (d', s')" using op_frame_commit unfolding op_frame_def by blast
  moreover obtain f w io where "epoch_fn (st i) = Some f" "env = (w, io)"
    using commit_step(3) by fastforce
  ultimately show ?case
    using commit_step(1-3) epoch_commit [of "st i" f items w io d r d' s'] by (simp add: lock_rel_def fence_kept_def)
next
  case (delete_step env k d st i r d' s')
  then have "lock_rel (d, st i) (d', s')" using op_frame_delete unfolding op_frame_def by blast
  moreover obtain f w io where "epoch_fn (st i) = Some f" "env = (w, io)"
    using delete_step(3) by fastforce
  ultimately show ?case
    using delete_step(1-3) epoch_delete [of "st i" f k w io d r d' s'] by (simp add: lock_rel_def fence_kept_def)
next
  case (reset_step d st i d' s')
  then show ?case by (auto simp: reset_def)
next
  case (close_step d st i d' s')
  then show ?case by (auto simp: close_def file_epoch_def readable_def split: if_splits)
qed

lemma epoch_reachable:
  "file_step\<^sup>*\<^sup>* x y \<Longrightarrow> \<forall>i. epoch_fn (snd x i) \<noteq> None \<Longrightarrow>
   (\<forall>i. epoch_fn (snd y i) = epoch_fn (snd x i)) \<and> epoch_le (file_epoch (fst x)) (file_epoch (fst y))"
proof (induction rule: rtranclp_induct)
  case base
  then show ?case by simp
next
  case (step y z)
  then have "(\<forall>i. epoch_fn (snd z i) = epoch_fn (snd y i)) \<and> epoch_le (file_epoch (fst y)) (file_epoch (fst z))"
    using epoch_step by fastforce
  with step show ?case using epoch_le_trans by fastforce
qed

subsection \<open>The two phases of a fenced commit\<close>

text \<open>
  Between the fresh read and the rename another process may run. \<open>commit_prepare\<close> is the
  call up to the merged document, \<open>commit_publish\<close> the rest; run back to back they are
  \<open>commit_many\<close>.
\<close>

definition commit_prepare :: "'w \<Rightarrow> doc \<Rightarrow> ('w, doc) file_op" where
  "commit_prepare w items =
     and_then (check_fence w) (\<lambda>_. and_then get_state (\<lambda>(d, s).
       and_then (fresh_fenced (mine_of w s)) (\<lambda>doc. ret (stamp (mine_of w s) (dict_merge doc items)))))"

definition commit_publish :: "write_io \<Rightarrow> doc \<Rightarrow> ('w, unit) file_op" where
  "commit_publish io new = and_then (put_cache new) (\<lambda>_. flush io)"

lemma commit_many_two_phases:
  assumes "epoch_fn s = Some f"
  shows "commit_many (w, io) items (d, s) = and_then (commit_prepare w items) (commit_publish io) (d, s)"
proof -
  obtain r0 d0 s0 where c: "check_fence w (d, s) = (r0, d0, s0)" by (metis prod_cases3)
  then have s0: "d0 = d" "s0 = s" by (auto simp: check_fence_def split: option.splits if_splits)
  show ?thesis
    using assms c s0
    by (auto simp: commit_many_def commit_many_epoch_fenced_def commit_prepare_def commit_publish_def
        and_then_def get_state_def mine_of_def ret_def split: sum.splits prod.splits)
qed

lemma load_returns:
  assumes "lock_ok s" "file_inv (d, s)" "readable d = Some doc"
  shows "\<exists>x. load k (d, s) = (Inr (map_of doc k), x)"
  using assms
  by (auto simp: load_def ensure_loaded_def acquire_instance_lock_def and_then_def get_state_def ret_def
      read_file_fresh_eq put_cache_def file_inv_def lock_ok_def split: option.splits)

subsection \<open>Properties\<close>

text \<open>
  C22. A commit of the file store is durable and exact. After \<^verbatim>\<open>commit_many(items)\<close>
  returns, any store on that disk that may read it (the same one, or a fresh one after a
  restart) loads, for every key but the reserved epoch key, the committed value if the key was
  among the items and otherwise the value that was on disk before.
\<close>

theorem file_commit_durable:
  assumes "file_inv (d, s)" "items_ok {EPOCH_KEY} items"
    and "commit_many env items (d, s) = (Inr (), d1, s1)"
    and "file_inv (d1, s2)" "lock_ok s2" "k \<noteq> EPOCH_KEY"
  shows "\<exists>x. load k (d1, s2) =
    (Inr (case map_of items k of Some v \<Rightarrow> Some v | None \<Rightarrow> persisted d k), x)"
proof -
  have v: "file_view (d1, s1) = file_view (d, s) ++ map_of items"
    using fs.commit_law [OF assms(1,2,3)] by blast
  obtain doc where doc: "readable d1 = Some doc"
    using assms(3) by (cases env) (auto elim!: commit_many_cases split: if_splits)
  have "map_of doc k = (case map_of items k of Some v \<Rightarrow> Some v | None \<Rightarrow> persisted d k)"
    using v [THEN fun_cong, of k] doc assms(6)
    by (simp add: file_view_def persisted_def map_add_def split: option.splits)
  then show ?thesis using load_returns [OF assms(5,4) doc, of k] by simp
qed

text \<open>
  C4. A commit of the file store is all or nothing. When \<^verbatim>\<open>commit_many\<close> raises, the
  state file is exactly as before, or (only when the directory sync after the rename failed)
  it is exactly the merged document; and when the installed fence vetoes the call, it raises
  \<^verbatim>\<open>StateFenceError\<close> with disk and store untouched.
\<close>

theorem file_commit_all_or_nothing:
  assumes "commit_many (w, io) items (d, s) = (Inl e, d1, s1)"
  shows "(content d1 = content d
      \<or> io = DirSyncFails \<and> (\<exists>base. base_doc d s = Some base
          \<and> content d1 = FileDoc (stamp (mine_of w s) (dict_merge base items))))
    \<and> (\<forall>f. fence s = Some f \<and> \<not> f w \<longrightarrow> e = StateFenceError \<and> d1 = d \<and> s1 = s)"
proof
  show "content d1 = content d
      \<or> io = DirSyncFails \<and> (\<exists>base. base_doc d s = Some base
          \<and> content d1 = FileDoc (stamp (mine_of w s) (dict_merge base items)))"
    using assms by (cases rule: commit_many_cases; cases io) auto
  show "\<forall>f. fence s = Some f \<and> \<not> f w \<longrightarrow> e = StateFenceError \<and> d1 = d \<and> s1 = s"
    using assms by (auto simp: commit_many_def check_fence_def and_then_def)
qed

text \<open>
C4. The epoch fence of the file store. Let any number of stores, each with an epoch source,
  make any sequence of complete calls on one disk: the epoch persisted in the file never
  decreases; a commit or a delete by a leader whose epoch is older than one that was on disk earlier
  raises and leaves the file unchanged; and a commit or a delete that changes the file leaves the
  epoch of its leader there.
\<close>

theorem epoch_fence_holds:
  assumes "\<forall>i. epoch_fn (st i) \<noteq> None" "file_step\<^sup>*\<^sup>* (d, st) (d1, st1)"
  shows "epoch_le (file_epoch d) (file_epoch d1)
    \<and> (\<forall>i f w m e items k io r d2 s2. epoch_fn (st i) = Some f \<and> f w = Some m
        \<and> (items_ok {EPOCH_KEY} items \<and> commit_many (w, io) items (d1, st1 i) = (r, d2, s2)
           \<or> k \<noteq> EPOCH_KEY \<and> delete (w, io) k (d1, st1 i) = (r, d2, s2))
        \<longrightarrow> (file_epoch d = Some e \<and> m < e \<longrightarrow> (\<exists>err. r = Inl err) \<and> content d2 = content d1)
          \<and> (content d2 \<noteq> content d1 \<longrightarrow> file_epoch d2 = Some m))"
proof -
  have fns: "epoch_fn (st1 i) = epoch_fn (st i)" and le: "epoch_le (file_epoch d) (file_epoch d1)" for i
    using epoch_reachable [OF assms(2)] assms(1) by auto
  have "(file_epoch d = Some e \<and> m < e \<longrightarrow> (\<exists>err. r = Inl err) \<and> content d2 = content d1)
      \<and> (content d2 \<noteq> content d1 \<longrightarrow> file_epoch d2 = Some m)"
    if h: "epoch_fn (st i) = Some f" "f w = Some m"
      "items_ok {EPOCH_KEY} items \<and> commit_many (w, io) items (d1, st1 i) = (r, d2, s2)
       \<or> k \<noteq> EPOCH_KEY \<and> delete (w, io) k (d1, st1 i) = (r, d2, s2)"
    for i f w m e items k io r d2 s2
  proof -
    have "fence_kept (Some m) d1 r d2"
      using h fns [of i] epoch_commit [of "st1 i" f items w io d1 r d2 s2] epoch_delete [of "st1 i" f k w io d1 r d2 s2] by auto
    moreover have "stale (file_epoch d1) (Some m)" if "file_epoch d = Some e" "m < e"
      using le that by (auto simp: epoch_le_def stale_def)
    ultimately show ?thesis by (auto simp: fence_kept_def)
  qed
  with le show ?thesis by blast
qed

text \<open>
  The epoch fence is not a compare-and-swap across processes. With the old leader's read
  before and its rename after the new leader's commit, every call returns normally, yet the
  file ends with the old epoch and the new leader's checkpoint is gone.
\<close>

theorem epoch_fence_not_atomic:
  "let d0 = \<lparr>content = FileDoc [(''k'', ''old'')], lock_owner = None\<rparr>;
       old = set_epoch (\<lambda>_. Some 1) (new_file_store 0 False) :: unit file_store;
       new = set_epoch (\<lambda>_. Some 2) (new_file_store 1 False) :: unit file_store
   in \<exists>docA docB d1 d2 s1 s2.
        commit_prepare () [(''a'', ''1'')] (d0, old) = (Inr docA, d0, old)
      \<and> commit_many ((), WriteOk) [(''k'', ''new'')] (d0, new) = (Inr (), d1, s1)
      \<and> file_epoch d1 = Some 2 \<and> persisted d1 ''k'' = Some ''new''
      \<and> commit_publish WriteOk docA (d1, old) = (Inr (), d2, s2)
      \<and> file_epoch d2 = Some 1 \<and> persisted d2 ''k'' = Some ''old''"
  by (simp add: Let_def commit_prepare_def commit_publish_def commit_many_def commit_many_epoch_fenced_def
      file_defs set_epoch_def new_file_store_def mine_of_def stored_epoch_def stale_def stamp_def
      file_epoch_def persisted_def EPOCH_KEY_def)

subsection \<open>Witnesses\<close>

definition empty_disk :: disk where
  "empty_disk = \<lparr>content = FileAbsent, lock_owner = None\<rparr>"

definition led_disk :: disk where
  "led_disk = \<lparr>content = FileDoc [(''k'', ''v''), (EPOCH_KEY, ''2'')], lock_owner = None\<rparr>"

definition led_store :: "nat \<Rightarrow> unit file_store" where
  "led_store i = set_epoch (\<lambda>_. Some (int i)) (new_file_store i False)"

lemmas file_eval = commit_many_def commit_many_epoch_fenced_def load_def file_defs new_file_store_def
  set_epoch_def led_store_def led_disk_def empty_disk_def stored_epoch_def stale_def stamp_def
  mine_of_def base_doc_def persisted_def lock_ok_def file_inv_def items_ok_def wf_dict_def
  file_epoch_def EPOCH_KEY_def

lemma first_commit_run:
  "commit_many ((), WriteOk) [(''k'', ''v'')] (empty_disk, new_file_store i True) =
     (Inr (), \<lparr>content = FileDoc [(''k'', ''v'')], lock_owner = Some i\<rparr>,
      (new_file_store i True)\<lparr>cache := Some [(''k'', ''v'')], lock_held := True\<rparr>)"
  by (simp add: file_eval)

theorem flock_single_writer_witness:
  "\<exists>d1 st1. file_step\<^sup>*\<^sup>* (empty_disk, \<lambda>i. new_file_store i True :: unit file_store) (d1, st1)
     \<and> lock_held (st1 3) \<and> \<not> lock_held (st1 7)"
proof -
  let ?st = "\<lambda>i. new_file_store i True :: unit file_store"
  let ?d1 = "\<lparr>content = FileDoc [(''k'', ''v'')], lock_owner = Some 3\<rparr>"
  let ?s1 = "(?st 3)\<lparr>cache := Some [(''k'', ''v'')], lock_held := True\<rparr>"
  have "file_step (empty_disk, ?st) (?d1, ?st(3 := ?s1))"
    by (rule file_step.commit_step [OF first_commit_run]) (simp add: items_ok_def wf_dict_def EPOCH_KEY_def)
  then have run: "file_step\<^sup>*\<^sup>* (empty_disk, ?st) (?d1, ?st(3 := ?s1))" by blast
  have free: "lock_owner empty_disk = None" by (simp add: empty_disk_def)
  have fresh: "\<forall>i. ?st i = new_file_store i True" by simp
  have "lock_held ((?st(3 := ?s1)) 3) \<and> lock_held ((?st(3 := ?s1)) 7) \<longrightarrow> (3 :: nat) = 7"
    by (rule flock_single_writer [OF fresh free run, THEN conjunct1, THEN spec, THEN spec])
  then have "\<not> lock_held ((?st(3 := ?s1)) 7)" by simp
  with run show ?thesis by (intro exI [of _ ?d1] exI [of _ "?st(3 := ?s1)"]) simp
qed

theorem file_commit_durable_witness:
  "\<exists>x. load ''k'' (\<lparr>content = FileDoc [(''k'', ''v'')], lock_owner = Some 0\<rparr>,
       new_file_store 1 False :: unit file_store) = (Inr (Some ''v''), x)"
  using file_commit_durable [OF _ _ first_commit_run [of 0], of "new_file_store 1 False" "''k''"]
  by (simp add: file_eval)

theorem file_commit_all_or_nothing_witness:
  "\<exists>d1 s1. commit_many ((), DirSyncFails) [(''k'', ''v'')] (empty_disk, new_file_store 0 True) =
       (Inl WriteOSError, d1, s1) \<and> content d1 = FileDoc [(''k'', ''v'')]"
proof -
  obtain d1 s1 where run: "commit_many ((), DirSyncFails) [(''k'', ''v'')] (empty_disk, new_file_store 0 True) =
       (Inl WriteOSError, d1, s1)" "content d1 \<noteq> FileAbsent"
    by (simp add: file_eval)
  from file_commit_all_or_nothing [OF run(1)] run(2)
  have "content d1 = FileDoc [(''k'', ''v'')]" by (auto simp: file_eval)
  with run show ?thesis by blast
qed

theorem epoch_fence_holds_witness:
  "\<exists>d2 s2. commit_many ((), WriteOk) [(''k'', ''stale'')] (led_disk, led_store 1) =
      (Inl StateFenceError, d2, s2) \<and> content d2 = content led_disk"
proof -
  obtain d2 s2 where run: "commit_many ((), WriteOk) [(''k'', ''stale'')] (led_disk, led_store 1) =
      (Inl StateFenceError, d2, s2)"
    by (simp add: file_eval py_int_def nat_of_digits_def digit_val_def strip_def is_space_def is_digit_def
        less_eq_char_def)
  have "file_epoch led_disk = Some 2"
    by (simp add: file_eval py_int_def nat_of_digits_def digit_val_def strip_def is_space_def is_digit_def
        less_eq_char_def)
  moreover have "\<forall>i. epoch_fn (led_store i) \<noteq> None" by (simp add: led_store_def set_epoch_def)
  note fence = epoch_fence_holds [OF this rtranclp.rtrancl_refl, THEN conjunct2, rule_format]
  moreover have "items_ok {EPOCH_KEY} [(''k'', ''stale'')]"
    by (simp add: items_ok_def wf_dict_def EPOCH_KEY_def)
  moreover have "epoch_fn (led_store 1) = Some (\<lambda>_. Some 1)" by (simp add: led_store_def set_epoch_def)
  ultimately have "content d2 = content led_disk"
    using fence [of 1 "\<lambda>_. Some 1" "()" 1 "[(''k'', ''stale'')]" WriteOk led_disk "Inl StateFenceError" d2 s2 "''k''" 2] run by simp
  with run show ?thesis by blast
qed

end
