(* ===== verification/OrgView.thy ===== *)
theory OrgView
  imports FileStore Model
begin

section \<open>state/org_view.py and sources/org_adapter.py: several orgs on one store\<close>

text \<open>
  \<^verbatim>\<open>src/sf2loki/state/org_view.py\<close> and \<^verbatim>\<open>src/sf2loki/sources/org_adapter.py\<close>.
  \<open>OrgCheckpointView\<close> is a function of the wrapped store's operations, so it works on any
  backend: the locale \<open>org_view\<close> extends \<open>checkpoint_store\<close> by a prefix, and its
  \<open>sublocale\<close> says the view is a checkpoint store again, whose durable map is the org's
  slice (with the legacy fallback of the first org). It is interpreted on the file store.

  \<open>OrgSource\<close> rewrites the entries of the wrapped source; a run of the inner generator is
  its entries and how it ended. Results: two orgs never see each other's checkpoints, the key
  an entry carries is the key its source will load, and the auth back-off is bounded.
\<close>

definition ORG_NAME_CHARS :: "char \<Rightarrow> bool" where
  "ORG_NAME_CHARS c \<longleftrightarrow>
     CHR ''A'' \<le> c \<and> c \<le> CHR ''Z'' \<or> CHR ''a'' \<le> c \<and> c \<le> CHR ''z'' \<or> is_digit c
     \<or> c = CHR ''_'' \<or> c = CHR ''-''"

definition org_name_ok :: "string \<Rightarrow> bool" where
  "org_name_ok n \<longleftrightarrow> n \<noteq> [] \<and> list_all ORG_NAME_CHARS n"

definition org_prefix :: "string \<Rightarrow> string" where
  "org_prefix name = ''org='' @ name @ '':''"

subsection \<open>The view\<close>

definition view_load ::
  "string \<Rightarrow> bool \<Rightarrow> (string \<Rightarrow> ('s, 'e, string option) op) \<Rightarrow> string \<Rightarrow> ('s, 'e, string option) op" where
  "view_load pre legacy inner_load key =
     and_then (inner_load (pre @ key)) (\<lambda>v.
       if v = None \<and> legacy then inner_load key else ret v)"

definition view_commit ::
  "string \<Rightarrow> (string \<Rightarrow> string \<Rightarrow> ('s, 'e, unit) op) \<Rightarrow> string \<Rightarrow> string \<Rightarrow> ('s, 'e, unit) op" where
  "view_commit pre inner_commit key v = inner_commit (pre @ key) v"

definition prefixed :: "string \<Rightarrow> doc \<Rightarrow> doc" where
  "prefixed pre items = map (\<lambda>(k, v). (pre @ k, v)) items"

definition view_commit_many ::
  "string \<Rightarrow> ('env \<Rightarrow> doc \<Rightarrow> ('s, 'e, unit) op) \<Rightarrow> 'env \<Rightarrow> doc \<Rightarrow> ('s, 'e, unit) op" where
  "view_commit_many pre inner_commit_many env items = inner_commit_many env (prefixed pre items)"

subsection \<open>The source adapter\<close>

definition RETRY_BACKOFF_BASE :: seconds where "RETRY_BACKOFF_BASE = 1"
definition RETRY_BACKOFF_MAX :: seconds where "RETRY_BACKOFF_MAX = 30"

record org_source =
  src_org :: string
  src_environment :: string
  src_has_provider :: bool
  src_legacy_fallback :: bool
  src_org_id :: string

text \<open>\<open>answer\<close> is what the org-id provider returns if asked now; \<open>None\<close> is an exception.\<close>

definition resolve_org_id :: "string option \<Rightarrow> org_source \<Rightarrow> string \<times> org_source" where
  "resolve_org_id answer s =
     (if src_org_id s \<noteq> [] then (src_org_id s, s)
      else if \<not> src_has_provider s then ([], s)
      else case answer of
        None \<Rightarrow> ([], s)
      | Some i \<Rightarrow> (i, s\<lparr>src_org_id := i\<rparr>))"

definition scope_entry :: "string option \<Rightarrow> log_entry \<Rightarrow> org_source \<Rightarrow> log_entry \<times> org_source" where
  "scope_entry answer e s =
     (let (e1, s1) =
        (if checkpoint_only e then (e, s)
         else let extra = [(''org'', src_org s), (''environment'', src_environment s)];
                  (org_id, s1) = resolve_org_id answer s;
                  extra = (if org_id \<noteq> [] then AList.update ''sf_org_id'' org_id extra else extra)
              in (e\<lparr>labels := dict_merge (labels e) extra\<rparr>, s1));
          t = checkpoint e1
      in (e1\<lparr>checkpoint := \<lparr>tok_key = org_prefix (src_org s) @ tok_key t, tok_value = tok_value t\<rparr>\<rparr>, s1))"

datatype run_end = Exhausted | AuthFailed | OtherFailed

text \<open>One turn of the loop: whether \<open>stop\<close> is set at its start, the entries the inner
  generator yields (with the provider's answer at that moment), how the generator ended and
  whether \<open>stop\<close> fires during the back-off.\<close>

record inner_run =
  stop_at_start :: bool
  yields :: "(log_entry \<times> string option) list"
  ended :: run_end
  stop_in_backoff :: bool

fun scope_all :: "(log_entry \<times> string option) list \<Rightarrow> org_source \<Rightarrow> log_entry list \<times> org_source" where
  "scope_all [] s = ([], s)"
| "scope_all ((e, answer) # es) s =
     (let (e1, s1) = scope_entry answer e s; (es1, s2) = scope_all es s1 in (e1 # es1, s2))"

datatype events_end = Returned | Raised | Waiting

text \<open>Yields the scoped entries, the back-offs waited and how the generator stands; \<open>Waiting\<close>
  when the given runs are used up and the loop would go on.\<close>

fun org_events :: "seconds \<Rightarrow> inner_run list \<Rightarrow> org_source \<Rightarrow> log_entry list \<times> seconds list \<times> events_end" where
  "org_events backoff [] s = ([], [], Waiting)"
| "org_events backoff (run # runs) s =
     (if stop_at_start run then ([], [], Returned)
      else case scope_all (yields run) s of
        (es, s1) \<Rightarrow>
          (case ended run of
             Exhausted \<Rightarrow> (es, [], Returned)
           | OtherFailed \<Rightarrow> (es, [], Raised)
           | AuthFailed \<Rightarrow>
               if stop_in_backoff run then (es, [backoff], Returned)
               else case org_events (min (backoff * 2) RETRY_BACKOFF_MAX) runs s1 of
                 (es', bs, r) \<Rightarrow> (es @ es', backoff # bs, r)))"

definition events :: "inner_run list \<Rightarrow> org_source \<Rightarrow> log_entry list \<times> seconds list \<times> events_end" where
  "events runs s = org_events RETRY_BACKOFF_BASE runs s"

subsection \<open>The view is a checkpoint store\<close>

lemma map_of_prefixed [simp]: "map_of (prefixed pre items) (pre @ k) = map_of items k"
  by (induction items) (auto simp: prefixed_def)

lemma map_of_prefixed_other: "\<not> startswith k pre \<Longrightarrow> map_of (prefixed pre items) k = None"
  by (induction items) (auto simp: prefixed_def)

lemma wf_prefixed [simp]: "wf_dict (prefixed pre items) = wf_dict items"
  by (induction items) (auto simp: prefixed_def wf_dict_def image_iff)

lemma items_ok_prefixed:
  "items_ok {k. pre @ k \<in> R \<or> Q k} items \<Longrightarrow> items_ok R (prefixed pre items)"
  using wf_prefixed [of pre items] by (auto simp: items_ok_def disjoint_iff prefixed_def)

definition slice :: "string \<Rightarrow> bool \<Rightarrow> (string \<rightharpoonup> string) \<Rightarrow> string \<rightharpoonup> string" where
  "slice pre legacy m k =
     (case m (pre @ k) of Some v \<Rightarrow> Some v | None \<Rightarrow> if legacy then m k else None)"

definition view_reserved :: "string \<Rightarrow> string set \<Rightarrow> string set" where
  "view_reserved pre R = {k. pre @ k \<in> R \<or> k \<in> R \<or> startswith k pre}"

lemma slice_commit:
  assumes "items_ok (view_reserved pre R) items"
  shows "outside (view_reserved pre R) (slice pre legacy (m ++ map_of (prefixed pre items))) =
    outside (view_reserved pre R) (slice pre legacy m) ++ map_of items"
proof (rule ext)
  fix k
  show "outside (view_reserved pre R) (slice pre legacy (m ++ map_of (prefixed pre items))) k =
    (outside (view_reserved pre R) (slice pre legacy m) ++ map_of items) k"
  proof (cases "k \<in> view_reserved pre R")
    case True
    then show ?thesis using items_ok_None [OF assms] by (simp add: map_add_def)
  next
    case False
    then have "map_of (prefixed pre items) k = None"
      by (intro map_of_prefixed_other) (simp add: view_reserved_def)
    with False show ?thesis by (simp add: slice_def map_add_def split: option.split)
  qed
qed

locale org_view = checkpoint_store +
  fixes pre :: string and legacy :: bool

sublocale org_view \<subseteq> org: checkpoint_store "view_load pre legacy load" "view_commit_many pre commit_many" reset inv
  "\<lambda>s. outside (view_reserved pre reserved) (slice pre legacy (view s))" "view_reserved pre reserved"
proof (unfold_locales, goal_cases)
  case (1 s)
  then show ?case by simp
next
  case (2 s k r s')
  have k: "pre @ k \<notin> reserved" "k \<notin> reserved" using 2(2) by (auto simp: view_reserved_def)
  obtain r1 s1 where one: "load (pre @ k) s = (r1, s1)" by (metis surj_pair)
  note L = load_law [OF 2(1) k(1) one]
  show ?case
  proof (cases "r1 = Inr None \<and> legacy")
    case True
    then have two: "load k s1 = (r, s')" using 2(3) one by (simp add: view_load_def and_then_def)
    with load_law [OF _ k(2) two] L True 2(2) show ?thesis by (auto simp: slice_def)
  next
    case False
    then have "r = r1" "s' = s1"
      using 2(3) one by (auto simp: view_load_def and_then_def ret_def split: sum.splits if_splits)
    with L False 2(2) show ?thesis by (auto simp: slice_def split: option.splits)
  qed
next
  case (3 s items env s')
  then have "items_ok reserved (prefixed pre items)"
    by (auto intro!: items_ok_prefixed [where Q = "\<lambda>k. k \<in> reserved \<or> startswith k pre"] simp: view_reserved_def)
  with commit_law [OF 3(1)] 3 slice_commit [OF 3(2)] show ?case
    unfolding view_commit_many_def by metis
next
  case (4 s items env e s')
  then have ok: "items_ok reserved (prefixed pre items)"
    by (auto intro!: items_ok_prefixed [where Q = "\<lambda>k. k \<in> reserved \<or> startswith k pre"] simp: view_reserved_def)
  from commit_raise_law [OF 4(1) ok 4(3) [unfolded view_commit_many_def]] slice_commit [OF 4(2)]
  show ?case by metis
qed

interpretation file_org: org_view FileStore.load FileStore.commit_many FileStore.reset file_inv file_view "{EPOCH_KEY}" pre legacy
  for pre legacy
  by unfold_locales

subsection \<open>Namespaces are disjoint\<close>

text \<open>A key as the sources write it: never under the org namespace, never the epoch key.\<close>

definition source_key :: "string \<Rightarrow> bool" where
  "source_key k \<longleftrightarrow> \<not> startswith k ''org='' \<and> k \<noteq> EPOCH_KEY"

lemma org_name_no_colon: "org_name_ok n \<Longrightarrow> CHR '':'' \<notin> set n"
  by (auto simp: org_name_ok_def list_all_iff ORG_NAME_CHARS_def is_digit_def less_eq_char_def)

lemma append_sep_eq: "c \<notin> set n \<Longrightarrow> c \<notin> set m \<Longrightarrow> n @ c # k = m @ c # j \<Longrightarrow> n = m \<and> k = j"
proof (induction n arbitrary: m)
  case Nil
  then show ?case by (cases m) auto
next
  case (Cons a n)
  then show ?case by (cases m) auto
qed

lemma org_prefix_inj:
  "org_name_ok n \<Longrightarrow> org_name_ok m \<Longrightarrow> org_prefix n @ k = org_prefix m @ j \<Longrightarrow> n = m \<and> k = j"
  by (auto simp: org_prefix_def dest: append_sep_eq [rotated 2] org_name_no_colon)

lemma org_prefix_start: "startswith (org_prefix n @ k) ''org=''"
  by (simp add: org_prefix_def startswith_def)

lemma org_prefix_not_epoch [simp]: "org_prefix n @ k \<noteq> EPOCH_KEY"
  by (simp add: org_prefix_def EPOCH_KEY_def)

lemma startswith_org_prefix: "startswith k (org_prefix n) \<Longrightarrow> startswith k ''org=''"
  by (metis org_prefix_start startswith_prefix)

lemma source_key_free: "source_key k \<Longrightarrow> k \<notin> view_reserved (org_prefix n) {EPOCH_KEY}"
  by (auto simp: source_key_def view_reserved_def dest: startswith_org_prefix)

lemma source_items_ok:
  "wf_dict items \<Longrightarrow> \<forall>k \<in> fst ` set items. source_key k \<Longrightarrow>
   items_ok (view_reserved (org_prefix n) {EPOCH_KEY}) items"
  using source_key_free by (auto simp: items_ok_def)

text \<open>
  C29. Orgs sharing one file store are isolated. After a commit through the view of org
  \<open>n\<close> returns, org \<open>n\<close> loads what it committed and keeps its other keys, and a different
  org \<open>m\<close>, whether or not it falls back to legacy keys, loads for every source key exactly
  what it would have loaded before.
\<close>

theorem org_isolation:
  assumes "org_name_ok n" "org_name_ok m" "n \<noteq> m" "file_inv x"
    and "wf_dict items" "\<forall>j \<in> fst ` set items. source_key j" "source_key k"
    and "view_commit_many (org_prefix n) FileStore.commit_many env items x = (Inr (), y)"
  shows "(\<forall>v z. view_load (org_prefix n) legacy FileStore.load k y = (Inr v, z) \<longrightarrow>
        v = (case map_of items k of Some t \<Rightarrow> Some t | None \<Rightarrow> slice (org_prefix n) legacy (file_view x) k))
    \<and> (\<forall>v z. view_load (org_prefix m) legacy' FileStore.load k y = (Inr v, z) \<longrightarrow>
        v = slice (org_prefix m) legacy' (file_view x) k)"
proof (intro conjI allI impI)
  let ?R = "\<lambda>n. view_reserved (org_prefix n) {EPOCH_KEY}"
  have ok: "items_ok (?R n) items" by (rule source_items_ok [OF assms(5,6)])
  have k: "k \<notin> ?R n" "k \<notin> ?R m" using source_key_free [OF assms(7)] by blast+
  {
    fix v z
    assume l: "view_load (org_prefix n) legacy FileStore.load k y = (Inr v, z)"
    from file_org.org.load_after_commit [OF assms(4) ok assms(8) k(1) l] k(1)
    show "v = (case map_of items k of Some t \<Rightarrow> Some t | None \<Rightarrow> slice (org_prefix n) legacy (file_view x) k)"
      by (simp split: option.splits)
  next
    fix v z
    assume l: "view_load (org_prefix m) legacy' FileStore.load k y = (Inr v, z)"
    have pok: "items_ok {EPOCH_KEY} (prefixed (org_prefix n) items)"
      using assms(5) wf_prefixed [of "org_prefix n" items] org_prefix_not_epoch [symmetric]
      by (auto simp: items_ok_def prefixed_def simp del: org_prefix_not_epoch)
    have inv: "file_inv y" and view: "file_view y = file_view x ++ map_of (prefixed (org_prefix n) items)"
      using fs.commit_law [OF assms(4) pok assms(8) [unfolded view_commit_many_def]] by blast+
    have other: "map_of (prefixed (org_prefix n) items) (org_prefix m @ k) = None"
      using org_prefix_inj assms(1-3) by (intro map_of_prefixed_other) (metis startswith_prefix append_assoc)
    have plain: "map_of (prefixed (org_prefix n) items) k = None"
      using assms(7) by (intro map_of_prefixed_other) (auto simp: source_key_def dest: startswith_org_prefix)
    have "v = outside (?R m) (slice (org_prefix m) legacy' (file_view y)) k"
      using file_org.org.load_law [OF inv k(2) l] by blast
    with k(2) view other plain show "v = slice (org_prefix m) legacy' (file_view x) k"
      by (simp add: slice_def map_add_def split: option.splits)
  }
qed

subsection \<open>The adapter\<close>

lemma scope_entry_facts:
  assumes "scope_entry answer e s = (e', s')"
  shows "tok_key (checkpoint e') = org_prefix (src_org s) @ tok_key (checkpoint e)"
    "tok_value (checkpoint e') = tok_value (checkpoint e)" "src_org s' = src_org s"
    "src_environment s' = src_environment s" "checkpoint_only e' = checkpoint_only e" "line e' = line e"
  using assms
  by (auto simp: scope_entry_def resolve_org_id_def Let_def split: prod.splits if_splits option.splits)

lemma scope_entry_labels:
  assumes "scope_entry answer e s = (e', s')" "\<not> checkpoint_only e"
  shows "map_of (labels e') ''org'' = Some (src_org s)"
    "map_of (labels e') ''environment'' = Some (src_environment s)"
  using assms
  by (auto simp: scope_entry_def resolve_org_id_def Let_def split: prod.splits if_splits option.splits)

definition scoped :: "org_source \<Rightarrow> log_entry \<Rightarrow> bool" where
  "scoped s e \<longleftrightarrow> startswith (tok_key (checkpoint e)) (org_prefix (src_org s))
     \<and> (checkpoint_only e \<or> map_of (labels e) ''org'' = Some (src_org s)
          \<and> map_of (labels e) ''environment'' = Some (src_environment s))"

lemma scoped_cong: "src_org s' = src_org s \<Longrightarrow> src_environment s' = src_environment s \<Longrightarrow> scoped s' = scoped s"
  by (rule ext) (simp add: scoped_def)

lemma scope_all_scoped:
  "scope_all es s = (es', s') \<Longrightarrow>
   list_all (scoped s) es' \<and> src_org s' = src_org s \<and> src_environment s' = src_environment s"
proof (induction es s arbitrary: es' s' rule: scope_all.induct)
  case (1 s)
  then show ?case by simp
next
  case (2 e answer es s)
  obtain e1 s1 where one: "scope_entry answer e s = (e1, s1)" by (metis surj_pair)
  obtain es1 s2 where rest: "scope_all es s1 = (es1, s2)" by (metis surj_pair)
  have sc: "scoped s e1"
    using scope_entry_facts [OF one] scope_entry_labels [OF one]
    by (auto simp: scoped_def)
  have "list_all (scoped s1) es1 \<and> src_org s2 = src_org s1 \<and> src_environment s2 = src_environment s1"
    using "2.IH" one rest by metis
  with sc show ?case
    using "2.prems" one rest scope_entry_facts(3,4) [OF one] scoped_cong [of s1 s] by auto
qed

definition backoffs :: "seconds \<Rightarrow> nat \<Rightarrow> seconds list" where
  "backoffs b n = map (\<lambda>i. min (b * 2 ^ i) RETRY_BACKOFF_MAX) [0..<n]"

lemma length_backoffs [simp]: "length (backoffs b n) = n"
  by (simp add: backoffs_def)

lemma backoffs_Suc: "backoffs b (Suc n) = min b RETRY_BACKOFF_MAX # backoffs (b * 2) n"
  by (simp add: backoffs_def upt_conv_Cons map_Suc_upt [symmetric] mult.assoc del: upt_Suc)

lemma backoffs_min:
  "0 \<le> b \<Longrightarrow> backoffs (min b RETRY_BACKOFF_MAX) n = backoffs b n"
proof -
  assume b: "0 \<le> b"
  have "min (min b RETRY_BACKOFF_MAX * 2 ^ i) RETRY_BACKOFF_MAX = min (b * 2 ^ i) RETRY_BACKOFF_MAX" for i
  proof -
    have p: "(1::rat) \<le> 2 ^ i" by simp
    have grow: "RETRY_BACKOFF_MAX \<le> RETRY_BACKOFF_MAX * 2 ^ i" using p by (simp add: RETRY_BACKOFF_MAX_def)
    show ?thesis
    proof (cases "b \<le> RETRY_BACKOFF_MAX")
      case True
      then show ?thesis by (simp add: min_absorb1)
    next
      case False
      then have "RETRY_BACKOFF_MAX * 2 ^ i \<le> b * 2 ^ i" by simp
      with grow have "RETRY_BACKOFF_MAX \<le> b * 2 ^ i" by linarith
      with grow False show ?thesis by (simp add: min_absorb2)
    qed
  qed
  then show ?thesis by (simp add: backoffs_def)
qed

lemma org_events_spec:
  "org_events b runs s = (es, bs, r) \<Longrightarrow> 0 \<le> b \<Longrightarrow> b \<le> RETRY_BACKOFF_MAX \<Longrightarrow>
   list_all (scoped s) es \<and> bs = backoffs b (length bs) \<and> length bs \<le> length runs"
proof (induction b runs s arbitrary: es bs r rule: org_events.induct)
  case (1 b s)
  then show ?case by (simp add: backoffs_def)
next
  case (2 b run runs s)
  obtain es1 s1 where sc: "scope_all (yields run) s = (es1, s1)" by (metis surj_pair)
  note S = scope_all_scoped [OF sc]
  show ?case
  proof (cases "stop_at_start run \<or> ended run \<noteq> AuthFailed \<or> stop_in_backoff run")
    case True
    then show ?thesis
      using "2.prems" sc S by (cases "ended run") (auto simp: backoffs_def split: if_splits)
  next
    case False
    obtain es2 bs2 r2 where rest: "org_events (min (b * 2) RETRY_BACKOFF_MAX) runs s1 = (es2, bs2, r2)"
      by (metis prod_cases3)
    have IH: "list_all (scoped s1) es2 \<and> bs2 = backoffs (min (b * 2) RETRY_BACKOFF_MAX) (length bs2)
        \<and> length bs2 \<le> length runs"
      using "2.IH" [OF _ sc [symmetric]] False rest "2.prems" by (simp add: RETRY_BACKOFF_MAX_def)
    have eq: "es = es1 @ es2" "bs = b # bs2" "r = r2" using "2.prems" False sc rest by auto
    have "list_all (scoped s) es2" using IH S scoped_cong [of s1 s] by simp
    moreover have "bs = backoffs b (length bs)"
      using IH eq "2.prems" backoffs_min [of "b * 2"] by (simp add: backoffs_Suc)
    ultimately show ?thesis using eq S IH by simp
  qed
qed

text \<open>
  The org adapter scopes everything it yields and backs off boundedly. Whatever the inner
  generator does, every entry that comes out carries a checkpoint key under the org's prefix,
  and, unless it is a bare checkpoint, the org's own \<open>org\<close> and \<open>environment\<close> labels;
  after the i-th auth failure the adapter waits \<open>min (2 ^ i) 30\<close> seconds.
\<close>

theorem org_events_scoped:
  "case events runs s of (es, bs, r) \<Rightarrow>
     list_all (scoped s) es \<and> bs = map (\<lambda>i. min (2 ^ i) 30) [0..<length bs]"
proof -
  obtain es bs r where run: "events runs s = (es, bs, r)" by (metis prod_cases3)
  then have "org_events 1 runs s = (es, bs, r)" by (simp add: events_def RETRY_BACKOFF_BASE_def)
  from org_events_spec [OF this] run show ?thesis
    by (simp add: backoffs_def RETRY_BACKOFF_MAX_def)
qed

text \<open>
  An org resumes from what its own entries committed. The token of a scoped entry,
  committed to the shared file store, is what the view hands the inner source when it loads
  its own, unprefixed key.
\<close>

theorem org_resume:
  assumes "file_inv x" "source_key (tok_key (checkpoint e))" "scope_entry answer e s = (e', s')"
    and "FileStore.commit env (tok_key (checkpoint e')) (tok_value (checkpoint e')) x = (Inr (), y)"
    and "view_load (org_prefix (src_org s)) legacy FileStore.load (tok_key (checkpoint e)) y = (Inr v, z)"
  shows "v = Some (tok_value (checkpoint e))"
proof -
  let ?k = "tok_key (checkpoint e)" and ?v = "tok_value (checkpoint e)"
  have pre: "prefixed (org_prefix (src_org s)) [(?k, ?v)] = [(tok_key (checkpoint e'), tok_value (checkpoint e'))]"
    using scope_entry_facts [OF assms(3)] by (simp add: prefixed_def)
  have c: "view_commit_many (org_prefix (src_org s)) FileStore.commit_many env [(?k, ?v)] x = (Inr (), y)"
    using assms(4) pre by (simp add: view_commit_many_def FileStore.commit_def)
  have ok: "items_ok (view_reserved (org_prefix (src_org s)) {EPOCH_KEY}) [(?k, ?v)]"
    using assms(2) by (intro source_items_ok) (simp_all add: wf_dict_def)
  from file_org.org.load_after_commit [OF assms(1) ok c source_key_free [OF assms(2)] assms(5)]
  show ?thesis by simp
qed

subsection \<open>Witnesses\<close>

definition prod_source :: org_source where
  "prod_source = \<lparr>src_org = ''prod'', src_environment = ''live'', src_has_provider = False,
     src_legacy_fallback = False, src_org_id = []\<rparr>"

definition org_entry :: log_entry where
  "org_entry = \<lparr>timestamp = 0, labels = [], line = [], structured_metadata = [],
     checkpoint = \<lparr>tok_key = ''p:k'', tok_value = ''v''\<rparr>, checkpoint_only = False, line_nbytes_memo = - 1\<rparr>"

abbreviation emea_store :: "disk \<times> unit file_store" where
  "emea_store \<equiv> (\<lparr>content = FileDoc [(''org=emea:k'', ''7'')], lock_owner = None\<rparr>, new_file_store 0 False)"

lemmas org_eval = view_commit_many_def view_load_def prefixed_def org_prefix_def slice_def file_view_def
  FileStore.commit_def FileStore.commit_many_def FileStore.load_def file_defs new_file_store_def persisted_def
  readable_def EPOCH_KEY_def wf_dict_def source_key_def startswith_def file_inv_def

lemma org_names: "org_name_ok ''prod''" "org_name_ok ''emea''"
  by (simp_all add: org_name_ok_def ORG_NAME_CHARS_def less_eq_char_def)

theorem org_isolation_witness:
  "\<exists>y z. view_commit_many (org_prefix ''prod'') FileStore.commit_many ((), WriteOk) [(''k'', ''1'')] emea_store
      = (Inr (), y)
    \<and> view_load (org_prefix ''emea'') False FileStore.load ''k'' y = (Inr (Some ''7''), z)"
proof -
  obtain y where c: "view_commit_many (org_prefix ''prod'') FileStore.commit_many ((), WriteOk) [(''k'', ''1'')]
      emea_store = (Inr (), y)" by (simp add: org_eval)
  then have "y = (\<lparr>content = FileDoc [(''org=emea:k'', ''7''), (''org=prod:k'', ''1'')], lock_owner = None\<rparr>,
      (new_file_store 0 False)\<lparr>cache := Some [(''org=emea:k'', ''7''), (''org=prod:k'', ''1'')]\<rparr>)"
    by (simp add: org_eval)
  then obtain v z where l: "view_load (org_prefix ''emea'') False FileStore.load ''k'' y = (Inr v, z)"
    by (simp add: org_eval)
  from org_isolation [OF org_names _ _ _ _ _ c, THEN conjunct2, rule_format, OF _ _ _ _ _ l]
  have "v = slice (org_prefix ''emea'') False (file_view emea_store) ''k''"
    by (simp add: source_key_def startswith_def wf_dict_def file_inv_def new_file_store_def EPOCH_KEY_def)
  with c l show ?thesis by (simp add: org_eval)
qed

theorem org_resume_witness:
  "\<exists>y z. FileStore.commit ((), WriteOk) ''org=prod:p:k'' ''v'' emea_store = (Inr (), y)
    \<and> view_load (org_prefix ''prod'') True FileStore.load ''p:k'' y = (Inr (Some ''v''), z)"
proof -
  obtain e' s' where sc: "scope_entry None org_entry prod_source = (e', s')" by (metis surj_pair)
  have t: "tok_key (checkpoint e') = ''org=prod:p:k''" "tok_value (checkpoint e') = ''v''"
    using scope_entry_facts [OF sc] by (simp_all add: org_prefix_def prod_source_def org_entry_def)
  obtain y where c: "FileStore.commit ((), WriteOk) ''org=prod:p:k'' ''v'' emea_store = (Inr (), y)"
    by (simp add: org_eval)
  then have "y = (\<lparr>content = FileDoc [(''org=emea:k'', ''7''), (''org=prod:p:k'', ''v'')], lock_owner = None\<rparr>,
      (new_file_store 0 False)\<lparr>cache := Some [(''org=emea:k'', ''7''), (''org=prod:p:k'', ''v'')]\<rparr>)"
    by (simp add: org_eval)
  then obtain v z where l: "view_load (org_prefix ''prod'') True FileStore.load ''p:k'' y = (Inr v, z)"
    by (simp add: org_eval)
  have "v = Some (tok_value (checkpoint org_entry))"
    by (rule org_resume [OF _ _ sc, of emea_store "((), WriteOk)" y True v z])
      (use c l t in \<open>simp_all add: prod_source_def org_entry_def source_key_def startswith_def EPOCH_KEY_def
        file_inv_def new_file_store_def\<close>)
  with c l show ?thesis by (simp add: org_entry_def)
qed

end
