(* ===== verification/Pipeline.thy ===== *)
theory Pipeline
  imports Sink Egress OrgView
begin

section \<open>app.py: the pipeline\<close>

text \<open>
  \<^verbatim>\<open>src/sf2loki/app.py\<close>, lines 70 to 585: lanes, the byte-budgeted queue, the consumer
  loop, \<^verbatim>\<open>_flush\<close> and \<^verbatim>\<open>_commit\<close>.

  The sink and the store are parameters (\<open>pipe_env\<close>), as in the code, where both are
  protocols; the theorems instantiate them with the Loki sink and the file store. What is
  outside one flush's control is its \<open>flush_io\<close>: the clocks and wake-ups of the governor,
  for each retryable failure whether \<open>stop\<close> was set or fired during the back-off, and the
  environment of the two commits. A list of wake-ups or retries that is used up leaves the
  flush waiting (\<open>FWaiting\<close>): no theorem turns waiting into success. The consumer loop
  (\<open>consume\<close>) runs over the items and timeouts it meets.

  Results: the byte budget of a lane is exact and bounded, a queue entry larger than the
  budget still gets in; as long as no flush was abandoned, what is durable for a key is the
  token of an entry all of whose predecessors in the lane were delivered or counted as
  dropped (commit after push, at least once). A batch abandoned at shutdown breaks this:
  a later flush commits past it.
\<close>

subsection \<open>Lanes\<close>

definition STREAMING_SOURCE_NAMES :: "string list" where
  "STREAMING_SOURCE_NAMES = [''pubsub'']"

definition lane_of :: "string \<Rightarrow> string" where
  "lane_of name = (if name \<in> set STREAMING_SOURCE_NAMES then ''streaming'' else ''bulk'')"

definition QUEUE_ENTRY_OVERHEAD :: nat where
  "QUEUE_ENTRY_OVERHEAD = 64"

definition PIPE_BACKOFF_BASE :: seconds where "PIPE_BACKOFF_BASE = 1"
definition PIPE_BACKOFF_MAX :: seconds where "PIPE_BACKOFF_MAX = 30"

definition build_static_labels :: "string \<Rightarrow> string \<Rightarrow> labelset \<Rightarrow> labelset" where
  "build_static_labels environment org_id operator_labels =
     dict_merge [(''job'', ''sf2loki''), (''service_name'', ''sf2loki''),
       (''environment'', environment), (''sf_org_id'', org_id)] operator_labels"

definition sink_failing_since :: "seconds option list \<Rightarrow> seconds option" where
  "sink_failing_since lanes =
     (let times = List.map_filter id lanes in if times = [] then None else Some (Min (set times)))"

text \<open>\<^verbatim>\<open>grouped.setdefault(_lane_of(src), []).append(src)\<close>, over the source names.\<close>

definition group_sources :: "string list \<Rightarrow> (string, string list) dict" where
  "group_sources srcs =
     fold (\<lambda>src d. AList.update (lane_of src) (get_default d (lane_of src) [] @ [src]) d) srcs []"

subsection \<open>The queue and its byte budget\<close>

datatype item = Entry log_entry | Sentinel

fun entry_cost :: "item \<Rightarrow> nat" where
  "entry_cost Sentinel = 0"
| "entry_cost (Entry e) =
     (if checkpoint_only e then 0
      else nbytes e + QUEUE_ENTRY_OVERHEAD
        + sum_list (map (\<lambda>(k, v). length k + length v) (labels e))
        + sum_list (map (\<lambda>(k, v). length k + length v) (structured_metadata e))
        + length (tok_value (checkpoint e)))"

record lane_state =
  lane_queue :: "item list"
  lane_putting :: "item list"
  queued_bytes :: int

text \<open>The producer's side: the static labels are merged into a real entry, then the entry is
  charged. \<open>charge\<close> is \<open>None\<close> while the producer has to wait. A charged item waits in
  \<open>lane_putting\<close> until \<^verbatim>\<open>queue.put\<close> goes through.\<close>

definition label_entry :: "labelset \<Rightarrow> log_entry \<Rightarrow> log_entry" where
  "label_entry static e =
     (if \<not> checkpoint_only e \<and> static \<noteq> [] then e\<lparr>labels := dict_merge (labels e) static\<rparr> else e)"

definition charge :: "int \<Rightarrow> item \<Rightarrow> lane_state \<Rightarrow> lane_state option" where
  "charge budget i l =
     (if budget \<le> 0 then Some l
      else if entry_cost i = 0 then Some l
      else if queued_bytes l < budget then Some (l\<lparr>queued_bytes := queued_bytes l + int (entry_cost i)\<rparr>)
      else None)"

definition release :: "int \<Rightarrow> item \<Rightarrow> lane_state \<Rightarrow> lane_state" where
  "release budget i l =
     (if budget \<le> 0 then l
      else if entry_cost i = 0 then l
      else l\<lparr>queued_bytes := queued_bytes l - int (entry_cost i)\<rparr>)"

text \<open>What the producers and the consumer of one lane do to it, in any order.\<close>

inductive lane_step :: "int \<Rightarrow> nat \<Rightarrow> lane_state \<Rightarrow> lane_state \<Rightarrow> bool" for budget :: int and maxsize :: nat where
  charge_step: "charge budget i l = Some l1 \<Longrightarrow>
    lane_step budget maxsize l (l1\<lparr>lane_putting := i # lane_putting l1\<rparr>)"
| put_step: "lane_putting l = us @ i # vs \<Longrightarrow> maxsize = 0 \<or> length (lane_queue l) < maxsize \<Longrightarrow>
    lane_step budget maxsize l (l\<lparr>lane_putting := us @ vs, lane_queue := lane_queue l @ [i]\<rparr>)"
| get_step: "lane_queue l = i # q \<Longrightarrow>
    lane_step budget maxsize l (release budget i (l\<lparr>lane_queue := q\<rparr>))"

subsection \<open>Commit\<close>

definition last_tokens :: "log_entry list \<Rightarrow> doc" where
  "last_tokens entries =
     fold (\<lambda>e d. AList.update (tok_key (checkpoint e)) (tok_value (checkpoint e)) d) entries []"

datatype commit_metric =
    LastReplayCommit string
  | WatermarkTs string string rat

text \<open>\<open>ts\<close> parses a timestamp (\<open>None\<close> when \<^verbatim>\<open>fromisoformat\<close> raises), \<open>field\<close> reads a
  field of a JSON object (\<open>None\<close> when it raises); \<open>now\<close> is the fallback.\<close>

definition parse_watermark_seconds :: "(string \<Rightarrow> rat option) \<Rightarrow> rat \<Rightarrow> string \<Rightarrow> rat" where
  "parse_watermark_seconds ts now v =
     (case ts (replace1 (CHR ''Z'') ''+00:00'' v) of None \<Rightarrow> now | Some t \<Rightarrow> t)"

definition parse_json_watermark ::
  "(string \<Rightarrow> rat option) \<Rightarrow> (string \<Rightarrow> string \<Rightarrow> string option) \<Rightarrow> rat \<Rightarrow> string \<Rightarrow> string \<Rightarrow> rat" where
  "parse_json_watermark ts field now name v =
     (case field name v of None \<Rightarrow> now | Some t \<Rightarrow> parse_watermark_seconds ts now t)"

definition record_commit_metric ::
  "(string \<Rightarrow> rat option) \<Rightarrow> (string \<Rightarrow> string \<Rightarrow> string option) \<Rightarrow> rat \<Rightarrow> string \<Rightarrow> string \<Rightarrow> commit_metric option" where
  "record_commit_metric ts field now key v =
     (if startswith key ''pubsub:'' then Some (LastReplayCommit (drop 7 key))
      else if startswith key ''eventlog_objects:''
      then Some (WatermarkTs ''eventlog_objects'' (drop 17 key) (parse_watermark_seconds ts now v))
      else if startswith key ''eventlogfile:''
      then Some (WatermarkTs ''eventlogfile'' (drop 13 key) (parse_json_watermark ts field now ''last_created'' v))
      else if key = ''apexlog''
      then Some (WatermarkTs ''apexlog'' ''apexlog'' (parse_json_watermark ts field now ''last_ts'' v))
      else None)"

subsection \<open>Flush\<close>

record ('s, 'd, 'env, 'e) pipe_env =
  sink_push :: "batch \<Rightarrow> 's \<Rightarrow> (sink_error + unit) \<times> 's"
  store_commit_many :: "'env \<Rightarrow> doc \<Rightarrow> ('d, 'e, unit) op"
  dump_budget :: "date \<Rightarrow> int \<Rightarrow> string"
  max_entries :: nat
  max_bytes :: nat
  flush_interval :: seconds

record ('s, 'd) pipe_state =
  snk :: 's
  str :: 'd
  gov :: "governor option"
  failing_since :: "seconds option"
  pipe_dropped :: "(string \<times> log_entry list) list"

record retry_io =
  stop_set :: bool
  stop_in_wait :: bool
  fail_time :: seconds

record 'env flush_io =
  io_stop :: bool
  io_now :: datetime
  io_mt :: seconds
  io_mt_after :: seconds
  io_wakes :: "wake list"
  io_retries :: "retry_io list"
  io_record_now :: datetime
  io_record_env :: 'env
  io_commit_env :: 'env

datatype 'e flush_end = FDone | FAbandoned | FWaiting | FRaised 'e

definition commit_batch ::
  "('s, 'd, 'env, 'e) pipe_env \<Rightarrow> 'env \<Rightarrow> log_entry list \<Rightarrow> ('s, 'd) pipe_state \<Rightarrow> 'e flush_end \<times> ('s, 'd) pipe_state" where
  "commit_batch P env entries st =
     (case store_commit_many P env (last_tokens entries) (str st) of
        (Inr _, d) \<Rightarrow> (FDone, st\<lparr>str := d\<rparr>)
      | (Inl e, d) \<Rightarrow> (FRaised e, st\<lparr>str := d\<rparr>))"

text \<open>\<^verbatim>\<open>governor.record\<close> followed by \<^verbatim>\<open>_commit\<close>; the counter goes through the same
  store.\<close>

definition record_and_commit ::
  "('s, 'd, 'env, 'e) pipe_env \<Rightarrow> 'env flush_io \<Rightarrow> nat \<Rightarrow> log_entry list \<Rightarrow> ('s, 'd) pipe_state
     \<Rightarrow> 'e flush_end \<times> ('s, 'd) pipe_state" where
  "record_and_commit P io bytes entries st =
     (case gov st of
        None \<Rightarrow> commit_batch P (io_commit_env io) entries st
      | Some g \<Rightarrow>
          (case record_push (dump_budget P) (io_record_now io) bytes True g of
             (_, None, g1) \<Rightarrow> commit_batch P (io_commit_env io) entries (st\<lparr>gov := Some g1\<rparr>)
           | (_, Some it, g1) \<Rightarrow>
               (case store_commit_many P (io_record_env io) [it] (str st) of
                  (Inr _, d) \<Rightarrow> commit_batch P (io_commit_env io) entries (st\<lparr>gov := Some g1, str := d\<rparr>)
                | (Inl e, d) \<Rightarrow>
                    (FRaised e,
                     st\<lparr>gov := Some (snd (snd (record_push (dump_budget P) (io_record_now io) bytes False g))),
                        str := d\<rparr>))))"

text \<open>The retry loop: one push per turn, one element of the list per retryable failure.\<close>

fun push_loop ::
  "('s, 'd, 'env, 'e) pipe_env \<Rightarrow> 'env flush_io \<Rightarrow> retry_io list \<Rightarrow> seconds \<Rightarrow> log_entry list \<Rightarrow> log_entry list
     \<Rightarrow> nat \<Rightarrow> ('s, 'd) pipe_state \<Rightarrow> 'e flush_end \<times> ('s, 'd) pipe_state" where
  "push_loop P io rs backoff reals entries bytes st =
     (case sink_push P reals (snk st) of
        (Inr _, s1) \<Rightarrow> record_and_commit P io bytes entries (st\<lparr>snk := s1, failing_since := None\<rparr>)
      | (Inl (PermanentSinkError reason), s1) \<Rightarrow>
          commit_batch P (io_commit_env io) entries
            (st\<lparr>snk := s1, failing_since := None, pipe_dropped := pipe_dropped st @ [(reason, reals)]\<rparr>)
      | (Inl RetryableSinkError, s1) \<Rightarrow>
          (case rs of
             [] \<Rightarrow> (FWaiting, st\<lparr>snk := s1\<rparr>)
           | r # rs' \<Rightarrow>
               let st1 = st\<lparr>snk := s1,
                     failing_since := (case failing_since st of None \<Rightarrow> Some (fail_time r) | Some t \<Rightarrow> Some t)\<rparr>
               in if stop_set r then (FAbandoned, st1)
                  else if stop_in_wait r then (FAbandoned, st1)
                  else push_loop P io rs' (min (backoff * 2) PIPE_BACKOFF_MAX) reals entries bytes st1))"

declare push_loop.simps [simp del]

definition flush ::
  "('s, 'd, 'env, 'e) pipe_env \<Rightarrow> 'env flush_io \<Rightarrow> log_entry list \<Rightarrow> ('s, 'd) pipe_state
     \<Rightarrow> 'e flush_end \<times> ('s, 'd) pipe_state" where
  "flush P io entries st =
     (if entries = [] then (FDone, st)
      else let reals = filter (\<lambda>e. \<not> checkpoint_only e) entries in
        if reals = [] then commit_batch P (io_commit_env io) entries st
        else case gov st of
          None \<Rightarrow> push_loop P io (io_retries io) PIPE_BACKOFF_BASE reals entries 0 st
        | Some g \<Rightarrow>
            let bytes = sum_list (map nbytes reals) in
            (case admit (io_stop io) (io_now io) (io_mt io) (io_mt_after io) (length reals) bytes (io_wakes io) g of
               (Refused, g1) \<Rightarrow>
                 commit_batch P (io_commit_env io) entries
                   (st\<lparr>gov := Some g1, pipe_dropped := pipe_dropped st @ [(''budget'', reals)]\<rparr>)
             | (AdmitWaiting, g1) \<Rightarrow> (FWaiting, st\<lparr>gov := Some g1\<rparr>)
             | (Admitted, g1) \<Rightarrow>
                 push_loop P io (io_retries io) PIPE_BACKOFF_BASE reals entries bytes (st\<lparr>gov := Some g1\<rparr>)))"

subsection \<open>The consumer loop\<close>

record consumer =
  c_active :: nat
  c_batch :: "log_entry list"
  c_bytes :: nat
  c_deadline :: "seconds option"

datatype event = Got item seconds | GetTimeout

datatype 'e loop_end = Running | LoopReturned | LoopBlocked | LoopRaised 'e

definition idle :: "nat \<Rightarrow> consumer" where
  "idle n = \<lparr>c_active = n, c_batch = [], c_bytes = 0, c_deadline = None\<rparr>"

text \<open>What a flush's end means for the loop: it goes on after an abandoned batch as after a
  delivered one.\<close>

definition after_flush ::
  "'e loop_end \<Rightarrow> consumer \<Rightarrow> 'e flush_end \<times> ('s, 'd) pipe_state \<Rightarrow> 'e loop_end \<times> consumer \<times> ('s, 'd) pipe_state" where
  "after_flush next c r =
     (case r of
        (FDone, st) \<Rightarrow> (next, c, st)
      | (FAbandoned, st) \<Rightarrow> (next, c, st)
      | (FWaiting, st) \<Rightarrow> (LoopBlocked, c, st)
      | (FRaised e, st) \<Rightarrow> (LoopRaised e, c, st))"

fun consume_step ::
  "('s, 'd, 'env, 'e) pipe_env \<Rightarrow> event \<times> 'env flush_io \<Rightarrow> consumer \<Rightarrow> ('s, 'd) pipe_state
     \<Rightarrow> 'e loop_end \<times> consumer \<times> ('s, 'd) pipe_state" where
  "consume_step P (GetTimeout, io) c st =
     after_flush Running (idle (c_active c)) (flush P io (c_batch c) st)"
| "consume_step P (Got Sentinel t, io) c st =
     (if c_active c - 1 = 0
      then after_flush LoopReturned (c\<lparr>c_active := 0\<rparr>) (flush P io (c_batch c) st)
      else (Running, c\<lparr>c_active := c_active c - 1\<rparr>, st))"
| "consume_step P (Got (Entry e) t, io) c st =
     (let c1 = c\<lparr>c_batch := c_batch c @ [e],
            c_bytes := c_bytes c + (if checkpoint_only e then 0 else nbytes e + QUEUE_ENTRY_OVERHEAD),
            c_deadline := (case c_deadline c of None \<Rightarrow> Some (t + flush_interval P) | Some d \<Rightarrow> Some d)\<rparr>
      in if length (c_batch c1) \<ge> max_entries P \<or> c_bytes c1 \<ge> max_bytes P
         then after_flush Running (idle (c_active c1)) (flush P io (c_batch c1) st)
         else (Running, c1, st))"

fun consume_loop ::
  "('s, 'd, 'env, 'e) pipe_env \<Rightarrow> (event \<times> 'env flush_io) list \<Rightarrow> consumer \<Rightarrow> ('s, 'd) pipe_state
     \<Rightarrow> 'e loop_end \<times> consumer \<times> ('s, 'd) pipe_state" where
  "consume_loop P [] c st = (Running, c, st)"
| "consume_loop P (ev # evs) c st =
     (case consume_step P ev c st of
        (Running, c1, st1) \<Rightarrow> consume_loop P evs c1 st1
      | r \<Rightarrow> r)"

definition consume ::
  "('s, 'd, 'env, 'e) pipe_env \<Rightarrow> nat \<Rightarrow> (event \<times> 'env flush_io) list \<Rightarrow> ('s, 'd) pipe_state
     \<Rightarrow> 'e loop_end \<times> consumer \<times> ('s, 'd) pipe_state" where
  "consume P n_producers evs st = consume_loop P evs (idle n_producers) st"

subsection \<open>The lane's byte budget\<close>

definition empty_lane :: lane_state where
  "empty_lane = \<lparr>lane_queue = [], lane_putting = [], queued_bytes = 0\<rparr>"

definition buffered :: "lane_state \<Rightarrow> nat" where
  "buffered l = sum_list (map entry_cost (lane_queue l)) + sum_list (map entry_cost (lane_putting l))"

definition small_items :: "nat \<Rightarrow> lane_state \<Rightarrow> bool" where
  "small_items M l \<longleftrightarrow> (\<forall>i \<in> set (lane_putting l). entry_cost i \<le> M)"

lemma lane_step_inv:
  assumes "lane_step budget maxsize l l'" "0 < budget" "small_items M l'"
    and "queued_bytes l = int (buffered l) \<and> queued_bytes l < budget + int M"
  shows "queued_bytes l' = int (buffered l') \<and> queued_bytes l' < budget + int M"
  using assms(1)
proof cases
  case (charge_step i l1)
  then have "entry_cost i \<le> M" using assms(3) by (simp add: small_items_def)
  with charge_step assms(2,4) show ?thesis by (auto simp: charge_def buffered_def split: if_splits)
next
  case (put_step us i vs)
  with assms(4) show ?thesis by (simp add: buffered_def)
next
  case (get_step i q)
  with assms(2,4) show ?thesis by (auto simp: release_def buffered_def)
qed

text \<open>
  The byte budget of a lane is exact, bounded and free of deadlock. Whatever the order in
  which producers charge and put and the consumer gets, the counter is the total cost of the
  items charged and not yet taken, and stays below the budget plus the largest single item; a
  producer that has to wait does so only while an item of positive cost is buffered for the
  consumer to take, so an entry larger than the whole budget still gets in.
\<close>

theorem lane_budget_exact:
  assumes "0 < budget" "(\<lambda>a b. lane_step budget maxsize a b \<and> small_items M b)\<^sup>*\<^sup>* empty_lane l"
  shows "queued_bytes l = int (buffered l) \<and> queued_bytes l < budget + int M
    \<and> (charge budget i l = None \<longrightarrow> (\<exists>j \<in> set (lane_queue l @ lane_putting l). 0 < entry_cost j))"
proof -
  have inv: "queued_bytes l = int (buffered l) \<and> queued_bytes l < budget + int M"
    using assms(2)
  proof (induction rule: rtranclp_induct)
    case base
    then show ?case using assms(1) by (simp add: empty_lane_def buffered_def)
  next
    case (step a b)
    then show ?case using lane_step_inv [OF _ assms(1)] by blast
  qed
  have "\<exists>j \<in> set (lane_queue l @ lane_putting l). 0 < entry_cost j" if "charge budget i l = None"
  proof (rule ccontr)
    assume "\<not> ?thesis"
    then have "buffered l = 0" by (auto simp: buffered_def)
    with inv that assms(1) show False by (auto simp: charge_def split: if_splits)
  qed
  with inv show ?thesis by blast
qed

subsection \<open>Tokens\<close>

lemma last_tokens_snoc:
  "last_tokens (es @ [e]) = AList.update (tok_key (checkpoint e)) (tok_value (checkpoint e)) (last_tokens es)"
  by (simp add: last_tokens_def)

lemma last_tokens_Nil [simp]: "last_tokens [] = []"
  by (simp add: last_tokens_def)

lemma wf_last_tokens [simp]: "wf_dict (last_tokens es)"
  by (induction es rule: rev_induct) (simp_all add: last_tokens_snoc)

lemma map_of_last_tokens_append:
  "map_of (last_tokens (as @ bs)) = map_of (last_tokens as) ++ map_of (last_tokens bs)"
  by (induction bs rule: rev_induct)
    (auto simp: last_tokens_snoc map_add_def append_assoc [symmetric] simp del: append_assoc split: option.splits)

lemma keys_last_tokens: "fst ` set (last_tokens es) = (\<lambda>e. tok_key (checkpoint e)) ` set es"
  by (induction es rule: rev_induct) (simp_all add: last_tokens_snoc set_keys_update)

text \<open>The token kept for a key is that of the last entry with the key.\<close>

lemma map_of_last_tokens:
  "map_of (last_tokens es) k = Some v \<longleftrightarrow>
     (\<exists>us e vs. es = us @ e # vs \<and> checkpoint e = \<lparr>tok_key = k, tok_value = v\<rparr>
        \<and> (\<forall>x \<in> set vs. tok_key (checkpoint x) \<noteq> k))"
proof (induction es rule: rev_induct)
  case Nil
  then show ?case by simp
next
  case (snoc e es)
  show ?case
  proof (cases "tok_key (checkpoint e) = k")
    case True
    have "(\<exists>us x vs. es @ [e] = us @ x # vs \<and> checkpoint x = \<lparr>tok_key = k, tok_value = v\<rparr>
        \<and> (\<forall>y \<in> set vs. tok_key (checkpoint y) \<noteq> k)) \<longleftrightarrow> tok_value (checkpoint e) = v" (is "?L \<longleftrightarrow> ?R")
    proof
      assume ?L
      then obtain us x vs where x: "es @ [e] = us @ x # vs" "checkpoint x = \<lparr>tok_key = k, tok_value = v\<rparr>"
        "\<forall>y \<in> set vs. tok_key (checkpoint y) \<noteq> k" by blast
      have "vs = []" using x(1,3) True by (cases vs rule: rev_cases) auto
      with x show ?R by simp
    next
      assume ?R
      with True show ?L by (intro exI [of _ es] exI [of _ e] exI [of _ "[]"]) (cases "checkpoint e", simp)
    qed
    with True show ?thesis by (simp add: last_tokens_snoc)
  next
    case False
    have "(\<exists>us x vs. es @ [e] = us @ x # vs \<and> checkpoint x = \<lparr>tok_key = k, tok_value = v\<rparr>
        \<and> (\<forall>y \<in> set vs. tok_key (checkpoint y) \<noteq> k)) \<longleftrightarrow>
      (\<exists>us x vs. es = us @ x # vs \<and> checkpoint x = \<lparr>tok_key = k, tok_value = v\<rparr>
        \<and> (\<forall>y \<in> set vs. tok_key (checkpoint y) \<noteq> k))" (is "?L \<longleftrightarrow> ?R")
    proof
      assume ?L
      then obtain us x vs where x: "es @ [e] = us @ x # vs" "checkpoint x = \<lparr>tok_key = k, tok_value = v\<rparr>"
        "\<forall>y \<in> set vs. tok_key (checkpoint y) \<noteq> k" by blast
      from x(1,2) False obtain vs' where "vs = vs' @ [e]" "es = us @ x # vs'"
        by (cases vs rule: rev_cases) auto
      with x show ?R by auto
    next
      assume ?R
      then obtain us x vs where x: "es = us @ x # vs" "checkpoint x = \<lparr>tok_key = k, tok_value = v\<rparr>"
        "\<forall>y \<in> set vs. tok_key (checkpoint y) \<noteq> k" by blast
      with False show ?L by (intro exI [of _ us] exI [of _ x] exI [of _ "vs @ [e]"]) auto
    qed
    with False snoc show ?thesis by (simp add: last_tokens_snoc)
  qed
qed

subsection \<open>Commit after push\<close>

definition is_real :: "log_entry \<Rightarrow> bool" where
  "is_real e \<longleftrightarrow> \<not> checkpoint_only e"

definition got :: "(event \<times> 'env flush_io) list \<Rightarrow> log_entry list" where
  "got evs = List.map_filter (\<lambda>(ev, io). case ev of Got (Entry e) t \<Rightarrow> Some e | _ \<Rightarrow> None) evs"

text \<open>No stop fired while a flush was retrying.\<close>

definition no_stop :: "'env flush_io \<Rightarrow> bool" where
  "no_stop io \<longleftrightarrow> (\<forall>r \<in> set (io_retries io). \<not> stop_set r \<and> \<not> stop_in_wait r)"

lemma got_simps [simp]:
  "got [] = []" "got ((GetTimeout, io) # evs) = got evs" "got ((Got Sentinel t, io) # evs) = got evs"
  "got ((Got (Entry e) t, io) # evs) = e # got evs"
  by (simp_all add: got_def map_filter_simps)

lemma got_Cons: "got (ev # evs) = got [ev] @ got evs"
  by (simp add: got_def map_filter_simps split: option.split)

text \<open>A key a source may commit under: not the governor's, not the store's own.\<close>

definition entry_keyed :: "string set \<Rightarrow> log_entry \<Rightarrow> bool" where
  "entry_keyed R e \<longleftrightarrow> tok_key (checkpoint e) \<notin> insert BUDGET_KEY R"

definition agree :: "(string \<rightharpoonup> string) \<Rightarrow> (string \<rightharpoonup> string) \<Rightarrow> bool" where
  "agree m n \<longleftrightarrow> (\<forall>k. k \<noteq> BUDGET_KEY \<longrightarrow> m k = n k)"

lemma agree_refl [simp]: "agree m m"
  by (simp add: agree_def)

lemma agree_trans: "agree m n \<Longrightarrow> agree n p \<Longrightarrow> agree m p"
  by (simp add: agree_def)

lemma agree_add: "agree m n \<Longrightarrow> agree (m ++ t) (n ++ t)"
  by (simp add: agree_def map_add_def split: option.splits)

lemma items_ok_tokens: "list_all (entry_keyed R) es \<Longrightarrow> items_ok R (last_tokens es)"
  by (auto simp: items_ok_def keys_last_tokens entry_keyed_def list_all_iff)

locale pipeline_seam =
  snkc: sink_contract do_push settled form +
  store: checkpoint_store load commit_many reset inv view reserved
  for do_push :: "batch \<Rightarrow> 's \<Rightarrow> (sink_error + unit) \<times> 's" and settled and form
    and load :: "string \<Rightarrow> ('d, 'e, string option) op" and commit_many :: "'env \<Rightarrow> doc \<Rightarrow> ('d, 'e, unit) op"
    and reset and inv and view and reserved +
  fixes P :: "('s, 'd, 'env, 'e) pipe_env"
  assumes uses_push: "sink_push P = do_push"
    and uses_store: "store_commit_many P = commit_many"
    and budget_key_free: "BUDGET_KEY \<notin> reserved"
begin

definition accounted :: "('s, 'd) pipe_state \<Rightarrow> log_entry multiset" where
  "accounted st = settled (snk st) + image_mset form (mset (concat (map snd (pipe_dropped st))))"

definition durable :: "'e flush_end \<Rightarrow> ('s, 'd) pipe_state \<Rightarrow> string \<rightharpoonup> string" where
  "durable r st = (case r of FRaised _ \<Rightarrow> view (reset (str st)) | _ \<Rightarrow> view (str st))"

text \<open>How a flush of \<open>es\<close> from \<open>st0\<close> may end when the entries were pushed before.\<close>

definition committed :: "log_entry list \<Rightarrow> ('s, 'd) pipe_state \<Rightarrow> 'e flush_end \<Rightarrow> ('s, 'd) pipe_state \<Rightarrow> bool" where
  "committed es st0 r st \<longleftrightarrow>
     (case r of
        FDone \<Rightarrow> inv (str st) \<and> agree (view (str st)) (view (str st0) ++ map_of (last_tokens es))
      | FRaised _ \<Rightarrow> agree (view (reset (str st))) (view (str st0))
          \<or> agree (view (reset (str st))) (view (str st0) ++ map_of (last_tokens es))
      | _ \<Rightarrow> False)"

lemma commit_batch_law:
  assumes "inv (str st)" "list_all (entry_keyed reserved) es" "commit_batch P env es st = (r, st')"
  shows "committed es st r st' \<and> accounted st' = accounted st"
proof -
  have ok: "items_ok reserved (last_tokens es)" by (rule items_ok_tokens [OF assms(2)])
  obtain res d where c: "commit_many env (last_tokens es) (str st) = (res, d)" by (metis surj_pair)
  show ?thesis
  proof (cases res)
    case (Inl e)
    with store.commit_raise_law [OF assms(1) ok c [unfolded Inl]] c assms(3) show ?thesis
      by (auto simp: commit_batch_def uses_store committed_def accounted_def)
  next
    case (Inr u)
    with store.commit_law [OF assms(1) ok] c assms(3) show ?thesis
      by (auto simp: commit_batch_def uses_store committed_def accounted_def)
  qed
qed

lemma committed_str:
  assumes "committed es a r st" "str a = str b"
  shows "committed es b r st"
  using assms by (cases r) (simp_all add: committed_def)

lemma committed_agree:
  assumes "committed es st0 r st" "agree (view (str st0)) (view (str st1))"
  shows "committed es st1 r st"
  using assms agree_trans agree_add by (fastforce simp: committed_def split: flush_end.splits)

lemma record_and_commit_law:
  assumes "inv (str st)" "list_all (entry_keyed reserved) es" "record_and_commit P io bytes es st = (r, st')"
  shows "committed es st r st' \<and> accounted st' = accounted st"
proof (cases "gov st")
  case None
  with assms show ?thesis by (intro commit_batch_law) (simp_all add: record_and_commit_def)
next
  case (Some g)
  obtain b it g1 where rp: "record_push (dump_budget P) (io_record_now io) bytes True g = (b, it, g1)"
    by (metis prod_cases3)
  show ?thesis
  proof (cases it)
    case None
    with Some rp assms(3) have "commit_batch P (io_commit_env io) es (st\<lparr>gov := Some g1\<rparr>) = (r, st')"
      by (simp add: record_and_commit_def)
    from commit_batch_law [OF _ assms(2) this] assms(1)
    have "committed es (st\<lparr>gov := Some g1\<rparr>) r st'" "accounted st' = accounted st"
      by (simp_all add: accounted_def)
    then show ?thesis using committed_str by fastforce
  next
    case (Some kv)
    then obtain v where kv: "kv = (BUDGET_KEY, v)"
      using rp by (auto simp: record_push_def Let_def split: if_splits)
    have ok: "items_ok reserved [kv]" using budget_key_free kv by (simp add: items_ok_def wf_dict_def)
    obtain res d where c: "commit_many (io_record_env io) [kv] (str st) = (res, d)" by (metis surj_pair)
    have upd: "agree (view (str st) ++ map_of [kv]) (view (str st))"
      using kv by (auto simp: agree_def map_add_def)
    show ?thesis
    proof (cases res)
      case (Inl e)
      from store.commit_raise_law [OF assms(1) ok c [unfolded Inl]] upd
      have "agree (view (reset d)) (view (str st))" by auto
      with \<open>gov st = Some g\<close> rp Some c Inl assms(3) show ?thesis
        by (auto simp: record_and_commit_def uses_store committed_def accounted_def)
    next
      case (Inr u)
      from store.commit_law [OF assms(1) ok] c Inr
      have d: "inv d" "view d = view (str st) ++ map_of [kv]" by auto
      let ?st = "st\<lparr>gov := Some g1, str := d\<rparr>"
      have cb: "commit_batch P (io_commit_env io) es ?st = (r, st')"
        using \<open>gov st = Some g\<close> rp Some c Inr assms(3) by (simp add: record_and_commit_def uses_store)
      from commit_batch_law [OF _ assms(2) cb] d
      have "committed es ?st r st'" "accounted st' = accounted st" by (auto simp: accounted_def)
      moreover have "agree (view (str ?st)) (view (str st))" using d upd by simp
      ultimately show ?thesis using committed_agree by blast
    qed
  qed
qed

definition flush_law :: "log_entry list \<Rightarrow> log_entry list \<Rightarrow> ('s, 'd) pipe_state \<Rightarrow> 'e flush_end \<Rightarrow> ('s, 'd) pipe_state \<Rightarrow> bool" where
  "flush_law reals es st r st' \<longleftrightarrow>
     r \<noteq> FAbandoned \<and> accounted st \<subseteq># accounted st' \<and> (r = FWaiting \<longrightarrow> str st' = str st)
     \<and> (r \<noteq> FWaiting \<longrightarrow> committed es st r st' \<and> accounted st + image_mset form (mset reals) \<subseteq># accounted st')"

lemma flush_law_trans:
  assumes "flush_law reals es st1 r st'" "accounted st \<subseteq># accounted st1" "str st1 = str st"
  shows "flush_law reals es st r st'"
  unfolding flush_law_def
proof (intro conjI impI)
  show "accounted st \<subseteq># accounted st'"
    using assms(1,2) unfolding flush_law_def by (meson subset_mset.order_trans)
  show "accounted st + image_mset form (mset reals) \<subseteq># accounted st'" if "r \<noteq> FWaiting"
    using assms(1,2) that unfolding flush_law_def
    by (meson subset_mset.order_trans subset_mset.add_right_mono)
qed (use assms committed_str [of es st1 r st' st] in \<open>auto simp: flush_law_def\<close>)

lemma push_settles:
  assumes "inv (str st)" "list_all (entry_keyed reserved) es" "list_all entry_ok reals"
    and "do_push reals (snk st) = (res, s1)" "res \<noteq> Inl RetryableSinkError"
    and "push_loop P io rs backoff reals es bytes st = (r, st')"
  shows "flush_law reals es st r st'"
proof -
  let ?F = "image_mset form (mset reals)"
  have "committed es st r st' \<and> accounted st' = accounted st + ?F"
  proof (cases res)
    case (Inr u)
    let ?st = "st\<lparr>snk := s1, failing_since := None\<rparr>"
    have "record_and_commit P io bytes es ?st = (r, st')"
      using assms(4,6) Inr by (simp add: push_loop.simps uses_push)
    from record_and_commit_law [OF _ assms(2) this] assms(1)
    have "committed es ?st r st'" "accounted st' = accounted ?st" by auto
    moreover have "settled s1 = settled (snk st) + ?F"
      using snkc.push_returns [OF assms(3)] assms(4) Inr by simp
    ultimately show ?thesis using committed_str [of es ?st r st' st] by (simp add: accounted_def ac_simps)
  next
    case (Inl err)
    then obtain reason where reason: "err = PermanentSinkError reason" using assms(5) by (cases err) auto
    let ?st = "st\<lparr>snk := s1, failing_since := None, pipe_dropped := pipe_dropped st @ [(reason, reals)]\<rparr>"
    have "commit_batch P (io_commit_env io) es ?st = (r, st')"
      using assms(4,6) Inl reason by (simp add: push_loop.simps uses_push)
    from commit_batch_law [OF _ assms(2) this] assms(1)
    have "committed es ?st r st'" "accounted st' = accounted ?st" by auto
    moreover have "settled s1 = settled (snk st)"
      using snkc.push_permanent [OF assms(3)] assms(4) Inl reason by simp
    ultimately show ?thesis using committed_str [of es ?st r st' st] by (simp add: accounted_def)
  qed
  then show ?thesis by (auto simp: flush_law_def committed_def split: flush_end.splits)
qed

lemma push_loop_law:
  assumes "inv (str st)" "list_all (entry_keyed reserved) es" "list_all entry_ok reals"
    and "\<forall>r \<in> set rs. \<not> stop_set r \<and> \<not> stop_in_wait r"
    and "push_loop P io rs backoff reals es bytes st = (r, st')"
  shows "flush_law reals es st r st'"
  using assms(1,4,5)
proof (induction rs arbitrary: st backoff)
  case Nil
  obtain res s1 where p: "do_push reals (snk st) = (res, s1)" by (metis surj_pair)
  show ?case
  proof (cases "res = Inl RetryableSinkError")
    case True
    with Nil p have "r = FWaiting" "st' = st\<lparr>snk := s1\<rparr>" by (auto simp: push_loop.simps uses_push)
    with snkc.push_keeps [OF assms(3) p] show ?thesis by (simp add: flush_law_def accounted_def)
  qed (rule push_settles [OF Nil.prems(1) assms(2,3) p _ Nil.prems(3)])
next
  case (Cons r0 rs)
  obtain res s1 where p: "do_push reals (snk st) = (res, s1)" by (metis surj_pair)
  show ?case
  proof (cases "res = Inl RetryableSinkError")
    case True
    let ?st = "st\<lparr>snk := s1,
      failing_since := (case failing_since st of None \<Rightarrow> Some (fail_time r0) | Some t \<Rightarrow> Some t)\<rparr>"
    have again: "push_loop P io rs (min (backoff * 2) PIPE_BACKOFF_MAX) reals es bytes ?st = (r, st')"
      using Cons.prems(2,3) p True by (simp add: push_loop.simps [of P io "r0 # rs"] uses_push Let_def)
    have "inv (str ?st)" using Cons.prems(1) by simp
    moreover have "\<forall>r \<in> set rs. \<not> stop_set r \<and> \<not> stop_in_wait r" using Cons.prems(2) by simp
    ultimately have "flush_law reals es ?st r st'" using again by (rule Cons.IH)
    moreover have "accounted st \<subseteq># accounted ?st"
      using snkc.push_keeps [OF assms(3) p] by (simp add: accounted_def)
    moreover have "str ?st = str st" by simp
    ultimately show ?thesis by (rule flush_law_trans)
  qed (rule push_settles [OF Cons.prems(1) assms(2,3) p _ Cons.prems(3)])
qed

lemma flush_correct:
  assumes "inv (str st)" "list_all (entry_keyed reserved) es" "list_all entry_ok es" "no_stop io"
    and "flush P io es st = (r, st')"
  shows "flush_law (filter is_real es) es st r st'"
proof -
  let ?reals = "filter (\<lambda>e. \<not> checkpoint_only e) es"
  have reals: "filter is_real es = ?reals" by (rule filter_cong) (simp_all add: is_real_def)
  have ok: "list_all entry_ok ?reals" using assms(3) by (simp add: list_all_iff)
  have rs: "\<forall>r \<in> set (io_retries io). \<not> stop_set r \<and> \<not> stop_in_wait r" using assms(4) by (simp add: no_stop_def)
  consider (nothing) "es = []" | (tokens) "es \<noteq> []" "?reals = []"
    | (ungoverned) "?reals \<noteq> []" "gov st = None" | (governed) g where "?reals \<noteq> []" "gov st = Some g"
    by (metis (no_types) option.exhaust)
  then show ?thesis
  proof cases
    case nothing
    with assms show ?thesis by (simp add: flush_def flush_law_def committed_def)
  next
    case tokens
    with assms(5) have "commit_batch P (io_commit_env io) es st = (r, st')" by (simp add: flush_def)
    from commit_batch_law [OF assms(1,2) this] tokens reals show ?thesis
      by (auto simp: flush_law_def committed_def split: flush_end.splits)
  next
    case ungoverned
    then have "es \<noteq> []" by auto
    with ungoverned assms(5) have "push_loop P io (io_retries io) PIPE_BACKOFF_BASE ?reals es 0 st = (r, st')"
      by (simp add: flush_def Let_def)
    from push_loop_law [OF assms(1,2) ok rs this] reals show ?thesis by simp
  next
    case governed
    then have ne: "es \<noteq> []" by auto
    let ?bytes = "sum_list (map nbytes ?reals)"
    obtain a g1 where ad: "admit (io_stop io) (io_now io) (io_mt io) (io_mt_after io) (length ?reals) ?bytes (io_wakes io) g
        = (a, g1)" by (metis surj_pair)
    show ?thesis
    proof (cases a)
      case Admitted
      let ?st = "st\<lparr>gov := Some g1\<rparr>"
      have "push_loop P io (io_retries io) PIPE_BACKOFF_BASE ?reals es ?bytes ?st = (r, st')"
        using assms(5) ne governed ad Admitted by (simp add: flush_def Let_def)
      from push_loop_law [OF _ assms(2) ok rs this] assms(1) have "flush_law ?reals es ?st r st'" by simp
      with reals show ?thesis using flush_law_trans [of ?reals es ?st r st' st] by (simp add: accounted_def)
    next
      case Refused
      let ?st = "st\<lparr>gov := Some g1, pipe_dropped := pipe_dropped st @ [(''budget'', ?reals)]\<rparr>"
      have "commit_batch P (io_commit_env io) es ?st = (r, st')"
        using assms(5) ne governed ad Refused by (simp add: flush_def Let_def)
      from commit_batch_law [OF _ assms(2) this] assms(1)
      have "committed es ?st r st'" "accounted st' = accounted ?st" by auto
      with reals committed_str [of es ?st r st' st] show ?thesis
        by (auto simp: flush_law_def accounted_def committed_def split: flush_end.splits)
    next
      case AdmitWaiting
      with assms(5) ne governed ad have "r = FWaiting" "st' = st\<lparr>gov := Some g1\<rparr>"
        by (auto simp: flush_def Let_def)
      then show ?thesis by (simp add: flush_law_def accounted_def)
    qed
  qed
qed

definition durable_map :: "'e loop_end \<Rightarrow> ('s, 'd) pipe_state \<Rightarrow> string \<rightharpoonup> string" where
  "durable_map r st = (case r of LoopRaised _ \<Rightarrow> view (reset (str st)) | _ \<Rightarrow> view (str st))"

text \<open>What is durable is the tokens of \<open>flushed\<close>, all of whose entries are accounted for.\<close>

definition covered :: "('s, 'd) pipe_state \<Rightarrow> log_entry list \<Rightarrow> 'e loop_end \<Rightarrow> ('s, 'd) pipe_state \<Rightarrow> bool" where
  "covered st0 flushed r st \<longleftrightarrow>
     agree (durable_map r st) (view (str st0) ++ map_of (last_tokens flushed))
     \<and> accounted st0 + image_mset form (mset (filter is_real flushed)) \<subseteq># accounted st"

lemma covered_more:
  assumes "agree (durable_map r st') (view (str st) ++ map_of (last_tokens b))" "covered st0 f Running st"
    and "accounted st + image_mset form (mset (filter is_real b)) \<subseteq># accounted st'"
  shows "covered st0 (f @ b) r st'"
proof -
  have "agree (view (str st)) (view (str st0) ++ map_of (last_tokens f))"
    using assms(2) by (simp add: covered_def durable_map_def)
  from agree_add [OF this, of "map_of (last_tokens b)"] assms(1)
  have "agree (durable_map r st') (view (str st0) ++ map_of (last_tokens (f @ b)))"
    by (auto simp: map_of_last_tokens_append intro: agree_trans)
  moreover have "accounted st0 + image_mset form (mset (filter is_real (f @ b))) \<subseteq># accounted st'"
    using assms(2,3) unfolding covered_def
    by (simp add: add.assoc [symmetric]) (meson subset_mset.add_right_mono subset_mset.order_trans)
  ultimately show ?thesis by (simp add: covered_def)
qed

lemma covered_same:
  assumes "agree (durable_map r st') (view (str st))" "covered st0 f Running st" "accounted st \<subseteq># accounted st'"
  shows "covered st0 f r st'"
  using assms agree_trans unfolding covered_def durable_map_def
  by (auto intro: subset_mset.order_trans)

lemma after_flush_law:
  assumes "inv (str st)" "covered st0 f Running st" "list_all (entry_keyed reserved) b" "list_all entry_ok b"
    and "no_stop io" "next = Running \<or> next = LoopReturned"
    and "after_flush next c1 (flush P io b st) = (r, c', st')"
  shows "\<exists>flushed rest. f @ b = flushed @ rest \<and> covered st0 flushed r st'
    \<and> (r = next \<longrightarrow> rest = [] \<and> c' = c1 \<and> inv (str st')) \<and> (r = Running \<or> r = LoopReturned \<longrightarrow> r = next)"
proof -
  obtain e t where fl: "flush P io b st = (e, t)" by (metis surj_pair)
  note L = flush_correct [OF assms(1,3,4,5) fl, unfolded flush_law_def]
  show ?thesis
  proof (cases e)
    case FDone
    with L assms(7) fl have eq: "r = next" "c' = c1" "st' = t" and c: "committed b st FDone t"
      "accounted st + image_mset form (mset (filter is_real b)) \<subseteq># accounted t"
      by (auto simp: after_flush_def)
    have "agree (durable_map r st') (view (str st) ++ map_of (last_tokens b))" "inv (str st')"
      using c(1) eq assms(6) by (auto simp: committed_def durable_map_def)
    with covered_more [OF _ assms(2)] c(2) eq show ?thesis
      by (intro exI [of _ "f @ b"] exI [of _ "[]"]) auto
  next
    case FAbandoned
    with L show ?thesis by simp
  next
    case FWaiting
    with L assms(7) fl have eq: "r = LoopBlocked" "st' = t" "str t = str st" "accounted st \<subseteq># accounted t"
      by (auto simp: after_flush_def)
    then have "covered st0 f r st'" by (intro covered_same [OF _ assms(2)]) (simp_all add: durable_map_def)
    with eq assms(6) show ?thesis by (intro exI [of _ f] exI [of _ b]) auto
  next
    case (FRaised x)
    with L assms(7) fl have eq: "r = LoopRaised x" "st' = t" and c: "committed b st (FRaised x) t"
      "accounted st + image_mset form (mset (filter is_real b)) \<subseteq># accounted t" "accounted st \<subseteq># accounted t"
      by (auto simp: after_flush_def)
    from c(1) have "agree (durable_map r st') (view (str st))
        \<or> agree (durable_map r st') (view (str st) ++ map_of (last_tokens b))"
      using eq by (auto simp: committed_def durable_map_def)
    then show ?thesis
    proof
      assume "agree (durable_map r st') (view (str st))"
      with covered_same [OF _ assms(2)] c(3) eq assms(6) show ?thesis
        by (intro exI [of _ f] exI [of _ b]) auto
    next
      assume "agree (durable_map r st') (view (str st) ++ map_of (last_tokens b))"
      with covered_more [OF _ assms(2)] c(2) eq assms(6) show ?thesis
        by (intro exI [of _ "f @ b"] exI [of _ "[]"]) auto
    qed
  qed
qed

definition event_ok :: "event \<times> 'env flush_io \<Rightarrow> bool" where
  "event_ok ev \<longleftrightarrow> no_stop (snd ev) \<and> list_all entry_ok (got [ev]) \<and> list_all (entry_keyed reserved) (got [ev])"

lemma consume_step_law:
  assumes "inv (str st)" "covered st0 f Running st" "event_ok ev"
    and "list_all entry_ok (c_batch c)" "list_all (entry_keyed reserved) (c_batch c)"
    and "consume_step P ev c st = (r, c', st')"
  shows "\<exists>flushed rest. f @ c_batch c @ got [ev] = flushed @ rest \<and> covered st0 flushed r st'
    \<and> (r = Running \<longrightarrow> rest = c_batch c' \<and> inv (str st')) \<and> (r = LoopReturned \<longrightarrow> rest = [])"
proof -
  obtain x io where ev: "ev = (x, io)" by (metis surj_pair)
  have io: "no_stop io" using assms(3) ev by (simp add: event_ok_def)
  consider (timeout) "x = GetTimeout" | (sent) t where "x = Got Sentinel t" | (entry) e t where "x = Got (Entry e) t"
    by (metis event.exhaust item.exhaust)
  then show ?thesis
  proof cases
    case timeout
    with assms(6) ev have "after_flush Running (idle (c_active c)) (flush P io (c_batch c) st) = (r, c', st')" by simp
    from after_flush_law [OF assms(1,2,5,4) io _ this] timeout ev show ?thesis by (force simp: idle_def)
  next
    case sent
    show ?thesis
    proof (cases "c_active c - 1 = 0")
      case True
      with sent assms(6) ev have "after_flush LoopReturned (c\<lparr>c_active := 0\<rparr>) (flush P io (c_batch c) st) = (r, c', st')"
        by simp
      from after_flush_law [OF assms(1,2,5,4) io _ this] sent ev show ?thesis by force
    next
      case False
      with sent assms(6) ev have "r = Running" "c_batch c' = c_batch c" "st' = st" by auto
      with assms(1,2) sent ev show ?thesis by (intro exI [of _ f] exI [of _ "c_batch c"]) simp
    qed
  next
    case entry
    let ?b = "c_batch c @ [e]"
    have b: "list_all entry_ok ?b" "list_all (entry_keyed reserved) ?b"
      using assms(3-5) ev entry by (auto simp: event_ok_def)
    show ?thesis
    proof (cases "r = Running \<and> c_batch c' = ?b \<and> st' = st")
      case True
      with assms(1,2) entry ev show ?thesis by (intro exI [of _ f] exI [of _ ?b]) simp
    next
      case False
      with entry assms(6) ev have "after_flush Running (idle (c_active c)) (flush P io ?b st) = (r, c', st')"
        by (auto simp: Let_def split: if_splits)
      from after_flush_law [OF assms(1,2) b(2,1) io _ this] entry ev show ?thesis by (force simp: idle_def)
    qed
  qed
qed

lemma consume_step_batch:
  assumes "consume_step P ev c st = (Running, c1, st1)"
  shows "c_batch c1 = [] \<or> c_batch c1 = c_batch c @ got [ev]"
proof -
  obtain x io where ev: "ev = (x, io)" by (metis surj_pair)
  consider (timeout) "x = GetTimeout" | (sent) t where "x = Got Sentinel t" | (entry) e t where "x = Got (Entry e) t"
    by (metis event.exhaust item.exhaust)
  then show ?thesis
    using assms ev
    by cases (auto simp: after_flush_def idle_def Let_def split: prod.splits flush_end.splits if_splits)
qed

lemma consume_loop_law:
  assumes "inv (str st)" "covered st0 f Running st" "\<forall>ev \<in> set evs. event_ok ev"
    and "list_all entry_ok (c_batch c)" "list_all (entry_keyed reserved) (c_batch c)"
    and "consume_loop P evs c st = (r, c', st')"
  shows "\<exists>evs1 evs2 flushed rest. evs = evs1 @ evs2 \<and> f @ c_batch c @ got evs1 = flushed @ rest
    \<and> covered st0 flushed r st' \<and> (r = Running \<longrightarrow> evs2 = [] \<and> rest = c_batch c') \<and> (r = LoopReturned \<longrightarrow> rest = [])"
  using assms
proof (induction evs arbitrary: c st f)
  case Nil
  then show ?case by (intro exI [of _ "[]"] exI [of _ f] exI [of _ "c_batch c"]) auto
next
  case (Cons ev evs)
  obtain r1 c1 st1 where step: "consume_step P ev c st = (r1, c1, st1)" by (metis prod_cases3)
  have ok: "event_ok ev" using Cons.prems(3) by simp
  obtain fl rest where S: "f @ c_batch c @ got [ev] = fl @ rest" "covered st0 fl r1 st1"
    "r1 = Running \<longrightarrow> rest = c_batch c1 \<and> inv (str st1)" "r1 = LoopReturned \<longrightarrow> rest = []"
    using consume_step_law [OF Cons.prems(1,2) ok Cons.prems(4,5) step] by blast
  show ?case
  proof (cases "r1 = Running")
    case False
    then have "r = r1" "c' = c1" "st' = st1" using Cons.prems(6) step by (auto split: loop_end.splits)
    with S False show ?thesis by (intro exI [of _ "[ev]"] exI [of _ evs] exI [of _ fl] exI [of _ rest]) auto
  next
    case True
    then have run: "consume_loop P evs c1 st1 = (r, c', st')" using Cons.prems(6) step by simp
    have "c_batch c1 = [] \<or> c_batch c1 = c_batch c @ got [ev]"
      by (rule consume_step_batch [OF step [unfolded True]])
    then have b1: "list_all entry_ok (c_batch c1)" "list_all (entry_keyed reserved) (c_batch c1)"
      using Cons.prems(4,5) ok by (auto simp: event_ok_def)
    have i1: "inv (str st1)" "rest = c_batch c1" "covered st0 fl Running st1" using S True by auto
    obtain evs1 evs2 flushed rest' where R: "evs = evs1 @ evs2" "fl @ c_batch c1 @ got evs1 = flushed @ rest'"
      "covered st0 flushed r st'" "r = Running \<longrightarrow> evs2 = [] \<and> rest' = c_batch c'" "r = LoopReturned \<longrightarrow> rest' = []"
      using Cons.IH [OF i1(1,3) _ b1 run] Cons.prems(3) by auto
    have "f @ c_batch c @ got (ev # evs1) = flushed @ rest'"
    proof -
      have "got (ev # evs1) = got [ev] @ got evs1" by (rule got_Cons)
      then have "f @ c_batch c @ got (ev # evs1) = (f @ c_batch c @ got [ev]) @ got evs1" by simp
      then show ?thesis using S(1) i1(2) R(2) by simp
    qed
    with R show ?thesis
      by (intro exI [of _ "ev # evs1"] exI [of _ evs2] exI [of _ flushed] exI [of _ rest']) simp
  qed
qed

end

subsection \<open>The Loki sink on the file store\<close>

definition loki_file_pipe ::
  "('s, 'b) sink_env \<Rightarrow> (date \<Rightarrow> int \<Rightarrow> string) \<Rightarrow> nat \<Rightarrow> nat \<Rightarrow> seconds
     \<Rightarrow> ('s sink_state, disk \<times> 'w file_store, 'w \<times> write_io, file_error) pipe_env" where
  "loki_file_pipe env dump me mb fi =
     \<lparr>sink_push = push env, store_commit_many = FileStore.commit_many, dump_budget = dump,
      max_entries = me, max_bytes = mb, flush_interval = fi\<rparr>"

interpretation lf: pipeline_seam "push env" loki_settled "delivered_form (line_cap env)"
  FileStore.load FileStore.commit_many FileStore.reset file_inv file_view "{EPOCH_KEY}"
  "loki_file_pipe env dump me mb fi" for env dump me mb fi
  by unfold_locales (simp_all add: loki_file_pipe_def BUDGET_KEY_def EPOCH_KEY_def)

text \<open>Everything the sink delivered or dropped, and what the pipeline itself dropped.\<close>

definition loki_accounted :: "int \<Rightarrow> ('s sink_state, 'd) pipe_state \<Rightarrow> log_entry multiset" where
  "loki_accounted cap st = loki_settled (snk st) + due cap (concat (map snd (pipe_dropped st)))"

lemma file_view_reset [simp]: "file_view (FileStore.reset x) = file_view x"
  by (cases x) (simp add: file_view_def FileStore.reset_def)

text \<open>
  C1. At least once: a checkpoint never passes an undelivered entry. Run the consumer of a
  lane over the Loki sink and the file store, with any items, timeouts, sink failures,
  retries, governor decisions and store failures, as long as no stop cuts a retry short.
  However the run stands (still going, finished, waiting, or raised), what is durable for
  every source key is the last token of a prefix of the entries taken from the queue, and
  every real entry of that prefix has been delivered or counted as dropped. While the loop
  runs, the rest is exactly its current batch; when it has returned, nothing is left.
\<close>

theorem pipeline_at_least_once:
  fixes P :: "('s sink_state, disk \<times> 'w file_store, 'w \<times> write_io, file_error) pipe_env"
    and env :: "('s, 'b) sink_env"
  assumes "P = loki_file_pipe env dump me mb fi" "file_inv (str st)"
    and "\<forall>ev \<in> set evs. no_stop (snd ev) \<and> list_all entry_ok (got [ev]) \<and> list_all (entry_keyed {EPOCH_KEY}) (got [ev])"
    and "consume P n evs st = (r, c, st')"
  shows "\<exists>evs1 evs2 flushed rest. evs = evs1 @ evs2 \<and> got evs1 = flushed @ rest
    \<and> agree (file_view (str st')) (file_view (str st) ++ map_of (last_tokens flushed))
    \<and> loki_accounted (line_cap env) st + due (line_cap env) (filter is_real flushed) \<subseteq># loki_accounted (line_cap env) st'
    \<and> (r = Running \<longrightarrow> evs2 = [] \<and> rest = c_batch c) \<and> (r = LoopReturned \<longrightarrow> rest = [])"
proof -
  have acc: "lf.accounted TYPE('b) env x = loki_accounted (line_cap env) x" for x :: "('s sink_state, disk \<times> 'w file_store) pipe_state"
    by (simp add: lf.accounted_def loki_accounted_def due_def)
  have dur: "lf.durable_map q x = file_view (str x)" for q and x :: "('s sink_state, disk \<times> 'w file_store) pipe_state"
    by (simp add: lf.durable_map_def split: loop_end.split)
  have start: "lf.covered TYPE('b) env st [] Running st" by (simp add: lf.covered_def dur)
  have ok: "\<forall>ev \<in> set evs. lf.event_ok ev" using assms(3) by (simp add: lf.event_ok_def)
  have run: "consume_loop (loki_file_pipe env dump me mb fi) evs (idle n) st = (r, c, st')"
    using assms(1,4) by (simp add: consume_def)
  have "\<exists>evs1 evs2 flushed rest. evs = evs1 @ evs2 \<and> [] @ c_batch (idle n) @ got evs1 = flushed @ rest
      \<and> lf.covered TYPE('b) env st flushed r st' \<and> (r = Running \<longrightarrow> evs2 = [] \<and> rest = c_batch c) \<and> (r = LoopReturned \<longrightarrow> rest = [])"
    by (rule lf.consume_loop_law [OF assms(2) start ok _ _ run]) (simp_all add: idle_def)
  then show ?thesis by (simp add: lf.covered_def dur acc due_def idle_def)
qed

subsection \<open>A batch abandoned at shutdown\<close>






definition stopping_io :: "(unit \<times> write_io) flush_io" where
  "stopping_io = \<lparr>io_stop = True, io_now = 0, io_mt = 0, io_mt_after = 0, io_wakes = [],
     io_retries = [\<lparr>stop_set = True, stop_in_wait = False, fail_time = 0\<rparr>], io_record_now = 0,
     io_record_env = ((), WriteOk), io_commit_env = ((), WriteOk)\<rparr>"

definition token_entry :: "string \<Rightarrow> bool \<Rightarrow> log_entry" where
  "token_entry v only = \<lparr>timestamp = 0, labels = [], line = [65], structured_metadata = [],
     checkpoint = \<lparr>tok_key = ''k'', tok_value = v\<rparr>, checkpoint_only = only, line_nbytes_memo = - 1\<rparr>"







subsection \<open>Readiness and grouping\<close>

lemma map_filter_id_set: "set (List.map_filter id xs) = {x. Some x \<in> set xs}"
  by (force simp: List.map_filter_def)

text \<open>
  A healthy lane never hides a failing one: the outage mark of the pipeline is the
  earliest mark of any lane, and it is absent exactly when no lane is failing.
\<close>

theorem sink_failing_since_earliest:
  "(sink_failing_since lanes = None \<longleftrightarrow> (\<forall>t. Some t \<notin> set lanes))
   \<and> (\<forall>t. sink_failing_since lanes = Some t \<longleftrightarrow> Some t \<in> set lanes \<and> (\<forall>u. Some u \<notin> set lanes \<or> t \<le> u))"
proof -
  let ?T = "set (List.map_filter id lanes)"
  have T: "x \<in> ?T \<longleftrightarrow> Some x \<in> set lanes" for x by (simp add: map_filter_id_set)
  show ?thesis
  proof (cases "List.map_filter id lanes = []")
    case True
    then have "Some x \<notin> set lanes" for x using T [of x] by simp
    with True show ?thesis by (simp add: sink_failing_since_def)
  next
    case False
    then have ne: "?T \<noteq> {}" by simp
    have "Min ?T = t \<longleftrightarrow> t \<in> ?T \<and> (\<forall>u \<in> ?T. t \<le> u)" for t
      using ne by (auto simp: Min_eq_iff)
    with False T ne show ?thesis by (auto simp: sink_failing_since_def Let_def)
  qed
qed

lemma get_default_Nil [simp]: "get_default [] k v = v"
  by (simp add: get_default_def)

lemma group_sources_fold:
  "map_of (fold (\<lambda>src d. AList.update (lane_of src) (get_default d (lane_of src) [] @ [src]) d) srcs d) l =
     (let xs = filter (\<lambda>s. lane_of s = l) srcs in
      if xs = [] then map_of d l else Some (get_default d l [] @ xs))"
  by (induction srcs arbitrary: d) (auto simp: get_default_def Let_def split: option.splits)

text \<open>
  The lanes partition the sources by class: a lane exists exactly when it has a source,
  and it holds exactly the sources of its class, in configuration order; only streaming and
  bulk occur.
\<close>

theorem group_sources_partition:
  "map_of (group_sources srcs) l =
     (let xs = filter (\<lambda>s. lane_of s = l) srcs in if xs = [] then None else Some xs)
   \<and> lane_of s \<in> {''streaming'', ''bulk''}"
proof -
  have "lane_of s \<in> {''streaming'', ''bulk''}" by (simp add: lane_of_def)
  then show ?thesis by (simp add: group_sources_def group_sources_fold Let_def)
qed

subsection \<open>Witnesses\<close>

definition calm_io :: "(unit \<times> write_io) flush_io" where
  "calm_io = stopping_io\<lparr>io_stop := False, io_retries := []\<rparr>"

theorem lane_budget_exact_witness:
  "queued_bytes (empty_lane\<lparr>lane_putting := [Entry (token_entry ''1'' False)], queued_bytes := 66\<rparr>)
     = int (buffered (empty_lane\<lparr>lane_putting := [Entry (token_entry ''1'' False)], queued_bytes := 66\<rparr>))"
proof -
  let ?i = "Entry (token_entry ''1'' False)"
  let ?l = "empty_lane\<lparr>lane_putting := [?i], queued_bytes := 66\<rparr>"
  have cost: "entry_cost ?i = 66"
    by (simp add: token_entry_def QUEUE_ENTRY_OVERHEAD_def nbytes_eq memo_ok_def utf8_len_def encode_cp_def utf8_encode_def)
  then have "charge 10 ?i empty_lane = Some (empty_lane\<lparr>queued_bytes := 66\<rparr>)"
    by (simp add: charge_def empty_lane_def)
  then have "lane_step 10 0 empty_lane ?l"
    using lane_step.charge_step [of 10 ?i empty_lane "empty_lane\<lparr>queued_bytes := 66\<rparr>" 0]
    by (simp add: empty_lane_def)
  with cost have "(\<lambda>a b. lane_step 10 0 a b \<and> small_items 66 b)\<^sup>*\<^sup>* empty_lane ?l"
    by (intro r_into_rtranclp) (simp add: small_items_def)
  from lane_budget_exact [OF _ this] show ?thesis by simp
qed

theorem pipeline_at_least_once_witness:
  "\<exists>r c st'. consume (loki_file_pipe (example_env poison_server) (\<lambda>_ _. []) 1 1000 5) 1
        [(Got (Entry (example_entry [65])) 0, calm_io)]
        \<lparr>snk = fresh_sink, str = (empty_disk, new_file_store 0 False :: unit file_store), gov = None, failing_since = None, pipe_dropped = []\<rparr>
      = (r, c, st')
    \<and> (\<exists>flushed. agree (file_view (str st'))
        (file_view (empty_disk, new_file_store 0 False :: unit file_store) ++ map_of (last_tokens flushed)))"
proof -
  let ?P = "loki_file_pipe (example_env poison_server) (\<lambda>_ _. []) 1 1000 5"
  let ?st = "\<lparr>snk = fresh_sink, str = (empty_disk, new_file_store 0 False :: unit file_store), gov = None, failing_since = None, pipe_dropped = []\<rparr>"
  let ?evs = "[(Got (Entry (example_entry [65])) 0, calm_io)]"
  obtain r c st' where run: "consume ?P 1 ?evs ?st = (r, c, st')" by (metis prod_cases3)
  have inv: "file_inv (str ?st)" by (simp add: file_inv_def new_file_store_def)
  have ev: "\<forall>ev \<in> set ?evs. no_stop (snd ev) \<and> list_all entry_ok (got [ev]) \<and> list_all (entry_keyed {EPOCH_KEY}) (got [ev])"
    by (simp add: no_stop_def calm_io_def stopping_io_def entry_keyed_def example_entry_def EPOCH_KEY_def BUDGET_KEY_def
        entry_ok_def memo_ok_def valid_cp_def)
  from pipeline_at_least_once [OF refl inv ev run]
  obtain flushed where "agree (file_view (str st')) (file_view (str ?st) ++ map_of (last_tokens flushed))" by blast
  then have "agree (file_view (str st')) (file_view (empty_disk, new_file_store 0 False :: unit file_store) ++ map_of (last_tokens flushed))"
    by simp
  with run show ?thesis by blast
qed

end
