(* ===== verification/ObjectStore.thy ===== *)
theory ObjectStore
  imports StoreSpec Retry PyInt
begin

section \<open>state/s3_store.py and state/gcs_store.py: the object-store backends\<close>

text \<open>
  \<^verbatim>\<open>src/sf2loki/state/s3_store.py\<close> and \<^verbatim>\<open>src/sf2loki/state/gcs_store.py\<close>.
  The service, its client library and the retry engine are parameters (\<open>s3_env\<close>,
  \<open>gcs_env\<close>): a request is a state transformer on the service's state \<open>'o\<close>, in which
  other writers may act before, during and after it. \<open>s3_hist\<close> and \<open>gcs_hist\<close> name the
  history of versions the object has had; they occur in statements only, never in the
  operations. \<open>s3_service\<close> and \<open>gcs_service\<close> are what the providers document: a read
  returns a version that was current while it ran, a conditional write that succeeds was
  applied at a moment when its precondition held, an S3 ETag determines the content, a GCS
  generation is never reused.

  The locale \<open>conditional_put\<close> is the interface between the services and the stores; it is
  interpreted on the PUT of each store. Results: a commit that returns replaced exactly the
  version it was computed from, whatever the other writers and the retries did (no lost
  update); a lost acknowledgement is reported as a conflict with another writer.
\<close>

datatype obj_body = BodyDoc doc | BodyNotObject | BodyNotJson

type_synonym version = "string \<times> obj_body"

datatype store_exc =
    ServiceError (exc_code: "string option") (exc_status: "nat option")
  | OSErr
  | OtherErr
  | StateStoreConflictError
  | StateObjectCorruptError
  | JsonDecodeError
  | StoreFenceError

fun error_code :: "store_exc \<Rightarrow> string option" where
  "error_code (ServiceError c st) = c"
| "error_code _ = None"

fun status_code :: "store_exc \<Rightarrow> nat option" where
  "status_code (ServiceError c st) = st"
| "status_code _ = None"

definition MAX_STORE_ATTEMPTS :: nat where
  "MAX_STORE_ATTEMPTS = 4"

definition NOT_FOUND_CODES :: "string list" where
  "NOT_FOUND_CODES = [''NoSuchKey'', ''404'']"

definition PRECONDITION_FAILED_CODES :: "string list" where
  "PRECONDITION_FAILED_CODES = [''PreconditionFailed'', ''412'']"

definition TRANSIENT_CODES :: "string list" where
  "TRANSIENT_CODES =
     [''SlowDown'', ''InternalError'', ''InternalFailure'', ''ServiceUnavailable'', ''RequestTimeout'',
      ''RequestTimeTooSkewed'', ''Throttling'', ''ThrottlingException'', ''RequestLimitExceeded'']"

definition code_in :: "store_exc \<Rightarrow> string list \<Rightarrow> bool" where
  "code_in e cs \<longleftrightarrow> (case error_code e of None \<Rightarrow> False | Some c \<Rightarrow> c \<in> set cs)"

definition server_side :: "store_exc \<Rightarrow> bool" where
  "server_side e \<longleftrightarrow> (case status_code e of None \<Rightarrow> False | Some n \<Rightarrow> n \<ge> 500)"

definition s3_is_transient :: "store_exc \<Rightarrow> bool" where
  "s3_is_transient e \<longleftrightarrow> code_in e TRANSIENT_CODES \<or> server_side e \<or> e = OSErr"

definition gcs_is_transient :: "store_exc \<Rightarrow> bool" where
  "gcs_is_transient e \<longleftrightarrow> server_side e \<or> e = OSErr"

definition parse_body :: "obj_body \<Rightarrow> store_exc + doc" where
  "parse_body b =
     (case b of
        BodyDoc d \<Rightarrow> Inr d
      | BodyNotObject \<Rightarrow> Inl StateObjectCorruptError
      | BodyNotJson \<Rightarrow> Inl JsonDecodeError)"

text \<open>Both stores keep the loaded document and the version token it was read at.\<close>

record 'w object_store =
  obj_cache :: "doc option"
  obj_version :: "string option"
  obj_fence :: "('w \<Rightarrow> bool) option"

type_synonym ('o, 'w, 'a) store_op = "('o \<times> 'w object_store, store_exc, 'a) op"

definition new_object_store :: "'w object_store" where
  "new_object_store = \<lparr>obj_cache = None, obj_version = None, obj_fence = None\<rparr>"

definition set_obj_fence :: "('w \<Rightarrow> bool) \<Rightarrow> 'w object_store \<Rightarrow> 'w object_store" where
  "set_obj_fence f s = s\<lparr>obj_fence := Some f\<rparr>"

definition reset_object_store :: "'w object_store \<Rightarrow> 'w object_store" where
  "reset_object_store s = s\<lparr>obj_cache := None, obj_version := None\<rparr>"

text \<open>A request to the service from inside a store operation.\<close>

definition request :: "('o, store_exc, 'a) op \<Rightarrow> ('o, 'w, 'a) store_op" where
  "request m = (\<lambda>(q, s). case m q of (r, q') \<Rightarrow> (r, q', s))"

definition put_loaded :: "doc \<Rightarrow> string option \<Rightarrow> ('o, 'w, unit) store_op" where
  "put_loaded doc v = (\<lambda>(q, s). (Inr (), q, s\<lparr>obj_cache := Some doc, obj_version := v\<rparr>))"

definition put_version :: "string option \<Rightarrow> ('o, 'w, unit) store_op" where
  "put_version v = (\<lambda>(q, s). (Inr (), q, s\<lparr>obj_version := v\<rparr>))"

definition lift_result :: "store_exc + 'a \<Rightarrow> ('o, 'w, 'a) store_op" where
  "lift_result r = (\<lambda>x. (r, x))"

definition check_obj_fence :: "'w \<Rightarrow> ('o, 'w, unit) store_op" where
  "check_obj_fence w = (\<lambda>(q, s).
     (case obj_fence s of
        None \<Rightarrow> (Inr (), q, s)
      | Some f \<Rightarrow> if f w then (Inr (), q, s) else (Inl StoreFenceError, q, s)))"

subsection \<open>S3\<close>

text \<open>\<open>put_object body v\<close> carries \<^verbatim>\<open>If-None-Match: *\<close> for \<open>v = None\<close> and
  \<^verbatim>\<open>If-Match: t\<close> for \<open>v = Some t\<close>; both requests return the ETag if the response
  has one.\<close>

record 'o s3_env =
  get_object :: "('o, store_exc, obj_body \<times> string option) op"
  put_object :: "obj_body \<Rightarrow> string option \<Rightarrow> ('o, store_exc, string option) op"
  s3_retry_get :: "('o, store_exc, (obj_body \<times> string option) option) op
     \<Rightarrow> ('o, store_exc, (obj_body \<times> string option) option) op"
  s3_retry_put :: "('o, store_exc, string option) op \<Rightarrow> ('o, store_exc, string option) op"
  s3_hist :: "'o \<Rightarrow> version list"

definition s3_do_get :: "'o s3_env \<Rightarrow> ('o, store_exc, (obj_body \<times> string option) option) op" where
  "s3_do_get env q =
     (case get_object env q of
        (Inr resp, q') \<Rightarrow> (Inr (Some resp), q')
      | (Inl exc, q') \<Rightarrow> if code_in exc NOT_FOUND_CODES then (Inr None, q') else (Inl exc, q'))"

definition s3_do_put :: "'o s3_env \<Rightarrow> obj_body \<Rightarrow> string option \<Rightarrow> ('o, store_exc, string option) op" where
  "s3_do_put env body v q =
     (case put_object env body v q of
        (Inr t, q') \<Rightarrow> (Inr t, q')
      | (Inl exc, q') \<Rightarrow>
          if code_in exc PRECONDITION_FAILED_CODES \<or> status_code exc = Some 412
          then (Inl StateStoreConflictError, q') else (Inl exc, q'))"

definition s3_ensure_loaded :: "'o s3_env \<Rightarrow> ('o, 'w, doc) store_op" where
  "s3_ensure_loaded env =
     and_then get_state (\<lambda>(q, s).
       (case obj_cache s of
          Some doc \<Rightarrow> ret doc
        | None \<Rightarrow>
            and_then (request (s3_retry_get env (s3_do_get env))) (\<lambda>resp.
              (case resp of
                 None \<Rightarrow> and_then (put_loaded [] None) (\<lambda>_. ret [])
               | Some (body, t) \<Rightarrow>
                   and_then (lift_result (parse_body body)) (\<lambda>doc.
                   and_then (put_loaded doc t) (\<lambda>_. ret doc))))))"

definition s3_load :: "'o s3_env \<Rightarrow> string \<Rightarrow> ('o, 'w, string option) store_op" where
  "s3_load env key = and_then (s3_ensure_loaded env) (\<lambda>doc. ret (map_of doc key))"

definition s3_write :: "'o s3_env \<Rightarrow> doc \<Rightarrow> ('o, 'w, unit) store_op" where
  "s3_write env new =
     and_then get_state (\<lambda>(q, s).
     and_then (request (s3_retry_put env (s3_do_put env (BodyDoc new) (obj_version s)))) (\<lambda>t.
       put_loaded new t))"

definition s3_commit_many :: "'o s3_env \<Rightarrow> 'w \<Rightarrow> doc \<Rightarrow> ('o, 'w, unit) store_op" where
  "s3_commit_many env w items =
     and_then (check_obj_fence w) (\<lambda>_.
     and_then (s3_ensure_loaded env) (\<lambda>doc. s3_write env (dict_merge doc items)))"

definition s3_commit :: "'o s3_env \<Rightarrow> 'w \<Rightarrow> string \<Rightarrow> string \<Rightarrow> ('o, 'w, unit) store_op" where
  "s3_commit env w key v = s3_commit_many env w [(key, v)]"

definition s3_delete :: "'o s3_env \<Rightarrow> 'w \<Rightarrow> string \<Rightarrow> ('o, 'w, unit) store_op" where
  "s3_delete env w key =
     and_then (check_obj_fence w) (\<lambda>_.
     and_then (s3_ensure_loaded env) (\<lambda>doc.
       if map_of doc key = None then ret ()
       else s3_write env (filter (\<lambda>(k, v). k \<noteq> key) doc)))"

subsection \<open>GCS\<close>

record 'o gcs_env =
  download_metadata :: "('o, store_exc, string) op"
  download :: "('o, store_exc, obj_body) op"
  upload :: "obj_body \<Rightarrow> string option \<Rightarrow> ('o, store_exc, string) op"
  gcs_retry_meta :: "('o, store_exc, string option) op \<Rightarrow> ('o, store_exc, string option) op"
  gcs_retry_get :: "('o, store_exc, obj_body) op \<Rightarrow> ('o, store_exc, obj_body) op"
  gcs_retry_put :: "('o, store_exc, string option) op \<Rightarrow> ('o, store_exc, string option) op"
  gcs_hist :: "'o \<Rightarrow> version list"

definition gcs_do_download_metadata :: "'o gcs_env \<Rightarrow> ('o, store_exc, string option) op" where
  "gcs_do_download_metadata env q =
     (case download_metadata env q of
        (Inr gen, q') \<Rightarrow> (Inr (Some gen), q')
      | (Inl exc, q') \<Rightarrow> if status_code exc = Some 404 then (Inr None, q') else (Inl exc, q'))"

definition gcs_do_upload :: "'o gcs_env \<Rightarrow> obj_body \<Rightarrow> string option \<Rightarrow> ('o, store_exc, string option) op" where
  "gcs_do_upload env body v q =
     (case upload env body v q of
        (Inr gen, q') \<Rightarrow> (Inr (Some gen), q')
      | (Inl exc, q') \<Rightarrow>
          if status_code exc = Some 412 then (Inl StateStoreConflictError, q') else (Inl exc, q'))"

definition gcs_ensure_loaded :: "'o gcs_env \<Rightarrow> ('o, 'w, doc) store_op" where
  "gcs_ensure_loaded env =
     and_then get_state (\<lambda>(q, s).
       (case obj_cache s of
          Some doc \<Rightarrow> ret doc
        | None \<Rightarrow>
            and_then (request (gcs_retry_meta env (gcs_do_download_metadata env))) (\<lambda>meta.
              (case meta of
                 None \<Rightarrow> and_then (put_loaded [] None) (\<lambda>_. ret [])
               | Some gen \<Rightarrow>
                   and_then (put_version (Some gen)) (\<lambda>_.
                   and_then (request (gcs_retry_get env (download env))) (\<lambda>body.
                   and_then (lift_result (parse_body body)) (\<lambda>doc.
                   and_then (put_loaded doc (Some gen)) (\<lambda>_. ret doc))))))))"

definition gcs_load :: "'o gcs_env \<Rightarrow> string \<Rightarrow> ('o, 'w, string option) store_op" where
  "gcs_load env key = and_then (gcs_ensure_loaded env) (\<lambda>doc. ret (map_of doc key))"

definition gcs_write :: "'o gcs_env \<Rightarrow> doc \<Rightarrow> ('o, 'w, unit) store_op" where
  "gcs_write env new =
     and_then get_state (\<lambda>(q, s).
     and_then (request (gcs_retry_put env (gcs_do_upload env (BodyDoc new) (obj_version s)))) (\<lambda>t.
       put_loaded new t))"

definition gcs_commit_many :: "'o gcs_env \<Rightarrow> 'w \<Rightarrow> doc \<Rightarrow> ('o, 'w, unit) store_op" where
  "gcs_commit_many env w items =
     and_then (check_obj_fence w) (\<lambda>_.
     and_then (gcs_ensure_loaded env) (\<lambda>doc. gcs_write env (dict_merge doc items)))"

definition gcs_commit :: "'o gcs_env \<Rightarrow> 'w \<Rightarrow> string \<Rightarrow> string \<Rightarrow> ('o, 'w, unit) store_op" where
  "gcs_commit env w key v = gcs_commit_many env w [(key, v)]"

definition gcs_delete :: "'o gcs_env \<Rightarrow> 'w \<Rightarrow> string \<Rightarrow> ('o, 'w, unit) store_op" where
  "gcs_delete env w key =
     and_then (check_obj_fence w) (\<lambda>_.
     and_then (gcs_ensure_loaded env) (\<lambda>doc.
       if map_of doc key = None then ret ()
       else gcs_write env (filter (\<lambda>(k, v). k \<noteq> key) doc)))"

subsection \<open>What the services document\<close>

definition during :: "version list \<Rightarrow> version list \<Rightarrow> version list \<Rightarrow> bool" where
  "during a h b \<longleftrightarrow> prefix a h \<and> prefix h b"

definition pre_holds :: "string option \<Rightarrow> version list \<Rightarrow> bool" where
  "pre_holds v h \<longleftrightarrow> (case v of None \<Rightarrow> h = [] | Some t \<Rightarrow> h \<noteq> [] \<and> fst (last h) = t)"

text \<open>The document a history ends in; no object yet means the empty document.\<close>

definition current :: "version list \<Rightarrow> doc option" where
  "current h =
     (if h = [] then Some [] else case snd (last h) of BodyDoc d \<Rightarrow> Some d | _ \<Rightarrow> None)"

definition s3_wf :: "version list \<Rightarrow> bool" where
  "s3_wf h \<longleftrightarrow> (\<forall>t b b'. (t, b) \<in> set h \<and> (t, b') \<in> set h \<longrightarrow> b = b')"

definition gcs_wf :: "version list \<Rightarrow> bool" where
  "gcs_wf h \<longleftrightarrow> distinct (map fst h)"

definition applied_between :: "version list \<Rightarrow> obj_body \<Rightarrow> string option \<Rightarrow> string option \<Rightarrow> version list \<Rightarrow> bool" where
  "applied_between a body v t b \<longleftrightarrow>
     (\<exists>h tag. prefix a h \<and> prefix (h @ [(tag, body)]) b \<and> pre_holds v h \<and> (\<forall>x. t = Some x \<longrightarrow> x = tag))"

definition s3_service :: "'o s3_env \<Rightarrow> bool" where
  "s3_service env \<longleftrightarrow>
     (\<forall>q. s3_wf (s3_hist env q))
     \<and> (\<forall>q r q'. get_object env q = (r, q') \<longrightarrow>
          prefix (s3_hist env q) (s3_hist env q')
          \<and> (\<forall>body t. r = Inr (body, t) \<longrightarrow>
               (\<exists>h. during (s3_hist env q) h (s3_hist env q') \<and> h \<noteq> [] \<and> snd (last h) = body
                  \<and> (\<forall>x. t = Some x \<longrightarrow> fst (last h) = x))))
     \<and> (\<forall>body v q r q'. put_object env body v q = (r, q') \<longrightarrow>
          prefix (s3_hist env q) (s3_hist env q')
          \<and> (\<forall>t. r = Inr t \<longrightarrow> applied_between (s3_hist env q) body v t (s3_hist env q')))"

definition s3_engine :: "'o s3_env \<Rightarrow> bool" where
  "s3_engine env \<longleftrightarrow>
     (\<forall>att q. s3_retry_get env att q = run_attempts MAX_STORE_ATTEMPTS s3_is_transient att q)
     \<and> (\<forall>att q. s3_retry_put env att q = run_attempts MAX_STORE_ATTEMPTS s3_is_transient att q)"

definition gcs_service :: "'o gcs_env \<Rightarrow> bool" where
  "gcs_service env \<longleftrightarrow>
     (\<forall>q. gcs_wf (gcs_hist env q))
     \<and> (\<forall>q r q'. download_metadata env q = (r, q') \<longrightarrow>
          prefix (gcs_hist env q) (gcs_hist env q')
          \<and> (\<forall>g. r = Inr g \<longrightarrow>
               (\<exists>h. during (gcs_hist env q) h (gcs_hist env q') \<and> h \<noteq> [] \<and> fst (last h) = g)))
     \<and> (\<forall>q r q'. download env q = (r, q') \<longrightarrow>
          prefix (gcs_hist env q) (gcs_hist env q')
          \<and> (\<forall>body. r = Inr body \<longrightarrow>
               (\<exists>h. during (gcs_hist env q) h (gcs_hist env q') \<and> h \<noteq> [] \<and> snd (last h) = body)))
     \<and> (\<forall>body v q r q'. upload env body v q = (r, q') \<longrightarrow>
          prefix (gcs_hist env q) (gcs_hist env q')
          \<and> (\<forall>g. r = Inr g \<longrightarrow> applied_between (gcs_hist env q) body v (Some g) (gcs_hist env q')))"

definition gcs_engine :: "'o gcs_env \<Rightarrow> bool" where
  "gcs_engine env \<longleftrightarrow>
     (\<forall>att q. gcs_retry_meta env att q = run_attempts MAX_STORE_ATTEMPTS gcs_is_transient att q)
     \<and> (\<forall>att q. gcs_retry_get env att q = run_attempts MAX_STORE_ATTEMPTS gcs_is_transient att q)
     \<and> (\<forall>att q. gcs_retry_put env att q = run_attempts MAX_STORE_ATTEMPTS gcs_is_transient att q)"

text \<open>The cache may be written under a version token if, whenever the precondition holds from
  now on, the object is the cached document.\<close>

definition cas_safe :: "(version list \<Rightarrow> bool) \<Rightarrow> version list \<Rightarrow> string option \<Rightarrow> doc \<Rightarrow> bool" where
  "cas_safe okh h v c \<longleftrightarrow> (\<forall>h'. prefix h h' \<and> okh h' \<and> pre_holds v h' \<longrightarrow> current h' = Some c)"

lemma cas_safe_mono: "cas_safe okh h v c \<Longrightarrow> prefix h h' \<Longrightarrow> cas_safe okh h' v c"
  unfolding cas_safe_def by (meson prefix_order.trans)

lemma cas_safe_absent [simp]: "cas_safe okh h None []"
  by (auto simp: cas_safe_def pre_holds_def current_def)

lemma s3_wf_prefix: "s3_wf b \<Longrightarrow> prefix a b \<Longrightarrow> s3_wf a"
  unfolding s3_wf_def using set_mono_prefix by blast

lemma gcs_wf_prefix: "gcs_wf b \<Longrightarrow> prefix a b \<Longrightarrow> gcs_wf a"
  by (auto simp: gcs_wf_def prefix_def)

lemma gcs_wf_s3_wf: "gcs_wf h \<Longrightarrow> s3_wf h"
  unfolding gcs_wf_def s3_wf_def by (metis eq_key_imp_eq_value)

lemma last_in_prefix: "prefix h h' \<Longrightarrow> h \<noteq> [] \<Longrightarrow> last h \<in> set h'"
  using set_mono_prefix by fastforce

text \<open>The document and the token of one version of the object.\<close>

lemma cas_safe_version:
  assumes "\<And>h. okh h \<Longrightarrow> s3_wf h" "prefix h b" "h \<noteq> []" "snd (last h) = BodyDoc doc"
    and "\<forall>x. t = Some x \<longrightarrow> fst (last h) = x"
  shows "cas_safe okh b t doc"
  unfolding cas_safe_def
proof (intro allI impI)
  fix h'
  assume h': "prefix b h' \<and> okh h' \<and> pre_holds t h'"
  have ph: "prefix h h'" using assms(2) h' by (meson prefix_order.trans)
  then have ne: "h' \<noteq> []" using assms(3) by auto
  then obtain x where x: "t = Some x" "fst (last h') = x" using h' by (auto simp: pre_holds_def split: option.splits)
  have "last h \<in> set h'" by (rule last_in_prefix [OF ph assms(3)])
  moreover have "last h' \<in> set h'" using ne by simp
  ultimately have "snd (last h') = snd (last h)"
    using assms(1) h' x assms(5) unfolding s3_wf_def by (metis prod.collapse)
  then show "current h' = Some doc" using ne assms(4) by (simp add: current_def)
qed

subsection \<open>The interface of a conditional write\<close>

locale conditional_put =
  fixes good :: "'env \<Rightarrow> bool"
    and hist :: "'env \<Rightarrow> 'o \<Rightarrow> version list"
    and okh :: "version list \<Rightarrow> bool"
    and attempt_put :: "'env \<Rightarrow> obj_body \<Rightarrow> string option \<Rightarrow> ('o, store_exc, string option) op"
    and transient :: "store_exc \<Rightarrow> bool"
  assumes wf_hist: "good env \<Longrightarrow> okh (hist env q)"
    and wf_prefix: "okh b \<Longrightarrow> prefix a b \<Longrightarrow> okh a"
    and wf_tag: "okh h \<Longrightarrow> s3_wf h"
    and put_grows: "good env \<Longrightarrow> attempt_put env body v q = (r, q') \<Longrightarrow> prefix (hist env q) (hist env q')"
    and put_applied: "good env \<Longrightarrow> attempt_put env body v q = (Inr t, q') \<Longrightarrow>
        applied_between (hist env q) body v t (hist env q')"
begin

lemma retry_put_grows:
  assumes "good env" "run_attempts n transient (attempt_put env body v) q = (r, q')"
  shows "prefix (hist env q) (hist env q')"
  using run_attempts_inv [OF assms(2), of "\<lambda>x. prefix (hist env q) (hist env x)"]
    put_grows [OF assms(1)] prefix_order.trans by blast

text \<open>Whatever the retries met, a PUT that returns replaced the version it was computed from.\<close>

lemma cas_commit:
  assumes "good env" "cas_safe okh (hist env q) v base"
    and "run_attempts n transient (attempt_put env (BodyDoc new) v) q = (Inr t, q')"
  shows "\<exists>h tag. prefix (hist env q) h \<and> current h = Some base
      \<and> prefix (h @ [(tag, BodyDoc new)]) (hist env q')"
    and "cas_safe okh (hist env q') t new"
proof -
  obtain p where p: "prefix (hist env q) (hist env p)" "attempt_put env (BodyDoc new) v p = (Inr t, q')"
    using run_attempts_inv [OF assms(3), of "\<lambda>x. prefix (hist env q) (hist env x)"]
      put_grows [OF assms(1)] prefix_order.trans by blast
  from put_applied [OF assms(1) p(2)] obtain h tag where h: "prefix (hist env p) h"
    "prefix (h @ [(tag, BodyDoc new)]) (hist env q')" "pre_holds v h" "\<forall>x. t = Some x \<longrightarrow> x = tag"
    unfolding applied_between_def by blast
  have qh: "prefix (hist env q) h" using p(1) h(1) by (meson prefix_order.trans)
  have "prefix h (hist env q')" using h(2) by (meson prefix_order.trans prefixI)
  then have "okh h" using wf_hist [OF assms(1)] wf_prefix by blast
  then have "current h = Some base" using assms(2) qh h(3) unfolding cas_safe_def by blast
  with qh h(2) show "\<exists>h tag. prefix (hist env q) h \<and> current h = Some base
      \<and> prefix (h @ [(tag, BodyDoc new)]) (hist env q')" by blast
  show "cas_safe okh (hist env q') t new"
    by (rule cas_safe_version [OF wf_tag h(2)]) (use h(4) in auto)
qed

end

subsection \<open>The store on top of it\<close>

definition obj_safe :: "(version list \<Rightarrow> bool) \<Rightarrow> version list \<Rightarrow> 'w object_store \<Rightarrow> bool" where
  "obj_safe okh h s \<longleftrightarrow> (\<forall>doc. obj_cache s = Some doc \<longrightarrow> cas_safe okh h (obj_version s) doc)"

locale object_checkpoint = conditional_put +
  fixes ensure :: "'env \<Rightarrow> ('o, 'w, doc) store_op"
    and write_doc :: "'env \<Rightarrow> doc \<Rightarrow> ('o, 'w, unit) store_op"
  assumes ensure_law: "good env \<Longrightarrow> obj_safe okh (hist env q) s \<Longrightarrow> ensure env (q, s) = (r, q', s') \<Longrightarrow>
        prefix (hist env q) (hist env q') \<and> obj_safe okh (hist env q') s'
        \<and> (\<forall>doc. r = Inr doc \<longrightarrow> obj_cache s' = Some doc)"
    and write_law: "good env \<Longrightarrow> write_doc env new (q, s) =
        (case run_attempts MAX_STORE_ATTEMPTS transient (attempt_put env (BodyDoc new) (obj_version s)) q of
           (Inl e, q') \<Rightarrow> (Inl e, q', s)
         | (Inr t, q') \<Rightarrow> (Inr (), q', s\<lparr>obj_cache := Some new, obj_version := t\<rparr>))"
begin

lemma safe_mono: "obj_safe okh (hist env q) s \<Longrightarrow> prefix (hist env q) (hist env q') \<Longrightarrow> obj_safe okh (hist env q') s"
  using cas_safe_mono by (auto simp: obj_safe_def)

lemma write_doc_law:
  assumes "good env" "obj_safe okh (hist env q) s" "obj_cache s = Some base" "write_doc env new (q, s) = (r, q', s')"
  shows "prefix (hist env q) (hist env q') \<and> obj_safe okh (hist env q') s'
    \<and> (r = Inr () \<longrightarrow> (\<exists>h tag. prefix (hist env q) h \<and> current h = Some base
        \<and> prefix (h @ [(tag, BodyDoc new)]) (hist env q')))"
proof -
  let ?att = "attempt_put env (BodyDoc new) (obj_version s)"
  obtain r1 p where run: "run_attempts MAX_STORE_ATTEMPTS transient ?att q = (r1, p)" by (metis surj_pair)
  have grows: "prefix (hist env q) (hist env p)" by (rule retry_put_grows [OF assms(1) run])
  have c: "cas_safe okh (hist env q) (obj_version s) base" using assms(2,3) by (simp add: obj_safe_def)
  show ?thesis
  proof (cases r1)
    case (Inl e)
    with run write_law [OF assms(1)] assms(4) have "r = Inl e" "q' = p" "s' = s" by auto
    with grows safe_mono [OF assms(2)] show ?thesis by auto
  next
    case (Inr t)
    with run write_law [OF assms(1)] assms(4)
    have eq: "r = Inr ()" "q' = p" "s' = s\<lparr>obj_cache := Some new, obj_version := t\<rparr>" by auto
    from cas_commit [OF assms(1) c run [unfolded Inr]] eq grows show ?thesis by (simp add: obj_safe_def)
  qed
qed

text \<open>Fence, load, compute a new document (or none), write: the shape of commit and delete.\<close>

lemma update_law:
  assumes "good env" "obj_safe okh (hist env q) s"
    and "and_then (check_obj_fence w) (\<lambda>_. and_then (ensure env)
        (\<lambda>doc. case f doc of None \<Rightarrow> ret () | Some new \<Rightarrow> write_doc env new)) (q, s) = (r, q', s')"
  shows "prefix (hist env q) (hist env q') \<and> obj_safe okh (hist env q') s'
    \<and> (r = Inr () \<longrightarrow> (\<exists>base. case f base of None \<Rightarrow> True | Some new \<Rightarrow>
        (\<exists>h tag. prefix (hist env q) h \<and> current h = Some base
          \<and> prefix (h @ [(tag, BodyDoc new)]) (hist env q'))))"
proof (cases "\<exists>g. obj_fence s = Some g \<and> \<not> g w")
  case True
  with assms show ?thesis by (auto simp: and_then_def check_obj_fence_def)
next
  case False
  then have fence: "check_obj_fence w (q, s) = (Inr (), q, s)"
    by (auto simp: check_obj_fence_def split: option.splits)
  obtain r1 p s1 where ens: "ensure env (q, s) = (r1, p, s1)" by (metis prod_cases3)
  from ensure_law [OF assms(1,2) ens] have p: "prefix (hist env q) (hist env p)" "obj_safe okh (hist env p) s1"
    "\<forall>doc. r1 = Inr doc \<longrightarrow> obj_cache s1 = Some doc" by auto
  show ?thesis
  proof (cases r1)
    case (Inl e)
    with assms(3) fence ens p show ?thesis by (auto simp: and_then_def)
  next
    case (Inr base)
    then have run: "(case f base of None \<Rightarrow> ret () | Some new \<Rightarrow> write_doc env new) (p, s1) = (r, q', s')"
      using assms(3) fence ens by (simp add: and_then_def)
    show ?thesis
    proof (cases "f base")
      case None
      with run p show ?thesis by (auto intro: exI [of _ base])
    next
      case (Some new)
      with run have wr: "write_doc env new (p, s1) = (r, q', s')" by simp
      from write_doc_law [OF assms(1) p(2) _ wr] p(3) Inr
      have w: "prefix (hist env p) (hist env q')" "obj_safe okh (hist env q') s'"
        "r = Inr () \<longrightarrow> (\<exists>h tag. prefix (hist env p) h \<and> current h = Some base
          \<and> prefix (h @ [(tag, BodyDoc new)]) (hist env q'))" by blast+
      have tr: "prefix (hist env q) h" if "prefix (hist env p) h" for h
        using p(1) that by (rule prefix_order.trans)
      have "\<exists>base. case f base of None \<Rightarrow> True | Some new \<Rightarrow>
          (\<exists>h tag. prefix (hist env q) h \<and> current h = Some base \<and> prefix (h @ [(tag, BodyDoc new)]) (hist env q'))"
        if "r = Inr ()"
        using w(3) that tr Some by (intro exI [of _ base]) auto
      with w tr show ?thesis by blast
    qed
  qed
qed

lemma commit_law:
  assumes "good env" "obj_safe okh (hist env q) s"
    and "and_then (check_obj_fence w) (\<lambda>_. and_then (ensure env)
        (\<lambda>doc. write_doc env (dict_merge doc items))) (q, s) = (r, q', s')"
  shows "prefix (hist env q) (hist env q') \<and> obj_safe okh (hist env q') s'
    \<and> (r = Inr () \<longrightarrow> (\<exists>base h tag. prefix (hist env q) h \<and> current h = Some base
          \<and> prefix (h @ [(tag, BodyDoc (dict_merge base items))]) (hist env q')))"
  using update_law [OF assms(1,2), of w "\<lambda>doc. Some (dict_merge doc items)" r q' s'] assms(3) by simp

lemma delete_law:
  assumes "good env" "obj_safe okh (hist env q) s"
    and "and_then (check_obj_fence w) (\<lambda>_. and_then (ensure env)
        (\<lambda>doc. if map_of doc key = None then ret () else write_doc env (filter (\<lambda>(k, v). k \<noteq> key) doc)))
        (q, s) = (r, q', s')"
  shows "prefix (hist env q) (hist env q') \<and> obj_safe okh (hist env q') s'"
proof -
  have "(\<lambda>doc. if map_of doc key = None then ret () else write_doc env (filter (\<lambda>(k, v). k \<noteq> key) doc)) =
      (\<lambda>doc. case (if map_of doc key = None then None else Some (filter (\<lambda>(k, v). k \<noteq> key) doc)) of
         None \<Rightarrow> ret () | Some new \<Rightarrow> write_doc env new)"
    by (rule ext) simp
  with update_law [OF assms(1,2), of w
      "\<lambda>doc. if map_of doc key = None then None else Some (filter (\<lambda>(k, v). k \<noteq> key) doc)" r q' s'] assms(3)
  show ?thesis by simp
qed

end

subsection \<open>Both backends meet it\<close>

definition s3_good :: "'o s3_env \<Rightarrow> bool" where
  "s3_good env \<longleftrightarrow> s3_service env \<and> s3_engine env"

definition gcs_good :: "'o gcs_env \<Rightarrow> bool" where
  "gcs_good env \<longleftrightarrow> gcs_service env \<and> gcs_engine env"

lemma s3_goodD:
  assumes "s3_good env"
  shows "s3_wf (s3_hist env q)"
    and "get_object env q = (r, q') \<Longrightarrow> prefix (s3_hist env q) (s3_hist env q')"
    and "get_object env q = (Inr (body, t), q') \<Longrightarrow>
      \<exists>h. during (s3_hist env q) h (s3_hist env q') \<and> h \<noteq> [] \<and> snd (last h) = body
        \<and> (\<forall>x. t = Some x \<longrightarrow> fst (last h) = x)"
    and "put_object env b v q = (r1, q1) \<Longrightarrow> prefix (s3_hist env q) (s3_hist env q1)"
    and "put_object env b v q = (Inr t1, q1) \<Longrightarrow> applied_between (s3_hist env q) b v t1 (s3_hist env q1)"
    and "s3_retry_get env att1 q = run_attempts MAX_STORE_ATTEMPTS s3_is_transient att1 q"
    and "s3_retry_put env att2 q = run_attempts MAX_STORE_ATTEMPTS s3_is_transient att2 q"
proof -
  note S = assms [unfolded s3_good_def s3_service_def s3_engine_def]
  note W = S [THEN conjunct1, THEN conjunct1, rule_format]
  note G = S [THEN conjunct1, THEN conjunct2, THEN conjunct1, rule_format]
  note P = S [THEN conjunct1, THEN conjunct2, THEN conjunct2, rule_format]
  note E = S [THEN conjunct2]
  show "s3_wf (s3_hist env q)" by (rule W)
  show "get_object env q = (r, q') \<Longrightarrow> prefix (s3_hist env q) (s3_hist env q')"
    by (rule G [THEN conjunct1])
  show "get_object env q = (Inr (body, t), q') \<Longrightarrow>
      \<exists>h. during (s3_hist env q) h (s3_hist env q') \<and> h \<noteq> [] \<and> snd (last h) = body
        \<and> (\<forall>x. t = Some x \<longrightarrow> fst (last h) = x)"
    by (rule G [THEN conjunct2, rule_format, OF _ refl])
  show "put_object env b v q = (r1, q1) \<Longrightarrow> prefix (s3_hist env q) (s3_hist env q1)"
    by (rule P [THEN conjunct1])
  show "put_object env b v q = (Inr t1, q1) \<Longrightarrow> applied_between (s3_hist env q) b v t1 (s3_hist env q1)"
    by (rule P [THEN conjunct2, rule_format, OF _ refl])
qed (use assms in \<open>simp_all add: s3_good_def s3_engine_def\<close>)

lemma gcs_goodD:
  assumes "gcs_good env"
  shows "gcs_wf (gcs_hist env q)"
    and "download_metadata env q = (r, q') \<Longrightarrow> prefix (gcs_hist env q) (gcs_hist env q')"
    and "download_metadata env q = (Inr g, q') \<Longrightarrow>
      \<exists>h. during (gcs_hist env q) h (gcs_hist env q') \<and> h \<noteq> [] \<and> fst (last h) = g"
    and "download env q = (r2, q2) \<Longrightarrow> prefix (gcs_hist env q) (gcs_hist env q2)"
    and "download env q = (Inr body, q2) \<Longrightarrow>
      \<exists>h. during (gcs_hist env q) h (gcs_hist env q2) \<and> h \<noteq> [] \<and> snd (last h) = body"
    and "upload env b v q = (r1, q1) \<Longrightarrow> prefix (gcs_hist env q) (gcs_hist env q1)"
    and "upload env b v q = (Inr g1, q1) \<Longrightarrow> applied_between (gcs_hist env q) b v (Some g1) (gcs_hist env q1)"
    and "gcs_retry_meta env att1 q = run_attempts MAX_STORE_ATTEMPTS gcs_is_transient att1 q"
    and "gcs_retry_get env att2 q = run_attempts MAX_STORE_ATTEMPTS gcs_is_transient att2 q"
    and "gcs_retry_put env att3 q = run_attempts MAX_STORE_ATTEMPTS gcs_is_transient att3 q"
proof -
  note S = assms [unfolded gcs_good_def gcs_service_def, THEN conjunct1]
  note M = S [THEN conjunct2, THEN conjunct1, rule_format]
  note D = S [THEN conjunct2, THEN conjunct2, THEN conjunct1, rule_format]
  note U = S [THEN conjunct2, THEN conjunct2, THEN conjunct2, rule_format]
  show "gcs_wf (gcs_hist env q)" by (rule S [THEN conjunct1, rule_format])
  show "download_metadata env q = (r, q') \<Longrightarrow> prefix (gcs_hist env q) (gcs_hist env q')"
    by (rule M [THEN conjunct1])
  show "download_metadata env q = (Inr g, q') \<Longrightarrow>
      \<exists>h. during (gcs_hist env q) h (gcs_hist env q') \<and> h \<noteq> [] \<and> fst (last h) = g"
    by (rule M [THEN conjunct2, rule_format, OF _ refl])
  show "download env q = (r2, q2) \<Longrightarrow> prefix (gcs_hist env q) (gcs_hist env q2)"
    by (rule D [THEN conjunct1])
  show "download env q = (Inr body, q2) \<Longrightarrow>
      \<exists>h. during (gcs_hist env q) h (gcs_hist env q2) \<and> h \<noteq> [] \<and> snd (last h) = body"
    by (rule D [THEN conjunct2, rule_format, OF _ refl])
  show "upload env b v q = (r1, q1) \<Longrightarrow> prefix (gcs_hist env q) (gcs_hist env q1)"
    by (rule U [THEN conjunct1])
  show "upload env b v q = (Inr g1, q1) \<Longrightarrow> applied_between (gcs_hist env q) b v (Some g1) (gcs_hist env q1)"
    by (rule U [THEN conjunct2, rule_format, OF _ refl])
qed (use assms in \<open>simp_all add: gcs_good_def gcs_engine_def\<close>)

interpretation s3put: conditional_put s3_good s3_hist s3_wf s3_do_put s3_is_transient
proof (unfold_locales, goal_cases)
  case (1 env q)
  then show ?case by (rule s3_goodD)
next
  case (2 b a)
  then show ?case by (rule s3_wf_prefix)
next
  case (4 env body v q r q')
  then show ?case
    using s3_goodD(4) [OF 4(1)] by (auto simp: s3_do_put_def split: prod.splits sum.splits if_splits)
next
  case (5 env body v q t q')
  then show ?case
    using s3_goodD(5) [OF 5(1)] by (auto simp: s3_do_put_def split: prod.splits sum.splits if_splits)
qed simp

interpretation gcsput: conditional_put gcs_good gcs_hist gcs_wf gcs_do_upload gcs_is_transient
proof (unfold_locales, goal_cases)
  case (1 env q)
  then show ?case by (rule gcs_goodD)
next
  case (2 b a)
  then show ?case by (rule gcs_wf_prefix)
next
  case (3 h)
  then show ?case by (rule gcs_wf_s3_wf)
next
  case (4 env body v q r q')
  then show ?case
    using gcs_goodD(6) [OF 4(1)] by (auto simp: gcs_do_upload_def split: prod.splits sum.splits if_splits)
next
  case (5 env body v q t q')
  then show ?case
    using gcs_goodD(7) [OF 5(1)] by (auto simp: gcs_do_upload_def split: prod.splits sum.splits if_splits)
qed

lemma s3_get_facts:
  assumes "s3_good env" "run_attempts n P (s3_do_get env) q = (r, q')"
  shows "prefix (s3_hist env q) (s3_hist env q')
    \<and> (\<forall>body t. r = Inr (Some (body, t)) \<longrightarrow>
        (\<exists>h. prefix h (s3_hist env q') \<and> h \<noteq> [] \<and> snd (last h) = body \<and> (\<forall>x. t = Some x \<longrightarrow> fst (last h) = x)))"
proof -
  have one: "prefix (s3_hist env p) (s3_hist env p')" if "s3_do_get env p = (r', p')" for p r' p'
    using that s3_goodD(2) [OF assms(1)]
    by (auto simp: s3_do_get_def split: prod.splits sum.splits if_splits)
  obtain p where p: "prefix (s3_hist env q) (s3_hist env q')" "s3_do_get env p = (r, q')"
    using run_attempts_inv [OF assms(2), of "\<lambda>x. prefix (s3_hist env q) (s3_hist env x)"] one
      prefix_order.trans by blast
  have "\<exists>h. prefix h (s3_hist env q') \<and> h \<noteq> [] \<and> snd (last h) = body \<and> (\<forall>x. t = Some x \<longrightarrow> fst (last h) = x)"
    if "r = Inr (Some (body, t))" for body t
  proof -
    have "get_object env p = (Inr (body, t), q')"
      using p(2) that by (auto simp: s3_do_get_def split: prod.splits sum.splits if_splits)
    from s3_goodD(3) [OF assms(1) this] show ?thesis unfolding during_def by blast
  qed
  with p(1) show ?thesis by blast
qed

lemma s3_ensure_law:
  assumes "s3_good env" "obj_safe s3_wf (s3_hist env q) s" "s3_ensure_loaded env (q, s) = (r, q', s')"
  shows "prefix (s3_hist env q) (s3_hist env q') \<and> obj_safe s3_wf (s3_hist env q') s'
    \<and> (\<forall>doc. r = Inr doc \<longrightarrow> obj_cache s' = Some doc)"
proof (cases "obj_cache s")
  case (Some doc)
  with assms show ?thesis by (auto simp: s3_ensure_loaded_def and_then_def get_state_def)
next
  case None
  obtain r1 p where run: "run_attempts MAX_STORE_ATTEMPTS s3_is_transient (s3_do_get env) q = (r1, p)"
    by (metis surj_pair)
  have req: "request (s3_retry_get env (s3_do_get env)) (q, s) = (r1, p, s)"
    using run s3_goodD(6) [OF assms(1)] by (simp add: request_def)
  note F = s3_get_facts [OF assms(1) run]
  consider (err) e where "r1 = Inl e" | (absent) "r1 = Inr None" | (got) body t where "r1 = Inr (Some (body, t))"
    by (cases r1) (auto, metis option.exhaust surj_pair)
  then show ?thesis
  proof cases
    case err
    with None req assms(3) F show ?thesis
      by (auto simp: s3_ensure_loaded_def and_then_def get_state_def obj_safe_def)
  next
    case absent
    with None req assms(3) F show ?thesis
      by (auto simp: s3_ensure_loaded_def and_then_def get_state_def obj_safe_def put_loaded_def ret_def)
  next
    case got
    then obtain h where h: "prefix h (s3_hist env p)" "h \<noteq> []" "snd (last h) = body"
      "\<forall>x. t = Some x \<longrightarrow> fst (last h) = x" using F by blast
    show ?thesis
    proof (cases body)
      case (BodyDoc doc)
      have "cas_safe s3_wf (s3_hist env p) t doc"
        by (rule cas_safe_version [OF _ h(1,2) _ h(4)]) (use h(3) BodyDoc in auto)
      with None got req assms(3) F BodyDoc show ?thesis
        by (auto simp: s3_ensure_loaded_def and_then_def get_state_def obj_safe_def put_loaded_def ret_def
            lift_result_def parse_body_def)
    qed (use None got req assms(3) F in
        \<open>auto simp: s3_ensure_loaded_def and_then_def get_state_def obj_safe_def lift_result_def parse_body_def\<close>)
  qed
qed

interpretation s3: object_checkpoint s3_good s3_hist s3_wf s3_do_put s3_is_transient s3_ensure_loaded s3_write
proof (unfold_locales, goal_cases)
  case (1 env q s r q' s')
  then show ?case by (rule s3_ensure_law)
next
  case (2 env new q s)
  then show ?case
    by (auto simp: s3_write_def and_then_def get_state_def request_def put_loaded_def s3_goodD(7)
        split: prod.splits sum.splits)
qed

text \<open>GCS reads the generation first and the body second, in two requests.\<close>

lemma gcs_meta_facts:
  assumes "gcs_good env" "run_attempts n P (gcs_do_download_metadata env) q = (r, q')"
  shows "prefix (gcs_hist env q) (gcs_hist env q')
    \<and> (\<forall>g. r = Inr (Some g) \<longrightarrow> (\<exists>h. prefix h (gcs_hist env q') \<and> h \<noteq> [] \<and> fst (last h) = g))"
proof -
  have one: "prefix (gcs_hist env p) (gcs_hist env p')" if "gcs_do_download_metadata env p = (r', p')" for p r' p'
    using that gcs_goodD(2) [OF assms(1)]
    by (auto simp: gcs_do_download_metadata_def split: prod.splits sum.splits if_splits)
  obtain p where p: "prefix (gcs_hist env q) (gcs_hist env q')" "gcs_do_download_metadata env p = (r, q')"
    using run_attempts_inv [OF assms(2), of "\<lambda>x. prefix (gcs_hist env q) (gcs_hist env x)"] one
      prefix_order.trans by blast
  have "\<exists>h. prefix h (gcs_hist env q') \<and> h \<noteq> [] \<and> fst (last h) = g" if "r = Inr (Some g)" for g
  proof -
    have "download_metadata env p = (Inr g, q')"
      using p(2) that by (auto simp: gcs_do_download_metadata_def split: prod.splits sum.splits if_splits)
    from gcs_goodD(3) [OF assms(1) this] show ?thesis unfolding during_def by blast
  qed
  with p(1) show ?thesis by blast
qed

lemma gcs_body_facts:
  assumes "gcs_good env" "run_attempts n P (download env) q = (r, q')"
  shows "prefix (gcs_hist env q) (gcs_hist env q')
    \<and> (\<forall>body. r = Inr body \<longrightarrow>
        (\<exists>h. prefix (gcs_hist env q) h \<and> prefix h (gcs_hist env q') \<and> h \<noteq> [] \<and> snd (last h) = body))"
proof -
  obtain p where p: "prefix (gcs_hist env q) (gcs_hist env q')" "prefix (gcs_hist env q) (gcs_hist env p)"
    "download env p = (r, q')"
    using run_attempts_inv [OF assms(2), of "\<lambda>x. prefix (gcs_hist env q) (gcs_hist env x)"]
      gcs_goodD(4) [OF assms(1)] prefix_order.trans by blast
  have "\<exists>h. prefix (gcs_hist env q) h \<and> prefix h (gcs_hist env q') \<and> h \<noteq> [] \<and> snd (last h) = body"
    if "r = Inr body" for body
    using gcs_goodD(5) [OF assms(1), of p body q'] p(2,3) that prefix_order.trans unfolding during_def by blast
  with p(1) show ?thesis by blast
qed

text \<open>A generation is never reused, so it identifies one moment of the history.\<close>

lemma distinct_tag_prefix:
  assumes "distinct (map fst h')" "prefix h h'" "h \<noteq> []" "fst (last h') = fst (last h)"
  shows "h' = h"
proof (rule ccontr)
  assume "h' \<noteq> h"
  with assms(2) obtain z where z: "h' = h @ z" "z \<noteq> []" by (auto simp: prefix_def)
  have "fst (last z) \<in> fst ` set z" using z(2) by simp
  moreover have "fst (last z) \<in> fst ` set h" using assms(3,4) z by simp
  ultimately show False using assms(1) z(1) by auto
qed

lemma gcs_ensure_law:
  assumes "gcs_good env" "obj_safe gcs_wf (gcs_hist env q) s" "gcs_ensure_loaded env (q, s) = (r, q', s')"
  shows "prefix (gcs_hist env q) (gcs_hist env q') \<and> obj_safe gcs_wf (gcs_hist env q') s'
    \<and> (\<forall>doc. r = Inr doc \<longrightarrow> obj_cache s' = Some doc)"
proof (cases "obj_cache s")
  case (Some doc)
  with assms show ?thesis by (auto simp: gcs_ensure_loaded_def and_then_def get_state_def)
next
  case None
  note eval = gcs_ensure_loaded_def and_then_def get_state_def obj_safe_def put_loaded_def ret_def
    put_version_def lift_result_def parse_body_def
  obtain r1 p where run: "run_attempts MAX_STORE_ATTEMPTS gcs_is_transient (gcs_do_download_metadata env) q = (r1, p)"
    by (metis surj_pair)
  have req: "request (gcs_retry_meta env (gcs_do_download_metadata env)) (q, s) = (r1, p, s)"
    using run gcs_goodD(8) [OF assms(1)] by (simp add: request_def)
  note F = gcs_meta_facts [OF assms(1) run]
  consider (err) e where "r1 = Inl e" | (absent) "r1 = Inr None" | (got) g where "r1 = Inr (Some g)"
    by (metis sum.exhaust option.exhaust)
  then show ?thesis
  proof cases
    case err
    with None req assms(3) F show ?thesis by (auto simp: eval)
  next
    case absent
    with None req assms(3) F show ?thesis by (auto simp: eval)
  next
    case got
    then obtain h where h: "prefix h (gcs_hist env p)" "h \<noteq> []" "fst (last h) = g" using F by blast
    obtain r2 p2 where run2: "run_attempts MAX_STORE_ATTEMPTS gcs_is_transient (download env) p = (r2, p2)"
      by (metis surj_pair)
    have req2: "request (gcs_retry_get env (download env)) (p, t) = (r2, p2, t)" for t :: "'b object_store"
      using run2 gcs_goodD(9) [OF assms(1)] by (simp add: request_def)
    note F2 = gcs_body_facts [OF assms(1) run2]
    have grows: "prefix (gcs_hist env q) (gcs_hist env p2)" using F F2 prefix_order.trans by blast
    show ?thesis
    proof (cases "\<exists>doc. r2 = Inr (BodyDoc doc)")
      case False
      with None got req req2 assms(3) grows show ?thesis
        by (cases r2) (auto simp: eval split: obj_body.splits)
    next
      case True
      then obtain doc where r2: "r2 = Inr (BodyDoc doc)" by blast
      then obtain h2 where h2: "prefix (gcs_hist env p) h2" "prefix h2 (gcs_hist env p2)" "h2 \<noteq> []"
        "snd (last h2) = BodyDoc doc" using F2 by blast
      have "cas_safe gcs_wf (gcs_hist env p2) (Some g) doc"
        unfolding cas_safe_def
      proof (intro allI impI)
        fix h'
        assume h': "prefix (gcs_hist env p2) h' \<and> gcs_wf h' \<and> pre_holds (Some g) h'"
        have hh2: "prefix h h2" using h(1) h2(1) by (rule prefix_order.trans)
        have h2h: "prefix h2 h'" using h2(2) h' prefix_order.trans by blast
        have "h' = h"
          using h' prefix_order.trans [OF hh2 h2h] h(2,3)
          by (intro distinct_tag_prefix) (auto simp: gcs_wf_def pre_holds_def)
        with hh2 h2h have "h' = h2" using prefix_order.antisym by blast
        then show "current h' = Some doc" using h2(3,4) by (simp add: current_def)
      qed
      with None got req req2 assms(3) grows r2 show ?thesis by (auto simp: eval)
    qed
  qed
qed

interpretation gcs: object_checkpoint gcs_good gcs_hist gcs_wf gcs_do_upload gcs_is_transient gcs_ensure_loaded gcs_write
proof (unfold_locales, goal_cases)
  case (1 env q s r q' s')
  then show ?case by (rule gcs_ensure_law)
next
  case (2 env new q s)
  then show ?case
    by (auto simp: gcs_write_def and_then_def get_state_def request_def put_loaded_def gcs_goodD(10)
        split: prod.splits sum.splits)
qed

subsection \<open>Any life of a store\<close>

text \<open>A store from its construction on, with other writers of the same object acting between
  its calls as well as during them.\<close>

inductive s3_reach :: "'o s3_env \<Rightarrow> 'o \<Rightarrow> 'w object_store \<Rightarrow> bool" for env :: "'o s3_env" where
  s3_start: "s3_reach env q new_object_store"
| s3_others: "s3_reach env q s \<Longrightarrow> prefix (s3_hist env q) (s3_hist env q') \<Longrightarrow> s3_reach env q' s"
| s3_fenced: "s3_reach env q s \<Longrightarrow> s3_reach env q (set_obj_fence f s)"
| s3_resets: "s3_reach env q s \<Longrightarrow> s3_reach env q (reset_object_store s)"
| s3_loads: "s3_reach env q s \<Longrightarrow> s3_load env k (q, s) = (r, q', s') \<Longrightarrow> s3_reach env q' s'"
| s3_commits: "s3_reach env q s \<Longrightarrow> s3_commit_many env w items (q, s) = (r', q', s') \<Longrightarrow> s3_reach env q' s'"
| s3_deletes: "s3_reach env q s \<Longrightarrow> s3_delete env w k (q, s) = (r', q', s') \<Longrightarrow> s3_reach env q' s'"

inductive gcs_reach :: "'o gcs_env \<Rightarrow> 'o \<Rightarrow> 'w object_store \<Rightarrow> bool" for env :: "'o gcs_env" where
  gcs_start: "gcs_reach env q new_object_store"
| gcs_others: "gcs_reach env q s \<Longrightarrow> prefix (gcs_hist env q) (gcs_hist env q') \<Longrightarrow> gcs_reach env q' s"
| gcs_fenced: "gcs_reach env q s \<Longrightarrow> gcs_reach env q (set_obj_fence f s)"
| gcs_resets: "gcs_reach env q s \<Longrightarrow> gcs_reach env q (reset_object_store s)"
| gcs_loads: "gcs_reach env q s \<Longrightarrow> gcs_load env k (q, s) = (r, q', s') \<Longrightarrow> gcs_reach env q' s'"
| gcs_commits: "gcs_reach env q s \<Longrightarrow> gcs_commit_many env w items (q, s) = (r', q', s') \<Longrightarrow> gcs_reach env q' s'"
| gcs_deletes: "gcs_reach env q s \<Longrightarrow> gcs_delete env w k (q, s) = (r', q', s') \<Longrightarrow> gcs_reach env q' s'"

lemma load_via_ensure:
  assumes "and_then m (\<lambda>doc. ret (map_of doc k)) x = (r, y)"
  shows "\<exists>r1. m x = (r1, y)"
proof -
  obtain r1 z where "m x = (r1, z)" by (metis surj_pair)
  with assms show ?thesis by (cases r1) (auto simp: and_then_def)
qed

lemma obj_safe_fresh [simp]:
  "obj_safe okh h new_object_store" "obj_safe okh h (reset_object_store s)"
  "obj_safe okh h (set_obj_fence f s) = obj_safe okh h s"
  by (simp_all add: obj_safe_def new_object_store_def reset_object_store_def set_obj_fence_def)

lemma s3_reach_safe:
  assumes "s3_reach env q s" "s3_good env"
  shows "obj_safe s3_wf (s3_hist env q) s"
  using assms(1)
proof (induction rule: s3_reach.induct)
  case (s3_others q s q')
  show ?case by (rule s3.safe_mono [OF s3_others.IH s3_others.hyps(2)])
next
  case (s3_loads q s k r q' s')
  then obtain r1 where "s3_ensure_loaded env (q, s) = (r1, q', s')"
    unfolding s3_load_def by (blast dest: load_via_ensure)
  from s3_ensure_law [OF assms(2) s3_loads.IH this] show ?case by (elim conjE)
next
  case (s3_commits q s w items r' q' s')
  show ?case
    by (rule s3.commit_law [OF assms(2) s3_commits.IH s3_commits.hyps(2) [unfolded s3_commit_many_def],
          THEN conjunct2, THEN conjunct1])
next
  case (s3_deletes q s w k r' q' s')
  show ?case
    by (rule s3.delete_law [OF assms(2) s3_deletes.IH s3_deletes.hyps(2) [unfolded s3_delete_def], THEN conjunct2])
qed simp_all

lemma gcs_reach_safe:
  assumes "gcs_reach env q s" "gcs_good env"
  shows "obj_safe gcs_wf (gcs_hist env q) s"
  using assms(1)
proof (induction rule: gcs_reach.induct)
  case (gcs_others q s q')
  show ?case by (rule gcs.safe_mono [OF gcs_others.IH gcs_others.hyps(2)])
next
  case (gcs_loads q s k r q' s')
  then obtain r1 where "gcs_ensure_loaded env (q, s) = (r1, q', s')"
    unfolding gcs_load_def by (blast dest: load_via_ensure)
  from gcs_ensure_law [OF assms(2) gcs_loads.IH this] show ?case by (elim conjE)
next
  case (gcs_commits q s w items r' q' s')
  show ?case
    by (rule gcs.commit_law [OF assms(2) gcs_commits.IH gcs_commits.hyps(2) [unfolded gcs_commit_many_def],
          THEN conjunct2, THEN conjunct1])
next
  case (gcs_deletes q s w k r' q' s')
  show ?case
    by (rule gcs.delete_law [OF assms(2) gcs_deletes.IH gcs_deletes.hyps(2) [unfolded gcs_delete_def], THEN conjunct2])
qed simp_all

text \<open>
  C3. No lost update on S3. In any life of a store, with any number of other writers of the
  same object and any failures and retries, a \<^verbatim>\<open>commit_many\<close> that returns put into the
  object's history the merge of its items into the very version that preceded it: nothing
  another writer stored before that moment is overwritten.
\<close>

theorem s3_no_lost_update:
  assumes "s3_good env" "s3_reach env q s" "s3_commit_many env w items (q, s) = (Inr (), q', s')"
  shows "\<exists>base h tag. prefix (s3_hist env q) h \<and> current h = Some base
    \<and> prefix (h @ [(tag, BodyDoc (dict_merge base items))]) (s3_hist env q')"
  using s3.commit_law [OF assms(1) s3_reach_safe [OF assms(2,1)] assms(3) [unfolded s3_commit_many_def]]
  by blast

text \<open>
  No lost update on GCS, although the generation and the body are read by two separate
  requests: a body newer than its generation makes the conditional upload fail instead of
  overwriting.
\<close>

theorem gcs_no_lost_update:
  assumes "gcs_good env" "gcs_reach env q s" "gcs_commit_many env w items (q, s) = (Inr (), q', s')"
  shows "\<exists>base h tag. prefix (gcs_hist env q) h \<and> current h = Some base
    \<and> prefix (h @ [(tag, BodyDoc (dict_merge base items))]) (gcs_hist env q')"
  using gcs.commit_law [OF assms(1) gcs_reach_safe [OF assms(2,1)] assms(3) [unfolded gcs_commit_many_def]]
  by blast

subsection \<open>A concrete service\<close>

text \<open>An object with its versions, each tagged by its index, and a script of acknowledgements
  to lose: \<open>True\<close> applies the write and answers 500.\<close>

type_synonym toy = "doc list \<times> bool list"

definition toy_hist :: "toy \<Rightarrow> version list" where
  "toy_hist q = zip (map show_nat [0..<length (fst q)]) (map BodyDoc (fst q))"

definition toy_put :: "obj_body \<Rightarrow> string option \<Rightarrow> (toy, store_exc, string) op" where
  "toy_put body v q =
     (if \<not> pre_holds v (toy_hist q) then (Inl (ServiceError (Some ''PreconditionFailed'') (Some 412)), q)
      else case body of
        BodyDoc d \<Rightarrow>
          (case snd q of
             True # fl \<Rightarrow> (Inl (ServiceError (Some ''InternalError'') (Some 500)), fst q @ [d], fl)
           | fl \<Rightarrow> (Inr (show_nat (length (fst q))), fst q @ [d], tl fl))
      | _ \<Rightarrow> (Inl OtherErr, q))"

definition toy_s3 :: "toy s3_env" where
  "toy_s3 =
     \<lparr>get_object = (\<lambda>q. (if fst q = [] then Inl (ServiceError (Some ''NoSuchKey'') (Some 404))
          else Inr (BodyDoc (last (fst q)), Some (show_nat (length (fst q) - 1))), q)),
      put_object = (\<lambda>body v. and_then (toy_put body v) (\<lambda>t. ret (Some t))),
      s3_retry_get = run_attempts MAX_STORE_ATTEMPTS s3_is_transient,
      s3_retry_put = run_attempts MAX_STORE_ATTEMPTS s3_is_transient,
      s3_hist = toy_hist\<rparr>"

definition toy_gcs :: "toy gcs_env" where
  "toy_gcs =
     \<lparr>download_metadata = (\<lambda>q. (if fst q = [] then Inl (ServiceError None (Some 404))
          else Inr (show_nat (length (fst q) - 1)), q)),
      download = (\<lambda>q. (if fst q = [] then Inl (ServiceError None (Some 404)) else Inr (BodyDoc (last (fst q))), q)),
      upload = toy_put,
      gcs_retry_meta = run_attempts MAX_STORE_ATTEMPTS gcs_is_transient,
      gcs_retry_get = run_attempts MAX_STORE_ATTEMPTS gcs_is_transient,
      gcs_retry_put = run_attempts MAX_STORE_ATTEMPTS gcs_is_transient,
      gcs_hist = toy_hist\<rparr>"

lemma toy_hist_snoc:
  "toy_hist (ds @ [d], fl) = toy_hist (ds, fl') @ [(show_nat (length ds), BodyDoc d)]"
  by (simp add: toy_hist_def)

lemma toy_hist_last: "ds \<noteq> [] \<Longrightarrow>
  toy_hist (ds, fl) \<noteq> [] \<and> last (toy_hist (ds, fl)) = (show_nat (length ds - 1), BodyDoc (last ds))"
  by (cases ds rule: rev_cases) (use toy_hist_snoc [of _ _ fl fl] in auto)

lemma toy_hist_wf: "gcs_wf (toy_hist q)"
  by (auto simp: gcs_wf_def toy_hist_def distinct_map inj_on_def)

lemma toy_put_spec:
  assumes "toy_put body v q = (r, q')"
  shows "prefix (toy_hist q) (toy_hist q')"
    and "\<forall>t. r = Inr t \<longrightarrow> applied_between (toy_hist q) body v (Some t) (toy_hist q')"
proof -
  obtain ds fl where q: "q = (ds, fl)" by (cases q)
  have snoc: "toy_hist (ds @ [d], fl') = toy_hist (ds, fl) @ [(show_nat (length ds), BodyDoc d)]" for d fl'
    by (rule toy_hist_snoc)
  show "prefix (toy_hist q) (toy_hist q')"
    using assms q snoc
    by (auto simp: toy_put_def split: if_splits obj_body.splits list.splits bool.splits)
  show "\<forall>t. r = Inr t \<longrightarrow> applied_between (toy_hist q) body v (Some t) (toy_hist q')"
    using assms q snoc unfolding applied_between_def
    by (auto simp: toy_put_def split: if_splits obj_body.splits list.splits bool.splits)
qed

lemma toy_s3_good: "s3_good toy_s3"
proof -
  have "\<exists>h. during (toy_hist q) h (toy_hist q) \<and> h \<noteq> [] \<and> snd (last h) = BodyDoc (last (fst q))
      \<and> fst (last h) = show_nat (length (fst q) - 1)" if "fst q \<noteq> []" for q
    using toy_hist_last [OF that, of "snd q"] by (intro exI [of _ "toy_hist q"]) (auto simp: during_def)
  then show ?thesis
    unfolding s3_good_def s3_service_def s3_engine_def toy_s3_def
    using toy_put_spec
    by (auto simp: gcs_wf_s3_wf [OF toy_hist_wf] and_then_def ret_def split: if_splits sum.splits prod.splits)
qed

lemma toy_gcs_good: "gcs_good toy_gcs"
proof -
  have "\<exists>h. during (toy_hist q) h (toy_hist q) \<and> h \<noteq> [] \<and> snd (last h) = BodyDoc (last (fst q))
      \<and> fst (last h) = show_nat (length (fst q) - 1)" if "fst q \<noteq> []" for q
    using toy_hist_last [OF that, of "snd q"] by (intro exI [of _ "toy_hist q"]) (auto simp: during_def)
  then show ?thesis
    unfolding gcs_good_def gcs_service_def gcs_engine_def toy_gcs_def
    using toy_put_spec toy_hist_wf
    by (fastforce split: if_splits)
qed

lemmas toy_eval = s3_commit_many_def gcs_commit_many_def s3_ensure_loaded_def gcs_ensure_loaded_def s3_write_def
  gcs_write_def and_then_def get_state_def ret_def check_obj_fence_def request_def put_loaded_def put_version_def
  toy_s3_def toy_gcs_def toy_put_def s3_do_get_def s3_do_put_def gcs_do_download_metadata_def gcs_do_upload_def
  new_object_store_def code_in_def NOT_FOUND_CODES_def PRECONDITION_FAILED_CODES_def TRANSIENT_CODES_def
  server_side_def s3_is_transient_def gcs_is_transient_def pre_holds_def toy_hist_def MAX_STORE_ATTEMPTS_def
  numeral_eq_Suc

lemma toy_s3_first:
  "s3_commit_many toy_s3 () [(''k'', ''v'')] (([], []), new_object_store) =
     (Inr (), ([[(''k'', ''v'')]], []),
      \<lparr>obj_cache = Some [(''k'', ''v'')], obj_version = Some (show_nat 0), obj_fence = None\<rparr>)"
  by (simp add: toy_eval)

lemma toy_gcs_first:
  "gcs_commit_many toy_gcs () [(''k'', ''v'')] (([], []), new_object_store) =
     (Inr (), ([[(''k'', ''v'')]], []),
      \<lparr>obj_cache = Some [(''k'', ''v'')], obj_version = Some (show_nat 0), obj_fence = None\<rparr>)"
  by (simp add: toy_eval)

theorem s3_no_lost_update_witness:
  "\<exists>base h tag. prefix [] h \<and> current h = Some base
     \<and> prefix (h @ [(tag, BodyDoc (dict_merge base [(''k'', ''v'')]))]) (toy_hist ([[(''k'', ''v'')]], []))"
  using s3_no_lost_update [OF toy_s3_good s3_start toy_s3_first] by (simp add: toy_s3_def toy_hist_def)

theorem gcs_no_lost_update_witness:
  "\<exists>base h tag. prefix [] h \<and> current h = Some base
     \<and> prefix (h @ [(tag, BodyDoc (dict_merge base [(''k'', ''v'')]))]) (toy_hist ([[(''k'', ''v'')]], []))"
  using gcs_no_lost_update [OF toy_gcs_good gcs_start toy_gcs_first] by (simp add: toy_gcs_def toy_hist_def)

text \<open>
  A lost acknowledgement is reported as another writer. On a service with no other writer
  whose first PUT is applied but answered with a 500, the retry of that PUT fails its own
  precondition: \<^verbatim>\<open>commit_many\<close> raises \<^verbatim>\<open>StateStoreConflictError\<close> although the
  object's only version is the one it wrote, and the same commit on the same store keeps
  raising it.
\<close>

theorem s3_lost_ack_is_conflict:
  "\<exists>st. s3_commit_many toy_s3 () [(''k'', ''v'')] (([], [True]), new_object_store) =
      (Inl StateStoreConflictError, ([[(''k'', ''v'')]], []), st)
    \<and> s3_commit_many toy_s3 () [(''k'', ''v'')] (([[(''k'', ''v'')]], []), st) =
      (Inl StateStoreConflictError, ([[(''k'', ''v'')]], []), st)"
  by (simp add: toy_eval)

end
