(* ===== verification/Coordinator.thy ===== *)
theory Coordinator
  imports Prelude
begin

section \<open>The coordinator seam (coordinate/base.py)\<close>

text \<open>
  \<^verbatim>\<open>src/sf2loki/coordinate/base.py\<close> declares the seam the application runs under: a
  coordinator calls \<^verbatim>\<open>on_acquire\<close> when it becomes leader and \<^verbatim>\<open>on_lose\<close> when it
  stops leading. Each coordinator of the model is a step function over its own state; one step
  is what the code runs between two awaits, so everything another replica does lies between
  steps. The locale \<open>coordinator_loop\<close> is the contract of such a step function; its lemmas
  give the alternation of the two callbacks and are used through the interpretations on the
  file lease, the Kubernetes lease and the single-instance coordinator.
\<close>

datatype callback = OnAcquire | OnLose

text \<open>\<^verbatim>\<open>on_acquire\<close> and \<^verbatim>\<open>on_lose\<close> take turns, beginning with \<open>c\<close>.\<close>

fun alternates :: "callback \<Rightarrow> callback list \<Rightarrow> bool" where
  "alternates c [] = True"
| "alternates c (x # xs) = (x = c \<and> alternates (if c = OnAcquire then OnLose else OnAcquire) xs)"

definition turn_after :: "callback list \<Rightarrow> callback" where
  "turn_after cs = (if even (length cs) then OnAcquire else OnLose)"

lemma alternates_snoc:
  "alternates OnAcquire (cs @ [x]) \<longleftrightarrow> alternates OnAcquire cs \<and> x = turn_after cs"
  "alternates OnLose (cs @ [x]) \<longleftrightarrow> alternates OnLose cs \<and> x \<noteq> turn_after cs"
proof (induction cs)
  case Nil
  { case 1 show ?case by (simp add: turn_after_def) }
  { case 2 show ?case by (cases x) (simp_all add: turn_after_def) }
next
  case (Cons a cs)
  { case 1 show ?case using Cons by (cases x) (auto simp: turn_after_def) }
  { case 2 show ?case using Cons by (cases x) (auto simp: turn_after_def) }
qed

text \<open>A run: the state after each step of a schedule and the callbacks made so far.\<close>

fun run_steps :: "('e \<Rightarrow> 's \<Rightarrow> 's \<times> callback list) \<Rightarrow> 'e list \<Rightarrow> 's \<Rightarrow> 's \<times> callback list" where
  "run_steps step [] s = (s, [])"
| "run_steps step (e # es) s =
     (case step e s of (s1, cs) \<Rightarrow> (case run_steps step es s1 of (s2, cs') \<Rightarrow> (s2, cs @ cs')))"

lemma run_steps_append:
  "run_steps step (es @ fs) s =
     (case run_steps step es s of (s1, cs) \<Rightarrow>
       (case run_steps step fs s1 of (s2, cs') \<Rightarrow> (s2, cs @ cs')))"
  by (induction es arbitrary: s) (auto split: prod.split)

text \<open>
  \<open>led s\<close>: between the two callbacks. \<open>ended s\<close>: \<^verbatim>\<open>run\<close> has returned or raised. A step
  out of leadership calls \<^verbatim>\<open>on_lose\<close>, unless \<^verbatim>\<open>on_acquire\<close> itself raised, which ends the run.
\<close>

locale coordinator_loop =
  fixes step :: "'e \<Rightarrow> 's \<Rightarrow> 's \<times> callback list"
    and led :: "'s \<Rightarrow> bool" and ended :: "'s \<Rightarrow> bool"
  assumes enter: "\<not> led s \<Longrightarrow> step e s = (s', cs) \<Longrightarrow> cs = (if led s' then [OnAcquire] else [])"
    and leave: "led s \<Longrightarrow> step e s = (s', cs) \<Longrightarrow>
      (if led s' then cs = [] else cs = [OnLose] \<or> (cs = [] \<and> ended s'))"
    and ended_final: "ended s \<Longrightarrow> step e s = (s, [])"
    and ended_not_led: "ended s \<Longrightarrow> \<not> led s"
begin

lemma run_steps_ended: "ended s \<Longrightarrow> run_steps step es s = (s, [])"
  by (induction es) (auto simp: ended_final)

lemma callbacks_alternate:
  assumes "run_steps step es s = (s', cs)" "\<not> led s"
  shows "alternates OnAcquire cs \<and> (led s' \<longrightarrow> turn_after cs = OnLose)
    \<and> (\<not> led s' \<and> \<not> ended s' \<longrightarrow> turn_after cs = OnAcquire)"
  using assms
proof (induction es arbitrary: s' cs rule: rev_induct)
  case Nil
  then show ?case by (simp add: turn_after_def)
next
  case (snoc e es)
  obtain s1 cs1 where one: "run_steps step es s = (s1, cs1)" by fastforce
  obtain s2 cs2 where two: "step e s1 = (s2, cs2)" by fastforce
  from snoc(2) one two have eq: "s' = s2" "cs = cs1 @ cs2" by (auto simp: run_steps_append)
  note IH = snoc(1) [OF one snoc(3)]
  show ?case
  proof (cases "ended s1")
    case True
    then show ?thesis using two eq IH ended_final ended_not_led by auto
  next
    case False
    show ?thesis
    proof (cases "led s1")
      case True
      from leave [OF True two] consider "led s2" "cs2 = []" | "\<not> led s2" "cs2 = [OnLose]"
        | "\<not> led s2" "cs2 = []" "ended s2" by (auto split: if_splits)
      then show ?thesis using IH True eq
        by cases (auto simp: alternates_snoc turn_after_def split: if_splits)
    next
      case nl: False
      then show ?thesis using enter [OF nl two] IH False eq
        by (auto simp: alternates_snoc turn_after_def split: if_splits)
    qed
  qed
qed

end

subsection \<open>The single-instance coordinator\<close>

datatype noop_phase = NoopStart | NoopAcquired | NoopLeading | NoopEnded

record noop_wake =
  noop_stop :: bool
  noop_cb :: bool

definition noop_step :: "noop_wake \<Rightarrow> noop_phase \<Rightarrow> noop_phase \<times> callback list" where
  "noop_step w p =
     (case p of
        NoopStart \<Rightarrow> (NoopAcquired, [OnAcquire])
      | NoopAcquired \<Rightarrow> (if noop_cb w then NoopLeading else NoopEnded, [])
      | NoopLeading \<Rightarrow> (if noop_stop w then NoopEnded else NoopLeading, [])
      | NoopEnded \<Rightarrow> (NoopEnded, []))"

interpretation noop: coordinator_loop noop_step
  "\<lambda>p. p = NoopAcquired \<or> p = NoopLeading" "\<lambda>p. p = NoopEnded"
  by unfold_locales (auto simp: noop_step_def split: noop_phase.splits if_splits)

end
