(* ===== verification/FileLease.thy ===== *)
theory FileLease
  imports FileStore Coordinator
begin

section \<open>coordinate/file_lease.py: leader election on a shared file\<close>

text \<open>
  \<^verbatim>\<open>src/sf2loki/coordinate/file_lease.py\<close>. The lease file is a \<open>lease_file\<close>: missing,
  unreadable (an \<^verbatim>\<open>OSError\<close>), not JSON, not an object, or an object with its fields.
  \<^verbatim>\<open>isoformat\<close> and \<^verbatim>\<open>fromisoformat\<close> are the parameters \<open>isofmt\<close> and
  \<open>fromiso\<close>. A coordinator is the record \<open>lease_coord\<close>; each turn of the acquire loop and
  of the hold loop is cut at its awaits, so that what other replicas do to the file during a
  pause lies between two steps: \<open>acquire_poll\<close> (read, decide, write), \<open>acquire_verify\<close>
  (the confirming read), \<open>hold_poll\<close> (read before renewing, renew) and \<open>hold_verify\<close>
  (the second read of a contested renewal, renew).

  Results: what is written is read back; a live lease of another holder is never contested; as
  long as each replica's read and write are not interleaved with another's and the file stays
  readable, no two leaders have the same epoch and the file's epoch never decreases, which is
  what the epoch fence of the file store needs. Three results show what happens otherwise:
  an interleaved claim gives two leaders one epoch, two read errors in a row let a deposed
  leader overwrite its successor's lease, and a deleted lease restarts the epochs below the
  one stored with the checkpoints.
\<close>

subsection \<open>The lease and its file\<close>

record lease =
  lease_holder :: string
  expires_at :: datetime
  lease_epoch :: int

definition expired :: "datetime \<Rightarrow> lease \<Rightarrow> bool" where
  "expired now l \<longleftrightarrow> now \<ge> expires_at l"

datatype jval = JStr string | JInt int | JBool bool | JOther

datatype lease_file =
    LFMissing
  | LFBadUtf8
  | LFNotJson
  | LFNotObject
  | LFDoc "(string, jval) dict"

text \<open>\<open>LeaseReadError\<close> is \<^verbatim>\<open>_LeaseReadError\<close>, an \<^verbatim>\<open>OSError\<close> while reading (\<open>ok\<close> is
  false). Bytes that are not UTF-8 make \<^verbatim>\<open>read_text\<close> raise, outside the
  \<^verbatim>\<open>try\<close> that handles the decoding errors. A JSON boolean is an \<^verbatim>\<open>int\<close> in Python.\<close>

datatype lease_exn = LeaseReadError | UnicodeDecodeError

definition parse_lease :: "(string \<Rightarrow> datetime option) \<Rightarrow> (string, jval) dict \<Rightarrow> lease option" where
  "parse_lease fromiso d =
     (case (map_of d ''holder'', map_of d ''expires_at'') of
        (Some (JStr h), Some (JStr x)) \<Rightarrow>
          (case fromiso x of
             None \<Rightarrow> None
           | Some t \<Rightarrow>
               Some \<lparr>lease_holder = h, expires_at = t,
                 lease_epoch = (case map_of d ''epoch'' of
                    Some (JInt i) \<Rightarrow> i | Some (JBool b) \<Rightarrow> of_bool b | _ \<Rightarrow> 0)\<rparr>)
      | _ \<Rightarrow> None)"

definition read_lease :: "(string \<Rightarrow> datetime option) \<Rightarrow> bool \<Rightarrow> lease_file \<Rightarrow> lease_exn + lease option" where
  "read_lease fromiso ok f =
     (if \<not> ok then Inl LeaseReadError
      else case f of
        LFMissing \<Rightarrow> Inr None
      | LFBadUtf8 \<Rightarrow> Inl UnicodeDecodeError
      | LFNotJson \<Rightarrow> Inr None
      | LFNotObject \<Rightarrow> Inr None
      | LFDoc d \<Rightarrow> Inr (parse_lease fromiso d))"

text \<open>
  Where \<^verbatim>\<open>run\<close> stands: before a poll of the standby loop, in the pause after a contested
  write, in \<^verbatim>\<open>on_acquire\<close>, in the pause of the hold loop (with the time of the last
  successful renewal), in the pause of a contested renewal, in \<^verbatim>\<open>on_lose\<close> (with whether an
  exception is in flight), or over (with whether it raised).
\<close>

datatype phase =
    Polling
  | Verifying
  | Acquired
  | Holding datetime
  | Contested datetime
  | Losing bool
  | Finished bool

record lease_coord =
  co_holder :: string
  co_ttl :: int
  co_renew :: seconds
  co_is_leader :: bool
  co_epoch :: int
  co_phase :: phase

definition VERIFY_FRACTION :: rat where "VERIFY_FRACTION = 1 / 10"
definition VERIFY_MIN :: rat where "VERIFY_MIN = 1 / 20"
definition VERIFY_MAX :: rat where "VERIFY_MAX = 1"

definition new_lease_coord :: "string \<Rightarrow> int \<Rightarrow> seconds \<Rightarrow> lease_coord" where
  "new_lease_coord holder ttl renew =
     \<lparr>co_holder = holder, co_ttl = ttl, co_renew = renew, co_is_leader = False, co_epoch = 0,
      co_phase = Polling\<rparr>"

definition verify_delay :: "lease_coord \<Rightarrow> seconds" where
  "verify_delay c = min VERIFY_MAX (max VERIFY_MIN (co_renew c * VERIFY_FRACTION))"

text \<open>\<^verbatim>\<open>check_fence\<close> as the file store's fence: \<open>False\<close> is \<^verbatim>\<open>StateFenceError\<close>.\<close>

definition lease_fence :: "lease_coord \<Rightarrow> bool" where
  "lease_fence c \<longleftrightarrow> co_is_leader c"

text \<open>An \<^verbatim>\<open>OSError\<close> before the rename leaves the file (\<open>WriteFails\<close>); one from the
  directory sync after it does not (\<open>DirSyncFails\<close>).\<close>

definition write_lease ::
  "(datetime \<Rightarrow> string) \<Rightarrow> write_io \<Rightarrow> datetime \<Rightarrow> int \<Rightarrow> lease_coord \<Rightarrow> lease_file \<Rightarrow> bool \<times> lease_file" where
  "write_lease isofmt io now epoch c f =
     (io = WriteOk,
      if io = WriteFails then f
      else LFDoc [(''holder'', JStr (co_holder c)), (''expires_at'', JStr (isofmt (now + co_ttl c))),
                  (''epoch'', JInt epoch)])"

subsection \<open>Standby\<close>

text \<open>What one wake-up of the code finds: whether \<^verbatim>\<open>stop\<close> is set, the wall clock, the fate of
  its read and of its write, and whether the callback it waited for returned.\<close>

record lease_wake =
  w_stop :: bool
  w_now :: datetime
  w_read :: bool
  w_write :: write_io
  w_cb :: bool

datatype acquire_next = PollAgain | VerifyNext | AcquireRaises

text \<open>The epoch a contested lease is taken over with; \<open>None\<close> when it is not contested.\<close>

definition claim_epoch :: "datetime \<Rightarrow> lease option \<Rightarrow> int option" where
  "claim_epoch now lo =
     (case lo of
        None \<Rightarrow> Some 1
      | Some l \<Rightarrow> if expired now l then Some (lease_epoch l + 1) else None)"

text \<open>One poll of \<^verbatim>\<open>_acquire\<close>. \<open>seen\<close> is the file when it is read and \<open>f\<close> the file when it
  is written: no await lies between, but other hosts are not held up by that.\<close>

definition acquire_poll ::
  "(datetime \<Rightarrow> string) \<Rightarrow> (string \<Rightarrow> datetime option) \<Rightarrow> lease_wake \<Rightarrow> lease_file \<Rightarrow> lease_coord \<Rightarrow> lease_file
     \<Rightarrow> acquire_next \<times> lease_file" where
  "acquire_poll isofmt fromiso w seen c f =
     (case read_lease fromiso (w_read w) seen of
        Inl LeaseReadError \<Rightarrow> (PollAgain, f)
      | Inl UnicodeDecodeError \<Rightarrow> (AcquireRaises, f)
      | Inr lo \<Rightarrow>
          (case claim_epoch (w_now w) lo of
             None \<Rightarrow> (PollAgain, f)
           | Some e \<Rightarrow>
               (case write_lease isofmt (w_write w) (w_now w) e c f of
                  (True, f1) \<Rightarrow> (VerifyNext, f1)
                | (False, f1) \<Rightarrow> (PollAgain, f1))))"

text \<open>The confirming read: \<open>Inr (Some l)\<close> when the lease \<open>l\<close> is ours and live.\<close>

definition acquire_verify ::
  "(string \<Rightarrow> datetime option) \<Rightarrow> lease_wake \<Rightarrow> lease_coord \<Rightarrow> lease_file \<Rightarrow> lease_exn + lease option" where
  "acquire_verify fromiso w c f =
     (case read_lease fromiso (w_read w) f of
        Inl LeaseReadError \<Rightarrow> Inr None
      | Inl UnicodeDecodeError \<Rightarrow> Inl UnicodeDecodeError
      | Inr None \<Rightarrow> Inr None
      | Inr (Some l) \<Rightarrow>
          Inr (if lease_holder l = co_holder c \<and> \<not> expired (w_now w) l then Some l else None))"

subsection \<open>Leading\<close>

datatype hold_next = HoldAgain datetime | HoldVerify | Surrender | HoldRaises

text \<open>The renewal that ends a turn of \<^verbatim>\<open>_hold\<close>: \<open>last_ok\<close> is the time of the last success.\<close>

definition renew_lease ::
  "(datetime \<Rightarrow> string) \<Rightarrow> lease_wake \<Rightarrow> datetime \<Rightarrow> lease_coord \<Rightarrow> lease_file \<Rightarrow> hold_next \<times> lease_file" where
  "renew_lease isofmt w last_ok c f =
     (case write_lease isofmt (w_write w) (w_now w) (co_epoch c) c f of
        (True, f1) \<Rightarrow> (HoldAgain (w_now w), f1)
      | (False, f1) \<Rightarrow> (if w_now w - last_ok \<ge> co_ttl c then Surrender else HoldAgain last_ok, f1))"

text \<open>A turn of \<^verbatim>\<open>_hold\<close>, in the same way with the file it reads and the file it writes.\<close>

definition hold_poll ::
  "(datetime \<Rightarrow> string) \<Rightarrow> (string \<Rightarrow> datetime option) \<Rightarrow> lease_wake \<Rightarrow> datetime \<Rightarrow> lease_file \<Rightarrow> lease_coord \<Rightarrow> lease_file
     \<Rightarrow> hold_next \<times> lease_file" where
  "hold_poll isofmt fromiso w last_ok seen c f =
     (case read_lease fromiso (w_read w) seen of
        Inl LeaseReadError \<Rightarrow> (HoldVerify, f)
      | Inl UnicodeDecodeError \<Rightarrow> (HoldRaises, f)
      | Inr None \<Rightarrow> (HoldVerify, f)
      | Inr (Some l) \<Rightarrow>
          if lease_holder l \<noteq> co_holder c then (Surrender, f)
          else renew_lease isofmt w last_ok c f)"

definition hold_verify ::
  "(datetime \<Rightarrow> string) \<Rightarrow> (string \<Rightarrow> datetime option) \<Rightarrow> lease_wake \<Rightarrow> datetime \<Rightarrow> lease_file \<Rightarrow> lease_coord \<Rightarrow> lease_file
     \<Rightarrow> hold_next \<times> lease_file" where
  "hold_verify isofmt fromiso w last_ok seen c f =
     (case read_lease fromiso (w_read w) seen of
        Inl LeaseReadError \<Rightarrow> renew_lease isofmt w last_ok c f
      | Inl UnicodeDecodeError \<Rightarrow> (HoldRaises, f)
      | Inr None \<Rightarrow> renew_lease isofmt w last_ok c f
      | Inr (Some l) \<Rightarrow>
          if lease_holder l \<noteq> co_holder c then (Surrender, f)
          else renew_lease isofmt w last_ok c f)"

subsection \<open>The run loop\<close>

definition finish :: "bool \<Rightarrow> lease_coord \<Rightarrow> lease_coord" where
  "finish raised c = c\<lparr>co_is_leader := False, co_phase := Finished raised\<rparr>"

text \<open>\<^verbatim>\<open>_hold\<close> has returned or raised: the \<^verbatim>\<open>finally\<close> clears the flag, then calls \<^verbatim>\<open>on_lose\<close>.\<close>

definition surrender :: "bool \<Rightarrow> lease_coord \<Rightarrow> lease_coord" where
  "surrender raised c = c\<lparr>co_is_leader := False, co_phase := Losing raised\<rparr>"

definition hold_step :: "datetime \<Rightarrow> hold_next \<Rightarrow> lease_coord \<Rightarrow> lease_coord \<times> callback list" where
  "hold_step last_ok h c =
     (case h of
        HoldAgain t \<Rightarrow> (c\<lparr>co_phase := Holding t\<rparr>, [])
      | HoldVerify \<Rightarrow> (c\<lparr>co_phase := Contested last_ok\<rparr>, [])
      | Surrender \<Rightarrow> (surrender False c, [OnLose])
      | HoldRaises \<Rightarrow> (surrender True c, [OnLose]))"

definition coord_step ::
  "(datetime \<Rightarrow> string) \<Rightarrow> (string \<Rightarrow> datetime option) \<Rightarrow> lease_wake \<times> lease_file
     \<Rightarrow> lease_coord \<times> lease_file \<Rightarrow> (lease_coord \<times> lease_file) \<times> callback list" where
  "coord_step isofmt fromiso ws cf =
     (case (ws, cf) of ((w, seen), (c, f)) \<Rightarrow>
        (case co_phase c of
           Polling \<Rightarrow>
             if w_stop w then ((finish False c, f), [])
             else (case acquire_poll isofmt fromiso w seen c f of
                     (PollAgain, f1) \<Rightarrow> ((c, f1), [])
                   | (VerifyNext, f1) \<Rightarrow> ((c\<lparr>co_phase := Verifying\<rparr>, f1), [])
                   | (AcquireRaises, f1) \<Rightarrow> ((finish True c, f1), []))
         | Verifying \<Rightarrow>
             if w_stop w then ((finish False c, f), [])
             else (case acquire_verify fromiso w c f of
                     Inl _ \<Rightarrow> ((finish True c, f), [])
                   | Inr None \<Rightarrow> ((c\<lparr>co_phase := Polling\<rparr>, f), [])
                   | Inr (Some l) \<Rightarrow>
                       ((c\<lparr>co_epoch := lease_epoch l, co_is_leader := True, co_phase := Acquired\<rparr>, f), [OnAcquire]))
         | Acquired \<Rightarrow>
             if w_cb w then ((c\<lparr>co_phase := Holding (w_now w)\<rparr>, f), []) else ((finish True c, f), [])
         | Holding t \<Rightarrow>
             if w_stop w then ((surrender False c, f), [OnLose])
             else (case hold_poll isofmt fromiso w t seen c f of
                     (h, f1) \<Rightarrow> (case hold_step t h c of (c1, cs) \<Rightarrow> ((c1, f1), cs)))
         | Contested t \<Rightarrow>
             if w_stop w then ((surrender False c, f), [OnLose])
             else (case hold_verify isofmt fromiso w t seen c f of
                     (h, f1) \<Rightarrow> (case hold_step t h c of (c1, cs) \<Rightarrow> ((c1, f1), cs)))
         | Losing raised \<Rightarrow>
             if raised \<or> \<not> w_cb w then ((finish True c, f), [])
             else ((c\<lparr>co_phase := Polling\<rparr>, f), [])
         | Finished _ \<Rightarrow> ((c, f), [])))"

fun leading_phase :: "phase \<Rightarrow> bool" where
  "leading_phase Acquired = True"
| "leading_phase (Holding t) = True"
| "leading_phase (Contested t) = True"
| "leading_phase p = False"

abbreviation leading :: "lease_coord \<Rightarrow> bool" where
  "leading c \<equiv> leading_phase (co_phase c)"

fun ended_phase :: "phase \<Rightarrow> bool" where
  "ended_phase (Finished r) = True"
| "ended_phase p = False"

abbreviation ended :: "lease_coord \<Rightarrow> bool" where
  "ended c \<equiv> ended_phase (co_phase c)"

lemma coord_step_cases:
  assumes "coord_step isofmt fromiso (w, seen) (c, f) = ((c', f'), cs)"
  obtains (stop_standby) "co_phase c = Polling \<or> co_phase c = Verifying" "w_stop w" "c' = finish False c" "f' = f" "cs = []"
  | (poll) n where "co_phase c = Polling" "acquire_poll isofmt fromiso w seen c f = (n, f')" "cs = []"
      "c' = (case n of PollAgain \<Rightarrow> c | VerifyNext \<Rightarrow> c\<lparr>co_phase := Verifying\<rparr> | AcquireRaises \<Rightarrow> finish True c)"
  | (lost) r where "co_phase c = Verifying" "acquire_verify fromiso w c f = r" "r = Inr None \<or> (\<exists>e. r = Inl e)"
      "c' = c\<lparr>co_phase := Polling\<rparr> \<or> c' = finish True c" "f' = f" "cs = []"
  | (won) l where "co_phase c = Verifying" "acquire_verify fromiso w c f = Inr (Some l)"
      "c' = c\<lparr>co_epoch := lease_epoch l, co_is_leader := True, co_phase := Acquired\<rparr>" "f' = f" "cs = [OnAcquire]"
  | (acquired) "co_phase c = Acquired" "c' = c\<lparr>co_phase := Holding (w_now w)\<rparr> \<or> c' = finish True c" "f' = f" "cs = []"
  | (stop_hold) "leading c" "w_stop w" "c' = surrender False c" "f' = f" "cs = [OnLose]"
  | (hold) t h where "co_phase c = Holding t" "hold_poll isofmt fromiso w t seen c f = (h, f')" "hold_step t h c = (c', cs)"
  | (contested) t h where "co_phase c = Contested t" "hold_verify isofmt fromiso w t seen c f = (h, f')" "hold_step t h c = (c', cs)"
  | (losing) r where "co_phase c = Losing r" "c' = c\<lparr>co_phase := Polling\<rparr> \<or> c' = finish True c" "f' = f" "cs = []"
  | (over) r where "co_phase c = Finished r" "c' = c" "f' = f" "cs = []"
proof (cases "co_phase c")
  case Polling
  show ?thesis
  proof (cases "w_stop w")
    case True
    with Polling assms show ?thesis by (intro that(1)) (auto simp: coord_step_def)
  next
    case False
    obtain n f1 where n: "acquire_poll isofmt fromiso w seen c f = (n, f1)" by fastforce
    with Polling False assms show ?thesis
      by (intro that(2) [of n]) (auto simp: coord_step_def split: acquire_next.splits)
  qed
next
  case Verifying
  show ?thesis
  proof (cases "w_stop w")
    case True
    with Verifying assms show ?thesis by (intro that(1)) (auto simp: coord_step_def)
  next
    case False
    show ?thesis
    proof (cases "\<exists>l. acquire_verify fromiso w c f = Inr (Some l)")
      case True
      then obtain l where "acquire_verify fromiso w c f = Inr (Some l)" by blast
      with Verifying False assms show ?thesis by (intro that(4) [of l]) (auto simp: coord_step_def)
    next
      case lost: False
      with Verifying False assms show ?thesis
        by (intro that(3)) (auto simp: coord_step_def split: sum.splits option.splits)
    qed
  qed
next
  case (Holding t)
  with assms that(6) that(7) show ?thesis
    by (auto simp: coord_step_def split: if_splits prod.splits)
next
  case (Contested t)
  with assms that(6) that(8) show ?thesis
    by (auto simp: coord_step_def split: if_splits prod.splits)
next
  case Acquired
  with assms show ?thesis by (intro that(5)) (auto simp: coord_step_def split: if_splits)
next
  case (Losing r)
  with assms show ?thesis by (intro that(9)) (auto simp: coord_step_def split: if_splits)
next
  case (Finished r)
  with assms show ?thesis by (intro that(10)) (auto simp: coord_step_def)
qed

lemma co_phase_leaving [simp]:
  "co_phase (finish r c) = Finished r" "co_phase (surrender r c) = Losing r"
  by (simp_all add: finish_def surrender_def)

lemma leading_not_ended: "leading_phase p \<Longrightarrow> \<not> ended_phase p"
  by (cases p) simp_all

lemma hold_step_shape:
  "hold_step t h c = (c', cs) \<Longrightarrow>
     (leading c' \<and> cs = [] \<and> (\<exists>p. c' = c\<lparr>co_phase := p\<rparr>)) \<or>
     (\<not> leading c' \<and> cs = [OnLose] \<and> (\<exists>r. c' = surrender r c))"
  by (cases h) (auto simp: hold_step_def)

lemma coord_step_shape:
  assumes "coord_step isofmt fromiso e (c, f) = ((c', f'), cs)"
  shows "(if leading c then (if leading c' then cs = [] else cs = [OnLose] \<or> (cs = [] \<and> ended c'))
          else cs = (if leading c' then [OnAcquire] else []))
       \<and> (ended c \<longrightarrow> c' = c \<and> f' = f \<and> cs = [])"
proof -
  obtain w seen where e: "e = (w, seen)" by (cases e)
  from assms [unfolded e] show ?thesis
  proof (cases rule: coord_step_cases)
    case (poll n)
    then show ?thesis by (cases n) simp_all
  next
    case (hold t h)
    then show ?thesis using hold_step_shape [OF hold(3)] by auto
  next
    case (contested t h)
    then show ?thesis using hold_step_shape [OF contested(3)] by auto
  qed (auto dest: leading_not_ended)
qed

interpretation flease: coordinator_loop "coord_step isofmt fromiso"
  "\<lambda>cf. leading (fst cf)" "\<lambda>cf. ended (fst cf)" for isofmt fromiso
proof unfold_locales
  fix s s' :: "lease_coord \<times> lease_file" and e cs
  obtain c f c' f' where cf: "s = (c, f)" "s' = (c', f')" by (cases s, cases s')
  note shape = coord_step_shape [of isofmt fromiso e c f c' f' cs]
  show "\<not> leading (fst s) \<Longrightarrow> coord_step isofmt fromiso e s = (s', cs) \<Longrightarrow>
      cs = (if leading (fst s') then [OnAcquire] else [])"
    using shape cf by simp
  show "leading (fst s) \<Longrightarrow> coord_step isofmt fromiso e s = (s', cs) \<Longrightarrow>
      (if leading (fst s') then cs = [] else cs = [OnLose] \<or> (cs = [] \<and> ended (fst s')))"
    using shape cf by simp
next
  fix s :: "lease_coord \<times> lease_file" and e
  show "ended (fst s) \<Longrightarrow> coord_step isofmt fromiso e s = (s, [])"
    using coord_step_shape [of isofmt fromiso e "fst s" "snd s"] by (metis prod.exhaust prod.sel)
  show "ended (fst s) \<Longrightarrow> \<not> leading (fst s)" using leading_not_ended by blast
qed

text \<open>The flag the checkpoint fence reads says exactly whether the run stands between the callbacks.\<close>

definition flag_ok :: "lease_coord \<Rightarrow> bool" where
  "flag_ok c \<longleftrightarrow> co_is_leader c = leading c"

lemma flag_ok_step:
  assumes "coord_step isofmt fromiso e (c, f) = ((c', f'), cs)" "flag_ok c"
  shows "flag_ok c'"
proof -
  obtain w seen where e: "e = (w, seen)" by (cases e)
  have hold: "flag_ok c'" if "hold_step t h c = (c', cs)" "leading c" for t h
    using hold_step_shape [OF that(1)] that(2) assms(2) by (auto simp: flag_ok_def surrender_def)
  from assms(1) [unfolded e] show ?thesis
  proof (cases rule: coord_step_cases)
    case (poll n)
    then show ?thesis using assms(2) by (cases n) (simp_all add: flag_ok_def finish_def)
  qed (use assms(2) hold in \<open>auto simp: flag_ok_def finish_def surrender_def\<close>)
qed

lemma flag_ok_run:
  "run_steps (coord_step isofmt fromiso) es (c, f) = ((c', f'), cs) \<Longrightarrow> flag_ok c \<Longrightarrow> flag_ok c'"
proof (induction es arbitrary: c f cs)
  case (Cons e es)
  obtain c1 f1 cs1 where "coord_step isofmt fromiso e (c, f) = ((c1, f1), cs1)"
    by (metis prod.exhaust)
  moreover obtain s2 cs2 where "run_steps (coord_step isofmt fromiso) es (c1, f1) = (s2, cs2)"
    by (metis prod.exhaust)
  ultimately have "run_steps (coord_step isofmt fromiso) es (c1, f1) = ((c', f'), cs2)" "flag_ok c1"
    using Cons(2,3) flag_ok_step by auto
  then show ?case by (rule Cons(1))
qed simp

subsection \<open>What a read finds after a write\<close>

lemma parse_written [simp]:
  assumes "\<And>t. fromiso (isofmt t) = Some t"
  shows "parse_lease fromiso [(''holder'', JStr h), (''expires_at'', JStr (isofmt t)), (''epoch'', JInt e)]
    = Some \<lparr>lease_holder = h, expires_at = t, lease_epoch = e\<rparr>"
  using assms by (simp add: parse_lease_def)

text \<open>The lease a file carries.\<close>

definition lease_in :: "(string \<Rightarrow> datetime option) \<Rightarrow> lease_file \<Rightarrow> lease option" where
  "lease_in fromiso f = (case f of LFDoc d \<Rightarrow> parse_lease fromiso d | _ \<Rightarrow> None)"

lemma lease_in_written:
  assumes "\<And>t. fromiso (isofmt t) = Some t" "write_lease isofmt io now e c f = (ok, f')"
  shows "lease_in fromiso f' = (if io = WriteFails then lease_in fromiso f
     else Some \<lparr>lease_holder = co_holder c, expires_at = now + co_ttl c, lease_epoch = e\<rparr>)"
  using assms by (auto simp: write_lease_def lease_in_def)

lemma read_lease_in:
  "f = LFMissing \<or> (\<exists>l. lease_in fromiso f = Some l) \<Longrightarrow>
   read_lease fromiso ok f = (if ok then Inr (lease_in fromiso f) else Inl LeaseReadError)"
  by (auto simp: read_lease_def lease_in_def split: lease_file.splits)

subsection \<open>Several replicas on one lease file\<close>

text \<open>
  A system of replicas: any replica takes a step at any time, with any clock, any fate of its read
  and of its write and any answer of its callbacks. What it reads before a write is any file
  \<open>seen\<close>: other replicas may write between the two. The file is changed by the replicas only.
\<close>

type_synonym lease_state = "(nat \<Rightarrow> lease_coord) \<times> lease_file"
type_synonym lease_event = "nat \<times> lease_wake \<times> lease_file"

inductive lease_sys ::
  "(datetime \<Rightarrow> string) \<Rightarrow> (string \<Rightarrow> datetime option) \<Rightarrow> lease_event \<Rightarrow> lease_state \<Rightarrow> lease_state \<Rightarrow> bool"
  for isofmt fromiso where
  replica_step:
    "coord_step isofmt fromiso (w, seen) (rs i, f) = ((c', f'), cbs) \<Longrightarrow>
     lease_sys isofmt fromiso (i, w, seen) (rs, f) (rs(i := c'), f')"

inductive_cases lease_sysE: "lease_sys isofmt fromiso e (rs, f) (rs', f')"

definition any_sys ::
  "(datetime \<Rightarrow> string) \<Rightarrow> (string \<Rightarrow> datetime option) \<Rightarrow> lease_state \<Rightarrow> lease_state \<Rightarrow> bool" where
  "any_sys isofmt fromiso s s' \<longleftrightarrow> (\<exists>e. lease_sys isofmt fromiso e s s')"

text \<open>
  The two conditions on a step that the epochs rest on: what the step read is still in the file
  when it writes, and the verifying read of a contested renewal does not fail. Without the first
  two leaders can have one epoch, without the second a deposed leader can overwrite the lease of
  its successor (the last section of this theory).
\<close>

fun orderly :: "lease_event \<Rightarrow> lease_state \<Rightarrow> bool" where
  "orderly (i, w, seen) (rs, f) \<longleftrightarrow> seen = f \<and> (w_read w \<or> (\<forall>t. co_phase (rs i) \<noteq> Contested t))"

definition orderly_sys ::
  "(datetime \<Rightarrow> string) \<Rightarrow> (string \<Rightarrow> datetime option) \<Rightarrow> lease_state \<Rightarrow> lease_state \<Rightarrow> bool" where
  "orderly_sys isofmt fromiso s s' \<longleftrightarrow> (\<exists>e. lease_sys isofmt fromiso e s s' \<and> orderly e s)"

definition lease_start :: "(string \<Rightarrow> datetime option) \<Rightarrow> (nat \<Rightarrow> lease_coord) \<times> lease_file \<Rightarrow> bool" where
  "lease_start fromiso s \<longleftrightarrow>
     inj (\<lambda>i. co_holder (fst s i)) \<and> (\<forall>i. \<not> leading (fst s i)) \<and>
     (snd s = LFMissing \<or> lease_in fromiso (snd s) \<noteq> None)"

text \<open>How a leader stands to the lease in the file.\<close>

definition behind :: "lease_coord \<Rightarrow> lease \<Rightarrow> bool" where
  "behind c l \<longleftrightarrow> co_epoch c \<le> lease_epoch l \<and> (co_epoch c = lease_epoch l \<longleftrightarrow> lease_holder l = co_holder c)"

definition lease_inv :: "(string \<Rightarrow> datetime option) \<Rightarrow> (nat \<Rightarrow> lease_coord) \<times> lease_file \<Rightarrow> bool" where
  "lease_inv fromiso s \<longleftrightarrow>
     inj (\<lambda>i. co_holder (fst s i)) \<and>
     (case lease_in fromiso (snd s) of
        None \<Rightarrow> snd s = LFMissing \<and> (\<forall>i. \<not> leading (fst s i))
      | Some l \<Rightarrow> \<forall>i. leading (fst s i) \<longrightarrow> behind (fst s i) l) \<and>
     (\<forall>i j. i \<noteq> j \<longrightarrow> leading (fst s i) \<longrightarrow> leading (fst s j) \<longrightarrow> co_epoch (fst s i) \<noteq> co_epoch (fst s j))"

lemma lease_inv_start: "lease_start fromiso s \<Longrightarrow> lease_inv fromiso s"
  by (auto simp: lease_start_def lease_inv_def lease_in_def split: option.splits)

lemma lease_inv_read:
  "lease_inv fromiso (rs, f) \<Longrightarrow>
   read_lease fromiso ok f = (if ok then Inr (lease_in fromiso f) else Inl LeaseReadError)"
  using read_lease_in [of f fromiso ok] by (auto simp: lease_inv_def split: option.splits)

lemma coord_step_holder:
  assumes "coord_step isofmt fromiso (w, seen) (c, f) = ((c', f'), cs)"
  shows "co_holder c' = co_holder c"
  using assms
proof (cases rule: coord_step_cases)
  case (poll n)
  then show ?thesis by (cases n) (simp_all add: finish_def)
next
  case (hold t h)
  then show ?thesis using hold_step_shape [OF hold(3)] by (auto simp: surrender_def)
next
  case (contested t h)
  then show ?thesis using hold_step_shape [OF contested(3)] by (auto simp: surrender_def)
qed (auto simp: finish_def surrender_def)

lemma lease_invD:
  assumes "lease_inv fromiso (rs, f)"
  shows "inj (\<lambda>i. co_holder (rs i))"
    and "leading (rs i) \<Longrightarrow> \<exists>l. lease_in fromiso f = Some l \<and> behind (rs i) l"
    and "i \<noteq> j \<Longrightarrow> leading (rs i) \<Longrightarrow> leading (rs j) \<Longrightarrow> co_epoch (rs i) \<noteq> co_epoch (rs j)"
    and "i \<noteq> j \<Longrightarrow> co_holder (rs i) \<noteq> co_holder (rs j)"
  using assms by (auto simp: lease_inv_def inj_def split: option.splits)

lemma holders_upd: "co_holder c' = co_holder (rs i) \<Longrightarrow> (\<lambda>j. co_holder ((rs(i := c')) j)) = (\<lambda>j. co_holder (rs j))"
  by (rule ext) simp

lemma lease_inv_upd:
  assumes inv: "lease_inv fromiso (rs, f)" and h: "co_holder c' = co_holder (rs i)"
    and f': "lease_in fromiso f' = Some l'"
    and others: "\<And>j. j \<noteq> i \<Longrightarrow> leading (rs j) \<Longrightarrow> behind (rs j) l'"
    and mine: "leading c' \<Longrightarrow> behind c' l'"
    and apart: "\<And>j. j \<noteq> i \<Longrightarrow> leading (rs j) \<Longrightarrow> leading c' \<Longrightarrow> co_epoch (rs j) \<noteq> co_epoch c'"
  shows "lease_inv fromiso (rs(i := c'), f')"
proof -
  have "inj (\<lambda>j. co_holder ((rs(i := c')) j))"
    using lease_invD(1) [OF inv] by (simp only: holders_upd [of c' rs i, OF h])
  moreover have "behind ((rs(i := c')) j) l'" if "leading ((rs(i := c')) j)" for j
    using that others mine by (cases "j = i") simp_all
  moreover have "co_epoch ((rs(i := c')) j) \<noteq> co_epoch ((rs(i := c')) k)"
    if "j \<noteq> k" "leading ((rs(i := c')) j)" "leading ((rs(i := c')) k)" for j k
    using that apart [of j] apart [of k] lease_invD(3) [OF inv, of j k]
    by (cases "j = i"; cases "k = i") auto
  ultimately show ?thesis using f' by (simp add: lease_inv_def)
qed

text \<open>The four ways a step touches the invariant: the file stays and no leader is new; a standby
  confirms its lease; a standby writes a lease with the next epoch; a leader rewrites its own.\<close>

lemma lease_inv_same_file:
  assumes inv: "lease_inv fromiso (rs, f)" and h: "co_holder c' = co_holder (rs i)"
    and l: "leading c' \<Longrightarrow> leading (rs i) \<and> co_epoch c' = co_epoch (rs i)"
  shows "lease_inv fromiso (rs(i := c'), f)"
proof (cases "lease_in fromiso f")
  case None
  have "\<not> leading (rs j)" for j using lease_invD(2) [OF inv, of j] None by auto
  moreover have "f = LFMissing" using inv None by (simp add: lease_inv_def)
  moreover have "\<not> leading ((rs(i := c')) j)" for j using l calculation(1) by (cases "j = i") auto
  ultimately show ?thesis
    using None lease_invD(1) [OF inv] by (simp add: lease_inv_def holders_upd [of c' rs i, OF h] del: fun_upd_apply)
next
  case (Some l')
  have b: "behind (rs j) l'" if "leading (rs j)" for j using lease_invD(2) [OF inv that] Some by auto
  show ?thesis
  proof (rule lease_inv_upd [OF inv h Some])
    show "behind c' l'" if "leading c'" using b [of i] l [OF that] h by (simp add: behind_def)
    show "co_epoch (rs j) \<noteq> co_epoch c'" if "j \<noteq> i" "leading (rs j)" "leading c'" for j
      using lease_invD(3) [OF inv that(1,2)] l [OF that(3)] by simp
  qed (rule b)
qed

lemma lease_inv_won:
  assumes inv: "lease_inv fromiso (rs, f)" and l: "lease_in fromiso f = Some l" "lease_holder l = co_holder (rs i)"
    and c': "co_holder c' = co_holder (rs i)" "co_epoch c' = lease_epoch l"
  shows "lease_inv fromiso (rs(i := c'), f)"
proof (rule lease_inv_upd [OF inv c'(1) l(1)])
  show b: "behind (rs j) l" if "leading (rs j)" for j using lease_invD(2) [OF inv that] l(1) by auto
  show "behind c' l" using c' l by (simp add: behind_def)
  show "co_epoch (rs j) \<noteq> co_epoch c'" if "j \<noteq> i" "leading (rs j)" for j
    using b [OF that(2)] lease_invD(4) [OF inv that(1)] l(2) c'(2) by (auto simp: behind_def)
qed

lemma lease_inv_claim:
  assumes inv: "lease_inv fromiso (rs, f)" and nl: "\<not> leading c'" "co_holder c' = co_holder (rs i)"
    and f': "lease_in fromiso f' = Some l'" "lease_holder l' = co_holder (rs i)"
    and e: "\<And>l. lease_in fromiso f = Some l \<Longrightarrow> lease_epoch l < lease_epoch l'"
  shows "lease_inv fromiso (rs(i := c'), f')"
proof (rule lease_inv_upd [OF inv nl(2) f'(1)])
  show "behind (rs j) l'" if j: "j \<noteq> i" "leading (rs j)" for j
  proof -
    obtain l where l: "lease_in fromiso f = Some l" "behind (rs j) l"
      using lease_invD(2) [OF inv j(2)] by blast
    then show ?thesis using e [OF l(1)] f'(2) lease_invD(4) [OF inv j(1)] by (auto simp: behind_def)
  qed
qed (use nl(1) in simp_all)

lemma lease_inv_renew:
  assumes inv: "lease_inv fromiso (rs, f)" and l: "lease_in fromiso f = Some l" "lease_holder l = co_holder (rs i)"
    and i: "leading (rs i)" "co_holder c' = co_holder (rs i)" "co_epoch c' = co_epoch (rs i)"
    and f': "lease_in fromiso f' = Some l'" "lease_holder l' = co_holder (rs i)" "lease_epoch l' = co_epoch (rs i)"
  shows "lease_inv fromiso (rs(i := c'), f')"
proof (rule lease_inv_upd [OF inv i(2) f'(1)])
  have b: "behind (rs j) l" if "leading (rs j)" for j using lease_invD(2) [OF inv that] l(1) by auto
  have eq: "lease_epoch l' = lease_epoch l" using b [OF i(1)] l(2) f'(3) by (simp add: behind_def)
  show "behind (rs j) l'" if "leading (rs j)" for j
    using b [OF that] eq l(2) f'(2) by (simp add: behind_def)
  show "behind c' l'" using i f' by (simp add: behind_def)
  show "co_epoch (rs j) \<noteq> co_epoch c'" if "j \<noteq> i" "leading (rs j)" for j
    using lease_invD(3) [OF inv that i(1)] i(3) by simp
qed

definition epoch_kept :: "(string \<Rightarrow> datetime option) \<Rightarrow> lease_file \<Rightarrow> lease_file \<Rightarrow> bool" where
  "epoch_kept fromiso f f' \<longleftrightarrow>
     (\<forall>l. lease_in fromiso f = Some l \<longrightarrow> (\<exists>l'. lease_in fromiso f' = Some l' \<and> lease_epoch l \<le> lease_epoch l'))"

lemma epoch_kept_refl [simp]: "epoch_kept fromiso f f"
  by (simp add: epoch_kept_def)

lemma epoch_kept_trans: "epoch_kept fromiso f g \<Longrightarrow> epoch_kept fromiso g h \<Longrightarrow> epoch_kept fromiso f h"
  unfolding epoch_kept_def by (meson order_trans)

lemma hold_turn_inv:
  assumes iso: "\<And>t. fromiso (isofmt t) = Some t" and inv: "lease_inv fromiso (rs, f)"
    and ld: "leading (rs i)" and c': "co_holder c' = co_holder (rs i)" "co_epoch c' = co_epoch (rs i)"
    and res: "hold_poll isofmt fromiso w t f (rs i) f = (n, f') \<or>
      (w_read w \<and> hold_verify isofmt fromiso w t f (rs i) f = (n, f'))"
  shows "lease_inv fromiso (rs(i := c'), f') \<and> epoch_kept fromiso f f'"
proof (cases "f' = f")
  case True
  then show ?thesis using lease_inv_same_file [OF inv c'(1)] ld c'(2) by simp
next
  case False
  note rd = lease_inv_read [OF inv]
  obtain l where l: "lease_in fromiso f = Some l" "behind (rs i) l" using lease_invD(2) [OF inv ld] by blast
  have w: "w_read w" using False res rd [of False] by (cases "w_read w") (auto simp: hold_poll_def)
  then have mine: "lease_holder l = co_holder (rs i)" and rn: "renew_lease isofmt w t (rs i) f = (n, f')"
    using res False rd [of True] l(1) by (auto simp: hold_poll_def hold_verify_def split: if_splits)
  then obtain b where wr: "write_lease isofmt (w_write w) (w_now w) (co_epoch (rs i)) (rs i) f = (b, f')"
    by (auto simp: renew_lease_def split: prod.splits bool.splits)
  have l': "lease_in fromiso f' = Some \<lparr>lease_holder = co_holder (rs i), expires_at = w_now w + co_ttl (rs i),
      lease_epoch = co_epoch (rs i)\<rparr>"
    using lease_in_written [of fromiso isofmt, OF iso wr] False wr by (auto simp: write_lease_def split: if_splits)
  have "lease_epoch l = co_epoch (rs i)" using l(2) mine by (simp add: behind_def)
  then show ?thesis using lease_inv_renew [OF inv l(1) mine ld c' l'] l l' by (simp add: epoch_kept_def)
qed

lemma acquire_poll_inv:
  assumes iso: "\<And>t. fromiso (isofmt t) = Some t" and inv: "lease_inv fromiso (rs, f)"
    and c': "co_holder c' = co_holder (rs i)" "\<not> leading c'"
    and res: "acquire_poll isofmt fromiso w f (rs i) f = (n, f')"
  shows "lease_inv fromiso (rs(i := c'), f') \<and> epoch_kept fromiso f f'"
proof (cases "f' = f")
  case True
  then show ?thesis using lease_inv_same_file [OF inv c'(1)] c'(2) by simp
next
  case False
  note rd = lease_inv_read [OF inv]
  have w: "w_read w" using False res rd [of False] by (cases "w_read w") (auto simp: acquire_poll_def)
  then obtain e where e: "claim_epoch (w_now w) (lease_in fromiso f) = Some e"
    using res False rd [of True] by (cases "claim_epoch (w_now w) (lease_in fromiso f)") (auto simp: acquire_poll_def)
  obtain b where wr: "write_lease isofmt (w_write w) (w_now w) e (rs i) f = (b, f')"
    using res w e rd [of True] by (auto simp: acquire_poll_def split: prod.splits bool.splits)
  have l': "lease_in fromiso f' = Some \<lparr>lease_holder = co_holder (rs i), expires_at = w_now w + co_ttl (rs i), lease_epoch = e\<rparr>"
    using lease_in_written [of fromiso isofmt, OF iso wr] False wr by (auto simp: write_lease_def split: if_splits)
  have up: "lease_epoch l < e" if "lease_in fromiso f = Some l" for l
    using e that by (auto simp: claim_epoch_def split: if_splits)
  show ?thesis
    using lease_inv_claim [OF inv c'(2,1) l'] up l' by (fastforce simp: less_imp_le epoch_kept_def)
qed

lemma lease_inv_step:
  assumes iso: "\<And>t. fromiso (isofmt t) = Some t"
    and step: "orderly_sys isofmt fromiso (rs, f) (rs', f')" and inv: "lease_inv fromiso (rs, f)"
  shows "lease_inv fromiso (rs', f') \<and> epoch_kept fromiso f f'"
proof -
  from step obtain w i c' cbs where st: "coord_step isofmt fromiso (w, f) (rs i, f) = ((c', f'), cbs)"
    and ok: "w_read w \<or> (\<forall>t. co_phase (rs i) \<noteq> Contested t)" and rs': "rs' = rs(i := c')"
    by (auto simp: orderly_sys_def elim!: lease_sysE)
  note h = coord_step_holder [OF st]
  have same: ?thesis if "f' = f" "leading c' \<Longrightarrow> leading (rs i) \<and> co_epoch c' = co_epoch (rs i)"
    using lease_inv_same_file [OF inv h that(2)] that(1) rs' by auto
  have turn: ?thesis if "hold_step t n (rs i) = (c', cbs)" "leading (rs i)"
    "hold_poll isofmt fromiso w t f (rs i) f = (n, f') \<or> (w_read w \<and> hold_verify isofmt fromiso w t f (rs i) f = (n, f'))" for t n
    using hold_turn_inv [of fromiso isofmt, OF iso inv that(2) h _ that(3)] hold_step_shape [OF that(1)] rs'
    by (auto simp: surrender_def)
  from st show ?thesis
  proof (cases rule: coord_step_cases)
    case (poll n)
    then have "\<not> leading c'" by (cases n) simp_all
    from acquire_poll_inv [of fromiso isofmt, OF iso inv h this poll(2)] show ?thesis using rs' by simp
  next
    case (won l)
    then have "lease_in fromiso f = Some l" "lease_holder l = co_holder (rs i)"
      using lease_inv_read [OF inv, of "w_read w"]
      by (auto simp: acquire_verify_def split: if_splits sum.splits option.splits lease_exn.splits)
    from lease_inv_won [OF inv this h] show ?thesis using won rs' by auto
  next
    case (hold t n)
    then show ?thesis by (intro turn [of t n]) auto
  next
    case (contested t n)
    then show ?thesis using ok by (intro turn [of t n]) auto
  qed (use same in \<open>auto simp: finish_def surrender_def\<close>)
qed

lemma lease_inv_reach:
  assumes iso: "\<And>t. fromiso (isofmt t) = Some t"
    and "(orderly_sys isofmt fromiso)\<^sup>*\<^sup>* s s'" "lease_inv fromiso s"
  shows "lease_inv fromiso s' \<and> epoch_kept fromiso (snd s) (snd s')"
  using assms(2,3)
proof (induction rule: rtranclp_induct)
  case (step s1 s2)
  then show ?case
    using lease_inv_step [of fromiso isofmt "fst s1" "snd s1" "fst s2" "snd s2", OF iso] epoch_kept_trans
    by auto
qed simp

subsection \<open>Schedules\<close>

text \<open>A concrete run: in turn, replica \<open>i\<close> wakes and finds \<open>w\<close>.\<close>

fun sys_run ::
  "(datetime \<Rightarrow> string) \<Rightarrow> (string \<Rightarrow> datetime option) \<Rightarrow> (nat \<times> lease_wake) list
     \<Rightarrow> (nat \<Rightarrow> lease_coord) \<times> lease_file \<Rightarrow> (nat \<Rightarrow> lease_coord) \<times> lease_file" where
  "sys_run isofmt fromiso [] s = s"
| "sys_run isofmt fromiso ((i, w) # es) (rs, f) =
     (case fst (coord_step isofmt fromiso (w, f) (rs i, f)) of (c', f') \<Rightarrow>
        sys_run isofmt fromiso es (rs(i := c'), f'))"

lemma sys_run_reach:
  "list_all (\<lambda>(i, w). w_read w) es \<Longrightarrow> (orderly_sys isofmt fromiso)\<^sup>*\<^sup>* s (sys_run isofmt fromiso es s)"
proof (induction isofmt fromiso es s rule: sys_run.induct)
  case (2 isofmt fromiso i w es rs f)
  obtain c' f' cbs where st: "coord_step isofmt fromiso (w, f) (rs i, f) = ((c', f'), cbs)"
    by (metis prod.exhaust)
  have "orderly_sys isofmt fromiso (rs, f) (rs(i := c'), f')"
    using replica_step [of isofmt fromiso w f rs i, OF st] "2.prems" unfolding orderly_sys_def by force
  moreover have "(orderly_sys isofmt fromiso)\<^sup>*\<^sup>* (rs(i := c'), f') (sys_run isofmt fromiso es (rs(i := c'), f'))"
    using "2.IH" [of c' f'] st "2.prems" by simp
  ultimately show ?case using st by (simp add: converse_rtranclp_into_rtranclp)
qed simp

definition wake_at :: "datetime \<Rightarrow> lease_wake" where
  "wake_at t = \<lparr>w_stop = False, w_now = t, w_read = True, w_write = WriteOk, w_cb = True\<rparr>"

definition replica :: "nat \<Rightarrow> lease_coord" where
  "replica i = new_lease_coord (replicate i CHR ''r'') 30 10"

text \<open>Replica 0 leads, sleeps past the expiry, and replica 1 takes over.\<close>

definition takeover_schedule :: "(nat \<times> lease_wake) list" where
  "takeover_schedule = [(0, wake_at 0), (0, wake_at 1), (0, wake_at 1), (1, wake_at 50), (1, wake_at 51)]"

lemmas lease_eval = new_lease_coord_def replica_def wake_at_def coord_step_def acquire_poll_def acquire_verify_def
  hold_poll_def hold_verify_def hold_step_def renew_lease_def read_lease_def write_lease_def claim_epoch_def
  expired_def finish_def surrender_def lease_in_def

lemma lease_start_replicas [simp]: "lease_start fromiso (replica, LFMissing)"
  by (auto simp: lease_start_def replica_def new_lease_coord_def inj_def)

lemma takeover_run:
  assumes "sys_run show_int py_int takeover_schedule (replica, LFMissing) = (rs, f)"
  shows "leading (rs 0) \<and> leading (rs 1) \<and> co_epoch (rs 0) = 1 \<and> co_epoch (rs 1) = 2 \<and>
    co_holder (rs 0) = co_holder (replica 0) \<and> co_holder (rs 1) = co_holder (replica 1) \<and>
    lease_in py_int f = Some \<lparr>lease_holder = co_holder (replica 1), expires_at = 80, lease_epoch = 2\<rparr>"
  using assms by (auto simp: takeover_schedule_def lease_eval numeral_eq_Suc)

subsection \<open>Leaders and epochs\<close>

text \<open>
  C5. However the replicas' polls, renewals, pauses, clock readings, write errors and callbacks
  interleave, as long as no other replica writes between a step's read and its write and no
  verifying read of a contested renewal fails (\<open>orderly\<close>), starting from no lease or a readable
  one and with no leader: no two instances that take themselves for leader have the same epoch; a
  leader's epoch is at most the lease's, and equal to it exactly when the lease names that leader;
  and the lease's epoch never decreases.
\<close>

theorem lease_epochs_fence:
  assumes iso: "\<And>t. fromiso (isofmt t) = Some t" and start: "lease_start fromiso s"
    and run: "(orderly_sys isofmt fromiso)\<^sup>*\<^sup>* s (rs, f)"
  shows "(\<forall>i j. i \<noteq> j \<longrightarrow> leading (rs i) \<longrightarrow> leading (rs j) \<longrightarrow> co_epoch (rs i) \<noteq> co_epoch (rs j))
    \<and> (\<forall>i. leading (rs i) \<longrightarrow> (\<exists>l. lease_in fromiso f = Some l \<and> co_epoch (rs i) \<le> lease_epoch l
            \<and> (co_epoch (rs i) = lease_epoch l \<longleftrightarrow> lease_holder l = co_holder (rs i))))
    \<and> epoch_kept fromiso (snd s) f"
proof -
  have inv: "lease_inv fromiso (rs, f)" and up: "epoch_kept fromiso (snd s) f"
    using lease_inv_reach [of fromiso isofmt, OF iso run lease_inv_start [OF start]] by simp_all
  then show ?thesis using lease_invD(2,3) [OF inv] unfolding behind_def by blast
qed

theorem lease_epochs_fence_witness:
  "\<exists>rs f. (orderly_sys show_int py_int)\<^sup>*\<^sup>* (replica, LFMissing) (rs, f) \<and> leading (rs 0) \<and> leading (rs 1)
     \<and> co_epoch (rs 0) \<noteq> co_epoch (rs 1)"
proof -
  obtain rs f where eq: "sys_run show_int py_int takeover_schedule (replica, LFMissing) = (rs, f)" by fastforce
  have run: "(orderly_sys show_int py_int)\<^sup>*\<^sup>* (replica, LFMissing) (rs, f)"
    using sys_run_reach [of takeover_schedule show_int py_int "(replica, LFMissing)"] eq
    by (simp add: takeover_schedule_def wake_at_def)
  note ld = takeover_run [OF eq]
  have "co_epoch (rs 0) \<noteq> co_epoch (rs 1)"
    using lease_epochs_fence [of py_int show_int, OF py_int_show_int lease_start_replicas run] ld by simp
  with run ld show ?thesis by blast
qed

text \<open>The checkpoint store of a replica, with the fence and the epoch of its coordinator.\<close>

definition fenced_store :: "nat \<Rightarrow> lease_coord file_store" where
  "fenced_store i = set_epoch (\<lambda>c. Some (co_epoch c)) (set_fence lease_fence (new_file_store i False))"

text \<open>
  C20. Lease and store together, again as long as no other replica writes between a step's read
  and its write and no verifying read of a contested renewal fails: once the holder of the lease
  has stamped its epoch on the checkpoints, every other instance that still takes itself for
  leader, such as one that slept through its expiry, has its commits refused with nothing written.
\<close>

theorem deposed_leader_cannot_commit:
  assumes iso: "\<And>t. fromiso (isofmt t) = Some t" and start: "lease_start fromiso s"
    and run: "(orderly_sys isofmt fromiso)\<^sup>*\<^sup>* s (rs, f)"
    and holder: "lease_in fromiso f = Some l" "lease_holder l = co_holder (rs j)" "j \<noteq> i"
    and stamped: "file_epoch d = Some (lease_epoch l)"
    and old: "leading (rs i)" "epoch_fn st = Some (\<lambda>c. Some (co_epoch c))"
    and commit: "items_ok {EPOCH_KEY} items" "commit_many (rs i, io) items (d, st) = (r, d', st')"
  shows "(\<exists>e. r = Inl e) \<and> content d' = content d"
proof -
  have inv: "lease_inv fromiso (rs, f)"
    using lease_inv_reach [of fromiso isofmt, OF iso run lease_inv_start [OF start]] by simp
  then have "behind (rs i) l" "lease_holder l \<noteq> co_holder (rs i)"
    using lease_invD(2) [OF inv old(1)] lease_invD(4) [OF inv holder(3)] holder by auto
  then have "stale (file_epoch d) (Some (co_epoch (rs i)))" using stamped by (simp add: behind_def stale_def)
  then show ?thesis using epoch_commit [OF old(2) commit] by (simp add: fence_kept_def)
qed

theorem deposed_leader_cannot_commit_witness:
  "\<exists>c r d' st'. co_epoch c = 1 \<and>
     commit_many (c, WriteOk) [(''k'', ''w'')] (led_disk, fenced_store 0) = (r, d', st') \<and> content d' = content led_disk"
proof -
  obtain rs f where eq: "sys_run show_int py_int takeover_schedule (replica, LFMissing) = (rs, f)" by fastforce
  have run: "(orderly_sys show_int py_int)\<^sup>*\<^sup>* (replica, LFMissing) (rs, f)"
    using sys_run_reach [of takeover_schedule show_int py_int "(replica, LFMissing)"] eq
    by (simp add: takeover_schedule_def wake_at_def)
  note ld = takeover_run [OF eq]
  have epoch: "file_epoch led_disk = Some 2"
    by (simp add: file_eval py_int_def nat_of_digits_def digit_val_def strip_def is_space_def is_digit_def
        less_eq_char_def)
  obtain r d' st' where cm: "commit_many (rs 0, WriteOk) [(''k'', ''w'')] (led_disk, fenced_store 0) = (r, d', st')"
    by (metis prod.exhaust)
  have "content d' = content led_disk"
    using deposed_leader_cannot_commit [of py_int show_int, OF py_int_show_int lease_start_replicas run _ _ _ _ _ _ _ cm,
        of _ 1] ld epoch
    by (simp add: fenced_store_def set_epoch_def items_ok_def wf_dict_def EPOCH_KEY_def)
  with cm ld show ?thesis by blast
qed

subsection \<open>Callbacks\<close>

text \<open>
  Over any run of one coordinator, with any reads, writes, stops and callback failures:
  \<^verbatim>\<open>on_acquire\<close> and \<^verbatim>\<open>on_lose\<close> take strict turns beginning with \<^verbatim>\<open>on_acquire\<close>, the
  flag read by the fence is set exactly between the two, and an acquisition that was not followed
  by \<^verbatim>\<open>on_lose\<close> is the current one or one whose \<^verbatim>\<open>on_acquire\<close> raised and ended the run.
\<close>

theorem lease_callbacks_alternate:
  assumes "run_steps (coord_step isofmt fromiso) es (new_lease_coord h ttl renew, f) = ((c', f'), cs)"
  shows "alternates OnAcquire cs \<and> (lease_fence c' \<longleftrightarrow> leading c')
    \<and> (turn_after cs = OnLose \<longrightarrow> leading c' \<or> ended c') \<and> (leading c' \<longrightarrow> turn_after cs = OnLose)"
proof -
  have "flag_ok (new_lease_coord h ttl renew)" by (simp add: flag_ok_def new_lease_coord_def)
  from flag_ok_run [OF assms this] have "lease_fence c' \<longleftrightarrow> leading c'"
    by (simp add: flag_ok_def lease_fence_def)
  moreover have "\<not> leading (fst (new_lease_coord h ttl renew, f))" by (simp add: new_lease_coord_def)
  ultimately show ?thesis
    using flease.callbacks_alternate [OF assms] by (auto simp: turn_after_def split: if_splits)
qed

theorem lease_callbacks_alternate_witness:
  "snd (run_steps (coord_step show_int py_int)
      [(wake_at 0, LFMissing), (wake_at 1, LFMissing), ((wake_at 1)\<lparr>w_cb := False\<rparr>, LFMissing)]
      (replica 0, LFMissing)) = [OnAcquire]
   \<and> alternates OnAcquire [OnAcquire]"
proof -
  let ?es = "[(wake_at 0, LFMissing), (wake_at 1, LFMissing), ((wake_at 1)\<lparr>w_cb := False\<rparr>, LFMissing)]"
  obtain c' f' cs where r: "run_steps (coord_step show_int py_int) ?es (replica 0, LFMissing) = ((c', f'), cs)"
    by (metis prod.exhaust)
  then have "cs = [OnAcquire]" by (auto simp: lease_eval)
  with r lease_callbacks_alternate [OF r [unfolded replica_def]] show ?thesis by simp
qed

subsection \<open>Where the epochs fail\<close>

lemma claim_on_read:
  assumes iso: "\<And>t. fromiso (isofmt t) = Some t" and c: "co_phase c = Polling" "0 < co_ttl c"
    and l: "lease_in fromiso seen = Some l" "expired t l"
  shows "\<exists>c1 c2 f'. coord_step isofmt fromiso (wake_at t, seen) (c, f) = ((c1, f'), [])
    \<and> coord_step isofmt fromiso (wake_at t, f') (c1, f') = ((c2, f'), [OnAcquire])
    \<and> leading c2 \<and> co_epoch c2 = lease_epoch l + 1"
proof -
  obtain d where seen: "seen = LFDoc d" "parse_lease fromiso d = Some l"
    using l(1) by (auto simp: lease_in_def split: lease_file.splits)
  show ?thesis
    using c l(2) iso
    by (simp add: coord_step_def acquire_poll_def acquire_verify_def read_lease_def write_lease_def claim_epoch_def
        wake_at_def seen expired_def)
qed

text \<open>
  C37. The first condition of \<open>orderly\<close> is needed: whenever two replicas stand by on an expired
  lease, of any epoch, there is a run in which the second reads it, is delayed, and writes only
  after the first has written, paused and confirmed. Both then confirm and lead with the same
  epoch, so neither is stale for the checkpoints the other has stamped.
\<close>

theorem same_epoch_split_brain:
  assumes iso: "\<And>t. fromiso (isofmt t) = Some t" and ij: "i \<noteq> j"
    and standby: "co_phase (rs i) = Polling" "co_phase (rs j) = Polling" "0 < co_ttl (rs i)" "0 < co_ttl (rs j)"
    and l: "lease_in fromiso f = Some l" "expired t l"
  shows "\<exists>rs' f'. (any_sys isofmt fromiso)\<^sup>*\<^sup>* (rs, f) (rs', f')
     \<and> leading (rs' i) \<and> leading (rs' j) \<and> co_epoch (rs' i) = lease_epoch l + 1 \<and> co_epoch (rs' j) = lease_epoch l + 1
     \<and> \<not> stale (Some (co_epoch (rs' i))) (Some (co_epoch (rs' j)))
     \<and> \<not> stale (Some (co_epoch (rs' j))) (Some (co_epoch (rs' i)))"
proof -
  let ?step = "any_sys isofmt fromiso"
  obtain a1 a2 f1 where a: "coord_step isofmt fromiso (wake_at t, f) (rs i, f) = ((a1, f1), [])"
      "coord_step isofmt fromiso (wake_at t, f1) (a1, f1) = ((a2, f1), [OnAcquire])"
      "leading a2" "co_epoch a2 = lease_epoch l + 1"
    using claim_on_read [of fromiso isofmt, OF iso standby(1,3) l] by blast
  obtain b1 b2 f2 where b: "coord_step isofmt fromiso (wake_at t, f) (rs j, f1) = ((b1, f2), [])"
      "coord_step isofmt fromiso (wake_at t, f2) (b1, f2) = ((b2, f2), [OnAcquire])"
      "leading b2" "co_epoch b2 = lease_epoch l + 1"
    using claim_on_read [of fromiso isofmt, OF iso standby(2,4) l] by blast
  have step: "?step (rs', g) (rs'(n := c'), g')"
    if "coord_step isofmt fromiso (wake_at t, seen) (c, g) = ((c', g'), cs)" "rs' n = c" for rs' g n c' g' cs seen c
    using that replica_step unfolding any_sys_def by blast
  have "?step (rs, f) (rs(i := a1), f1)" "?step (rs(i := a1), f1) (rs(i := a2), f1)"
    "?step (rs(i := a2), f1) (rs(i := a2, j := b1), f2)" "?step (rs(i := a2, j := b1), f2) (rs(i := a2, j := b2), f2)"
    using step [OF a(1), of rs i] step [OF a(2), of "rs(i := a1)" i] step [OF b(1), of "rs(i := a2)" j]
      step [OF b(2), of "rs(i := a2, j := b1)" j] ij by simp_all
  then have "?step\<^sup>*\<^sup>* (rs, f) (rs(i := a2, j := b2), f2)" by (meson converse_rtranclp_into_rtranclp rtranclp.rtrancl_refl)
  then show ?thesis
    using a(3,4) b(3,4) ij by (intro exI [of _ "rs(i := a2, j := b2)"] exI [of _ f2]) (simp add: stale_def)
qed

theorem same_epoch_split_brain_witness:
  "\<exists>rs' f'. leading (rs' 1) \<and> leading (rs' 2) \<and> co_epoch (rs' 1) = 8 \<and> co_epoch (rs' 2) = 8
     \<and> (any_sys show_int py_int)\<^sup>*\<^sup>*
         (replica, LFDoc [(''holder'', JStr ''x''), (''expires_at'', JStr (show_int 0)), (''epoch'', JInt 7)]) (rs', f')"
proof -
  let ?f = "LFDoc [(''holder'', JStr ''x''), (''expires_at'', JStr (show_int 0)), (''epoch'', JInt 7)]"
  have l: "lease_in py_int ?f = Some \<lparr>lease_holder = ''x'', expires_at = 0, lease_epoch = 7\<rparr>"
    by (simp add: lease_in_def)
  show ?thesis
    using same_epoch_split_brain [of py_int show_int 1 2 replica, OF py_int_show_int _ _ _ _ _ l, of 5]
    by (auto simp: replica_def new_lease_coord_def expired_def)
qed

text \<open>
  A leader of epoch 1 slept through its expiry and another replica leads with epoch 2. If both
  reads of the old leader's next turn fail, it overwrites the live lease with its own epoch and
  goes on leading, and the new leader surrenders at its next turn.
\<close>

theorem successor_lease_overwritten:
  "let f = LFDoc [(''holder'', JStr (co_holder (replica 2))), (''expires_at'', JStr (show_int 80)), (''epoch'', JInt 2)];
       a = (replica 1)\<lparr>co_is_leader := True, co_epoch := 1, co_phase := Holding 1\<rparr>;
       b = (replica 2)\<lparr>co_is_leader := True, co_epoch := 2, co_phase := Holding 51\<rparr>;
       blind = (wake_at 52)\<lparr>w_read := False\<rparr>;
       (a1, f1) = fst (coord_step show_int py_int (blind, f) (a, f));
       (a2, f2) = fst (coord_step show_int py_int (blind, f1) (a1, f1));
       (b1, f3) = fst (coord_step show_int py_int (wake_at 61, f2) (b, f2))
   in leading a2 \<and> map_option lease_epoch (lease_in py_int f) = Some 2
      \<and> map_option lease_epoch (lease_in py_int f2) = Some 1 \<and> \<not> leading b1"
  by (simp add: Let_def lease_eval numeral_eq_Suc)

text \<open>
  If the lease file is deleted while the checkpoints carry an epoch above 1, the next leader
  starts over at epoch 1 and each of its commits is refused as stale.
\<close>

theorem deleted_lease_blocks_commits:
  assumes iso: "\<And>t. fromiso (isofmt t) = Some t" and c: "co_phase c = Polling" "0 < co_ttl c"
    and w: "\<not> w_stop w" "w_read w" "w_write w = WriteOk"
    and w': "\<not> w_stop w'" "w_read w'" "w_now w' = w_now w"
    and poll: "coord_step isofmt fromiso (w, LFMissing) (c, LFMissing) = ((c1, f1), cs1)"
    and verify: "coord_step isofmt fromiso (w', f1) (c1, f1) = ((c2, f2), cs2)"
    and store: "file_epoch d = Some e" "1 < e" "epoch_fn st = Some (\<lambda>c. Some (co_epoch c))"
    and commit: "items_ok {EPOCH_KEY} items" "commit_many (c2, io) items (d, st) = (r, d', st')"
  shows "leading c2 \<and> co_epoch c2 = 1 \<and> (\<exists>x. r = Inl x) \<and> content d' = content d"
proof -
  have one: "c1 = c\<lparr>co_phase := Verifying\<rparr> \<and>
      f1 = LFDoc [(''holder'', JStr (co_holder c)), (''expires_at'', JStr (isofmt (w_now w + co_ttl c))), (''epoch'', JInt 1)]"
    using poll c(1) w by (auto simp: coord_step_def acquire_poll_def read_lease_def claim_epoch_def write_lease_def)
  then have two: "leading c2 \<and> co_epoch c2 = 1"
    using verify w' c(2) iso by (auto simp: coord_step_def acquire_verify_def read_lease_def expired_def)
  then have "stale (file_epoch d) (Some (co_epoch c2))" using store(1,2) by (simp add: stale_def)
  then show ?thesis using epoch_commit [OF store(3) commit] two by (simp add: fence_kept_def)
qed

theorem deleted_lease_blocks_commits_witness:
  "\<exists>c r d' st'. leading c \<and> co_epoch c = 1 \<and>
     commit_many (c, WriteOk) [(''k'', ''w'')] (led_disk, fenced_store 0) = (r, d', st') \<and> content d' = content led_disk"
proof -
  obtain c1 f1 cs1 where one: "coord_step show_int py_int (wake_at 0, LFMissing) (replica 0, LFMissing) = ((c1, f1), cs1)"
    by (metis prod.exhaust)
  obtain c2 f2 cs2 where two: "coord_step show_int py_int (wake_at 0, f1) (c1, f1) = ((c2, f2), cs2)"
    by (metis prod.exhaust)
  obtain r d' st' where cm: "commit_many (c2, WriteOk) [(''k'', ''w'')] (led_disk, fenced_store 0) = (r, d', st')"
    by (metis prod.exhaust)
  have epoch: "file_epoch led_disk = Some 2"
    by (simp add: file_eval py_int_def nat_of_digits_def digit_val_def strip_def is_space_def is_digit_def
        less_eq_char_def)
  have "leading c2 \<and> co_epoch c2 = 1 \<and> content d' = content led_disk"
    using deleted_lease_blocks_commits [of py_int show_int, OF py_int_show_int _ _ _ _ _ _ _ _ one two epoch _ _ _ cm]
    by (simp add: fenced_store_def set_epoch_def items_ok_def wf_dict_def EPOCH_KEY_def replica_def new_lease_coord_def wake_at_def)
  with cm show ?thesis by blast
qed

end
