(* ===== verification/K8sLease.thy ===== *)
theory K8sLease
  imports Coordinator
begin

section \<open>coordinate/k8s_lease.py: leader election on a Kubernetes Lease\<close>

text \<open>
  \<^verbatim>\<open>src/sf2loki/coordinate/k8s_lease.py\<close>. The API server is not part of the program: its
  answers are inputs of each step, an HTTP status (if the exception carries one) or a
  \<open>v1_lease\<close>, and the requests the coordinator sends are outputs. A turn is cut at every await,
  so anything may happen to the Lease between the read of a turn and its write.

  What the API documents is the predicate \<open>api_lawful\<close> over the history of the object: a read
  returns the object as it is, a replace succeeds only on the version it names, a create only when
  there is no object, and a \<^verbatim>\<open>resourceVersion\<close> is not used twice.

  Results: a standby replaces a held lease only if that very version was seen unchanged for the
  whole lease duration on the standby's own monotonic clock, whatever the wall clocks say; the
  callbacks alternate. A lease duration below one second is written as zero, and such a lease is
  taken at once.
\<close>

subsection \<open>Leases, bodies and the adapter\<close>

record v1_lease =
  holder_identity :: "string option"
  v1_renew_time :: "datetime option"
  lease_duration_seconds :: "int option"
  v1_resource_version :: string

record k_lease =
  kl_holder :: string
  kl_renew_time :: "datetime option"
  kl_duration :: "seconds option"
  kl_resource_version :: string

definition is_stale :: "seconds \<Rightarrow> k_lease \<Rightarrow> bool" where
  "is_stale staleness l =
     (if kl_holder l = [] \<or> kl_renew_time l = None then True
      else case kl_duration l of None \<Rightarrow> True | Some d \<Rightarrow> staleness \<ge> d)"

record lease_body =
  lb_holder :: string
  lb_renew_time :: datetime
  lb_duration :: seconds
  lb_resource_version :: "string option"

definition from_v1_lease :: "v1_lease \<Rightarrow> k_lease" where
  "from_v1_lease v =
     \<lparr>kl_holder = (case holder_identity v of None \<Rightarrow> [] | Some h \<Rightarrow> h),
      kl_renew_time = v1_renew_time v,
      kl_duration = map_option of_int (lease_duration_seconds v),
      kl_resource_version = v1_resource_version v\<rparr>"

text \<open>What the adapter puts in a request: \<^verbatim>\<open>int(body.duration)\<close> cuts towards zero.\<close>

definition py_trunc :: "rat \<Rightarrow> int" where
  "py_trunc x = (if x \<ge> 0 then \<lfloor>x\<rfloor> else \<lceil>x\<rceil>)"

datatype k_request =
    ReqRead
  | ReqCreate string datetime int
  | ReqReplace string datetime int "string option"

definition create_request :: "lease_body \<Rightarrow> k_request" where
  "create_request b = ReqCreate (lb_holder b) (lb_renew_time b) (py_trunc (lb_duration b))"

definition replace_request :: "lease_body \<Rightarrow> k_request" where
  "replace_request b =
     ReqReplace (lb_holder b) (lb_renew_time b) (py_trunc (lb_duration b)) (lb_resource_version b)"

type_synonym k_answer = "int option + v1_lease"

definition NOT_FOUND :: int where "NOT_FOUND = 404"
definition CONFLICT :: int where "CONFLICT = 409"

text \<open>\<^verbatim>\<open>_read\<close>: any failure counts as absent.\<close>

definition k_read :: "k_answer \<Rightarrow> k_lease option" where
  "k_read a = (case a of Inl _ \<Rightarrow> None | Inr v \<Rightarrow> Some (from_v1_lease v))"

subsection \<open>The coordinator\<close>

text \<open>
  Where \<^verbatim>\<open>run\<close> stands: entering the API client, before a poll, waiting for the answer to the
  create or replace of a poll, in \<^verbatim>\<open>on_acquire\<close> (with the version won), in the pause of
  the hold loop (last success and version), waiting for the answer to a renewal (also with the
  time the turn began), in \<^verbatim>\<open>on_lose\<close>, or over.
\<close>

datatype k_phase =
    KStart
  | KPolling
  | KClaiming k_request
  | KAcquired string
  | KHolding datetime "string option"
  | KRenewing datetime datetime "string option"
  | KLosing bool
  | KFinished bool

record k_coord =
  kc_holder :: string
  kc_duration :: seconds
  kc_renew :: seconds
  kc_is_leader :: bool
  kc_observed_version :: "string option"
  kc_observed_at :: seconds
  kc_phase :: k_phase

definition new_k_coord :: "string \<Rightarrow> seconds \<Rightarrow> seconds \<Rightarrow> k_coord" where
  "new_k_coord holder duration renew =
     \<lparr>kc_holder = holder, kc_duration = duration, kc_renew = renew, kc_is_leader = False,
      kc_observed_version = None, kc_observed_at = 0, kc_phase = KStart\<rparr>"

definition k_fence :: "k_coord \<Rightarrow> bool" where
  "k_fence c \<longleftrightarrow> kc_is_leader c"

text \<open>What a wake-up finds: \<open>k_ans\<close> is the answer to the request the code was waiting for,
  \<open>k_utc\<close> the wall clock as the code reads it in that turn (in \<^verbatim>\<open>_hold\<close> before it sends the
  read), \<open>k_mono\<close> the monotonic clock.\<close>

record k_wake =
  k_stop :: bool
  k_utc :: datetime
  k_mono :: seconds
  k_ans :: k_answer
  k_cb :: bool

definition observe :: "seconds \<Rightarrow> k_lease \<Rightarrow> k_coord \<Rightarrow> seconds \<times> k_coord" where
  "observe now l c =
     (let c1 = (if Some (kl_resource_version l) \<noteq> kc_observed_version c
                then c\<lparr>kc_observed_version := Some (kl_resource_version l), kc_observed_at := now\<rparr>
                else c)
      in (now - kc_observed_at c1, c1))"

text \<open>One poll of \<^verbatim>\<open>_acquire\<close> after its read was answered.\<close>

definition k_body :: "datetime \<Rightarrow> string option \<Rightarrow> k_coord \<Rightarrow> lease_body" where
  "k_body now rv c = \<lparr>lb_holder = kc_holder c, lb_renew_time = now, lb_duration = kc_duration c,
     lb_resource_version = rv\<rparr>"

definition k_acquire_poll :: "k_wake \<Rightarrow> k_coord \<Rightarrow> k_coord" where
  "k_acquire_poll w c =
     (case k_read (k_ans w) of
        None \<Rightarrow> c\<lparr>kc_phase := KClaiming (create_request (k_body (k_utc w) None c))\<rparr>
      | Some l \<Rightarrow>
          (case observe (k_mono w) l c of
             (staleness, c1) \<Rightarrow>
               if is_stale staleness l
               then c1\<lparr>kc_phase := KClaiming (replace_request (k_body (k_utc w) (Some (kl_resource_version l)) c1))\<rparr>
               else c1\<lparr>kc_phase := KPolling\<rparr>))"

definition k_finish :: "bool \<Rightarrow> k_coord \<Rightarrow> k_coord" where
  "k_finish raised c = c\<lparr>kc_is_leader := False, kc_phase := KFinished raised\<rparr>"

definition k_surrender :: "bool \<Rightarrow> k_coord \<Rightarrow> k_coord" where
  "k_surrender raised c = c\<lparr>kc_is_leader := False, kc_phase := KLosing raised\<rparr>"

text \<open>The turn of \<^verbatim>\<open>_hold\<close> after its read was answered, and after its replace was.\<close>

definition k_hold_poll :: "k_wake \<Rightarrow> datetime \<Rightarrow> string option \<Rightarrow> k_coord \<Rightarrow> k_coord \<times> callback list" where
  "k_hold_poll w last_ok rv c =
     (case k_read (k_ans w) of
        None \<Rightarrow> (c\<lparr>kc_phase := KRenewing last_ok (k_utc w) rv\<rparr>, [])
      | Some l \<Rightarrow>
          if kl_holder l \<noteq> kc_holder c then (k_surrender False c, [OnLose])
          else (c\<lparr>kc_phase := KRenewing last_ok (k_utc w) (Some (kl_resource_version l))\<rparr>, []))"

definition k_renewal_request :: "datetime \<Rightarrow> string option \<Rightarrow> k_coord \<Rightarrow> k_request" where
  "k_renewal_request now rv c = replace_request (k_body now rv c)"

definition k_renewed :: "k_wake \<Rightarrow> datetime \<Rightarrow> datetime \<Rightarrow> string option \<Rightarrow> k_coord \<Rightarrow> k_coord \<times> callback list" where
  "k_renewed w last_ok now rv c =
     (case k_ans w of
        Inr v \<Rightarrow> (c\<lparr>kc_phase := KHolding now (Some (kl_resource_version (from_v1_lease v)))\<rparr>, [])
      | Inl status \<Rightarrow>
          if status = Some CONFLICT \<or> status = Some NOT_FOUND then (k_surrender False c, [OnLose])
          else if (of_int (now - last_ok) :: rat) / 1000000 \<ge> kc_duration c then (k_surrender False c, [OnLose])
          else (c\<lparr>kc_phase := KHolding last_ok rv\<rparr>, []))"

definition k_step :: "k_wake \<Rightarrow> k_coord \<Rightarrow> k_coord \<times> callback list" where
  "k_step w c =
     (case kc_phase c of
        KStart \<Rightarrow> if k_cb w then (c\<lparr>kc_phase := KPolling\<rparr>, []) else (k_finish True c, [])
      | KPolling \<Rightarrow> if k_stop w then (k_finish False c, []) else (k_acquire_poll w c, [])
      | KClaiming _ \<Rightarrow>
          (case k_ans w of
             Inl _ \<Rightarrow> (c\<lparr>kc_phase := KPolling\<rparr>, [])
           | Inr v \<Rightarrow> (c\<lparr>kc_is_leader := True, kc_phase := KAcquired (kl_resource_version (from_v1_lease v))\<rparr>, [OnAcquire]))
      | KAcquired rv \<Rightarrow>
          if k_cb w then (c\<lparr>kc_phase := KHolding (k_utc w) (Some rv)\<rparr>, []) else (k_finish True c, [])
      | KHolding last_ok rv \<Rightarrow>
          if k_stop w then (k_surrender False c, [OnLose]) else k_hold_poll w last_ok rv c
      | KRenewing last_ok now rv \<Rightarrow> k_renewed w last_ok now rv c
      | KLosing raised \<Rightarrow>
          if raised \<or> \<not> k_cb w then (k_finish True c, []) else (c\<lparr>kc_phase := KPolling\<rparr>, [])
      | KFinished _ \<Rightarrow> (c, []))"

fun k_leading_phase :: "k_phase \<Rightarrow> bool" where
  "k_leading_phase (KAcquired rv) = True"
| "k_leading_phase (KHolding t rv) = True"
| "k_leading_phase (KRenewing t n rv) = True"
| "k_leading_phase p = False"

abbreviation k_leading :: "k_coord \<Rightarrow> bool" where
  "k_leading c \<equiv> k_leading_phase (kc_phase c)"

abbreviation k_ended :: "k_coord \<Rightarrow> bool" where
  "k_ended c \<equiv> (\<exists>r. kc_phase c = KFinished r)"

text \<open>The request the coordinator is waiting on, if any.\<close>

definition pending :: "k_coord \<Rightarrow> k_request option" where
  "pending c =
     (case kc_phase c of
        KPolling \<Rightarrow> Some ReqRead
      | KClaiming r \<Rightarrow> Some r
      | KHolding _ _ \<Rightarrow> Some ReqRead
      | KRenewing _ now rv \<Rightarrow> Some (k_renewal_request now rv c)
      | _ \<Rightarrow> None)"

lemmas k_step_defs = k_step_def k_acquire_poll_def k_hold_poll_def k_renewed_def k_finish_def k_surrender_def
  observe_def Let_def

lemma k_step_shape:
  "k_step w c = (c', cs) \<Longrightarrow>
     (if k_leading c then (if k_leading c' then cs = [] else cs = [OnLose] \<or> (cs = [] \<and> k_ended c'))
      else cs = (if k_leading c' then [OnAcquire] else []))
     \<and> (k_ended c \<longrightarrow> c' = c \<and> cs = [])
     \<and> (kc_is_leader c = k_leading c \<longrightarrow> kc_is_leader c' = k_leading c')"
  by (cases "kc_phase c")
    (auto simp: k_step_defs split: if_splits sum.splits option.splits)

interpretation klease: coordinator_loop k_step k_leading k_ended
proof unfold_locales
  fix s s' :: k_coord and e cs
  note shape = k_step_shape [of e s s' cs]
  show "\<not> k_leading s \<Longrightarrow> k_step e s = (s', cs) \<Longrightarrow> cs = (if k_leading s' then [OnAcquire] else [])"
    using shape by simp
  show "k_leading s \<Longrightarrow> k_step e s = (s', cs) \<Longrightarrow>
      (if k_leading s' then cs = [] else cs = [OnLose] \<or> (cs = [] \<and> k_ended s'))"
    using shape by simp
next
  fix s :: k_coord and e
  show "k_ended s \<Longrightarrow> k_step e s = (s, [])"
    using k_step_shape [of e s] by (metis prod.exhaust)
  show "k_ended s \<Longrightarrow> \<not> k_leading s" by auto
qed

subsection \<open>What the API promises\<close>

text \<open>\<open>hist n\<close> is the Lease object in the server after its first \<open>n\<close> changes.\<close>

type_synonym k_history = "nat \<Rightarrow> v1_lease option"

definition versions_unique :: "k_history \<Rightarrow> bool" where
  "versions_unique hist \<longleftrightarrow>
     (\<forall>i k u v. i \<le> k \<longrightarrow> hist i = Some u \<longrightarrow> hist k = Some v \<longrightarrow>
        v1_resource_version u = v1_resource_version v \<longrightarrow> (\<forall>j. i \<le> j \<and> j \<le> k \<longrightarrow> hist j = Some u))"

definition answer_ok :: "k_history \<Rightarrow> nat \<Rightarrow> k_request option \<Rightarrow> k_answer \<Rightarrow> bool" where
  "answer_ok hist n req ans =
     (case ans of
        Inl _ \<Rightarrow> True
      | Inr v \<Rightarrow>
          (case req of
             None \<Rightarrow> True
           | Some ReqRead \<Rightarrow> hist n = Some v
           | Some (ReqCreate h t d) \<Rightarrow> hist n = None \<and> hist (Suc n) = Some v
           | Some (ReqReplace h t d rv) \<Rightarrow>
               (case hist n of None \<Rightarrow> False | Some u \<Rightarrow> rv = Some (v1_resource_version u)) \<and> hist (Suc n) = Some v))"

text \<open>Runs of a coordinator against a history: each event is the position in the history at
  which the server handled the request, and what the coordinator found.\<close>

inductive k_trace :: "k_history \<Rightarrow> (nat \<times> k_wake) list \<Rightarrow> k_coord \<Rightarrow> bool" for hist where
  trace_start: "k_trace hist [] (new_k_coord h d r)"
| trace_step:
    "k_trace hist es c \<Longrightarrow> list_all (\<lambda>(m, _). m \<le> n) es \<Longrightarrow> answer_ok hist n (pending c) (k_ans w) \<Longrightarrow>
     k_step w c = (c', cs) \<Longrightarrow> k_trace hist (es @ [(n, w)]) c'"

text \<open>The observation bookkeeping is backed by an event of the run.\<close>

definition observed_by :: "k_history \<Rightarrow> (nat \<times> k_wake) list \<Rightarrow> string \<Rightarrow> seconds \<Rightarrow> bool" where
  "observed_by hist es rv t \<longleftrightarrow>
     (\<exists>m w v. (m, w) \<in> set es \<and> k_mono w = t \<and> hist m = Some v \<and> v1_resource_version v = rv)"

lemma observed_by_snoc: "observed_by hist es rv t \<Longrightarrow> observed_by hist (es @ [e]) rv t"
  by (auto simp: observed_by_def)

lemma observed_by_last: "hist n = Some v \<Longrightarrow> observed_by hist (es @ [(n, w)]) (v1_resource_version v) (k_mono w)"
  by (auto simp: observed_by_def)

definition obs_inv :: "k_history \<Rightarrow> (nat \<times> k_wake) list \<Rightarrow> k_coord \<Rightarrow> bool" where
  "obs_inv hist es c \<longleftrightarrow>
     (\<forall>rv. kc_observed_version c = Some rv \<longrightarrow> observed_by hist es rv (kc_observed_at c))"

text \<open>A claim by replacement names a version that was stale when the poll decided.\<close>

definition claim_inv :: "k_history \<Rightarrow> (nat \<times> k_wake) list \<Rightarrow> k_coord \<Rightarrow> bool" where
  "claim_inv hist es c \<longleftrightarrow>
     (\<forall>h t d rv. kc_phase c = KClaiming (ReqReplace h t d rv) \<longrightarrow>
        (\<exists>m w u. es \<noteq> [] \<and> last es = (m, w) \<and> hist m = Some u \<and> rv = Some (v1_resource_version u)
           \<and> rv = kc_observed_version c \<and> is_stale (k_mono w - kc_observed_at c) (from_v1_lease u)))"

lemma k_step_observed:
  assumes "k_step w c = (c', cs)"
  shows "kc_observed_version c' = kc_observed_version c \<and> kc_observed_at c' = kc_observed_at c
     \<or> (\<exists>v. pending c = Some ReqRead \<and> k_ans w = Inr v \<and> kc_observed_version c' = Some (v1_resource_version v)
          \<and> kc_observed_at c' = k_mono w)"
  using assms
  by (cases "kc_phase c")
    (auto simp: k_step_defs k_read_def from_v1_lease_def pending_def split: if_splits sum.splits option.splits)

lemma obs_inv_step:
  assumes "obs_inv hist es c" "answer_ok hist n (pending c) (k_ans w)" "k_step w c = (c', cs)"
  shows "obs_inv hist (es @ [(n, w)]) c'"
  using k_step_observed [OF assms(3)]
proof (elim disjE exE conjE)
  fix v
  assume v: "pending c = Some ReqRead" "k_ans w = Inr v" "kc_observed_version c' = Some (v1_resource_version v)"
    "kc_observed_at c' = k_mono w"
  then have "hist n = Some v" using assms(2) by (simp add: answer_ok_def)
  with v show ?thesis using observed_by_last [of hist n v es w] by (simp add: obs_inv_def)
qed (use assms(1) observed_by_snoc in \<open>auto simp: obs_inv_def\<close>)

lemma k_acquire_poll_claims:
  assumes "k_acquire_poll w c = c'" "kc_phase c' = KClaiming (ReqReplace h t d rv)"
  shows "\<exists>v. k_ans w = Inr v \<and> rv = Some (v1_resource_version v) \<and> rv = kc_observed_version c'
    \<and> is_stale (k_mono w - kc_observed_at c') (from_v1_lease v)"
  using assms
  by (auto simp: k_acquire_poll_def observe_def Let_def k_read_def from_v1_lease_def create_request_def
      replace_request_def k_body_def split: if_splits sum.splits)

lemma claim_inv_step:
  assumes ok: "answer_ok hist n (pending c) (k_ans w)" and st: "k_step w c = (c', cs)"
  shows "claim_inv hist (es @ [(n, w)]) c'"
  unfolding claim_inv_def
proof (intro allI impI)
  fix h t d rv
  assume cl: "kc_phase c' = KClaiming (ReqReplace h t d rv)"
  have "kc_phase c = KPolling"
    using st cl by (cases "kc_phase c") (auto simp: k_step_defs split: if_splits sum.splits option.splits)
  moreover from this st cl have "k_acquire_poll w c = c'" by (auto simp: k_step_def k_finish_def split: if_splits)
  note k_acquire_poll_claims [OF this cl]
  ultimately show "\<exists>m w' u. es @ [(n, w)] \<noteq> [] \<and> last (es @ [(n, w)]) = (m, w') \<and> hist m = Some u \<and>
      rv = Some (v1_resource_version u) \<and> rv = kc_observed_version c' \<and>
      is_stale (k_mono w' - kc_observed_at c') (from_v1_lease u)"
    using ok by (auto simp: pending_def answer_ok_def)
qed

lemma k_trace_inv: "k_trace hist es c \<Longrightarrow> obs_inv hist es c \<and> claim_inv hist es c"
proof (induction rule: k_trace.induct)
  case (trace_start h d r)
  then show ?case by (simp add: obs_inv_def claim_inv_def new_k_coord_def)
next
  case (trace_step es c n w c' cs)
  then show ?case using obs_inv_step claim_inv_step by blast
qed

subsection \<open>Takeover\<close>

text \<open>
  C18. When a standby wins a lease that another instance holds, with a renew time and the duration
  \<open>D\<close>, it replaces a version \<open>u\<close> it has read \<open>D\<close> seconds earlier or more, on its own
  monotonic clock, and the object was \<open>u\<close> from that read until the takeover: the holder has
  not renewed in between. No wall clock enters.
\<close>

theorem k8s_no_premature_takeover:
  assumes uniq: "versions_unique hist" and run: "k_trace hist es c"
    and claim: "kc_phase c = KClaiming (ReqReplace h t d rv)"
    and won: "answer_ok hist n (pending c) (Inr v)" "list_all (\<lambda>(m, _). m \<le> n) es"
    and u: "hist n = Some u" "holder_identity u = Some g" "g \<noteq> []" "v1_renew_time u \<noteq> None"
      "lease_duration_seconds u = Some D"
  shows "\<exists>m w. (m, w) \<in> set es \<and> k_mono (snd (last es)) - k_mono w \<ge> of_int D
    \<and> (\<forall>j. m \<le> j \<and> j \<le> n \<longrightarrow> hist j = Some u)"
proof -
  have rv: "rv = Some (v1_resource_version u)" using won(1) claim u(1) by (simp add: pending_def answer_ok_def)
  obtain m0 w0 u0 where last: "es \<noteq> []" "last es = (m0, w0)" "hist m0 = Some u0" "rv = Some (v1_resource_version u0)"
      "rv = kc_observed_version c" "is_stale (k_mono w0 - kc_observed_at c) (from_v1_lease u0)"
    using k_trace_inv [OF run] claim unfolding claim_inv_def by blast
  have le: "m \<le> n" if "(m, w) \<in> set es" for m w using won(2) that by (auto simp: list_all_iff)
  have "(m0, w0) \<in> set es" using last(1,2) by (metis last_in_set)
  then have "u0 = u" using uniq le last(3,4) u(1) rv unfolding versions_unique_def
    by (metis order_refl option.inject)
  then have D: "k_mono w0 - kc_observed_at c \<ge> of_int D"
    using last(6) u by (auto simp: is_stale_def from_v1_lease_def)
  obtain m w v' where o: "(m, w) \<in> set es" "k_mono w = kc_observed_at c" "hist m = Some v'"
      "v1_resource_version v' = v1_resource_version u"
    using k_trace_inv [OF run] last(5) rv unfolding obs_inv_def observed_by_def by metis
  have "\<forall>j. m \<le> j \<and> j \<le> n \<longrightarrow> hist j = Some v'"
    using uniq le [OF o(1)] o(3,4) u(1) unfolding versions_unique_def by blast
  moreover from this have "v' = u" using u(1) le [OF o(1)] by auto
  ultimately show ?thesis using o(1,2) D last(2) by (intro exI [of _ m] exI [of _ w]) simp
qed

definition k_wake_at :: "seconds \<Rightarrow> k_answer \<Rightarrow> k_wake" where
  "k_wake_at t a = \<lparr>k_stop = False, k_utc = 0, k_mono = t, k_ans = a, k_cb = True\<rparr>"

definition held_lease :: "int \<Rightarrow> v1_lease" where
  "held_lease d = \<lparr>holder_identity = Some ''pod-a'', v1_renew_time = Some 0, lease_duration_seconds = Some d,
     v1_resource_version = ''1''\<rparr>"

lemmas k_eval = k_step_defs new_k_coord_def k_wake_at_def held_lease_def k_read_def from_v1_lease_def is_stale_def
  create_request_def replace_request_def k_body_def pending_def answer_ok_def

text \<open>A dead holder: the standby reads version 1 at 0 and again at 30 seconds, then replaces it.\<close>

lemma dead_holder_trace:
  "\<exists>c. k_trace (\<lambda>n. if n = 0 then Some (held_lease 30) else Some ((held_lease 30)\<lparr>v1_resource_version := ''2''\<rparr>))
     [(0, k_wake_at 0 (Inl None)), (0, k_wake_at 0 (Inr (held_lease 30))), (0, k_wake_at 30 (Inr (held_lease 30)))] c
   \<and> kc_phase c = KClaiming (ReqReplace ''pod-b'' 0 30 (Some ''1''))"
  (is "\<exists>c. k_trace ?h _ c \<and> _")
proof -
  let ?e0 = "(0 :: nat, k_wake_at 0 (Inl None))" and ?w1 = "k_wake_at 0 (Inr (held_lease 30))"
    and ?w2 = "k_wake_at 30 (Inr (held_lease 30))"
  let ?c0 = "new_k_coord ''pod-b'' 30 10"
  let ?c1 = "?c0\<lparr>kc_phase := KPolling\<rparr>"
  let ?c2 = "?c1\<lparr>kc_observed_version := Some ''1'', kc_observed_at := 0\<rparr>"
  let ?c3 = "?c2\<lparr>kc_phase := KClaiming (ReqReplace ''pod-b'' 0 30 (Some ''1''))\<rparr>"
  have "k_trace ?h ([] @ [?e0]) ?c1"
    by (rule trace_step [OF trace_start [where h = "''pod-b''" and d = 30 and r = 10]]) (simp_all add: k_eval)
  then have "k_trace ?h (([] @ [?e0]) @ [(0, ?w1)]) ?c2"
    by (rule trace_step) (simp_all add: k_eval)
  then have "k_trace ?h ((([] @ [?e0]) @ [(0, ?w1)]) @ [(0, ?w2)]) ?c3"
    by (rule trace_step) (simp_all add: k_eval py_trunc_def)
  then show ?thesis by (intro exI [of _ ?c3]) simp
qed

theorem k8s_no_premature_takeover_witness:
  "\<exists>m w. (m, w) \<in> set [(0 :: nat, k_wake_at 0 (Inl None)), (0, k_wake_at 0 (Inr (held_lease 30))),
      (0, k_wake_at 30 (Inr (held_lease 30)))] \<and> (30 :: rat) - k_mono w \<ge> 30"
proof -
  let ?h = "\<lambda>n :: nat. if n = 0 then Some (held_lease 30) else Some ((held_lease 30)\<lparr>v1_resource_version := ''2''\<rparr>)"
  let ?es = "[(0, k_wake_at 0 (Inl None)), (0, k_wake_at 0 (Inr (held_lease 30))), (0, k_wake_at 30 (Inr (held_lease 30)))]"
  obtain c where c: "k_trace ?h ?es c" "kc_phase c = KClaiming (ReqReplace ''pod-b'' 0 30 (Some ''1''))"
    using dead_holder_trace by blast
  have "versions_unique ?h" by (auto simp: versions_unique_def held_lease_def)
  moreover have "answer_ok ?h 0 (pending c) (Inr ((held_lease 30)\<lparr>v1_resource_version := ''2''\<rparr>))"
    using c(2) by (simp add: answer_ok_def pending_def held_lease_def)
  ultimately have "\<exists>m w. (m, w) \<in> set ?es \<and> k_mono (snd (last ?es)) - k_mono w \<ge> of_int 30
      \<and> (\<forall>j. m \<le> j \<and> j \<le> 0 \<longrightarrow> ?h j = Some (held_lease 30))"
    using k8s_no_premature_takeover [of ?h ?es c, OF _ c, of 0 _ "held_lease 30" "''pod-a''" 30]
    by (simp add: held_lease_def)
  then show ?thesis by (simp add: k_wake_at_def)
qed

subsection \<open>Callbacks and surrender\<close>

text \<open>The answers that tell a leader it leads no more: another holder, a lost compare-and-swap, a
  deleted lease.\<close>

definition deposed :: "k_wake \<Rightarrow> k_coord \<Rightarrow> bool" where
  "deposed w c \<longleftrightarrow>
     (case kc_phase c of
        KHolding _ _ \<Rightarrow> (case k_read (k_ans w) of None \<Rightarrow> False | Some l \<Rightarrow> kl_holder l \<noteq> kc_holder c)
      | KRenewing _ _ _ \<Rightarrow> k_ans w = Inl (Some CONFLICT) \<or> k_ans w = Inl (Some NOT_FOUND)
      | _ \<Rightarrow> False)"

lemma deposed_surrenders:
  "k_step w c = (c', cs) \<Longrightarrow> deposed w c \<Longrightarrow> \<not> k_leading c' \<and> \<not> k_fence c' \<and> cs = [OnLose]"
  by (cases "kc_phase c")
    (auto simp: deposed_def k_step_defs k_fence_def split: option.splits if_splits)

lemma k_flag_run:
  "run_steps k_step es (new_k_coord h d r) = (c, cs) \<Longrightarrow> k_fence c \<longleftrightarrow> k_leading c"
proof (induction es arbitrary: c cs rule: rev_induct)
  case Nil
  then show ?case by (auto simp: new_k_coord_def k_fence_def)
next
  case (snoc e es)
  obtain c1 cs1 where one: "run_steps k_step es (new_k_coord h d r) = (c1, cs1)" by fastforce
  obtain c2 cs2 where two: "k_step e c1 = (c2, cs2)" by fastforce
  have "c2 = c" using snoc(2) one two by (simp add: run_steps_append)
  then show ?case using k_step_shape [OF two] snoc(1) [OF one] by (simp add: k_fence_def)
qed

text \<open>
  Over any run of a Kubernetes coordinator, whatever the API answers: the callbacks take strict
  turns beginning with \<^verbatim>\<open>on_acquire\<close>, the fence flag is set exactly between the two, and the
  coordinator ends its leadership in the very turn in which it reads another holder, loses a
  compare-and-swap or finds the lease deleted.
\<close>

theorem k8s_callbacks_and_surrender:
  assumes run: "run_steps k_step es (new_k_coord h d r) = (c, cs)" and step: "k_step w c = (c', cs')"
  shows "alternates OnAcquire cs \<and> (k_fence c \<longleftrightarrow> k_leading c) \<and> (k_leading c \<longrightarrow> turn_after cs = OnLose)
    \<and> (deposed w c \<longrightarrow> \<not> k_fence c' \<and> cs' = [OnLose])"
proof -
  have "\<not> k_leading (new_k_coord h d r)" by (simp add: new_k_coord_def)
  then show ?thesis
    using klease.callbacks_alternate [OF run] k_flag_run [OF run] deposed_surrenders [OF step] by blast
qed

theorem k8s_callbacks_and_surrender_witness:
  "let c = fst (run_steps k_step [k_wake_at 0 (Inl None), k_wake_at 0 (Inl None), k_wake_at 0 (Inr (held_lease 30)),
        k_wake_at 1 (Inl None), k_wake_at 2 (Inl None)] (new_k_coord ''pod-a'' 30 10));
       w = k_wake_at 3 (Inl (Some CONFLICT))
   in deposed w c \<and> \<not> k_fence (fst (k_step w c))"
proof -
  let ?es = "[k_wake_at 0 (Inl None), k_wake_at 0 (Inl None), k_wake_at 0 (Inr (held_lease 30)),
        k_wake_at 1 (Inl None), k_wake_at 2 (Inl None)]" and ?w = "k_wake_at 3 (Inl (Some CONFLICT))"
  obtain c cs where run: "run_steps k_step ?es (new_k_coord ''pod-a'' 30 10) = (c, cs)" by fastforce
  obtain c' cs' where step: "k_step ?w c = (c', cs')" by fastforce
  have "deposed ?w c" using run by (auto simp: k_eval deposed_def)
  then show ?thesis using k8s_callbacks_and_surrender [OF run step] run step by (simp add: Let_def)
qed

text \<open>
  A configured duration below one second is written as zero seconds, and a standby that reads
  such a lease for the first time, freshly renewed by its holder, claims it in that poll.
\<close>

theorem k8s_subsecond_lease_taken_at_once:
  assumes cfg: "0 \<le> kc_duration a" "kc_duration a < 1" and b: "kc_phase b = KPolling" "\<not> k_stop w"
    and req: "replace_request (k_body now rv a) = ReqReplace g t d rv'"
    and seen: "k_ans w = Inr v" "lease_duration_seconds v = Some d" "kc_observed_version b \<noteq> Some (v1_resource_version v)"
  shows "d = 0 \<and> kc_phase (fst (k_step w b)) =
    KClaiming (replace_request (k_body (k_utc w) (Some (v1_resource_version v)) b))"
proof -
  have d: "d = 0" using req cfg by (auto simp: replace_request_def k_body_def py_trunc_def floor_eq_iff)
  then show ?thesis using b seen
    by (simp add: k_step_def k_acquire_poll_def k_read_def observe_def from_v1_lease_def is_stale_def k_body_def)
qed

theorem k8s_subsecond_lease_taken_at_once_witness:
  "kc_phase (fst (k_step (k_wake_at 0 (Inr (held_lease 0))) ((new_k_coord ''pod-b'' (9 / 10) (1 / 10))\<lparr>kc_phase := KPolling\<rparr>)))
     = KClaiming (ReqReplace ''pod-b'' 0 0 (Some ''1''))"
proof -
  let ?a = "new_k_coord ''pod-a'' (9 / 10) (1 / 10)" and ?b = "(new_k_coord ''pod-b'' (9 / 10) (1 / 10))\<lparr>kc_phase := KPolling\<rparr>"
  have "\<lfloor>9 / 10 :: rat\<rfloor> = 0" by (simp add: floor_eq_iff)
  then have req: "replace_request (k_body 0 None ?a) = ReqReplace ''pod-a'' 0 0 None"
    by (simp add: replace_request_def k_body_def py_trunc_def new_k_coord_def)
  show ?thesis
    using k8s_subsecond_lease_taken_at_once [OF _ _ _ _ req, of ?b "k_wake_at 0 (Inr (held_lease 0))" "held_lease 0"]
    by (simp add: k_wake_at_def held_lease_def new_k_coord_def k_body_def replace_request_def py_trunc_def floor_eq_iff)
qed

end
