(* ===== verification/Overlap.thy ===== *)
theory Overlap
  imports Prelude
begin

section \<open>sources/overlap.py: one event category, one source\<close>

text \<open>
  \<^verbatim>\<open>src/sf2loki/sources/overlap.py\<close>. The guard runs before any source starts. Its
  dictionary of sets is an association list from category to members; a raised
  \<^verbatim>\<open>OverlapError\<close> carries the collisions its message lists. Result: the guard lets a
  configuration through exactly when no identifier of one source has the category of an
  identifier of another, and otherwise it reports exactly those categories, each with all its
  identifiers.
\<close>

definition CATEGORY_ALIASES :: labelset where
  "CATEGORY_ALIASES = [(''loginhistory'', ''login'')]"

definition CHANNEL_SUFFIXES :: "string list" where
  "CHANNEL_SUFFIXES = [''EventStream'', ''EventStore'', ''Event'']"

text \<open>\<^verbatim>\<open>topic.rstrip("/").rsplit("/", 1)[-1]\<close>.\<close>

definition basename :: "string \<Rightarrow> string" where
  "basename topic =
     (let t = rev (dropWhile (\<lambda>c. c = CHR ''/'') (rev topic))
      in rev (takeWhile (\<lambda>c. c \<noteq> CHR ''/'') (rev t)))"

fun strip_suffix_of :: "string list \<Rightarrow> string \<Rightarrow> string" where
  "strip_suffix_of [] name = name"
| "strip_suffix_of (s # ss) name =
     (if endswith name s \<and> length name > length s then take (length name - length s) name
      else strip_suffix_of ss name)"

definition strip_channel_suffix :: "string \<Rightarrow> string" where
  "strip_channel_suffix name = strip_suffix_of CHANNEL_SUFFIXES name"

definition alias_of :: "string \<Rightarrow> string" where
  "alias_of key = (case map_of CATEGORY_ALIASES key of None \<Rightarrow> key | Some c \<Rightarrow> c)"

definition category_of_pubsub :: "string \<Rightarrow> string" where
  "category_of_pubsub topic = alias_of (lower (strip_channel_suffix (basename topic)))"

definition category_of_stored_object :: "string \<Rightarrow> string" where
  "category_of_stored_object name = alias_of (lower (strip_channel_suffix name))"

definition category_of_elf :: "string \<Rightarrow> string" where
  "category_of_elf event_type = alias_of (replace1 (CHR '' '') [] (lower event_type))"

type_synonym member = "string \<times> string"

text \<open>\<^verbatim>\<open>buckets[c].add(m)\<close>.\<close>

definition add_member :: "string \<times> member \<Rightarrow> (string, member set) dict \<Rightarrow> (string, member set) dict" where
  "add_member cm b =
     AList.update (fst cm) (insert (snd cm) (case map_of b (fst cm) of None \<Rightarrow> {} | Some s \<Rightarrow> s)) b"

definition categorised :: "string list \<Rightarrow> string list \<Rightarrow> string list \<Rightarrow> (string \<times> member) list" where
  "categorised topics objs types =
     map (\<lambda>t. (category_of_pubsub t, (''pubsub'', t))) topics @
     map (\<lambda>t. (category_of_stored_object t, (''eventlog_objects'', t))) objs @
     map (\<lambda>t. (category_of_elf t, (''eventlogfile'', t))) types"

definition collisions :: "(string \<times> member) list \<Rightarrow> (string, member set) dict" where
  "collisions cms = filter (\<lambda>(c, ms). card (fst ` ms) > 1) (fold add_member cms [])"

text \<open>\<open>Inl cs\<close> is the raised error.\<close>

definition check_overlap ::
  "string list \<Rightarrow> string list \<Rightarrow> string list \<Rightarrow> bool \<Rightarrow> (string, member set) dict + unit" where
  "check_overlap topics objs types allow_overlap =
     (if allow_overlap then Inr ()
      else let cs = collisions (categorised topics objs types) in if cs = [] then Inr () else Inl cs)"

subsection \<open>The buckets\<close>

definition members_of :: "(string \<times> member) list \<Rightarrow> string \<Rightarrow> member set" where
  "members_of cms c = snd ` {x \<in> set cms. fst x = c}"

lemma fold_add_member:
  "map_of (fold add_member cms b) c =
     (if members_of cms c = {} then map_of b c
      else Some (members_of cms c \<union> (case map_of b c of None \<Rightarrow> {} | Some s \<Rightarrow> s)))"
proof (induction cms arbitrary: b)
  case Nil
  then show ?case by (simp add: members_of_def)
next
  case (Cons cm cms)
  have "members_of (cm # cms) c = (if fst cm = c then insert (snd cm) (members_of cms c) else members_of cms c)"
    by (auto simp: members_of_def)
  then show ?case
    using Cons.IH [of "add_member cm b"] by (auto simp: add_member_def update_conv' split: option.splits)
qed

lemma fold_add_member_distinct:
  "distinct (map fst b) \<Longrightarrow> distinct (map fst (fold add_member cms b))"
  by (induction cms arbitrary: b) (auto simp: add_member_def distinct_update)

lemma collisions_iff:
  "(c, ms) \<in> set (collisions cms) \<longleftrightarrow> ms = members_of cms c \<and> card (fst ` ms) > 1"
proof -
  have "(c, ms) \<in> set (fold add_member cms []) \<longleftrightarrow> map_of (fold add_member cms []) c = Some ms"
    using map_of_eq_Some_iff [OF fold_add_member_distinct [of "[]" cms]] by simp
  then show ?thesis by (auto simp: collisions_def fold_add_member split: if_splits)
qed

lemma card_sources_iff:
  "card (fst ` members_of cms c) > 1 \<longleftrightarrow>
     (\<exists>m n. (c, m) \<in> set cms \<and> (c, n) \<in> set cms \<and> fst m \<noteq> fst n)"
proof -
  have fin: "finite (fst ` members_of cms c)" by (simp add: members_of_def)
  have "card A > 1 \<longleftrightarrow> (\<exists>x\<in>A. \<exists>y\<in>A. x \<noteq> y)" if "finite A" for A :: "string set"
    using that card_le_Suc0_iff_eq [of A] by (auto simp: not_le [symmetric])
  from this [OF fin] show ?thesis by (fastforce simp: members_of_def)
qed

lemma collisions_empty_iff:
  "collisions cms = [] \<longleftrightarrow> \<not> (\<exists>c m n. (c, m) \<in> set cms \<and> (c, n) \<in> set cms \<and> fst m \<noteq> fst n)"
proof -
  have "set (collisions cms) = {(c, members_of cms c) | c. card (fst ` members_of cms c) > 1}" using collisions_iff by auto
  then have "collisions cms = [] \<longleftrightarrow> (\<forall>c. \<not> card (fst ` members_of cms c) > 1)" unfolding set_empty [symmetric] by auto
  then show ?thesis unfolding card_sources_iff by blast
qed

lemma no_overlap:
  assumes "check_overlap topics objs types False = Inr ()"
  shows "(t \<in> set topics \<longrightarrow> ob \<in> set objs \<longrightarrow> category_of_pubsub t \<noteq> category_of_stored_object ob)
    \<and> (t \<in> set topics \<longrightarrow> n \<in> set types \<longrightarrow> category_of_pubsub t \<noteq> category_of_elf n)
    \<and> (ob \<in> set objs \<longrightarrow> n \<in> set types \<longrightarrow> category_of_stored_object ob \<noteq> category_of_elf n)"
proof -
  have free: "\<not> (\<exists>c m n. (c, m) \<in> set (categorised topics objs types) \<and> (c, n) \<in> set (categorised topics objs types) \<and> fst m \<noteq> fst n)"
    using assms by (simp add: check_overlap_def Let_def collisions_empty_iff split: if_splits)
  have "t \<in> set topics \<Longrightarrow> (category_of_pubsub t, (''pubsub'', t)) \<in> set (categorised topics objs types)"
    "ob \<in> set objs \<Longrightarrow> (category_of_stored_object ob, (''eventlog_objects'', ob)) \<in> set (categorised topics objs types)"
    "n \<in> set types \<Longrightarrow> (category_of_elf n, (''eventlogfile'', n)) \<in> set (categorised topics objs types)"
    by (auto simp: categorised_def)
  moreover have "''pubsub'' \<noteq> ''eventlog_objects''" "''pubsub'' \<noteq> ''eventlogfile''" "''eventlog_objects'' \<noteq> ''eventlogfile''" by simp_all
  ultimately show ?thesis using free by (metis fst_conv)
qed

text \<open>
  C39. The guard passes exactly when no identifier of one enabled source falls into the category of
  an identifier of another source; and when it raises, it names exactly the categories that are fed
  by more than one source, each with all of its identifiers.
\<close>

theorem check_overlap_exact:
  "(check_overlap topics objs types False = Inr () \<longleftrightarrow>
      \<not> (\<exists>c m n. (c, m) \<in> set (categorised topics objs types) \<and> (c, n) \<in> set (categorised topics objs types)
           \<and> fst m \<noteq> fst n))
   \<and> check_overlap topics objs types True = Inr ()
   \<and> (case check_overlap topics objs types False of
        Inr _ \<Rightarrow> True
      | Inl cs \<Rightarrow> cs \<noteq> [] \<and> set cs = {(c, members_of (categorised topics objs types) c) | c.
            card (fst ` members_of (categorised topics objs types) c) > 1})"
proof -
  let ?cms = "categorised topics objs types"
  have set: "set (collisions ?cms) = {(c, members_of ?cms c) | c. card (fst ` members_of ?cms c) > 1}"
    using collisions_iff by auto
  then show ?thesis using collisions_empty_iff [of ?cms] by (simp add: check_overlap_def Let_def)
qed

text \<open>The channels of one category meet.\<close>

lemma login_channels:
  "category_of_pubsub ''/event/LoginEventStream'' = ''login''"
  "category_of_stored_object ''LoginEvent'' = ''login''" "category_of_stored_object ''LoginHistory'' = ''login''"
  "category_of_elf ''Login'' = ''login''" "category_of_elf ''Login As'' = category_of_pubsub ''/event/LoginAsEventStream/''"
  by code_simp+

end
