(* ===== verification/StateCmd.thy ===== *)
theory StateCmd
  imports FileStore
begin

section \<open>statecmd.py: inspecting and repairing checkpoints\<close>

text \<open>
  \<^verbatim>\<open>src/sf2loki/statecmd.py\<close> over the file store. A command starts its own store (with
  the lock unless forced), runs one operation, maps the exceptions it knows to exit codes, and
  closes the store; an exception it does not know leaves the command after the close. Loading the
  configuration and building the store are inputs (\<open>startup\<close>); what is printed is data.

  Results: what \<^verbatim>\<open>set\<close>, \<^verbatim>\<open>delete\<close> and \<^verbatim>\<open>show\<close> do to, and report of, the state file
  for every exit code; and that a daemon under a lease, which takes no file lock, is not noticed
  by \<^verbatim>\<open>set\<close> and overwrites what it wrote.
\<close>

definition CONFIG_ERROR_EXIT_CODE :: int where "CONFIG_ERROR_EXIT_CODE = 2"
definition OPERATION_ERROR_EXIT_CODE :: int where "OPERATION_ERROR_EXIT_CODE = 1"
definition RESERVED_KEYS :: "string set" where "RESERVED_KEYS = {EPOCH_KEY}"

datatype startup = ConfigBad | BackendMissing | Ready

datatype cmd_end = Exit int | Uncaught file_error

datatype message =
    MsgConfigError
  | MsgLocked
  | MsgReserved string
  | MsgNoMatch
  | MsgRow string string
  | MsgTotal nat
  | MsgSet string string
  | MsgDeleted string

type_synonym cmd_result = "cmd_end \<times> message list \<times> disk"

definition run_cmd :: "startup \<Rightarrow> nat \<Rightarrow> bool \<Rightarrow> (unit, message list) file_op \<Rightarrow> disk \<Rightarrow> cmd_result" where
  "run_cmd su pid force op d =
     (case su of
        ConfigBad \<Rightarrow> (Exit CONFIG_ERROR_EXIT_CODE, [MsgConfigError], d)
      | BackendMissing \<Rightarrow> (Exit CONFIG_ERROR_EXIT_CODE, [MsgConfigError], d)
      | Ready \<Rightarrow>
          (case op (d, new_file_store pid (\<not> force)) of
             (Inr ms, ds) \<Rightarrow> (Exit 0, ms, fst (close ds))
           | (Inl StateFileLockError, ds) \<Rightarrow> (Exit OPERATION_ERROR_EXIT_CODE, [MsgLocked], fst (close ds))
           | (Inl e, ds) \<Rightarrow> (Uncaught e, [], fst (close ds))))"

text \<open>\<^verbatim>\<open>_whole_document\<close>: a load of any key fills the cache, which is then read.\<close>

definition whole_document :: "(unit, doc) file_op" where
  "whole_document =
     and_then (load []) (\<lambda>_. and_then get_state (\<lambda>(d, s).
       ret (case cache s of None \<Rightarrow> [] | Some doc \<Rightarrow> doc)))"

definition show_op :: "(string \<Rightarrow> string \<Rightarrow> bool) \<Rightarrow> string \<Rightarrow> (unit, message list) file_op" where
  "show_op fnmatch key_glob =
     and_then whole_document (\<lambda>doc.
       let matched = filter (\<lambda>(k, v). k \<notin> RESERVED_KEYS \<and> fnmatch k key_glob) doc in
       ret (if matched = [] then [MsgNoMatch]
            else map (\<lambda>k. MsgRow k (the (map_of matched k))) (sort (map fst matched))
                 @ [MsgTotal (length matched)]))"

definition run_state_show ::
  "(string \<Rightarrow> string \<Rightarrow> bool) \<Rightarrow> startup \<Rightarrow> nat \<Rightarrow> string \<Rightarrow> bool \<Rightarrow> disk \<Rightarrow> cmd_result" where
  "run_state_show fnmatch su pid key_glob force d = run_cmd su pid force (show_op fnmatch key_glob) d"

definition set_op :: "write_io \<Rightarrow> string \<Rightarrow> string \<Rightarrow> (unit, message list) file_op" where
  "set_op io key v = and_then (commit ((), io) key v) (\<lambda>_. ret [MsgSet key v])"

definition run_state_set ::
  "startup \<Rightarrow> nat \<Rightarrow> write_io \<Rightarrow> string \<Rightarrow> string \<Rightarrow> bool \<Rightarrow> disk \<Rightarrow> cmd_result" where
  "run_state_set su pid io key v force d =
     (if key \<in> RESERVED_KEYS then (Exit OPERATION_ERROR_EXIT_CODE, [MsgReserved key], d)
      else run_cmd su pid force (set_op io key v) d)"

definition delete_op :: "write_io \<Rightarrow> string \<Rightarrow> (unit, message list) file_op" where
  "delete_op io key = and_then (delete ((), io) key) (\<lambda>_. ret [MsgDeleted key])"

definition run_state_delete :: "startup \<Rightarrow> nat \<Rightarrow> write_io \<Rightarrow> string \<Rightarrow> bool \<Rightarrow> disk \<Rightarrow> cmd_result" where
  "run_state_delete su pid io key force d =
     (if key \<in> RESERVED_KEYS then (Exit OPERATION_ERROR_EXIT_CODE, [MsgReserved key], d)
      else run_cmd su pid force (delete_op io key) d)"

subsection \<open>Effect on the state file\<close>

lemma persisted_close [simp]: "persisted (fst (close ds)) = persisted (fst ds)"
  by (cases ds) (simp add: close_def persisted_def readable_def)

lemma content_close [simp]: "content (fst (close ds)) = content (fst ds)"
  by (cases ds) (simp add: close_def)

text \<open>The command's own store is released when the command ends, however it ends.\<close>

definition checkpoints :: "disk \<Rightarrow> string \<rightharpoonup> string" where
  "checkpoints d = outside RESERVED_KEYS (persisted d)"

lemma checkpoints_view: "checkpoints d = file_view (d, s)"
  by (simp add: checkpoints_def file_view_def RESERVED_KEYS_def)

lemma checkpoints_close [simp]: "checkpoints (fst (close ds)) = checkpoints (fst ds)"
  by (simp add: checkpoints_def)

lemma new_store_inv [simp]: "file_inv (d, new_file_store i b)"
  by (simp add: file_inv_def new_file_store_def)

lemma set_op_effect:
  assumes "set_op io key v (d, new_file_store pid b) = (r, ds)" "key \<notin> RESERVED_KEYS"
  shows "(\<forall>ms. r = Inr ms \<longrightarrow> ms = [MsgSet key v] \<and> checkpoints (fst ds) = (checkpoints d)(key \<mapsto> v))
    \<and> (\<forall>e. r = Inl e \<longrightarrow> checkpoints (fst ds) = checkpoints d \<or> checkpoints (fst ds) = (checkpoints d)(key \<mapsto> v))"
proof -
  let ?s = "new_file_store pid b :: unit file_store"
  have ok: "items_ok {EPOCH_KEY} [(key, v)]"
    using assms(2) by (simp add: items_ok_def wf_dict_def RESERVED_KEYS_def)
  obtain r1 ds1 where c: "commit_many ((), io) [(key, v)] (d, ?s) = (r1, ds1)" by (metis prod.exhaust)
  have r: "r = map_sum id (\<lambda>_. [MsgSet key v]) r1" "ds = ds1"
    using assms(1) c by (auto simp: set_op_def commit_def and_then_def ret_def split: sum.splits)
  note view = checkpoints_view [of "fst ds1" "snd ds1", simplified] checkpoints_view [of d ?s]
  show ?thesis
  proof (cases r1)
    case (Inr u)
    then have "commit_many ((), io) [(key, v)] (d, ?s) = (Inr (), ds1)" using c by simp
    from fs.commit_law [OF new_store_inv ok this] show ?thesis using r Inr view by simp
  next
    case (Inl e)
    then have "commit_many ((), io) [(key, v)] (d, ?s) = (Inl e, ds1)" using c by simp
    from fs.commit_raise_law [OF new_store_inv ok this]
    have "file_view ds1 = file_view (d, ?s) \<or> file_view ds1 = file_view (d, ?s) ++ map_of [(key, v)]"
      by (cases ds1) (simp add: reset_def file_view_def)
    then show ?thesis using r Inl view by simp
  qed
qed

text \<open>A fresh store without fence and epoch reads the file once.\<close>

lemma ensure_loaded_new:
  assumes "ensure_loaded (d, new_file_store pid b :: unit file_store) = (r, d1, s1)"
  shows "content d1 = content d"
    and "r = Inr doc \<Longrightarrow> readable d = Some doc \<and> cache s1 = Some doc"
    and "r = Inl StateFileLockError \<longleftrightarrow> b \<and> lock_owner d \<noteq> None"
  using assms
  by (auto simp: file_defs new_file_store_def readable_def split: if_splits file_content.splits)

lemma delete_op_effect:
  assumes "delete_op io key (d, new_file_store pid b) = (r, ds)" "key \<notin> RESERVED_KEYS"
  shows "(\<forall>ms. r = Inr ms \<longrightarrow> ms = [MsgDeleted key] \<and> checkpoints (fst ds) = (checkpoints d)(key := None))
    \<and> (\<forall>e. r = Inl e \<longrightarrow> checkpoints (fst ds) = checkpoints d \<or> checkpoints (fst ds) = (checkpoints d)(key := None))"
proof -
  let ?s = "new_file_store pid b :: unit file_store"
  obtain r1 d1 s1 where l: "ensure_loaded (d, ?s) = (r1, d1, s1)" by (metis prod.exhaust)
  have del: "outside RESERVED_KEYS (map_of (AList.delete key doc)) = (outside RESERVED_KEYS (map_of doc))(key := None)" for doc :: doc
    using assms(2) by (rule_tac ext) (auto simp: outside_def restrict_map_def delete_conv')
  have run: "delete ((), io) key (d, ?s) =
      (case r1 of Inl e \<Rightarrow> (Inl e, d1, s1)
       | Inr doc \<Rightarrow> (if map_of doc key = None then ret () else and_then (put_cache (AList.delete key doc)) (\<lambda>_. flush io)) (d1, s1))"
    using l by (simp add: delete_def check_fence_def and_then_def get_state_def new_file_store_def split: sum.split)
  show ?thesis
  proof (cases r1)
    case (Inl e)
    then show ?thesis using assms(1) run ensure_loaded_new(1) [OF l]
      by (auto simp: delete_op_def and_then_def checkpoints_def persisted_def readable_def)
  next
    case (Inr doc)
    then have doc: "readable d = Some doc" "content d1 = content d" using ensure_loaded_new [OF l] by auto
    show ?thesis
    proof (cases "map_of doc key = None")
      case True
      then show ?thesis using assms(1) run Inr doc
        by (auto simp: delete_op_def and_then_def ret_def checkpoints_def persisted_def readable_cong [of d1 d]
            outside_def restrict_map_def)
    next
      case False
      then show ?thesis using assms(1) run Inr doc
        by (cases io) (auto simp: delete_op_def and_then_def ret_def put_cache_def flush_def checkpoints_def
            persisted_def del readable_cong [of d1 d])
    qed
  qed
qed

lemma run_cmd_effect:
  assumes run: "run_cmd Ready pid force op d = (e, ms, d')"
    and op: "op (d, new_file_store pid (\<not> force)) = (r, ds)"
    and returns: "\<And>ms. r = Inr ms \<Longrightarrow> checkpoints (fst ds) = m'"
    and raises: "\<And>x. r = Inl x \<Longrightarrow> checkpoints (fst ds) = checkpoints d \<or> checkpoints (fst ds) = m'"
    and locked: "\<not> force \<Longrightarrow> lock_owner d \<noteq> None \<Longrightarrow> r = Inl StateFileLockError \<and> content (fst ds) = content d"
  shows "(e = Exit 0 \<longrightarrow> checkpoints d' = m') \<and> (checkpoints d' = checkpoints d \<or> checkpoints d' = m')
    \<and> (\<not> force \<and> lock_owner d \<noteq> None \<longrightarrow> content d' = content d \<and> e = Exit 1)"
proof -
  have d': "d' = fst (close ds)" and e: "e = Exit 0 \<longrightarrow> (\<exists>ms. r = Inr ms)" "r = Inl StateFileLockError \<longrightarrow> e = Exit 1"
    using run op
    by (auto simp: run_cmd_def OPERATION_ERROR_EXIT_CODE_def split: sum.splits file_error.splits)
  have "checkpoints d' = checkpoints d \<or> checkpoints d' = m'"
    using d' returns raises by (cases r) simp_all
  with d' e returns locked show ?thesis by auto
qed

lemma ops_locked:
  fixes d :: disk
  assumes "lock_owner d \<noteq> None"
  shows "\<exists>ds. set_op io key v (d, new_file_store pid True) = (Inl StateFileLockError, ds) \<and> content (fst ds) = content d"
    and "\<exists>ds. delete_op io key (d, new_file_store pid True) = (Inl StateFileLockError, ds) \<and> content (fst ds) = content d"
  using assms
  by (simp_all add: set_op_def delete_op_def commit_def commit_many_def delete_def new_file_store_def file_defs)

text \<open>
  C31. \<^verbatim>\<open>state set\<close> and \<^verbatim>\<open>state delete\<close>: exit code 0 means that exactly the named
  checkpoint was written or removed; any other end leaves the checkpoints as they were or with
  exactly that change; and a reserved key, a bad configuration or, without \<^verbatim>\<open>--force\<close>, a lock
  held by another process leaves the file untouched with exit code 1 or 2.
\<close>

theorem state_commands_effect:
  assumes "(run_state_set su pid io key v force d = (e, ms, d') \<and> m' = (checkpoints d)(key \<mapsto> v))
    \<or> (run_state_delete su pid io key force d = (e, ms, d') \<and> m' = (checkpoints d)(key := None))"
  shows "(e = Exit 0 \<longrightarrow> checkpoints d' = m')
    \<and> (checkpoints d' = checkpoints d \<or> checkpoints d' = m')
    \<and> (key \<in> RESERVED_KEYS \<or> su \<noteq> Ready \<or> (\<not> force \<and> lock_owner d \<noteq> None) \<longrightarrow>
         content d' = content d \<and> (e = Exit 1 \<or> e = Exit 2))"
proof (cases "key \<in> RESERVED_KEYS \<or> su \<noteq> Ready")
  case True
  with assms show ?thesis
    by (cases su) (auto simp: run_state_set_def run_state_delete_def run_cmd_def
        CONFIG_ERROR_EXIT_CODE_def OPERATION_ERROR_EXIT_CODE_def split: if_splits)
next
  case False
  let ?s = "new_file_store pid (\<not> force) :: unit file_store"
  have free: "key \<notin> RESERVED_KEYS" "su = Ready" using False by auto
  have "(e = Exit 0 \<longrightarrow> checkpoints d' = m') \<and> (checkpoints d' = checkpoints d \<or> checkpoints d' = m')
    \<and> (\<not> force \<and> lock_owner d \<noteq> None \<longrightarrow> content d' = content d \<and> e = Exit 1)"
    using assms
  proof (elim disjE conjE)
    assume run: "run_state_set su pid io key v force d = (e, ms, d')" and m': "m' = (checkpoints d)(key \<mapsto> v)"
    obtain r ds where op: "set_op io key v (d, ?s) = (r, ds)" by (metis prod.exhaust)
    from run free have "run_cmd Ready pid force (set_op io key v) d = (e, ms, d')" by (simp add: run_state_set_def)
    note effect = run_cmd_effect [of pid force "set_op io key v" d e ms d', OF this op, of m']
    show ?thesis
      using set_op_effect [OF op free(1)] m' ops_locked(1) [of d io key v pid] op by (intro effect) auto
  next
    assume run: "run_state_delete su pid io key force d = (e, ms, d')" and m': "m' = (checkpoints d)(key := None)"
    obtain r ds where op: "delete_op io key (d, ?s) = (r, ds)" by (metis prod.exhaust)
    from run free have "run_cmd Ready pid force (delete_op io key) d = (e, ms, d')" by (simp add: run_state_delete_def)
    note effect = run_cmd_effect [of pid force "delete_op io key" d e ms d', OF this op, of m']
    show ?thesis
      using delete_op_effect [OF op free(1)] m' ops_locked(2) [of d io key pid] op by (intro effect) auto
  qed
  with free show ?thesis by auto
qed

theorem state_commands_effect_witness:
  "checkpoints (snd (snd (run_state_set Ready 9 WriteOk ''k'' ''v2'' False
      \<lparr>content = FileDoc [(''k'', ''v'')], lock_owner = None\<rparr>))) ''k'' = Some ''v2''"
proof -
  let ?d = "\<lparr>content = FileDoc [(''k'', ''v'')], lock_owner = None\<rparr>"
  obtain e ms d' where run: "run_state_set Ready 9 WriteOk ''k'' ''v2'' False ?d = (e, ms, d')" by (metis prod.exhaust)
  have "e = Exit 0"
    using run by (simp add: run_state_set_def run_cmd_def set_op_def commit_def file_eval RESERVED_KEYS_def)
  then have "checkpoints d' = (checkpoints ?d)(''k'' \<mapsto> ''v2'')"
    using state_commands_effect [of Ready 9 WriteOk "''k''" "''v2''" False ?d e ms d'] run by blast
  with run show ?thesis by simp
qed

subsection \<open>The daemon under a lease\<close>

text \<open>
  A daemon under a Kubernetes lease (no file lock, no epoch) has loaded its checkpoints.
  \<^verbatim>\<open>state set\<close> without \<^verbatim>\<open>--force\<close> sees no lock, succeeds and writes its value; the daemon's
  next commit, of another key, writes its cached document and the value is gone.
\<close>

theorem state_set_lost_under_lease:
  "let d0 = \<lparr>content = FileDoc [(''k'', ''old''), (''j'', ''1'')], lock_owner = None\<rparr>;
       s0 = set_fence (\<lambda>_. True) (new_file_store 1 False) :: unit file_store;
       (r1, d1, s1) = load ''k'' (d0, s0);
       (e, ms, d2) = run_state_set Ready 2 WriteOk ''k'' ''repaired'' False d1;
       (r3, d3, s3) = commit_many ((), WriteOk) [(''j'', ''2'')] (d2, s1)
   in e = Exit 0 \<and> checkpoints d2 ''k'' = Some ''repaired'' \<and> r3 = Inr () \<and> checkpoints d3 ''k'' = Some ''old''"
  by (simp add: Let_def run_state_set_def run_cmd_def set_op_def commit_def RESERVED_KEYS_def file_eval
      set_fence_def close_def checkpoints_def outside_def)

subsection \<open>Listing\<close>

text \<open>\<^verbatim>\<open>state show\<close> prints the matching checkpoints, sorted, with their values and their
  number, and changes nothing.\<close>

lemma state_show_exact:
  assumes run: "run_state_show fnmatch Ready pid g force d = (Exit 0, ms, d')"
    and wf: "\<And>doc. readable d = Some doc \<Longrightarrow> distinct (map fst doc)"
  shows "content d' = content d \<and>
    (let ks = {k \<in> dom (checkpoints d). fnmatch k g} in
     if ks = {} then ms = [MsgNoMatch]
     else ms = map (\<lambda>k. MsgRow k (the (checkpoints d k))) (sorted_list_of_set ks) @ [MsgTotal (card ks)])"
proof -
  let ?s = "new_file_store pid (\<not> force) :: unit file_store"
  obtain r1 d1 s1 where l: "ensure_loaded (d, ?s) = (r1, d1, s1)" by (metis prod.exhaust)
  from run l obtain doc where r1: "r1 = Inr doc"
    by (cases r1) (auto simp: run_state_show_def run_cmd_def show_op_def whole_document_def load_def and_then_def
        OPERATION_ERROR_EXIT_CODE_def split: file_error.splits)
  note doc = ensure_loaded_new(2) [OF l r1]
  let ?m = "filter (\<lambda>(k, v). k \<notin> RESERVED_KEYS \<and> fnmatch k g) doc"
  let ?ks = "{k \<in> dom (checkpoints d). fnmatch k g}"
  have dist: "distinct (map fst ?m)" using wf doc by (simp add: distinct_map_filter)
  have ck: "checkpoints d k = (if k \<in> RESERVED_KEYS then None else map_of doc k)" for k
    using doc by (auto simp: checkpoints_def persisted_def outside_def restrict_map_def)
  have ks: "set (map fst ?m) = ?ks"
  proof (rule set_eqI)
    fix k
    have "k \<in> dom (checkpoints d) \<longleftrightarrow> k \<notin> RESERVED_KEYS \<and> k \<in> fst ` set doc"
      using ck [of k] map_of_eq_None_iff [of doc k] by (auto simp: domIff)
    then show "k \<in> set (map fst ?m) \<longleftrightarrow> k \<in> ?ks" by force
  qed
  have vals: "map_of ?m k = checkpoints d k" if "k \<in> ?ks" for k
    using that ck [of k] by (induction doc) auto
  have out: "ms = (if ?m = [] then [MsgNoMatch]
      else map (\<lambda>k. MsgRow k (the (map_of ?m k))) (sort (map fst ?m)) @ [MsgTotal (length ?m)])"
    and "d' = fst (close (d1, s1))"
    using run l r1 doc
    by (auto simp: run_state_show_def run_cmd_def show_op_def whole_document_def load_def and_then_def ret_def
        get_state_def Let_def)
  moreover have "sort (map fst ?m) = sorted_list_of_set ?ks"
    unfolding ks [symmetric] sorted_list_of_set_sort_remdups distinct_remdups_id [OF dist] ..
  moreover have "length ?m = card ?ks" unfolding ks [symmetric] distinct_card [OF dist] by simp
  moreover have "?m = [] \<longleftrightarrow> ?ks = {}" unfolding ks [symmetric] set_empty map_is_Nil_conv ..
  moreover have "map (\<lambda>k. MsgRow k (the (map_of ?m k))) (sorted_list_of_set ?ks) =
      map (\<lambda>k. MsgRow k (the (checkpoints d k))) (sorted_list_of_set ?ks)"
    using vals ks by (intro map_cong refl) (metis (no_types, lifting) List.finite_set set_sorted_list_of_set)
  ultimately show ?thesis
    using ensure_loaded_new(1) [OF l] unfolding Let_def by simp
qed

end
