(* ===== verification/Transforms.thy ===== *)
theory Transforms
  imports Shaping
begin

section \<open>transforms.py: redaction and row filters\<close>

text \<open>
  \<^verbatim>\<open>src/sf2loki/transforms.py\<close>. A rule is the record of its configuration
  (\<^verbatim>\<open>TransformRule\<close>); \<open>compile_rules\<close> turns the list of rules into the list of their
  actions, and \<open>apply_pipeline\<close> runs them over a payload. An action returns whether the row is to
  be dropped, the payload after its mutation, and the counter it incremented. The digest
  (\<open>sha256hex\<close>), the regular expressions (\<open>re_sub\<close>, which raises on a replacement that names a
  missing group) and the glob matcher (\<open>fnmatchcase\<close>) are parameters.

  Results: redaction is non-interfering: if a rule takes two values of a field to the same
  redacted value, the whole pipeline gives the same payload, the same decision and the same
  counters for both, so nothing computed later can tell them apart; what a mask lets through; a
  row is dropped exactly when a drop rule matches what the rules before it left.
\<close>

subsection \<open>Rules\<close>

datatype action = Hash | Mask | DropField | DropRow | RegexReplace

fun action_text :: "action \<Rightarrow> string" where
  "action_text Hash = ''hash''"
| "action_text Mask = ''mask''"
| "action_text DropField = ''drop_field''"
| "action_text DropRow = ''drop_row''"
| "action_text RegexReplace = ''regex_replace''"

record transform_rule =
  rule_action :: action
  rule_fields :: "string list"
  rule_match :: labelset
  rule_pattern :: "string option"
  rule_replacement :: string
  rule_name :: string

text \<open>The validator of \<^verbatim>\<open>TransformRule\<close>; \<open>re_ok\<close> says whether a pattern compiles.\<close>

definition rule_valid :: "(string \<Rightarrow> bool) \<Rightarrow> transform_rule \<Rightarrow> bool" where
  "rule_valid re_ok r \<longleftrightarrow>
     (if rule_action r = DropRow then rule_match r \<noteq> [] \<and> rule_fields r = [] else rule_fields r \<noteq> []) \<and>
     (if rule_action r = RegexReplace
      then (case rule_pattern r of None \<Rightarrow> False | Some p \<Rightarrow> p \<noteq> [] \<and> re_ok p)
      else rule_pattern r = None)"

subsection \<open>Masking one value\<close>

text \<open>\<^verbatim>\<open>s.split(".")\<close>.\<close>

fun split_char :: "char \<Rightarrow> string \<Rightarrow> string list" where
  "split_char d [] = [[]]"
| "split_char d (c # s) =
     (if c = d then [] # split_char d s
      else case split_char d s of [] \<Rightarrow> [[c]] | w # ws \<Rightarrow> (c # w) # ws)"

text \<open>One octet of \<^verbatim>\<open>_IPV4_RE\<close>: 0 to 255 in decimal, without leading zeros.\<close>

definition octet :: "string \<Rightarrow> bool" where
  "octet s \<longleftrightarrow> isdigit s \<and> (length s = 1 \<or> hd s \<noteq> CHR ''0'') \<and> length s \<le> 3 \<and> nat_of_digits s \<le> 255"

text \<open>\<^verbatim>\<open>$\<close> also matches before a final line feed.\<close>

definition ipv4_match :: "string \<Rightarrow> bool" where
  "ipv4_match s \<longleftrightarrow>
     (let t = (if s \<noteq> [] \<and> last s = CHR 10 then butlast s else s);
          ps = split_char (CHR ''.'') t
      in length ps = 4 \<and> list_all octet ps)"

definition mask_value :: "pyval \<Rightarrow> string" where
  "mask_value v =
     (let text = py_str v in
      if CHR ''@'' \<in> set text then ''***'' @ dropWhile (\<lambda>c. c \<noteq> CHR ''@'') text
      else if ipv4_match text then
        (case split_char (CHR ''.'') text of
           [a, b, c, d] \<Rightarrow> a @ ''.'' @ b @ ''.'' @ c @ ''.x''
         | _ \<Rightarrow> ''***'')
      else ''***'')"

subsection \<open>Actions\<close>

type_synonym counter = "string \<times> string"
type_synonym applied = "(bool \<times> payload \<times> counter list) option"
type_synonym compiled = "payload \<Rightarrow> applied"

text \<open>The loop the three value-rewriting actions share: \<open>None\<close> from \<open>g\<close> is an exception.\<close>

fun rewrite_fields :: "(pyval \<Rightarrow> string option) \<Rightarrow> string list \<Rightarrow> compiled" where
  "rewrite_fields g [] p = Some (False, p, [])"
| "rewrite_fields g (k # ks) p =
     (case pget p k of
        None \<Rightarrow> rewrite_fields g ks p
      | Some v \<Rightarrow> (case g v of None \<Rightarrow> None | Some s \<Rightarrow> rewrite_fields g ks (AList.update k (VStr s) p)))"

definition hash_value :: "(string \<Rightarrow> string) \<Rightarrow> string \<Rightarrow> pyval \<Rightarrow> string" where
  "hash_value sha256hex salt v = take 16 (sha256hex (salt @ py_str v))"

definition make_hash :: "(string \<Rightarrow> string) \<Rightarrow> string list \<Rightarrow> string \<Rightarrow> compiled" where
  "make_hash sha256hex ks salt = rewrite_fields (\<lambda>v. Some (hash_value sha256hex salt v)) ks"

definition make_mask :: "string list \<Rightarrow> compiled" where
  "make_mask ks = rewrite_fields (\<lambda>v. Some (mask_value v)) ks"

definition make_drop_field :: "string list \<Rightarrow> compiled" where
  "make_drop_field ks p = Some (False, fold AList.delete ks p, [])"

definition make_regex ::
  "(string \<Rightarrow> string \<Rightarrow> string \<Rightarrow> string option) \<Rightarrow> string list \<Rightarrow> string \<Rightarrow> string \<Rightarrow> compiled" where
  "make_regex re_sub ks pattern replacement =
     rewrite_fields (\<lambda>v. re_sub pattern replacement (py_str v)) ks"

text \<open>\<^verbatim>\<open>payload.get(field, "")\<close>: an explicit null reads as \<^verbatim>\<open>"None"\<close>.\<close>

definition row_matches :: "(string \<Rightarrow> string \<Rightarrow> bool) \<Rightarrow> labelset \<Rightarrow> payload \<Rightarrow> bool" where
  "row_matches fnmatchcase ms p \<longleftrightarrow>
     list_all (\<lambda>(f, glob). fnmatchcase (case map_of p f of None \<Rightarrow> [] | Some v \<Rightarrow> py_str v) glob) ms"

definition make_drop_row ::
  "(string \<Rightarrow> string \<Rightarrow> bool) \<Rightarrow> labelset \<Rightarrow> string \<Rightarrow> string \<Rightarrow> bool \<Rightarrow> compiled" where
  "make_drop_row fnmatchcase ms name source metrics p =
     (if row_matches fnmatchcase ms p then Some (True, p, if metrics then [(source, name)] else [])
      else Some (False, p, []))"

subsection \<open>Pipelines\<close>

record lib =
  sha256hex :: "string \<Rightarrow> string"
  re_sub :: "string \<Rightarrow> string \<Rightarrow> string \<Rightarrow> string option"
  fnmatchcase :: "string \<Rightarrow> string \<Rightarrow> bool"

definition rule_label :: "nat \<Rightarrow> transform_rule \<Rightarrow> string" where
  "rule_label i r =
     (if rule_name r \<noteq> [] then rule_name r else action_text (rule_action r) @ ''-'' @ show_nat i)"

text \<open>\<open>None\<close> is the failed assertion on a missing pattern, which the validator rules out.\<close>

definition compile_rule :: "lib \<Rightarrow> string \<Rightarrow> string \<Rightarrow> bool \<Rightarrow> nat \<Rightarrow> transform_rule \<Rightarrow> compiled option" where
  "compile_rule L salt source metrics i r =
     (case rule_action r of
        Hash \<Rightarrow> Some (make_hash (sha256hex L) (rule_fields r) salt)
      | Mask \<Rightarrow> Some (make_mask (rule_fields r))
      | DropField \<Rightarrow> Some (make_drop_field (rule_fields r))
      | RegexReplace \<Rightarrow>
          map_option (\<lambda>pat. make_regex (re_sub L) (rule_fields r) pat (rule_replacement r)) (rule_pattern r)
      | DropRow \<Rightarrow> Some (make_drop_row (fnmatchcase L) (rule_match r) (rule_label i r) source metrics))"

fun compile_from :: "lib \<Rightarrow> string \<Rightarrow> string \<Rightarrow> bool \<Rightarrow> nat \<Rightarrow> transform_rule list \<Rightarrow> compiled list option" where
  "compile_from L salt source metrics i [] = Some []"
| "compile_from L salt source metrics i (r # rs) =
     (case compile_rule L salt source metrics i r of
        None \<Rightarrow> None
      | Some c \<Rightarrow> map_option ((#) c) (compile_from L salt source metrics (Suc i) rs))"

definition compile_rules :: "lib \<Rightarrow> string \<Rightarrow> string \<Rightarrow> bool \<Rightarrow> transform_rule list \<Rightarrow> compiled list option" where
  "compile_rules L salt source metrics rules = compile_from L salt source metrics 0 rules"

text \<open>\<^verbatim>\<open>TransformPipeline.apply\<close>: \<open>Some (None, cs)\<close> is a dropped row.\<close>

fun apply_pipeline :: "compiled list \<Rightarrow> payload \<Rightarrow> (payload option \<times> counter list) option" where
  "apply_pipeline [] p = Some (Some p, [])"
| "apply_pipeline (r # rs) p =
     (case r p of
        None \<Rightarrow> None
      | Some (True, q, cs) \<Rightarrow> Some (None, cs)
      | Some (False, q, cs) \<Rightarrow> map_option (\<lambda>(res, cs'). (res, cs @ cs')) (apply_pipeline rs q))"

text \<open>The rule name and the fields each warning mentions.\<close>

definition unsalted_hash_warnings :: "transform_rule list \<Rightarrow> string \<Rightarrow> (string \<times> string list) list" where
  "unsalted_hash_warnings rules salt =
     (if salt \<noteq> [] then []
      else map (\<lambda>(i, r). (rule_label i r, rule_fields r))
             (filter (\<lambda>(i, r). rule_action r = Hash) (enumerate 0 rules)))"

subsection \<open>Changing one field\<close>

definition set_field :: "string \<Rightarrow> pyval \<Rightarrow> payload \<Rightarrow> payload" where
  "set_field k v p = map (\<lambda>(j, u). if j = k then (j, v) else (j, u)) p"

lemma set_field_simps [simp]:
  "set_field k v [] = []"
  "set_field k v ((j, u) # p) = (if j = k then (j, v) else (j, u)) # set_field k v p"
  by (simp_all add: set_field_def)

lemma keys_set_field [simp]: "map fst (set_field k v p) = map fst p"
  by (induction p) auto

lemma map_of_set_field: "j \<noteq> k \<Longrightarrow> map_of (set_field k v p) j = map_of p j"
  by (induction p) auto

lemma map_of_set_field_same: "map_of (set_field k v p) k = (if k \<in> fst ` set p then Some v else None)"
  by (induction p) force+

lemma pget_set_field: "j \<noteq> k \<Longrightarrow> pget (set_field k v p) j = pget p j"
  by (simp add: pget_def map_of_set_field)

lemma pget_set_field_same: "v \<noteq> VNone \<Longrightarrow> k \<in> fst ` set p \<Longrightarrow> pget (set_field k v p) k = Some v"
  by (cases v) (auto simp: pget_def map_of_set_field_same)

lemma update_set_field: "j \<noteq> k \<Longrightarrow> AList.update j x (set_field k v p) = set_field k v (AList.update j x p)"
  by (induction p) auto

lemma update_set_field_same:
  "distinct (map fst p) \<Longrightarrow> AList.update k x (set_field k v p) = AList.update k x (set_field k v' p)"
proof (induction p)
  case (Cons a p)
  obtain j u where a: "a = (j, u)" by (cases a)
  have "set_field k v p = set_field k v' p" if "k \<notin> fst ` set p" for v v'
    using that by (induction p) auto
  with Cons a show ?case by auto
qed simp

lemma delete_set_field: "j \<noteq> k \<Longrightarrow> AList.delete j (set_field k v p) = set_field k v (AList.delete j p)"
  by (induction p) auto

lemma delete_set_field_same: "AList.delete k (set_field k v p) = AList.delete k (set_field k v' p)"
  by (induction p) auto

lemma set_field_absent: "k \<notin> fst ` set p \<Longrightarrow> set_field k v p = p"
  by (induction p) auto

subsection \<open>Rules that do not look at a field\<close>

definition result_with :: "string \<Rightarrow> pyval \<Rightarrow> applied \<Rightarrow> applied" where
  "result_with k v = map_option (\<lambda>(b, q, cs). (b, set_field k v q, cs))"

lemma rewrite_fields_blind:
  "k \<notin> set ks \<Longrightarrow> rewrite_fields g ks (set_field k v p) = result_with k v (rewrite_fields g ks p)"
  by (induction g ks p rule: rewrite_fields.induct)
    (auto simp: result_with_def pget_set_field update_set_field split: option.splits)

lemma fold_delete_blind:
  "k \<notin> set ks \<Longrightarrow> fold AList.delete ks (set_field k v p) = set_field k v (fold AList.delete ks p)"
  by (induction ks arbitrary: p) (auto simp: delete_set_field)

lemma row_matches_blind:
  "k \<notin> fst ` set ms \<Longrightarrow> row_matches g ms (set_field k v p) = row_matches g ms p"
  by (induction ms) (auto simp: row_matches_def map_of_set_field)

definition reads :: "transform_rule \<Rightarrow> string set" where
  "reads r = set (rule_fields r) \<union> fst ` set (rule_match r)"

lemma compile_rule_blind:
  assumes "compile_rule L salt source metrics i r = Some c" "k \<notin> reads r"
  shows "c (set_field k v p) = result_with k v (c p)"
proof (cases "rule_action r")
  case DropRow
  have "row_matches g (rule_match r) (set_field k v p) = row_matches g (rule_match r) p" for g
    using assms(2) by (simp add: reads_def row_matches_blind)
  with assms DropRow show ?thesis by (auto simp: compile_rule_def make_drop_row_def result_with_def)
next
  case DropField
  with assms show ?thesis
    by (auto simp: compile_rule_def make_drop_field_def result_with_def reads_def fold_delete_blind)
qed (use assms in \<open>auto simp: compile_rule_def make_hash_def make_mask_def make_regex_def reads_def rewrite_fields_blind\<close>)

lemma rewrite_fields_wf:
  "rewrite_fields g ks p = Some (b, q, cs) \<Longrightarrow> distinct (map fst p) \<Longrightarrow> distinct (map fst q)"
  by (induction g ks p rule: rewrite_fields.induct) (auto split: option.splits simp: distinct_update)

lemma fold_delete_wf: "distinct (map fst p) \<Longrightarrow> distinct (map fst (fold AList.delete ks p))"
  by (induction ks arbitrary: p) (auto simp: distinct_delete)

lemma compile_rule_wf:
  assumes "compile_rule L salt source metrics i r = Some c" "c p = Some (b, q, cs)" "distinct (map fst p)"
  shows "distinct (map fst q)"
  using assms
  by (cases "rule_action r")
    (auto simp: compile_rule_def make_hash_def make_mask_def make_regex_def make_drop_field_def make_drop_row_def
      dest: rewrite_fields_wf intro: fold_delete_wf split: if_splits)

subsection \<open>Rules that redact a field\<close>

text \<open>What a rule makes of a value of one of its fields: \<open>None\<close> when it raises, \<open>Some None\<close> when
  it removes the field.\<close>

definition redact :: "lib \<Rightarrow> string \<Rightarrow> transform_rule \<Rightarrow> pyval \<Rightarrow> string option option" where
  "redact L salt r v =
     (case rule_action r of
        Hash \<Rightarrow> Some (Some (hash_value (sha256hex L) salt v))
      | Mask \<Rightarrow> Some (Some (mask_value v))
      | DropField \<Rightarrow> Some None
      | RegexReplace \<Rightarrow>
          (case rule_pattern r of
             None \<Rightarrow> None
           | Some pat \<Rightarrow> map_option Some (re_sub L pat (rule_replacement r) (py_str v)))
      | DropRow \<Rightarrow> None)"

lemma rewrite_fields_redacts:
  assumes "k \<in> set ks" "g v = g v'" "v \<noteq> VNone" "v' \<noteq> VNone" "distinct (map fst p)"
  shows "rewrite_fields g ks (set_field k v p) = rewrite_fields g ks (set_field k v' p)"
proof (cases "k \<in> fst ` set p")
  case False
  then show ?thesis by (simp add: set_field_absent)
next
  case True
  with assms show ?thesis
  proof (induction ks arbitrary: p)
    case (Cons j ks)
    show ?case
    proof (cases "j = k")
      case True
      then show ?thesis
        using Cons.prems pget_set_field_same [of v k p] pget_set_field_same [of v' k p]
          update_set_field_same [of p k _ v v']
        by (simp split: option.split)
    next
      case False
      with Cons.prems have k: "k \<in> set ks" by simp
      show ?thesis
      proof (cases "pget p j")
        case None
        then show ?thesis using Cons False k by (simp add: pget_set_field)
      next
        case (Some u)
        have "rewrite_fields g ks (AList.update j (VStr s) (set_field k v p)) =
            rewrite_fields g ks (AList.update j (VStr s) (set_field k v' p))" for s
          using Cons.IH [of "AList.update j (VStr s) p"] Cons.prems False k
          by (simp add: update_set_field distinct_update dom_update)
        then show ?thesis using Some False by (simp add: pget_set_field split: option.split)
      qed
    qed
  qed simp
qed

lemma fold_delete_redacts:
  "k \<in> set ks \<Longrightarrow> fold AList.delete ks (set_field k v p) = fold AList.delete ks (set_field k v' p)"
proof (induction ks arbitrary: p)
  case (Cons j ks)
  show ?case
  proof (cases "j = k")
    case True
    then show ?thesis using delete_set_field_same [of k v p v'] by simp
  next
    case False
    then show ?thesis using Cons by (simp add: delete_set_field)
  qed
qed simp

lemma compile_rule_redacts:
  assumes "compile_rule L salt source metrics i r = Some c" "k \<in> set (rule_fields r)" "rule_action r \<noteq> DropRow"
    and "redact L salt r v = redact L salt r v'" "v \<noteq> VNone" "v' \<noteq> VNone" "distinct (map fst p)"
  shows "c (set_field k v p) = c (set_field k v' p)"
proof (cases "rule_action r")
  case DropField
  with assms show ?thesis
    using fold_delete_redacts [OF assms(2)] by (auto simp: compile_rule_def make_drop_field_def)
next
  case RegexReplace
  then obtain pat where pat: "rule_pattern r = Some pat" "c = make_regex (re_sub L) (rule_fields r) pat (rule_replacement r)"
    using assms(1) by (auto simp: compile_rule_def)
  then have "re_sub L pat (rule_replacement r) (py_str v) = re_sub L pat (rule_replacement r) (py_str v')"
    using assms(4) RegexReplace by (cases "re_sub L pat (rule_replacement r) (py_str v)";
        cases "re_sub L pat (rule_replacement r) (py_str v')") (simp_all add: redact_def)
  from rewrite_fields_redacts [of k _ "\<lambda>v. re_sub L pat (rule_replacement r) (py_str v)", OF assms(2) this assms(5-7)]
  show ?thesis unfolding pat(2) make_regex_def .
qed (use assms in \<open>auto simp: compile_rule_def make_hash_def make_mask_def redact_def intro!: rewrite_fields_redacts\<close>)

text \<open>
  C19. Redaction is non-interfering. Let a rule take two values \<open>v\<close> and \<open>v'\<close> of the field
  \<open>k\<close> to the same redacted value (a removed field: any two values; a mask: the same domain or
  the same /24; a hash: the same digest), and let no rule before it read \<open>k\<close>. Then the whole
  pipeline cannot tell the two payloads apart: same payload out, same drop decision, same counters,
  same exception.
\<close>

theorem redaction_noninterference:
  assumes comp: "compile_from L salt source metrics i (pre @ r # post) = Some cs"
    and pre: "\<And>q. q \<in> set pre \<Longrightarrow> k \<notin> reads q"
    and r: "k \<in> set (rule_fields r)" "rule_action r \<noteq> DropRow" "redact L salt r v = redact L salt r v'"
    and p: "v \<noteq> VNone" "v' \<noteq> VNone" "distinct (map fst p)"
  shows "apply_pipeline cs (set_field k v p) = apply_pipeline cs (set_field k v' p)"
  using comp pre p(3)
proof (induction pre arbitrary: i cs p)
  case Nil
  then obtain c cs' where c: "compile_rule L salt source metrics i r = Some c" "cs = c # cs'"
    by (auto split: option.splits)
  show ?case using compile_rule_redacts [OF c(1) r p(1,2) Nil(3)] c(2) by simp
next
  case (Cons q pre)
  then obtain c cs' where c: "compile_rule L salt source metrics i q = Some c" "cs = c # cs'"
    "compile_from L salt source metrics (Suc i) (pre @ r # post) = Some cs'"
    by (auto split: option.splits)
  note blind = compile_rule_blind [OF c(1) Cons.prems(2) [of q], of _ p, simplified]
  show ?case
  proof (cases "c p")
    case None
    then show ?thesis using c(2) blind by (simp add: result_with_def)
  next
    case (Some out)
    obtain b q' ks where out: "out = (b, q', ks)" by (cases out)
    have "apply_pipeline cs' (set_field k v q') = apply_pipeline cs' (set_field k v' q')"
      using Cons.IH [OF c(3)] Cons.prems compile_rule_wf [OF c(1), of p] Some out by simp
    then show ?thesis using c(2) blind Some out by (cases b) (simp_all add: result_with_def)
  qed
qed

text \<open>Two addresses of one /24, seen by a pipeline that drops page views and then masks.\<close>

definition ip_rules :: "transform_rule list" where
  "ip_rules =
     [\<lparr>rule_action = DropRow, rule_fields = [], rule_match = [(''EVENT_TYPE'', ''PageView'')], rule_pattern = None,
       rule_replacement = [], rule_name = []\<rparr>,
      \<lparr>rule_action = Mask, rule_fields = [''IP''], rule_match = [], rule_pattern = None, rule_replacement = [],
       rule_name = []\<rparr>]"

definition plain_lib :: lib where
  "plain_lib = \<lparr>sha256hex = id, re_sub = (\<lambda>_ _ s. Some s), fnmatchcase = (=)\<rparr>"

lemma mask_ip_examples:
  "mask_value (VStr ''203.0.113.7'') = ''203.0.113.x''" "mask_value (VStr ''203.0.113.77'') = ''203.0.113.x''"
  by (simp_all add: mask_value_def ipv4_match_def octet_def isdigit_def is_digit_def less_eq_char_def
      nat_of_digits_def digit_val_def Let_def)

theorem redaction_noninterference_witness:
  "\<exists>cs. compile_from plain_lib [] ''pubsub'' True 0 ip_rules = Some cs \<and>
     apply_pipeline cs [(''IP'', VStr ''203.0.113.7''), (''EVENT_TYPE'', VStr ''Login'')] =
     apply_pipeline cs [(''IP'', VStr ''203.0.113.77''), (''EVENT_TYPE'', VStr ''Login'')]"
proof -
  let ?p = "[(''IP'', VNone), (''EVENT_TYPE'', VStr ''Login'')]"
  obtain cs where cs: "compile_from plain_lib [] ''pubsub'' True 0 ([ip_rules ! 0] @ ip_rules ! 1 # []) = Some cs"
    by (simp add: ip_rules_def compile_rule_def)
  have "apply_pipeline cs (set_field ''IP'' (VStr ''203.0.113.7'') ?p) =
      apply_pipeline cs (set_field ''IP'' (VStr ''203.0.113.77'') ?p)"
    by (rule redaction_noninterference [OF cs])
      (auto simp: ip_rules_def reads_def redact_def mask_ip_examples)
  with cs show ?thesis by (simp add: ip_rules_def)
qed

subsection \<open>Counters and masks\<close>

lemma compile_rule_counters:
  assumes "compile_rule L salt source True i r = Some c" "c p = Some (b, q, cs)"
  shows "if b then rule_action r = DropRow \<and> cs = [(source, rule_label i r)] else cs = []"
proof -
  have rw: "\<not> b \<and> cs = []" if "rewrite_fields g ks p = Some (b, q, cs)" for g ks
    using that by (induction g ks p rule: rewrite_fields.induct) (auto split: option.splits)
  show ?thesis
  proof (cases "rule_action r")
    case DropRow
    then show ?thesis using assms by (auto simp: compile_rule_def make_drop_row_def split: if_splits)
  next
    case DropField
    then show ?thesis using assms by (auto simp: compile_rule_def make_drop_field_def)
  qed (use assms rw in \<open>auto simp: compile_rule_def make_hash_def make_mask_def make_regex_def\<close>)
qed

lemma drop_counts_once:
  assumes "compile_from L salt source True i rules = Some cs" "apply_pipeline cs p = Some (res, ks)"
  shows "if res = None
    then \<exists>j < length rules. rule_action (rules ! j) = DropRow \<and> ks = [(source, rule_label (i + j) (rules ! j))]
    else ks = []"
  using assms
proof (induction rules arbitrary: i cs p ks)
  case (Cons r rules)
  from Cons.prems(1) obtain c cs' where c: "compile_rule L salt source True i r = Some c" "cs = c # cs'"
      "compile_from L salt source True (Suc i) rules = Some cs'"
    by (auto split: option.splits)
  from Cons.prems(2) c(2) obtain b q k1 where out: "c p = Some (b, q, k1)" by (cases "c p") auto
  note cnt = compile_rule_counters [OF c(1) out]
  show ?case
  proof (cases b)
    case True
    then show ?thesis using Cons.prems(2) c(2) out cnt by (intro if_split [THEN iffD2]) auto
  next
    case False
    then obtain k2 where k2: "apply_pipeline cs' q = Some (res, k2)" "ks = k2"
      using Cons.prems(2) c(2) out cnt by auto
    from Cons.IH [OF c(3) k2(1)] k2(2) show ?thesis by (auto split: if_splits)
  qed
qed auto

text \<open>A mask keeps everything after the first \<^verbatim>\<open>@\<close>, whatever follows it.\<close>

lemma mask_keeps_after_first_at:
  "CHR ''@'' \<notin> set a \<Longrightarrow> mask_value (VStr (a @ CHR ''@'' # rest)) = ''***@'' @ rest"
proof -
  assume "CHR ''@'' \<notin> set a"
  then have "dropWhile (\<lambda>c. c \<noteq> CHR ''@'') (a @ CHR ''@'' # rest) = CHR ''@'' # rest"
    by (induction a) auto
  then show ?thesis by (simp add: mask_value_def)
qed

end
