(* ===== verification/ObjectsSource.thy ===== *)
theory ObjectsSource
  imports Transforms Model
begin

section \<open>sources/eventlog_objects_source.py: polling event objects by SOQL\<close>

text \<open>
  \<^verbatim>\<open>src/sf2loki/sources/eventlog_objects_source.py\<close> with the literals of
  \<^verbatim>\<open>salesforce/soql_client.py\<close>. A cycle of one object takes the answers of the query
  endpoint as a list, one per query it sends (a list that is used up is a cycle still waiting),
  and gives the entries it yields, the queries it sent, how it ended and the state after it. The
  stop event is a number of checks that still find it clear. The date parsers, the JSON codec, the
  digest and the compiled transforms are parameters.

  Results: against a fixed table and with enough answers, the ascending drain processes exactly
  the records behind its cursor, each once and in order, whatever the number of equal timestamps;
  every token it yields can be read back as a valid watermark with at most 500 ids; the cached
  serialization never differs from a fresh one. Two results show the limits: once ids are carried, a
  record that appears late at the watermark with a smaller id is never fetched; and a memory cap not
  above the number of records at the watermark stops a big object for good.
\<close>

subsection \<open>Watermarks, checkpoints and queries\<close>

definition PAGE_LIMIT :: nat where "PAGE_LIMIT = 200"
definition MAX_CARRIED_IDS :: nat where "MAX_CARRIED_IDS = 500"
definition ERROR_LOG_THRESHOLD :: nat where "ERROR_LOG_THRESHOLD = 3"

definition watermark_datetime :: "dt_parser \<Rightarrow> string \<Rightarrow> datetime option" where
  "watermark_datetime fromiso s = (if s = [] then None else fromiso (replace1 (CHR ''Z'') ''+00:00'' s))"

definition is_valid_watermark :: "dt_parser \<Rightarrow> string \<Rightarrow> bool" where
  "is_valid_watermark fromiso s \<longleftrightarrow> watermark_datetime fromiso s \<noteq> None"

text \<open>A decoded JSON text, as far as it is looked at: an array field has its elements and its own
  \<^verbatim>\<open>str()\<close>.\<close>

datatype jfield = FVal pyval | FArr "pyval list" string
datatype json = JObject "(string, jfield) dict" | JNotObject

definition parse_checkpoint :: "(string \<Rightarrow> json option) \<Rightarrow> string \<Rightarrow> string \<times> string list" where
  "parse_checkpoint loads raw =
     (case loads raw of
        None \<Rightarrow> (raw, [])
      | Some JNotObject \<Rightarrow> (raw, [])
      | Some (JObject d) \<Rightarrow>
          ((case map_of d ''last_ts'' of
              None \<Rightarrow> [] | Some (FVal v) \<Rightarrow> or_empty (Some v) | Some (FArr vs s) \<Rightarrow> if vs = [] then [] else s),
           (case map_of d ''ids'' of Some (FArr vs s) \<Rightarrow> map py_str vs | _ \<Rightarrow> [])))"

definition id_of :: "payload \<Rightarrow> string" where
  "id_of r = or_empty (map_of r ''Id'')"

definition ts_of :: "string \<Rightarrow> payload \<Rightarrow> string" where
  "ts_of f r = or_empty (map_of r f)"

definition escape_soql_string :: "string \<Rightarrow> string" where
  "escape_soql_string s = replace1 (CHR 39) [CHR 92, CHR 39] (replace1 (CHR 92) [CHR 92, CHR 92] s)"

definition soql_id_list :: "string list \<Rightarrow> string" where
  "soql_id_list ids = join '', '' (map (\<lambda>i. [CHR 39] @ escape_soql_string i @ [CHR 39]) ids)"

text \<open>The queries, before they are put into text: an ascending cursor, with the id once one is known,
  and the clauses of a descending one.\<close>

datatype bound = NoBound | Below string bool | TieAt string "string list"

datatype query =
    AscFrom string "string option"
  | DescFrom string bound

record object_config =
  obj_name :: string
  ts_field :: string
  sample :: rat
  big_object :: bool
  max_catchup :: nat
  lookback :: int

fun where_clauses :: "string \<Rightarrow> query \<Rightarrow> string list" where
  "where_clauses f (AscFrom lit None) = [f @ '' >= '' @ lit]"
| "where_clauses f (AscFrom lit (Some i)) =
     [''('' @ f @ '' > '' @ lit @ '' OR ('' @ f @ '' = '' @ lit @ '' AND Id > '' @ [CHR 39]
        @ escape_soql_string i @ [CHR 39] @ ''))'']"
| "where_clauses f (DescFrom lit NoBound) = [f @ '' >= '' @ lit]"
| "where_clauses f (DescFrom lit (Below u excl)) =
     [f @ '' >= '' @ lit, f @ (if excl then '' < '' else '' <= '') @ u]"
| "where_clauses f (DescFrom lit (TieAt t ids)) =
     [f @ '' >= '' @ lit, f @ '' = '' @ t] @
     (if ids = [] then [] else [''Id NOT IN ('' @ soql_id_list ids @ '')''])"

definition soql_text :: "object_config \<Rightarrow> query \<Rightarrow> string" where
  "soql_text obj q =
     ''SELECT FIELDS(ALL) FROM '' @ obj_name obj @ '' WHERE '' @ join '' AND '' (where_clauses (ts_field obj) q) @
     '' ORDER BY '' @ ts_field obj @
     (case q of AscFrom _ _ \<Rightarrow> '' ASC, Id ASC'' | DescFrom _ _ \<Rightarrow> '' DESC'') @
     '' LIMIT '' @ show_nat PAGE_LIMIT"

subsection \<open>State and one record\<close>

datatype soql_error = SoqlThrottledError | SoqlError

type_synonym soql_answer = "soql_error + payload list"

record elo_state =
  consecutive_failures :: "(string, nat) dict"
  cycle_throttled :: bool
  stall_boundaries :: "(string, string) dict"
  stall_alerts :: nat
  checkpoint_cache :: "(string, string \<times> string list \<times> string) dict"

definition new_elo_state :: elo_state where
  "new_elo_state = \<lparr>consecutive_failures = [], cycle_throttled = False, stall_boundaries = [],
     stall_alerts = 0, checkpoint_cache = []\<rparr>"

record elo_env =
  e_fromiso :: dt_parser
  e_strp :: dt_parser
  e_fmt :: "datetime \<Rightarrow> string"
  e_fmt_default :: "datetime \<Rightarrow> string"
  e_now :: datetime
  e_loads :: "string \<Rightarrow> json option"
  e_dumps_ck :: "string list \<Rightarrow> string \<Rightarrow> string"
  e_dumps :: "payload \<Rightarrow> ustring"
  e_dumps_key :: "payload \<Rightarrow> string"
  e_sha256 :: "string \<Rightarrow> nat list"
  e_transforms :: "compiled list"
  e_sm_fields :: "string list"

definition checkpoint_value :: "elo_env \<Rightarrow> string \<Rightarrow> string list \<Rightarrow> string \<Rightarrow> elo_state \<Rightarrow> string \<times> elo_state" where
  "checkpoint_value E key window wm st =
     (let fresh = (let v = e_dumps_ck E window wm
                   in (v, st\<lparr>checkpoint_cache := AList.update key (wm, window, v) (checkpoint_cache st)\<rparr>)) in
      case map_of (checkpoint_cache st) key of
        None \<Rightarrow> fresh
      | Some (w, ws, v) \<Rightarrow> if w = wm \<and> ws = window then (v, st) else fresh)"

definition take_last :: "nat \<Rightarrow> 'a list \<Rightarrow> 'a list" where
  "take_last n xs = drop (length xs - n) xs"

definition advance :: "elo_env \<Rightarrow> object_config \<Rightarrow> payload \<Rightarrow> string \<Rightarrow> string list \<Rightarrow> string \<times> string list" where
  "advance E obj r wm window =
     (let t = ts_of (ts_field obj) r; i = id_of r
      in (if is_valid_watermark (e_fromiso E) t then t else wm,
          if i = [] then window else take_last MAX_CARRIED_IDS (window @ [i])))"

text \<open>\<open>None\<close> is an exception of a transform; a dropped record gives no entry.\<close>

definition emit_record ::
  "elo_env \<Rightarrow> object_config \<Rightarrow> string \<Rightarrow> payload \<Rightarrow> string \<Rightarrow> string list \<Rightarrow> elo_state
     \<Rightarrow> (log_entry option \<times> string \<times> string list \<times> elo_state) option" where
  "emit_record E obj key r wm window st =
     (case advance E obj r wm window of
        (wm1, window1) \<Rightarrow>
          (case apply_pipeline (e_transforms E) r of
             None \<Rightarrow> None
           | Some (None, _) \<Rightarrow> Some (None, wm1, window1, st)
           | Some (Some r1, _) \<Rightarrow>
               if sample obj < 1 \<and>
                  \<not> should_keep (e_sha256 E) (if id_of r \<noteq> [] then id_of r else e_dumps_key E r1) (sample obj)
               then Some (None, wm1, window1, st)
               else
                 (let ts = fst (extract_timestamp_checked (e_fromiso E) (e_strp E) (e_now E) r1
                                [ts_field obj, ''EventDate'', ''CreatedDate''] (watermark_datetime (e_fromiso E) wm1));
                      (ln, sm) = route_fields (e_dumps E) r1 (e_sm_fields E);
                      (v, st1) = checkpoint_value E key window1 wm1 st
                  in Some (Some \<lparr>timestamp = ts, labels = [(''source'', ''eventlog_objects''), (''event_type'', obj_name obj)],
                             line = ln, structured_metadata = sm, checkpoint = \<lparr>tok_key = key, tok_value = v\<rparr>,
                             checkpoint_only = False, line_nbytes_memo = - 1\<rparr>, wm1, window1, st1))))"

definition checkpoint_only_entry ::
  "elo_env \<Rightarrow> string \<Rightarrow> string \<Rightarrow> string list \<Rightarrow> elo_state \<Rightarrow> log_entry \<times> elo_state" where
  "checkpoint_only_entry E key wm window st =
     (case checkpoint_value E key window wm st of
        (v, st1) \<Rightarrow>
          (\<lparr>timestamp = e_now E, labels = [], line = [], structured_metadata = [],
            checkpoint = \<lparr>tok_key = key, tok_value = v\<rparr>, checkpoint_only = True, line_nbytes_memo = - 1\<rparr>, st1))"

definition record_watermark_stall :: "object_config \<Rightarrow> string \<Rightarrow> elo_state \<Rightarrow> elo_state" where
  "record_watermark_stall obj boundary st =
     st\<lparr>stall_alerts := stall_alerts st +
          (if map_of (stall_boundaries st) (obj_name obj) = Some boundary then 1 else 0),
        stall_boundaries := AList.update (obj_name obj) boundary (stall_boundaries st)\<rparr>"

subsection \<open>A cycle\<close>

text \<open>\<open>stop_in\<close>: how many more checks find the stop event clear, if it is ever set.\<close>

record cycle =
  cy_wm :: string
  cy_window :: "string list"
  cy_state :: elo_state
  cy_stop :: "nat option"
  cy_out :: "log_entry list"
  cy_queries :: "query list"
  cy_emitted :: "payload list"

datatype cycle_end = CyDone | CyStopped | CyFailed | CyRaised | CyWaiting

definition check_stop :: "cycle \<Rightarrow> bool \<times> cycle" where
  "check_stop cy =
     (case cy_stop cy of
        None \<Rightarrow> (False, cy)
      | Some 0 \<Rightarrow> (True, cy)
      | Some (Suc n) \<Rightarrow> (False, cy\<lparr>cy_stop := Some n\<rparr>))"

text \<open>The loop over the new records; \<open>cy_emitted\<close> lists the records gone through.\<close>

fun emit_loop :: "elo_env \<Rightarrow> object_config \<Rightarrow> string \<Rightarrow> payload list \<Rightarrow> cycle \<Rightarrow> cycle_end \<times> cycle" where
  "emit_loop E obj key [] cy = (CyDone, cy)"
| "emit_loop E obj key (r # rs) cy =
     (case check_stop cy of
        (True, cy1) \<Rightarrow> (CyStopped, cy1)
      | (False, cy1) \<Rightarrow>
          (case emit_record E obj key r (cy_wm cy1) (cy_window cy1) (cy_state cy1) of
             None \<Rightarrow> (CyRaised, cy1)
           | Some (eo, wm, window, st) \<Rightarrow>
               emit_loop E obj key rs
                 (cy1\<lparr>cy_wm := wm, cy_window := window, cy_state := st,
                      cy_out := cy_out cy1 @ (case eo of None \<Rightarrow> [] | Some e \<Rightarrow> [e]),
                      cy_emitted := cy_emitted cy1 @ [r]\<rparr>)))"

definition fail_cycle :: "object_config \<Rightarrow> soql_error \<Rightarrow> cycle \<Rightarrow> cycle" where
  "fail_cycle obj err cy =
     (case err of
        SoqlThrottledError \<Rightarrow> cy\<lparr>cy_state := (cy_state cy)\<lparr>cycle_throttled := True\<rparr>\<rparr>
      | SoqlError \<Rightarrow>
          cy\<lparr>cy_state := (cy_state cy)\<lparr>consecutive_failures :=
             AList.update (obj_name obj)
               ((case map_of (consecutive_failures (cy_state cy)) (obj_name obj) of None \<Rightarrow> 0 | Some n \<Rightarrow> n) + 1)
               (consecutive_failures (cy_state cy))\<rparr>\<rparr>)"

definition clear_failures :: "object_config \<Rightarrow> cycle \<Rightarrow> cycle" where
  "clear_failures obj cy =
     cy\<lparr>cy_state := (cy_state cy)\<lparr>consecutive_failures :=
        AList.delete (obj_name obj) (consecutive_failures (cy_state cy))\<rparr>\<rparr>"

definition clear_stall :: "object_config \<Rightarrow> elo_state \<Rightarrow> elo_state" where
  "clear_stall obj st = st\<lparr>stall_boundaries := AList.delete (obj_name obj) (stall_boundaries st)\<rparr>"

definition asc_query :: "elo_env \<Rightarrow> cycle \<Rightarrow> query" where
  "asc_query E cy =
     AscFrom (to_soql_datetime_literal (e_fromiso E) (e_fmt E) (cy_wm cy))
       (if cy_window cy = [] \<or> last (cy_window cy) = [] then None else Some (last (cy_window cy)))"

fun asc_drain :: "elo_env \<Rightarrow> object_config \<Rightarrow> string \<Rightarrow> soql_answer list \<Rightarrow> cycle \<Rightarrow> cycle_end \<times> cycle" where
  "asc_drain E obj key [] cy = (CyWaiting, cy\<lparr>cy_queries := cy_queries cy @ [asc_query E cy]\<rparr>)"
| "asc_drain E obj key (a # as) cy =
     (let cy1 = cy\<lparr>cy_queries := cy_queries cy @ [asc_query E cy]\<rparr> in
      case a of
        Inl err \<Rightarrow> (CyFailed, fail_cycle obj err cy1)
      | Inr page \<Rightarrow>
          (let new = filter (\<lambda>r. id_of r \<notin> set (cy_window cy1)) page in
           if new = []
           then (CyDone, if length page \<ge> PAGE_LIMIT
                         then cy1\<lparr>cy_state := record_watermark_stall obj (cy_wm cy1) (cy_state cy1)\<rparr> else cy1)
           else
             (case emit_loop E obj key new (cy1\<lparr>cy_state := clear_stall obj (cy_state cy1)\<rparr>) of
                (CyDone, cy2) \<Rightarrow>
                  (let cy3 = clear_failures obj cy2 in
                   if length page < PAGE_LIMIT then (CyDone, cy3) else asc_drain E obj key as cy3)
              | res \<Rightarrow> res)))"

subsection \<open>Big objects: the descending drain\<close>

definition DT_MAX :: datetime where "DT_MAX = 253402300799999999"
definition DT_MIN :: datetime where "DT_MIN = - 62135596800000000"

text \<open>The collected records in the order they were first seen; a page adds those whose id is new.\<close>

fun collect :: "payload list \<Rightarrow> (string, payload) dict \<Rightarrow> string list \<times> (string, payload) dict" where
  "collect [] col = ([], col)"
| "collect (r # rs) col =
     (if id_of r = [] \<or> id_of r \<in> fst ` set col then collect rs col
      else case collect rs (col @ [(id_of r, r)]) of (ids, col1) \<Rightarrow> (id_of r # ids, col1))"

definition evict :: "nat \<Rightarrow> (string, payload) dict \<Rightarrow> (string, payload) dict" where
  "evict cap col = (if cap = 0 then col else take_last cap col)"

definition oldest_dt :: "elo_env \<Rightarrow> string \<Rightarrow> datetime" where
  "oldest_dt E s = (case watermark_datetime (e_fromiso E) s of None \<Rightarrow> DT_MAX | Some t \<Rightarrow> t)"

definition page_ts :: "object_config \<Rightarrow> payload list \<Rightarrow> string list" where
  "page_ts obj page = remdups (map (ts_of (ts_field obj)) page)"

text \<open>\<^verbatim>\<open>min(distinct_ts, key=oldest_dt)\<close>.\<close>

fun min_by :: "('a \<Rightarrow> 'b::linorder) \<Rightarrow> 'a \<Rightarrow> 'a list \<Rightarrow> 'a" where
  "min_by f x [] = x"
| "min_by f x (y # ys) = min_by f (if f y < f x then y else x) ys"

definition desc_query :: "elo_env \<Rightarrow> string \<Rightarrow> bound \<Rightarrow> query" where
  "desc_query E wm b =
     (let lit = to_soql_datetime_literal (e_fromiso E) (e_fmt E) in
      DescFrom (lit wm)
        (case b of
           NoBound \<Rightarrow> NoBound
         | Below u excl \<Rightarrow> Below (lit u) excl
         | TieAt t ids \<Rightarrow> TieAt (lit t) ids))"

text \<open>What follows a page: go on with a new bound, or stop draining (with a stall to record).\<close>

datatype drain_next = Continue bound | Drained | Stalled string

definition drain_next :: "elo_env \<Rightarrow> object_config \<Rightarrow> string \<Rightarrow> payload list \<Rightarrow> string list \<Rightarrow> bound \<Rightarrow> drain_next" where
  "drain_next E obj wm page new_ids b =
     (let short_page = length page < PAGE_LIMIT; dts = page_ts obj page in
      case b of
        TieAt t ids \<Rightarrow>
          if short_page then Continue (Below t True)
          else if new_ids = [] then Stalled t
          else Continue (TieAt t (ids @ new_ids))
      | _ \<Rightarrow>
          if short_page then Drained
          else if length dts = 1 then Continue (TieAt (hd dts) (filter (\<lambda>i. i \<noteq> []) (map id_of page)))
          else if new_ids = [] then Stalled (case b of Below u _ \<Rightarrow> if u = [] then wm else u | _ \<Rightarrow> wm)
          else Continue (Below (min_by (oldest_dt E) (hd dts) (tl dts)) False))"

definition ascending :: "elo_env \<Rightarrow> object_config \<Rightarrow> (string, payload) dict \<Rightarrow> payload list" where
  "ascending E obj col =
     sort_key (\<lambda>r. case watermark_datetime (e_fromiso E) (ts_of (ts_field obj) r) of None \<Rightarrow> DT_MIN | Some t \<Rightarrow> t)
       (map snd col)"

datatype drained = DrRecords "payload list" | DrFailed soql_error | DrWaiting

fun drain_big_object ::
  "elo_env \<Rightarrow> object_config \<Rightarrow> string \<Rightarrow> soql_answer list \<Rightarrow> bound \<Rightarrow> (string, payload) dict \<Rightarrow> cycle
     \<Rightarrow> drained \<times> cycle" where
  "drain_big_object E obj wm [] b col cy =
     (case check_stop cy of
        (True, cy1) \<Rightarrow> (DrRecords [], cy1)
      | (False, cy1) \<Rightarrow> (DrWaiting, cy1\<lparr>cy_queries := cy_queries cy1 @ [desc_query E wm b]\<rparr>))"
| "drain_big_object E obj wm (a # as) b col cy =
     (case check_stop cy of
        (True, cy1) \<Rightarrow> (DrRecords [], cy1)
      | (False, cy1) \<Rightarrow>
          (let cy2 = cy1\<lparr>cy_queries := cy_queries cy1 @ [desc_query E wm b]\<rparr> in
           case a of
             Inl err \<Rightarrow> (DrFailed err, cy2)
           | Inr page \<Rightarrow>
               (case collect page col of
                  (new_ids, col1) \<Rightarrow>
                    (let cy3 = (if new_ids = [] then cy2 else cy2\<lparr>cy_state := clear_stall obj (cy_state cy2)\<rparr>);
                         col2 = evict (max_catchup obj) col1
                     in case drain_next E obj wm page new_ids b of
                          Continue b1 \<Rightarrow> drain_big_object E obj wm as b1 col2 cy3
                        | Drained \<Rightarrow> (DrRecords (ascending E obj col2), cy3)
                        | Stalled t \<Rightarrow>
                            (DrRecords (ascending E obj col2),
                             cy3\<lparr>cy_state := record_watermark_stall obj t (cy_state cy3)\<rparr>)))))"

subsection \<open>One object\<close>

definition ck_key :: "object_config \<Rightarrow> string" where
  "ck_key obj = ''eventlog_objects:'' @ obj_name obj"

definition resolve_cursor :: "elo_env \<Rightarrow> object_config \<Rightarrow> string option \<Rightarrow> string \<times> string list" where
  "resolve_cursor E obj raw =
     (case (case raw of None \<Rightarrow> ([], []) | Some s \<Rightarrow> parse_checkpoint (e_loads E) s) of
        (wm, window) \<Rightarrow>
          (if is_valid_watermark (e_fromiso E) wm then wm else e_fmt_default E (e_now E - lookback obj), window))"

definition start_cycle :: "elo_env \<Rightarrow> object_config \<Rightarrow> string option \<Rightarrow> nat option \<Rightarrow> elo_state \<Rightarrow> cycle" where
  "start_cycle E obj raw stop st =
     (case resolve_cursor E obj raw of
        (wm, window) \<Rightarrow> \<lparr>cy_wm = wm, cy_window = window, cy_state = st, cy_stop = stop, cy_out = [],
          cy_queries = [], cy_emitted = []\<rparr>)"

definition end_cycle :: "elo_env \<Rightarrow> object_config \<Rightarrow> cycle \<Rightarrow> cycle \<Rightarrow> cycle" where
  "end_cycle E obj cy0 cy =
     (if cy_out cy = [] \<and> (cy_wm cy, cy_window cy) \<noteq> (cy_wm cy0, cy_window cy0)
      then (case checkpoint_only_entry E (ck_key obj) (cy_wm cy) (cy_window cy) (cy_state cy) of
              (e, st) \<Rightarrow> cy\<lparr>cy_out := cy_out cy @ [e], cy_state := st\<rparr>)
      else cy)"

definition process_object ::
  "elo_env \<Rightarrow> object_config \<Rightarrow> string option \<Rightarrow> soql_answer list \<Rightarrow> nat option \<Rightarrow> elo_state \<Rightarrow> cycle_end \<times> cycle" where
  "process_object E obj raw answers stop st =
     (let cy0 = start_cycle E obj raw stop st in
      if big_object obj then
        (case drain_big_object E obj (cy_wm cy0) answers NoBound [] cy0 of
           (DrWaiting, cy) \<Rightarrow> (CyWaiting, cy)
         | (DrFailed err, cy) \<Rightarrow> (CyFailed, fail_cycle obj err cy)
         | (DrRecords rs, cy) \<Rightarrow>
             (case emit_loop E obj (ck_key obj) (filter (\<lambda>r. id_of r \<notin> set (cy_window cy)) rs) cy of
                (CyDone, cy1) \<Rightarrow> (CyDone, end_cycle E obj cy0 (clear_failures obj cy1))
              | res \<Rightarrow> res))
      else
        (case asc_drain E obj (ck_key obj) answers cy0 of
           (CyDone, cy1) \<Rightarrow> (CyDone, end_cycle E obj cy0 cy1)
         | res \<Rightarrow> res))"

subsection \<open>Scheduling\<close>

text \<open>What one object's turn in a wake of the poll loop meets: the stored checkpoint, the answers,
  the loop time when it is over, its jittered interval, and the loop time and the intervals drawn
  for the others if the turn was throttled.\<close>

record obj_turn =
  t_raw :: "string option"
  t_answers :: "soql_answer list"
  t_done :: seconds
  t_interval :: seconds
  t_now :: seconds
  t_others :: "string \<Rightarrow> seconds"

definition defer_due ::
  "object_config list \<Rightarrow> seconds \<Rightarrow> (string \<Rightarrow> seconds) \<Rightarrow> (string \<Rightarrow> seconds) \<Rightarrow> string \<Rightarrow> seconds" where
  "defer_due objs now iv due =
     fold (\<lambda>obj d. if d (obj_name obj) \<le> now then d(obj_name obj := now + iv (obj_name obj)) else d) objs due"

text \<open>The pass over the due objects. A set stop ends the source, as does an exception of a transform;
  a turn that waits for an answer is where the pass stands.\<close>

fun poll_pass ::
  "elo_env \<Rightarrow> object_config list \<Rightarrow> seconds \<Rightarrow> (string \<Rightarrow> obj_turn) \<Rightarrow> object_config list \<Rightarrow> (string \<Rightarrow> seconds)
     \<Rightarrow> nat option \<Rightarrow> elo_state \<Rightarrow> cycle_end \<times> log_entry list \<times> (string \<Rightarrow> seconds) \<times> nat option \<times> elo_state" where
  "poll_pass E all wake turns [] due stop st = (CyDone, [], due, stop, st)"
| "poll_pass E all wake turns (obj # objs) due stop st =
     (if due (obj_name obj) > wake then poll_pass E all wake turns objs due stop st
      else case stop of
        Some 0 \<Rightarrow> (CyStopped, [], due, stop, st)
      | _ \<Rightarrow>
          (let t = turns (obj_name obj);
               (e, cy) = process_object E obj (t_raw t) (t_answers t) (map_option (\<lambda>n. n - 1) stop) st;
               due1 = due(obj_name obj := t_done t + t_interval t)
           in if e = CyRaised \<or> e = CyWaiting then (e, cy_out cy, due, cy_stop cy, cy_state cy)
              else if cycle_throttled (cy_state cy)
              then (CyDone, cy_out cy, defer_due all (t_now t) (t_others t) due1, cy_stop cy, cy_state cy)
              else case poll_pass E all wake turns objs due1 (cy_stop cy) (cy_state cy) of
                     (e2, es, due2, stop2, st2) \<Rightarrow> (e2, cy_out cy @ es, due2, stop2, st2)))"

definition poll_wake ::
  "elo_env \<Rightarrow> object_config list \<Rightarrow> seconds \<Rightarrow> (string \<Rightarrow> obj_turn) \<Rightarrow> (string \<Rightarrow> seconds)
     \<Rightarrow> nat option \<Rightarrow> elo_state \<Rightarrow> cycle_end \<times> log_entry list \<times> (string \<Rightarrow> seconds) \<times> nat option \<times> elo_state" where
  "poll_wake E objs wake turns due stop st =
     (case stop of
        Some 0 \<Rightarrow> (CyStopped, [], due, stop, st)
      | _ \<Rightarrow> poll_pass E objs wake turns objs due (map_option (\<lambda>n. n - 1) stop) (st\<lparr>cycle_throttled := False\<rparr>))"

definition next_timeout :: "object_config list \<Rightarrow> (string \<Rightarrow> seconds) \<Rightarrow> seconds \<Rightarrow> seconds" where
  "next_timeout objs due now = max 0 (Min ((\<lambda>o'. due (obj_name o')) ` set objs) - now)"

subsection \<open>Tokens\<close>

definition cache_ok :: "elo_env \<Rightarrow> elo_state \<Rightarrow> bool" where
  "cache_ok E st \<longleftrightarrow> (\<forall>k wm ws v. map_of (checkpoint_cache st) k = Some (wm, ws, v) \<longrightarrow> v = e_dumps_ck E ws wm)"

lemma checkpoint_value_fresh:
  assumes "cache_ok E st" "checkpoint_value E key window wm st = (v, st')"
  shows "v = e_dumps_ck E window wm" and "cache_ok E st'"
  using assms
  by (auto simp: checkpoint_value_def cache_ok_def Let_def update_conv' split: option.splits prod.splits if_splits)

text \<open>Whether a record gives an entry: the transforms keep it and so does the sampling.\<close>

definition kept :: "elo_env \<Rightarrow> object_config \<Rightarrow> payload \<Rightarrow> bool" where
  "kept E obj r \<longleftrightarrow> (\<exists>r1 ms. apply_pipeline (e_transforms E) r = Some (Some r1, ms)
     \<and> (1 \<le> sample obj \<or> should_keep (e_sha256 E) (if id_of r \<noteq> [] then id_of r else e_dumps_key E r1) (sample obj)))"

text \<open>The cursor behind some records, and the tokens due to them: each record that gives an entry gives the
  serialization of the cursor right behind it.\<close>

type_synonym cursor = "string \<times> string list"

definition dump_cursor :: "elo_env \<Rightarrow> cursor \<Rightarrow> string" where
  "dump_cursor E p = e_dumps_ck E (snd p) (fst p)"

definition cursor_after :: "elo_env \<Rightarrow> object_config \<Rightarrow> cursor \<Rightarrow> payload list \<Rightarrow> cursor" where
  "cursor_after E obj p rs = fold (\<lambda>r q. advance E obj r (fst q) (snd q)) rs p"

fun due_tokens :: "elo_env \<Rightarrow> object_config \<Rightarrow> cursor \<Rightarrow> payload list \<Rightarrow> string list" where
  "due_tokens E obj p [] = []"
| "due_tokens E obj p (r # rs) =
     (let q = advance E obj r (fst p) (snd p)
      in (if kept E obj r then [dump_cursor E q] else []) @ due_tokens E obj q rs)"

lemma cursor_after_snoc [simp]:
  "cursor_after E obj p [] = p"
  "cursor_after E obj p (rs @ [r]) = advance E obj r (fst (cursor_after E obj p rs)) (snd (cursor_after E obj p rs))"
  by (simp_all add: cursor_after_def)

lemma due_tokens_snoc:
  "due_tokens E obj p (rs @ [r])
     = due_tokens E obj p rs @ (if kept E obj r then [dump_cursor E (cursor_after E obj p (rs @ [r]))] else [])"
  by (induction rs arbitrary: p) (simp_all add: Let_def cursor_after_def)

abbreviation tokens_of :: "log_entry list \<Rightarrow> string list" where
  "tokens_of es \<equiv> map (\<lambda>e. tok_value (checkpoint e)) es"

definition cycle_ok :: "elo_env \<Rightarrow> object_config \<Rightarrow> string \<Rightarrow> cursor \<Rightarrow> cycle \<Rightarrow> bool" where
  "cycle_ok E obj key p0 cy \<longleftrightarrow> cache_ok E (cy_state cy) \<and> is_valid_watermark (e_fromiso E) (cy_wm cy) \<and>
     list_all (\<lambda>e. tok_key (checkpoint e) = key) (cy_out cy) \<and>
     cursor_after E obj p0 (cy_emitted cy) = (cy_wm cy, cy_window cy) \<and>
     tokens_of (cy_out cy) = due_tokens E obj p0 (cy_emitted cy)"

lemma advance_valid:
  "advance E obj r wm window = (wm', window') \<Longrightarrow> is_valid_watermark (e_fromiso E) wm \<Longrightarrow>
   is_valid_watermark (e_fromiso E) wm'"
  by (auto simp: advance_def Let_def split: if_splits)

lemma emit_record_ok:
  assumes "emit_record E obj key r wm window st = Some (eo, wm', window', st')"
    and "cache_ok E st" "is_valid_watermark (e_fromiso E) wm"
  shows "cache_ok E st'" "is_valid_watermark (e_fromiso E) wm'" "advance E obj r wm window = (wm', window')"
    and "list_all (\<lambda>e. tok_key (checkpoint e) = key) (case eo of None \<Rightarrow> [] | Some e \<Rightarrow> [e])"
    and "tokens_of (case eo of None \<Rightarrow> [] | Some e \<Rightarrow> [e]) = (if kept E obj r then [dump_cursor E (wm', window')] else [])"
proof -
  obtain wm1 window1 where adv: "advance E obj r wm window = (wm1, window1)" by fastforce
  obtain v st1 where ck: "checkpoint_value E key window1 wm1 st = (v, st1)" by fastforce
  note val = advance_valid [OF adv assms(3)]
  note fresh = checkpoint_value_fresh [OF assms(2) ck]
  show "cache_ok E st'" "is_valid_watermark (e_fromiso E) wm'" "advance E obj r wm window = (wm', window')"
      "list_all (\<lambda>e. tok_key (checkpoint e) = key) (case eo of None \<Rightarrow> [] | Some e \<Rightarrow> [e])"
    using assms(1,2) adv ck val fresh
    by (auto simp: emit_record_def Let_def split: option.splits prod.splits if_splits)
  show "tokens_of (case eo of None \<Rightarrow> [] | Some e \<Rightarrow> [e]) = (if kept E obj r then [dump_cursor E (wm', window')] else [])"
    using assms(1,2) adv ck fresh
    by (auto simp: emit_record_def kept_def dump_cursor_def Let_def split: option.splits prod.splits if_splits)
qed

lemma emit_loop_ok:
  "emit_loop E obj key rs cy = (e, cy') \<Longrightarrow> cycle_ok E obj key p0 cy \<Longrightarrow> cycle_ok E obj key p0 cy'"
proof (induction E obj key rs cy rule: emit_loop.induct)
  case (2 E obj key r rs cy)
  obtain b cy1 where c: "check_stop cy = (b, cy1)" by fastforce
  have ok1: "cycle_ok E obj key p0 cy1"
    using c "2.prems"(2) by (auto simp: check_stop_def cycle_ok_def split: option.splits nat.splits)
  show ?case
  proof (cases "b \<or> emit_record E obj key r (cy_wm cy1) (cy_window cy1) (cy_state cy1) = None")
    case True
    then show ?thesis using "2.prems"(1) c ok1 by (auto split: bool.splits)
  next
    case False
    then obtain eo wm window st where er:
      "emit_record E obj key r (cy_wm cy1) (cy_window cy1) (cy_state cy1) = Some (eo, wm, window, st)" "\<not> b"
      by auto
    let ?cy = "cy1\<lparr>cy_wm := wm, cy_window := window, cy_state := st,
        cy_out := cy_out cy1 @ (case eo of None \<Rightarrow> [] | Some e \<Rightarrow> [e]), cy_emitted := cy_emitted cy1 @ [r]\<rparr>"
    have pre: "cache_ok E (cy_state cy1)" "is_valid_watermark (e_fromiso E) (cy_wm cy1)"
        "cursor_after E obj p0 (cy_emitted cy1) = (cy_wm cy1, cy_window cy1)"
      using ok1 by (simp_all add: cycle_ok_def)
    note one = emit_record_ok [OF er(1) pre(1,2)]
    have "cycle_ok E obj key p0 ?cy"
      using one ok1 pre(3) by (simp add: cycle_ok_def due_tokens_snoc)
    moreover have "emit_loop E obj key rs ?cy = (e, cy')" using "2.prems"(1) c er by simp
    ultimately show ?thesis using "2.IH" [of False cy1] c er by simp
  qed
qed simp

lemma cycle_ok_bookkeeping [simp]:
  "cycle_ok E obj key p0 (cy\<lparr>cy_queries := qs\<rparr>) = cycle_ok E obj key p0 cy"
  "cycle_ok E obj key p0 (clear_failures obj cy) = cycle_ok E obj key p0 cy"
  "cycle_ok E obj key p0 (fail_cycle obj err cy) = cycle_ok E obj key p0 cy"
  "cycle_ok E obj key p0 (cy\<lparr>cy_state := clear_stall obj (cy_state cy)\<rparr>) = cycle_ok E obj key p0 cy"
  "cycle_ok E obj key p0 (cy\<lparr>cy_state := record_watermark_stall obj b (cy_state cy)\<rparr>) = cycle_ok E obj key p0 cy"
  by (simp_all add: cycle_ok_def cache_ok_def clear_failures_def fail_cycle_def clear_stall_def
      record_watermark_stall_def split: soql_error.split)

lemma cycle_ok_query_clear [simp]:
  "cycle_ok E obj key p0 (cy\<lparr>cy_queries := qs, cy_state := clear_stall obj (cy_state cy)\<rparr>) = cycle_ok E obj key p0 cy"
  "cycle_ok E obj key p0 (cy\<lparr>cy_queries := qs, cy_state := record_watermark_stall obj b (cy_state cy)\<rparr>) = cycle_ok E obj key p0 cy"
  by (simp_all add: cycle_ok_def cache_ok_def clear_stall_def record_watermark_stall_def)

lemma cycle_ok_check_stop: "check_stop cy = (b, cy1) \<Longrightarrow> cycle_ok E obj key p0 cy1 = cycle_ok E obj key p0 cy"
  by (auto simp: check_stop_def cycle_ok_def split: option.splits nat.splits)

lemma asc_drain_ok:
  "asc_drain E obj key as cy = (e, cy') \<Longrightarrow> cycle_ok E obj key p0 cy \<Longrightarrow> cycle_ok E obj key p0 cy'"
proof (induction as arbitrary: cy)
  case (Cons a as)
  let ?cy1 = "cy\<lparr>cy_queries := cy_queries cy @ [asc_query E cy]\<rparr>"
  show ?case
  proof (cases a)
    case (Inl err)
    then show ?thesis using Cons.prems by auto
  next
    case (Inr page)
    let ?new = "filter (\<lambda>r. id_of r \<notin> set (cy_window ?cy1)) page"
    let ?cy2 = "?cy1\<lparr>cy_state := clear_stall obj (cy_state ?cy1)\<rparr>"
    obtain e1 cy1 where el: "emit_loop E obj key ?new ?cy2 = (e1, cy1)" by fastforce
    have ok: "cycle_ok E obj key p0 cy1" using emit_loop_ok [OF el] Cons.prems(2) by simp
    show ?thesis
    proof (cases "?new = []")
      case True
      then show ?thesis using Cons.prems Inr by (auto simp: Let_def split: if_splits)
    next
      case False
      show ?thesis
        using Cons.prems(1) Inr False el ok Cons.IH [of "clear_failures obj cy1"]
        by (cases e1) (auto simp: Let_def split: if_splits)
    qed
  qed
qed auto

lemma drain_ok:
  "drain_big_object E obj wm as b col cy = (d, cy') \<Longrightarrow>
     cycle_ok E obj key p0 cy' = cycle_ok E obj key p0 cy \<and> cy_wm cy' = cy_wm cy \<and> cy_window cy' = cy_window cy
     \<and> cy_out cy' = cy_out cy"
proof (induction as arbitrary: b col cy)
  case Nil
  then show ?case
    by (auto simp: check_stop_def cycle_ok_def split: option.splits nat.splits)
next
  case (Cons a as)
  obtain s cy1 where c: "check_stop cy = (s, cy1)" by fastforce
  have f1: "cycle_ok E obj key p0 cy1 = cycle_ok E obj key p0 cy" "cy_wm cy1 = cy_wm cy" "cy_window cy1 = cy_window cy" "cy_out cy1 = cy_out cy"
    using c by (auto simp: check_stop_def cycle_ok_def split: option.splits nat.splits)
  let ?cy2 = "cy1\<lparr>cy_queries := cy_queries cy1 @ [desc_query E wm b]\<rparr>"
  show ?case
  proof (cases "s \<or> (\<exists>err. a = Inl err)")
    case True
    then show ?thesis using Cons.prems c f1 by (auto split: bool.splits)
  next
    case False
    then obtain page where a: "a = Inr page" "\<not> s" by (cases a) auto
    obtain ids col1 where col: "collect page col = (ids, col1)" by fastforce
    let ?cy3 = "if ids = [] then ?cy2 else ?cy2\<lparr>cy_state := clear_stall obj (cy_state ?cy2)\<rparr>"
    have f3: "cycle_ok E obj key p0 ?cy3 = cycle_ok E obj key p0 cy" "cy_wm ?cy3 = cy_wm cy" "cy_window ?cy3 = cy_window cy" "cy_out ?cy3 = cy_out cy"
      using f1 by simp_all
    show ?thesis
    proof (cases "drain_next E obj wm page ids b")
      case (Continue b1)
      have "drain_big_object E obj wm as b1 (evict (max_catchup obj) col1) ?cy3 = (d, cy')"
        using Cons.prems c a col Continue by (simp add: Let_def)
      from Cons.IH [OF this] f3 show ?thesis by simp
    next
      case Drained
      then show ?thesis using Cons.prems c a col f3 by (auto simp: Let_def)
    next
      case (Stalled t)
      then show ?thesis using Cons.prems c a col f3 by (auto simp: Let_def)
    qed
  qed
qed

text \<open>The end of a cycle that yielded nothing and moved its cursor.\<close>

definition last_token :: "elo_env \<Rightarrow> object_config \<Rightarrow> cursor \<Rightarrow> payload list \<Rightarrow> string list" where
  "last_token E obj p0 rs =
     (let p1 = cursor_after E obj p0 rs in if due_tokens E obj p0 rs = [] \<and> p1 \<noteq> p0 then [dump_cursor E p1] else [])"

definition tokens_exact :: "elo_env \<Rightarrow> object_config \<Rightarrow> cursor \<Rightarrow> cycle_end \<Rightarrow> cycle \<Rightarrow> bool" where
  "tokens_exact E obj p0 e cy \<longleftrightarrow> cache_ok E (cy_state cy) \<and> list_all (\<lambda>x. tok_key (checkpoint x) = ck_key obj) (cy_out cy) \<and>
     tokens_of (cy_out cy) = due_tokens E obj p0 (cy_emitted cy) @ (if e = CyDone then last_token E obj p0 (cy_emitted cy) else [])"

lemma tokens_exact_early: "cycle_ok E obj (ck_key obj) p0 cy \<Longrightarrow> e \<noteq> CyDone \<Longrightarrow> tokens_exact E obj p0 e cy"
  by (simp add: cycle_ok_def tokens_exact_def)

lemma tokens_exact_end:
  assumes ok: "cycle_ok E obj (ck_key obj) p0 cy" and p0: "p0 = (cy_wm cy0, cy_window cy0)"
  shows "tokens_exact E obj p0 CyDone (end_cycle E obj cy0 cy)"
proof -
  obtain v st where ck: "checkpoint_value E (ck_key obj) (cy_window cy) (cy_wm cy) (cy_state cy) = (v, st)" by fastforce
  have out: "cy_out cy = [] \<longleftrightarrow> due_tokens E obj p0 (cy_emitted cy) = []"
    using ok unfolding cycle_ok_def by (metis map_is_Nil_conv)
  have cur: "cursor_after E obj p0 (cy_emitted cy) = (cy_wm cy, cy_window cy)" using ok by (simp add: cycle_ok_def)
  note fresh = checkpoint_value_fresh [OF _ ck]
  show ?thesis
  proof (cases "cy_out cy = [] \<and> (cy_wm cy, cy_window cy) \<noteq> (cy_wm cy0, cy_window cy0)")
    case True
    then have "end_cycle E obj cy0 cy = cy\<lparr>cy_out := [fst (checkpoint_only_entry E (ck_key obj) (cy_wm cy) (cy_window cy) (cy_state cy))],
        cy_state := st\<rparr>"
      using ck by (simp add: end_cycle_def checkpoint_only_entry_def)
    then show ?thesis
      using True ok fresh ck cur out p0
      by (auto simp: tokens_exact_def cycle_ok_def checkpoint_only_entry_def last_token_def dump_cursor_def Let_def)
  next
    case False
    then have "end_cycle E obj cy0 cy = cy" by (simp only: end_cycle_def if_False)
    then show ?thesis
      using False ok cur out p0 by (auto simp: tokens_exact_def cycle_ok_def last_token_def Let_def)
  qed
qed

lemma process_object_ok:
  assumes "process_object E obj raw answers stop st = (e, cy)"
    and "cache_ok E st" "\<And>t. is_valid_watermark (e_fromiso E) (e_fmt_default E t)"
  shows "tokens_exact E obj (resolve_cursor E obj raw) e cy"
proof -
  let ?cy0 = "start_cycle E obj raw stop st" and ?p0 = "resolve_cursor E obj raw"
  have p0: "?p0 = (cy_wm ?cy0, cy_window ?cy0)" by (simp add: start_cycle_def split: prod.split)
  have ok0: "cycle_ok E obj (ck_key obj) ?p0 ?cy0"
    using assms(2,3) by (auto simp: start_cycle_def resolve_cursor_def cycle_ok_def split: prod.splits if_splits)
  show ?thesis
  proof (cases "big_object obj")
    case True
    obtain d cy1 where d: "drain_big_object E obj (cy_wm ?cy0) answers NoBound [] ?cy0 = (d, cy1)" by fastforce
    have ok1: "cycle_ok E obj (ck_key obj) ?p0 cy1" using drain_ok [OF d] ok0 by simp
    show ?thesis
    proof (cases d)
      case (DrRecords rs)
      obtain e2 cy2 where el: "emit_loop E obj (ck_key obj) (filter (\<lambda>r. id_of r \<notin> set (cy_window cy1)) rs) cy1 = (e2, cy2)"
        by fastforce
      note ok2 = emit_loop_ok [OF el ok1]
      show ?thesis
        using assms(1) True d DrRecords el tokens_exact_early [OF ok2] tokens_exact_end [OF _ p0, of E obj "clear_failures obj cy2"] ok2
        by (cases e2) (auto simp: process_object_def Let_def)
    qed (use assms(1) True d tokens_exact_early [OF ok1] tokens_exact_early [of E obj ?p0 "fail_cycle obj _ cy1"] ok1
        in \<open>auto simp: process_object_def Let_def\<close>)
  next
    case False
    obtain e1 cy1 where d: "asc_drain E obj (ck_key obj) answers ?cy0 = (e1, cy1)" by fastforce
    note ok1 = asc_drain_ok [OF d ok0]
    show ?thesis using assms(1) False d tokens_exact_early [OF ok1] tokens_exact_end [OF ok1 p0]
      by (cases e1) (auto simp: process_object_def Let_def)
  qed
qed

lemma due_tokens_valid:
  assumes "is_valid_watermark (e_fromiso E) (fst p)" "v \<in> set (due_tokens E obj p rs)"
  shows "\<exists>q. v = dump_cursor E q \<and> is_valid_watermark (e_fromiso E) (fst q)"
  using assms
proof (induction rs arbitrary: p)
  case (Cons x rs)
  have "is_valid_watermark (e_fromiso E) (fst (advance E obj x (fst p) (snd p)))"
    using advance_valid [of E obj x "fst p" "snd p"] Cons.prems(1) by (metis prod.collapse)
  with Cons.IH [OF this] Cons.prems(2) show ?case
    by (cases "v \<in> set (due_tokens E obj (advance E obj x (fst p) (snd p)) rs)") (auto simp: Let_def simp del: split_paired_Ex split: if_splits)
qed simp

lemma cursor_after_valid:
  "is_valid_watermark (e_fromiso E) (fst p) \<Longrightarrow> is_valid_watermark (e_fromiso E) (fst (cursor_after E obj p rs))"
proof (induction rs rule: rev_induct)
  case (snoc x rs)
  then show ?case
    using advance_valid [of E obj x "fst (cursor_after E obj p rs)" "snd (cursor_after E obj p rs)"] by (simp add: prod_eq_iff)
qed simp

text \<open>What the JSON codec gives back for a serialized checkpoint.\<close>

definition codec_ok :: "elo_env \<Rightarrow> bool" where
  "codec_ok E \<longleftrightarrow>
     (\<forall>ws wm. \<exists>s. e_loads E (e_dumps_ck E ws wm) = Some (JObject [(''ids'', FArr (map VStr ws) s), (''last_ts'', FVal (VStr wm))]))"

lemma parse_dumped: "codec_ok E \<Longrightarrow> parse_checkpoint (e_loads E) (e_dumps_ck E ws wm) = (wm, ws)"
proof -
  assume "codec_ok E"
  then obtain s where "e_loads E (e_dumps_ck E ws wm) = Some (JObject [(''ids'', FArr (map VStr ws) s), (''last_ts'', FVal (VStr wm))])"
    by (auto simp: codec_ok_def)
  then show ?thesis by (simp add: parse_checkpoint_def or_empty_def comp_def)
qed

text \<open>
  C30. The tokens of a cycle, on either path and whatever the records, the answers, the stored checkpoint and
  the cached serializations were. They carry the object's key, and they are exactly, in order, the
  fresh serialization of the cursor right behind each record that gave an entry; a cycle that ends
  well, gave no entry and moved its cursor yields the serialization of its last cursor alone. Each
  token reads back as that cursor, with a valid watermark: a later cycle resumes from it and never
  interpolates an empty or unparsable one into its query.
\<close>

theorem elo_tokens_sound:
  assumes "process_object E obj raw answers stop st = (e, cy)" "cache_ok E st" "codec_ok E"
    and "\<And>t. is_valid_watermark (e_fromiso E) (e_fmt_default E t)"
  shows "list_all (\<lambda>x. tok_key (checkpoint x) = ck_key obj) (cy_out cy)
    \<and> tokens_of (cy_out cy) = due_tokens E obj (resolve_cursor E obj raw) (cy_emitted cy)
        @ (if e = CyDone then last_token E obj (resolve_cursor E obj raw) (cy_emitted cy) else [])
    \<and> list_all (\<lambda>x. \<exists>p. resolve_cursor E obj (Some (tok_value (checkpoint x))) = p
          \<and> is_valid_watermark (e_fromiso E) (fst p) \<and> tok_value (checkpoint x) = dump_cursor E p) (cy_out cy)
    \<and> cache_ok E (cy_state cy)"
proof -
  let ?p0 = "resolve_cursor E obj raw"
  have ok: "tokens_exact E obj ?p0 e cy" by (rule process_object_ok [OF assms(1,2,4)])
  have p0: "is_valid_watermark (e_fromiso E) (fst ?p0)"
    using assms(4) by (simp add: resolve_cursor_def split: prod.split)
  have "\<exists>q. tok_value (checkpoint x) = dump_cursor E q \<and> is_valid_watermark (e_fromiso E) (fst q)" if x: "x \<in> set (cy_out cy)" for x
  proof -
    have "tok_value (checkpoint x) \<in> set (tokens_of (cy_out cy))" using x by simp
    then have "tok_value (checkpoint x) \<in> set (due_tokens E obj ?p0 (cy_emitted cy))
        \<or> tok_value (checkpoint x) = dump_cursor E (cursor_after E obj ?p0 (cy_emitted cy))"
      using ok unfolding tokens_exact_def last_token_def by (auto simp: Let_def split: if_splits)
    then show ?thesis using due_tokens_valid [OF p0] cursor_after_valid [OF p0] by blast
  qed
  then have "list_all (\<lambda>x. \<exists>p. resolve_cursor E obj (Some (tok_value (checkpoint x))) = p
      \<and> is_valid_watermark (e_fromiso E) (fst p) \<and> tok_value (checkpoint x) = dump_cursor E p) (cy_out cy)"
    using parse_dumped [OF assms(3)] by (fastforce simp: list_all_iff resolve_cursor_def dump_cursor_def)
  with ok show ?thesis by (simp add: tokens_exact_def)
qed

subsection \<open>The ascending drain against a table\<close>

text \<open>
  What the query endpoint promises, for the ascending queries: \<open>lit_dt\<close> reads a literal back, the
  answer is the first page of the selected records in the order of the query. The table is listed in
  that order, with distinct, non-empty ids and valid timestamps of whole milliseconds.
\<close>

definition rec_ts :: "elo_env \<Rightarrow> object_config \<Rightarrow> payload \<Rightarrow> datetime" where
  "rec_ts E obj r = (case watermark_datetime (e_fromiso E) (ts_of (ts_field obj) r) of None \<Rightarrow> 0 | Some t \<Rightarrow> t)"

definition rec_key :: "elo_env \<Rightarrow> object_config \<Rightarrow> payload \<Rightarrow> datetime \<times> string" where
  "rec_key E obj r = (rec_ts E obj r, id_of r)"

definition rec_ok :: "elo_env \<Rightarrow> object_config \<Rightarrow> payload \<Rightarrow> bool" where
  "rec_ok E obj r \<longleftrightarrow> is_valid_watermark (e_fromiso E) (ts_of (ts_field obj) r) \<and> id_of r \<noteq> []
     \<and> rec_ts E obj r mod 1000 = 0"

definition table_ok :: "elo_env \<Rightarrow> object_config \<Rightarrow> payload list \<Rightarrow> bool" where
  "table_ok E obj T \<longleftrightarrow> list_all (rec_ok E obj) T \<and> sorted_wrt (\<lambda>a b. rec_key E obj a < rec_key E obj b) T
     \<and> distinct (map id_of T)"

fun asc_select :: "elo_env \<Rightarrow> object_config \<Rightarrow> (string \<Rightarrow> datetime) \<Rightarrow> payload list \<Rightarrow> query \<Rightarrow> payload list" where
  "asc_select E obj lit_dt T (AscFrom lit None) = filter (\<lambda>r. rec_ts E obj r \<ge> lit_dt lit) T"
| "asc_select E obj lit_dt T (AscFrom lit (Some i)) = filter (\<lambda>r. rec_key E obj r > (lit_dt lit, i)) T"
| "asc_select E obj lit_dt T (DescFrom lit b) = []"

definition served :: "elo_env \<Rightarrow> object_config \<Rightarrow> (string \<Rightarrow> datetime) \<Rightarrow> payload list \<Rightarrow> soql_answer list \<Rightarrow> query list \<Rightarrow> bool" where
  "served E obj lit_dt T as qs \<longleftrightarrow>
     (\<forall>k < length as. k < length qs \<longrightarrow> as ! k = Inr (take PAGE_LIMIT (asc_select E obj lit_dt T (qs ! k))))"

lemma served_Cons:
  "served E obj lit_dt T (a # as) (q # qs) \<longleftrightarrow>
     a = Inr (take PAGE_LIMIT (asc_select E obj lit_dt T q)) \<and> served E obj lit_dt T as qs"
  unfolding served_def
proof (intro iffI conjI)
  assume h: "\<forall>k < length (a # as). k < length (q # qs) \<longrightarrow>
      (a # as) ! k = Inr (take PAGE_LIMIT (asc_select E obj lit_dt T ((q # qs) ! k)))"
  show "a = Inr (take PAGE_LIMIT (asc_select E obj lit_dt T q))" using h [rule_format, of 0] by simp
  show "\<forall>k < length as. k < length qs \<longrightarrow> as ! k = Inr (take PAGE_LIMIT (asc_select E obj lit_dt T (qs ! k)))"
    using h [rule_format, of "Suc _"] by simp
qed (auto simp: nth_Cons split: nat.splits)

lemma emit_loop_queries: "emit_loop E obj key rs cy = (e, cy') \<Longrightarrow> cy_queries cy' = cy_queries cy"
proof (induction rs arbitrary: cy)
  case (Cons r rs)
  obtain b cy1 where c: "check_stop cy = (b, cy1)" by fastforce
  then have "cy_queries cy1 = cy_queries cy" by (auto simp: check_stop_def split: option.splits nat.splits)
  with Cons c show ?case by (fastforce split: bool.splits option.splits prod.splits)
qed simp

lemma asc_drain_queries:
  "asc_drain E obj key as cy = (e, cy') \<Longrightarrow> \<exists>qs. cy_queries cy' = cy_queries cy @ asc_query E cy # qs"
proof (induction as arbitrary: cy)
  case (Cons a as)
  let ?cy1 = "cy\<lparr>cy_queries := cy_queries cy @ [asc_query E cy]\<rparr>"
  show ?case
  proof (cases a)
    case (Inl err)
    then show ?thesis using Cons.prems by (cases err) (auto simp: fail_cycle_def Let_def)
  next
    case (Inr page)
    let ?new = "filter (\<lambda>r. id_of r \<notin> set (cy_window ?cy1)) page"
    obtain e1 cy2 where el2: "emit_loop E obj key ?new (?cy1\<lparr>cy_state := clear_stall obj (cy_state ?cy1)\<rparr>) = (e1, cy2)"
      by fastforce
    have q2: "cy_queries cy2 = cy_queries cy @ [asc_query E cy]" using emit_loop_queries [OF el2] by simp
    have q3: "cy_queries (clear_failures obj cy2) = cy_queries cy @ [asc_query E cy]"
      using q2 by (simp add: clear_failures_def)
    show ?thesis
      using Cons.prems Inr el2 q2 q3 Cons.IH [of "clear_failures obj cy2"]
      by (cases e1) (auto simp: Let_def split: if_splits)
  qed
qed auto

text \<open>With no stop and transforms that do not raise, the loop goes through all its records and the
  cursor ends on the last of them.\<close>

definition no_raise :: "elo_env \<Rightarrow> bool" where
  "no_raise E \<longleftrightarrow> (\<forall>r. apply_pipeline (e_transforms E) r \<noteq> None)"

lemma emit_record_advance:
  assumes "no_raise E"
  shows "\<exists>eo st'. emit_record E obj key r wm window st =
    Some (eo, fst (advance E obj r wm window), snd (advance E obj r wm window), st')"
proof -
  obtain out where "apply_pipeline (e_transforms E) r = Some out"
    using assms unfolding no_raise_def by blast
  then show ?thesis
    by (cases "advance E obj r wm window"; cases out; cases "fst out")
      (auto simp: emit_record_def Let_def split: prod.splits if_splits)
qed

lemma last_take_last: "0 < n \<Longrightarrow> xs \<noteq> [] \<Longrightarrow> last (take_last n xs) = last xs \<and> take_last n xs \<noteq> []"
proof -
  assume h: "0 < n" "xs \<noteq> []"
  then have "length xs - n < length xs" by simp
  then show ?thesis by (simp add: take_last_def last_drop)
qed

lemma set_take_last: "set (take_last n xs) \<subseteq> set xs"
  by (simp add: take_last_def set_drop_subset)

lemma advance_rec_ok:
  assumes "rec_ok E obj r" "advance E obj r wm window = (wm', window')"
  shows "wm' = ts_of (ts_field obj) r" "last window' = id_of r" "window' \<noteq> []" "set window' \<subseteq> insert (id_of r) (set window)"
  using assms last_take_last [of MAX_CARRIED_IDS "window @ [id_of r]"] set_take_last [of MAX_CARRIED_IDS "window @ [id_of r]"]
  by (auto simp: advance_def Let_def rec_ok_def MAX_CARRIED_IDS_def)

lemma emit_loop_all:
  assumes "no_raise E" "cy_stop cy = None" "list_all (rec_ok E obj) rs"
  shows "\<exists>cy'. emit_loop E obj key rs cy = (CyDone, cy') \<and> cy_stop cy' = None \<and> cy_emitted cy' = cy_emitted cy @ rs
    \<and> set (cy_window cy') \<subseteq> set (cy_window cy) \<union> id_of ` set rs
    \<and> (if rs = [] then cy_wm cy' = cy_wm cy \<and> cy_window cy' = cy_window cy
       else cy_wm cy' = ts_of (ts_field obj) (last rs) \<and> cy_window cy' \<noteq> [] \<and> last (cy_window cy') = id_of (last rs))"
  using assms(2,3)
proof (induction rs arbitrary: cy)
  case (Cons r rs)
  obtain wm window where adv: "advance E obj r (cy_wm cy) (cy_window cy) = (wm, window)" by fastforce
  obtain eo st' where er: "emit_record E obj key r (cy_wm cy) (cy_window cy) (cy_state cy) = Some (eo, wm, window, st')"
    using emit_record_advance [OF assms(1), of obj key r "cy_wm cy" "cy_window cy" "cy_state cy"] adv by auto
  let ?cy = "cy\<lparr>cy_wm := wm, cy_window := window, cy_state := st',
      cy_out := cy_out cy @ (case eo of None \<Rightarrow> [] | Some e \<Rightarrow> [e]), cy_emitted := cy_emitted cy @ [r]\<rparr>"
  have run: "emit_loop E obj key (r # rs) cy = emit_loop E obj key rs ?cy"
    using er Cons.prems(1) by (simp add: check_stop_def)
  note a = advance_rec_ok [OF _ adv]
  have st: "cy_stop ?cy = None" "list_all (rec_ok E obj) rs" using Cons.prems by simp_all
  obtain cy' where ih: "emit_loop E obj key rs ?cy = (CyDone, cy')" "cy_stop cy' = None" "cy_emitted cy' = cy_emitted ?cy @ rs"
      "set (cy_window cy') \<subseteq> set (cy_window ?cy) \<union> id_of ` set rs"
      "if rs = [] then cy_wm cy' = cy_wm ?cy \<and> cy_window cy' = cy_window ?cy
       else cy_wm cy' = ts_of (ts_field obj) (last rs) \<and> cy_window cy' \<noteq> [] \<and> last (cy_window cy') = id_of (last rs)"
    using Cons.IH [OF st] by (elim exE conjE) (rule that)
  have r: "rec_ok E obj r" using Cons.prems by simp
  have "set (cy_window cy') \<subseteq> set (cy_window cy) \<union> id_of ` set (r # rs)" using ih(4) a(4) [OF r] by auto
  moreover have "cy_wm cy' = ts_of (ts_field obj) (last (r # rs)) \<and> cy_window cy' \<noteq> [] \<and> last (cy_window cy') = id_of (last (r # rs))"
    using ih(5) a [OF r] by (cases "rs = []") simp_all
  ultimately show ?case using run ih(1-3) by (intro exI [of _ cy']) simp
qed simp

text \<open>Selecting behind a record of a strictly sorted selection leaves what follows it.\<close>

lemma filter_behind:
  fixes k :: "'a \<Rightarrow> 'b::linorder"
  assumes "sorted_wrt (\<lambda>a b. k a < k b) T" "\<And>a b. P a \<Longrightarrow> k a < k b \<Longrightarrow> P b" "filter P T = ys @ x # zs"
  shows "filter (\<lambda>r. k x < k r) T = zs"
proof -
  have s: "sorted_wrt (\<lambda>a b. k a < k b) (ys @ x # zs)" using sorted_wrt_filter [OF assms(1), of P] assms(3) by simp
  have "x \<in> set (filter P T)" unfolding assms(3) by simp
  then have "P x" by simp
  then have "filter (\<lambda>r. k x < k r) T = filter (\<lambda>r. k x < k r) (filter P T)"
    using assms(2) by (simp add: filter_filter) (rule filter_cong, auto)
  also have "\<dots> = zs" using s unfolding assms(3)
    by (auto simp: sorted_wrt_append filter_empty_conv filter_id_conv dest: less_asym)
  finally show ?thesis .
qed

text \<open>\<open>lits_ok\<close>: a printed literal denotes its instant.\<close>

definition lits_ok :: "elo_env \<Rightarrow> (string \<Rightarrow> datetime) \<Rightarrow> bool" where
  "lits_ok E lit_dt \<longleftrightarrow> (\<forall>t. lit_dt (e_fmt E t) = t)"

text \<open>The cursor after a page is the page's last record.\<close>

lemma asc_query_after:
  assumes "lits_ok E lit_dt" "rec_ok E obj x" "cy_wm cy = ts_of (ts_field obj) x"
    and "cy_window cy \<noteq> []" "last (cy_window cy) = id_of x"
  shows "asc_select E obj lit_dt T (asc_query E cy) = filter (\<lambda>r. rec_key E obj x < rec_key E obj r) T"
proof -
  obtain t where t: "watermark_datetime (e_fromiso E) (ts_of (ts_field obj) x) = Some t"
    using assms(2) by (auto simp: rec_ok_def is_valid_watermark_def)
  then have "to_soql_datetime_literal (e_fromiso E) (e_fmt E) (ts_of (ts_field obj) x) = e_fmt E t"
    using assms(2)
    by (auto simp: to_soql_datetime_literal_def watermark_datetime_def rec_ok_def rec_ts_def split: if_splits)
  then show ?thesis
    using assms t by (simp add: asc_query_def rec_ok_def rec_key_def rec_ts_def lits_ok_def)
qed

lemma asc_select_upward:
  assumes "sorted_wrt (\<lambda>a b. rec_key E obj a < rec_key E obj b) T" "asc_select E obj lit_dt T (AscFrom lit io) = ys @ x # zs"
  shows "filter (\<lambda>r. rec_key E obj x < rec_key E obj r) T = zs"
proof (cases io)
  case None
  show ?thesis
    by (rule filter_behind [OF assms(1), of "\<lambda>r. rec_ts E obj r \<ge> lit_dt lit"])
      (use assms(2) None in \<open>auto simp: rec_key_def less_prod_def\<close>)
next
  case (Some i)
  show ?thesis
    by (rule filter_behind [OF assms(1), of "\<lambda>r. rec_key E obj r > (lit_dt lit, i)"])
      (use assms(2) Some in \<open>auto dest: less_trans\<close>)
qed

lemma asc_select_subset: "set (asc_select E obj lit_dt T q) \<subseteq> set T"
  by (cases "(E, obj, lit_dt, T, q)" rule: asc_select.cases) auto

lemma asc_select_distinct: "distinct (map id_of T) \<Longrightarrow> distinct (map id_of (asc_select E obj lit_dt T q))"
  by (cases "(E, obj, lit_dt, T, q)" rule: asc_select.cases) (auto simp: distinct_map_filter)

lemma asc_select_next:
  assumes lits: "lits_ok E lit_dt" and T: "table_ok E obj T"
    and page: "page = take n (asc_select E obj lit_dt T (asc_query E cy))" "page \<noteq> []" "list_all (rec_ok E obj) page"
    and cy': "cy_wm cy' = ts_of (ts_field obj) (last page)" "cy_window cy' \<noteq> []" "last (cy_window cy') = id_of (last page)"
  shows "asc_select E obj lit_dt T (asc_query E cy') = drop n (asc_select E obj lit_dt T (asc_query E cy))"
proof -
  let ?R = "asc_select E obj lit_dt T (asc_query E cy)"
  have "asc_select E obj lit_dt T (asc_query E cy') = filter (\<lambda>r. rec_key E obj (last page) < rec_key E obj r) T"
    using page cy' by (intro asc_query_after [OF lits]) (auto simp: list_all_iff)
  also have "\<dots> = drop n ?R"
  proof (rule asc_select_upward)
    show "sorted_wrt (\<lambda>a b. rec_key E obj a < rec_key E obj b) T" using T by (simp add: table_ok_def)
    have "?R = page @ drop n ?R" unfolding page(1) by (rule append_take_drop_id [symmetric])
    moreover have "page @ drop n ?R = butlast page @ last page # drop n ?R"
      using append_butlast_last_id [OF page(2)] by (metis append.assoc append_Cons append_Nil)
    ultimately show "asc_select E obj lit_dt T (AscFrom (to_soql_datetime_literal (e_fromiso E) (e_fmt E) (cy_wm cy))
        (if cy_window cy = [] \<or> last (cy_window cy) = [] then None else Some (last (cy_window cy))))
      = butlast page @ last page # drop n ?R"
      unfolding asc_query_def by (rule trans)
  qed
  finally show ?thesis .
qed

lemma asc_drain_complete:
  assumes env: "lits_ok E lit_dt" "no_raise E" and T: "table_ok E obj T"
    and "cy_stop cy = None"
    and "\<And>r. r \<in> set (asc_select E obj lit_dt T (asc_query E cy)) \<Longrightarrow> id_of r \<notin> set (cy_window cy)"
    and "asc_drain E obj key as cy = (e, cy')" "cy_queries cy' = cy_queries cy @ qs" "served E obj lit_dt T as qs"
    and "length (asc_select E obj lit_dt T (asc_query E cy)) < PAGE_LIMIT * length as"
  shows "e = CyDone \<and> cy_emitted cy' = cy_emitted cy @ asc_select E obj lit_dt T (asc_query E cy)"
  using assms(4-)
proof (induction as arbitrary: cy qs)
  case (Cons a as)
  let ?q = "asc_query E cy" and ?cy1 = "cy\<lparr>cy_queries := cy_queries cy @ [asc_query E cy]\<rparr>"
  let ?R = "asc_select E obj lit_dt T ?q"
  let ?page = "take PAGE_LIMIT ?R"
  obtain qs1 where qs: "qs = ?q # qs1" using asc_drain_queries [OF Cons.prems(3)] Cons.prems(4) by auto
  have a: "a = Inr ?page" and sv: "served E obj lit_dt T as qs1"
    using Cons.prems(5) by (simp_all add: qs served_Cons)
  have new: "filter (\<lambda>r. id_of r \<notin> set (cy_window cy)) ?page = ?page"
    using Cons.prems(2) by (intro filter_True) (auto dest: in_set_takeD)
  have ok: "list_all (rec_ok E obj) ?page"
    using T asc_select_subset [of E obj lit_dt T ?q] by (auto simp: table_ok_def list_all_iff dest!: in_set_takeD)
  let ?cy2 = "?cy1\<lparr>cy_state := clear_stall obj (cy_state ?cy1)\<rparr>"
  have st2: "cy_stop ?cy2 = None" using Cons.prems(1) by simp
  obtain cy2 where el: "emit_loop E obj key ?page ?cy2 = (CyDone, cy2)" "cy_stop cy2 = None"
      "cy_emitted cy2 = cy_emitted ?cy2 @ ?page" "set (cy_window cy2) \<subseteq> set (cy_window ?cy2) \<union> id_of ` set ?page"
      "if ?page = [] then cy_wm cy2 = cy_wm ?cy2 \<and> cy_window cy2 = cy_window ?cy2
       else cy_wm cy2 = ts_of (ts_field obj) (last ?page) \<and> cy_window cy2 \<noteq> [] \<and> last (cy_window cy2) = id_of (last ?page)"
    using emit_loop_all [OF env(2) st2 ok, of key] by (elim exE conjE) (rule that)
  show ?case
  proof (cases "length ?page < PAGE_LIMIT")
    case True
    then have short: "length ?R < PAGE_LIMIT" by (simp add: min_def split: if_splits)
    then have all: "?page = ?R" by simp
    have "e = CyDone \<and> cy_emitted cy' = cy_emitted cy @ ?page"
    proof (cases "?page = []")
      case True
      then show ?thesis using Cons.prems(3) a by (auto simp: Let_def split: if_splits)
    next
      case False
      have "asc_drain E obj key (a # as) cy = (CyDone, clear_failures obj cy2)"
        using a new el(1) short False by (simp add: Let_def)
      then have "e = CyDone" "cy' = clear_failures obj cy2" using Cons.prems(3) by simp_all
      then show ?thesis using el(3) by (simp add: clear_failures_def)
    qed
    then show ?thesis by (simp only: all)
  next
    case False
    let ?cy3 = "clear_failures obj cy2"
    have ne: "?page \<noteq> []" using False by (auto simp: PAGE_LIMIT_def)
    have step: "asc_drain E obj key as ?cy3 = (e, cy')"
      using Cons.prems(3) a new el False ne by (simp add: Let_def)
    have sel: "asc_select E obj lit_dt T (asc_query E ?cy3) = drop PAGE_LIMIT ?R"
      using el(5) ne ok by (intro asc_select_next [OF env(1) T]) (auto simp: clear_failures_def)
    have disj: "id_of r \<notin> set (cy_window ?cy3)" if "r \<in> set (drop PAGE_LIMIT ?R)" for r
    proof -
      have "distinct (map id_of (?page @ drop PAGE_LIMIT ?R))"
        using T asc_select_distinct [of T E obj lit_dt ?q] by (simp add: table_ok_def)
      then have "id_of r \<notin> id_of ` set ?page" using that by (auto simp del: append_take_drop_id)
      moreover have "id_of r \<notin> set (cy_window cy)" using Cons.prems(2) that by (auto dest: in_set_dropD)
      ultimately show ?thesis using el(4) by (auto simp: clear_failures_def)
    qed
    have q3: "cy_queries cy' = cy_queries ?cy3 @ qs1"
      using Cons.prems(4) emit_loop_queries [OF el(1)] qs by (simp add: clear_failures_def)
    have "e = CyDone \<and> cy_emitted cy' = cy_emitted ?cy3 @ drop PAGE_LIMIT ?R"
      using Cons.IH [of ?cy3 qs1] el(2) disj step q3 sv Cons.prems(6) False sel by (simp add: clear_failures_def)
    then show ?thesis using el(3) by (simp add: clear_failures_def)
  qed
qed simp

lemma end_cycle_frame [simp]:
  "cy_emitted (end_cycle E obj cy0 cy) = cy_emitted cy" "cy_queries (end_cycle E obj cy0 cy) = cy_queries cy"
  by (auto simp: end_cycle_def split: prod.split)

lemma asc_cycle_runs:
  assumes "\<not> big_object obj" "lits_ok E lit_dt" "no_raise E" "table_ok E obj T"
    and cy0: "cy0 = start_cycle E obj raw None st"
    and fresh: "\<And>r. r \<in> set (asc_select E obj lit_dt T (asc_query E cy0)) \<Longrightarrow> id_of r \<notin> set (cy_window cy0)"
    and run: "process_object E obj raw answers None st = (e, cy)" and "served E obj lit_dt T answers (cy_queries cy)"
    and "length T < PAGE_LIMIT * length answers"
  shows "e = CyDone \<and> cy_emitted cy = asc_select E obj lit_dt T (asc_query E cy0)"
proof -
  obtain e1 cy1 where d: "asc_drain E obj (ck_key obj) answers cy0 = (e1, cy1)" by fastforce
  have start: "cy_stop cy0 = None" "cy_queries cy0 = []" "cy_emitted cy0 = []"
    using cy0 by (auto simp: start_cycle_def split: prod.split)
  have cy: "cy_emitted cy = cy_emitted cy1" "cy_queries cy = cy_queries cy1" "e = e1"
    using run d assms(1) cy0 by (cases e1; auto simp: process_object_def Let_def)+
  have le: "length (asc_select E obj lit_dt T (asc_query E cy0)) \<le> length T"
    by (cases "(E, obj, lit_dt, T, asc_query E cy0)" rule: asc_select.cases) auto
  have "e1 = CyDone \<and> cy_emitted cy1 = cy_emitted cy0 @ asc_select E obj lit_dt T (asc_query E cy0)"
    using assms(8,9) start cy le
    by (intro asc_drain_complete [OF assms(2-4) start(1) fresh d]) auto
  then show ?thesis using cy start by simp
qed

text \<open>
  C6. One cycle of the ascending path against a table that stays as it is, with enough answers and
  neither stop nor failing transform: it ends, and the records it has gone through are exactly the
  records behind its cursor, each once and in the table's order, for any number of pages and any
  number of records with equal timestamps.
\<close>

theorem asc_cycle_complete:
  assumes "\<not> big_object obj" "lits_ok E lit_dt" "no_raise E" "table_ok E obj T"
    and "\<And>r. r \<in> set T \<Longrightarrow> id_of r \<notin> set (snd (resolve_cursor E obj raw))"
    and "process_object E obj raw answers None st = (e, cy)" "served E obj lit_dt T answers (cy_queries cy)"
    and "length T < PAGE_LIMIT * length answers"
  shows "e = CyDone \<and> cy_emitted cy = asc_select E obj lit_dt T (asc_query E (start_cycle E obj raw None st))
    \<and> distinct (map id_of (cy_emitted cy))"
proof -
  have win: "cy_window (start_cycle E obj raw None st) = snd (resolve_cursor E obj raw)"
    by (simp add: start_cycle_def split: prod.split)
  have "e = CyDone \<and> cy_emitted cy = asc_select E obj lit_dt T (asc_query E (start_cycle E obj raw None st))"
    using assms(5-8) asc_select_subset [of E obj lit_dt T] win
    by (intro asc_cycle_runs [OF assms(1-4) refl]) auto
  then show ?thesis using asc_select_distinct [of T E obj] assms(4) by (auto simp: table_ok_def)
qed

text \<open>
  Once ids are carried, a cycle never reaches a record at the stored watermark whose id sorts
  before the last carried one, although it was never processed: it became visible after the page that
  set the watermark, and no later cycle fetches it either, as the cursor only moves on.
\<close>

theorem asc_late_tie_skipped:
  assumes "\<not> big_object obj" "lits_ok E lit_dt" "no_raise E" "table_ok E obj T"
    and cur: "resolve_cursor E obj raw = (wm, ws @ [i])" "i \<noteq> []" "watermark_datetime (e_fromiso E) wm = Some t" "t mod 1000 = 0"
    and late: "r \<in> set T" "rec_ts E obj r = t" "id_of r < i" "id_of r \<notin> set (ws @ [i])"
    and fresh: "\<And>x. x \<in> set T \<Longrightarrow> (t, i) < rec_key E obj x \<Longrightarrow> id_of x \<notin> set (ws @ [i])"
    and run: "process_object E obj raw answers None st = (e, cy)" "served E obj lit_dt T answers (cy_queries cy)"
      "length T < PAGE_LIMIT * length answers"
  shows "e = CyDone \<and> r \<notin> set (cy_emitted cy)"
proof -
  let ?cy0 = "start_cycle E obj raw None st"
  have lit: "lit_dt (to_soql_datetime_literal (e_fromiso E) (e_fmt E) wm) = t"
    using cur(3,4) assms(2) by (auto simp: to_soql_datetime_literal_def watermark_datetime_def lits_ok_def split: if_splits)
  have sel: "asc_select E obj lit_dt T (asc_query E ?cy0) = filter (\<lambda>x. (t, i) < rec_key E obj x) T"
    using cur lit by (simp add: asc_query_def start_cycle_def)
  have win: "cy_window ?cy0 = ws @ [i]" using cur(1) by (simp add: start_cycle_def)
  have "id_of x \<notin> set (cy_window ?cy0)" if "x \<in> set (asc_select E obj lit_dt T (asc_query E ?cy0))" for x
    using that fresh [of x] unfolding sel win by simp
  then have "e = CyDone \<and> cy_emitted cy = asc_select E obj lit_dt T (asc_query E ?cy0)"
    by (rule asc_cycle_runs [OF assms(1-4) refl _ run])
  then show ?thesis using late by (auto simp: sel rec_key_def less_prod_def dest: less_asym)
qed

subsection \<open>The memory cap of a big object\<close>

lemma collect_all:
  assumes "distinct (map id_of page)" "\<forall>r \<in> set page. id_of r \<noteq> [] \<and> id_of r \<notin> fst ` set col"
  shows "collect page col = (map id_of page, col @ map (\<lambda>r. (id_of r, r)) page)"
  using assms
proof (induction page arbitrary: col)
  case (Cons r page)
  have "collect page (col @ [(id_of r, r)]) =
      (map id_of page, (col @ [(id_of r, r)]) @ map (\<lambda>r. (id_of r, r)) page)"
    using Cons.prems by (intro Cons.IH) (force simp: image_iff)+
  with Cons.prems show ?case by simp
qed simp

text \<open>
  A big object with a memory cap: the drain keeps the oldest records of its window, which begin
  at the watermark itself. If the records kept are ones already carried, for instance when the cap
  is not above the number of records at the watermark, the cycle yields nothing, moves nothing and
  reports no stall, however many newer records there are; the next cycle starts from the same cursor.
\<close>

theorem big_object_cap_stalls:
  assumes big: "big_object obj" "0 < max_catchup obj"
    and page: "length page < PAGE_LIMIT" "distinct (map id_of page)" "\<forall>r \<in> set page. id_of r \<noteq> []"
    and kept: "id_of ` set (take_last (max_catchup obj) page) \<subseteq> set (snd (resolve_cursor E obj raw))"
  shows "fst (process_object E obj raw [Inr page] None st) = CyDone
    \<and> cy_out (snd (process_object E obj raw [Inr page] None st)) = []
    \<and> stall_alerts (cy_state (snd (process_object E obj raw [Inr page] None st))) = stall_alerts st
    \<and> (cy_wm (snd (process_object E obj raw [Inr page] None st)), cy_window (snd (process_object E obj raw [Inr page] None st)))
        = resolve_cursor E obj raw"
proof -
  obtain wm ws where rc: "resolve_cursor E obj raw = (wm, ws)" by fastforce
  let ?cy0 = "start_cycle E obj raw None st"
  let ?col = "map (\<lambda>r. (id_of r, r)) page"
  have col: "collect page [] = (map id_of page, ?col)" using collect_all [OF page(2), of "[]"] page(3) by simp
  have nx: "drain_next E obj wm page (map id_of page) NoBound = Drained"
    using page(1) by (simp add: drain_next_def)
  have ev: "map snd (evict (max_catchup obj) ?col) = take_last (max_catchup obj) page"
    using big(2) by (simp add: evict_def take_last_def drop_map [symmetric] comp_def)
  obtain cy1 where d: "drain_big_object E obj wm [Inr page] NoBound [] ?cy0 =
      (DrRecords (ascending E obj (evict (max_catchup obj) ?col)), cy1)"
    and cy1: "cy_wm cy1 = wm" "cy_window cy1 = ws" "cy_out cy1 = []" "stall_alerts (cy_state cy1) = stall_alerts st"
    using rc col nx by (simp add: check_stop_def start_cycle_def Let_def clear_stall_def)
  have w0: "cy_wm ?cy0 = wm" using rc by (simp add: start_cycle_def)
  have none: "filter (\<lambda>r. id_of r \<notin> set ws) (ascending E obj (evict (max_catchup obj) ?col)) = []"
    using kept rc by (auto simp: ascending_def ev filter_empty_conv)
  have "process_object E obj raw [Inr page] None st = (CyDone, end_cycle E obj ?cy0 (clear_failures obj cy1))"
    using big(1) d none cy1 w0 by (simp add: process_object_def Let_def del: drain_big_object.simps)
  then show ?thesis
    using cy1 rc by (simp add: end_cycle_def clear_failures_def start_cycle_def)
qed

subsection \<open>Witnesses\<close>

text \<open>An environment with instants printed in decimal and a plain string codec for checkpoints.\<close>

definition enc_str :: "string \<Rightarrow> string" where
  "enc_str s = concat (map (\<lambda>c. [CHR ''a'', c]) s) @ ''z''"

fun dec_strs :: "string \<Rightarrow> string \<Rightarrow> string list" where
  "dec_strs acc (x # r) =
     (if x = CHR ''z'' then rev acc # dec_strs [] r
      else case r of [] \<Rightarrow> [] | c # r1 \<Rightarrow> dec_strs (c # acc) r1)"
| "dec_strs acc [] = []"

lemma dec_enc_str: "dec_strs acc (enc_str s @ r) = (rev acc @ s) # dec_strs [] r"
proof (induction s arbitrary: acc)
  case (Cons c s)
  have "dec_strs acc (enc_str (c # s) @ r) = dec_strs (c # acc) (enc_str s @ r)" by (simp add: enc_str_def)
  with Cons show ?case by simp
qed (simp add: enc_str_def)

lemma dec_enc_strs: "dec_strs [] (concat (map enc_str ws)) = ws"
  by (induction ws) (simp_all add: dec_enc_str)

definition demo_dumps :: "string list \<Rightarrow> string \<Rightarrow> string" where
  "demo_dumps ws wm = enc_str wm @ concat (map enc_str ws)"

definition demo_loads :: "string \<Rightarrow> json option" where
  "demo_loads s =
     (case dec_strs [] s of
        [] \<Rightarrow> None
      | wm # ws \<Rightarrow> Some (JObject [(''ids'', FArr (map VStr ws) []), (''last_ts'', FVal (VStr wm))]))"

definition demo_env :: elo_env where
  "demo_env = \<lparr>e_fromiso = py_int, e_strp = (\<lambda>_. None), e_fmt = show_int, e_fmt_default = show_int, e_now = 0,
     e_loads = demo_loads, e_dumps_ck = demo_dumps, e_dumps = (\<lambda>_. []), e_dumps_key = (\<lambda>_. []), e_sha256 = (\<lambda>_. []),
     e_transforms = [], e_sm_fields = []\<rparr>"

definition demo_obj :: "bool \<Rightarrow> nat \<Rightarrow> object_config" where
  "demo_obj big cap = \<lparr>obj_name = ''LoginEvent'', ts_field = ''EventDate'', sample = 1, big_object = big,
     max_catchup = cap, lookback = 0\<rparr>"

definition demo_rec :: "string \<Rightarrow> datetime \<Rightarrow> payload" where
  "demo_rec i t = [(''Id'', VStr i), (''EventDate'', VStr (show_int t))]"

lemma show_int_no_Z: "replace1 (CHR ''Z'') r (show_int t) = show_int t"
proof (rule replace1_id)
  have "CHR ''Z'' \<notin> set (show_nat n)" for n
    using show_nat_digits [of n] by (auto simp: list_all_iff is_digit_def less_eq_char_def)
  then show "CHR ''Z'' \<notin> set (show_int t)" by (simp add: show_int_def)
qed

lemma show_int_ne [simp]: "show_int t \<noteq> []"
  by (simp add: show_int_def)

lemma demo_watermark [simp]: "watermark_datetime py_int (show_int t) = Some t"
  by (simp add: watermark_datetime_def show_int_no_Z)

lemma demo_literal [simp]: "to_soql_datetime_literal py_int show_int (show_int t) = show_int (t - t mod 1000)"
  by (simp add: to_soql_datetime_literal_def show_int_no_Z)

lemma demo_rec_simps [simp]:
  "id_of (demo_rec i t) = i" "ts_of ''EventDate'' (demo_rec i t) = show_int t"
  by (auto simp: id_of_def ts_of_def demo_rec_def or_empty_def)

lemma demo_laws:
  "codec_ok demo_env" "cache_ok demo_env new_elo_state" "lits_ok demo_env (\<lambda>s. the (py_int s))" "no_raise demo_env"
  "is_valid_watermark (e_fromiso demo_env) (e_fmt_default demo_env t)"
  by (auto simp: codec_ok_def cache_ok_def new_elo_state_def lits_ok_def no_raise_def demo_env_def is_valid_watermark_def
      demo_loads_def demo_dumps_def dec_enc_str dec_enc_strs)

lemma demo_resolve [simp]:
  "resolve_cursor demo_env (demo_obj b n) None = (show_int 0, [])"
  "resolve_cursor demo_env (demo_obj b n) (Some (demo_dumps ws (show_int t))) = (show_int t, ws)"
  using parse_dumped [OF demo_laws(1), of ws "show_int t"]
  by (simp_all add: resolve_cursor_def is_valid_watermark_def demo_env_def demo_obj_def watermark_datetime_def [of _ "[]"])

lemma demo_table: "table_ok demo_env (demo_obj b n) [demo_rec ''a'' 1000, demo_rec ''b'' 1000]"
  by (simp add: table_ok_def rec_ok_def rec_key_def rec_ts_def is_valid_watermark_def demo_env_def demo_obj_def
      less_list_code less_char_def)

lemma demo_fields [simp]: "big_object (demo_obj b n) = b" "max_catchup (demo_obj b n) = n"
  by (simp_all add: demo_obj_def)

lemma demo_key [simp]:
  "rec_ts demo_env (demo_obj b n) (demo_rec i t) = t" "rec_key demo_env (demo_obj b n) (demo_rec i t) = (t, i)"
  by (simp_all add: rec_key_def rec_ts_def demo_obj_def demo_env_def)

lemma demo_first_query:
  "asc_query demo_env (start_cycle demo_env (demo_obj b n) None None st) = AscFrom (show_int 0) None"
  "asc_query demo_env (start_cycle demo_env (demo_obj b n) (Some (demo_dumps [''b''] (show_int 1000))) None st)
     = AscFrom (show_int 1000) (Some ''b'')"
  by (simp_all add: asc_query_def start_cycle_def) (simp_all add: demo_env_def)

lemma demo_served:
  assumes "process_object demo_env (demo_obj False 0) raw [Inr page] None new_elo_state = (e, cy)"
    and "page = take PAGE_LIMIT (asc_select demo_env (demo_obj False 0) f T
          (asc_query demo_env (start_cycle demo_env (demo_obj False 0) raw None new_elo_state)))"
  shows "served demo_env (demo_obj False 0) f T [Inr page] (cy_queries cy)"
proof -
  let ?cy0 = "start_cycle demo_env (demo_obj False 0) raw None new_elo_state"
  obtain e1 cy1 where d: "asc_drain demo_env (demo_obj False 0) (ck_key (demo_obj False 0)) [Inr page] ?cy0 = (e1, cy1)"
    by fastforce
  have "cy_queries cy = cy_queries cy1"
    using assms(1) d by (cases e1) (auto simp: process_object_def Let_def demo_obj_def)
  moreover have "cy_queries ?cy0 = []" by (simp add: start_cycle_def split: prod.split)
  ultimately obtain qs where "cy_queries cy = asc_query demo_env ?cy0 # qs" using asc_drain_queries [OF d] by auto
  then show ?thesis using assms(2) by (simp add: served_def)
qed

lemma demo_emit:
  "\<exists>x wm1 ws1 st1. emit_record demo_env (demo_obj b n) key (demo_rec i t) wm ws st = Some (Some x, wm1, ws1, st1)"
proof -
  obtain wm1 ws1 where adv: "advance demo_env (demo_obj b n) (demo_rec i t) wm ws = (wm1, ws1)" by fastforce
  obtain v st1 where ck: "checkpoint_value demo_env key ws1 wm1 st = (v, st1)" by fastforce
  obtain ln sm where rf: "route_fields (e_dumps demo_env) (demo_rec i t) (e_sm_fields demo_env) = (ln, sm)" by fastforce
  have "e_transforms demo_env = []" "\<not> sample (demo_obj b n) < 1" by (simp_all add: demo_env_def demo_obj_def)
  then show ?thesis using adv ck rf by (simp add: emit_record_def Let_def)
qed

theorem asc_cycle_complete_witness:
  "cy_emitted (snd (process_object demo_env (demo_obj False 0) None
     [Inr [demo_rec ''a'' 1000, demo_rec ''b'' 1000]] None new_elo_state)) = [demo_rec ''a'' 1000, demo_rec ''b'' 1000]"
proof -
  let ?T = "[demo_rec ''a'' 1000, demo_rec ''b'' 1000]" and ?f = "\<lambda>s. the (py_int s)"
  obtain e cy where run: "process_object demo_env (demo_obj False 0) None [Inr ?T] None new_elo_state = (e, cy)" by fastforce
  have sel: "asc_select demo_env (demo_obj False 0) ?f ?T (AscFrom (show_int 0) None) = ?T"
    by (simp add: demo_key)
  have sv: "served demo_env (demo_obj False 0) ?f ?T [Inr ?T] (cy_queries cy)"
    by (rule demo_served [OF run]) (simp only: demo_first_query sel, simp add: PAGE_LIMIT_def)
  have fresh: "id_of r \<notin> set (snd (resolve_cursor demo_env (demo_obj False 0) None))" if "r \<in> set ?T" for r by simp
  have "length ?T < PAGE_LIMIT * length [Inr ?T :: soql_answer]" by (simp add: PAGE_LIMIT_def)
  from asc_cycle_complete [OF _ demo_laws(3,4) demo_table fresh run sv this]
  have "cy_emitted cy = ?T" by (simp only: demo_first_query sel demo_fields simp_thms)
  then show ?thesis using run by simp
qed

theorem asc_late_tie_skipped_witness:
  "demo_rec ''a'' 1000 \<notin> set (cy_emitted (snd (process_object demo_env (demo_obj False 0)
     (Some (demo_dumps [''b''] (show_int 1000))) [Inr []] None new_elo_state)))"
proof -
  let ?T = "[demo_rec ''a'' 1000, demo_rec ''b'' 1000]" and ?f = "\<lambda>s. the (py_int s)"
  let ?raw = "Some (demo_dumps [''b''] (show_int 1000))"
  obtain e cy where run: "process_object demo_env (demo_obj False 0) ?raw [Inr []] None new_elo_state = (e, cy)" by fastforce
  have lt: "''a'' < ''b''" by (simp add: less_list_code less_char_def)
  have gt: "\<not> ''b'' < ''a''" using lt by (rule less_not_sym)
  have sel: "asc_select demo_env (demo_obj False 0) ?f ?T (AscFrom (show_int 1000) (Some ''b'')) = []"
    using gt by (simp add: less_prod_def)
  have sv: "served demo_env (demo_obj False 0) ?f ?T [Inr []] (cy_queries cy)"
    by (rule demo_served [OF run]) (simp only: demo_first_query sel take_Nil)
  have cur: "resolve_cursor demo_env (demo_obj False 0) ?raw = (show_int 1000, [] @ [''b''])" by simp
  have wm: "watermark_datetime (e_fromiso demo_env) (show_int 1000) = Some 1000" by (simp add: demo_env_def)
  have late: "demo_rec ''a'' 1000 \<in> set ?T" "rec_ts demo_env (demo_obj False 0) (demo_rec ''a'' 1000) = 1000"
    "id_of (demo_rec ''a'' 1000) < ''b''" "id_of (demo_rec ''a'' 1000) \<notin> set ([] @ [''b''])"
    using lt by simp_all
  have fresh: "id_of x \<notin> set ([] @ [''b''])" if "x \<in> set ?T" "(1000, ''b'') < rec_key demo_env (demo_obj False 0) x" for x
    using that gt by (auto simp: less_prod_def)
  have len: "length ?T < PAGE_LIMIT * length [Inr [] :: soql_answer]" by (simp add: PAGE_LIMIT_def)
  from asc_late_tie_skipped [OF _ demo_laws(3,4) demo_table cur _ wm _ late fresh run sv len]
  have "demo_rec ''a'' 1000 \<notin> set (cy_emitted cy)" by simp
  then show ?thesis using run by simp
qed

theorem big_object_cap_stalls_witness:
  "cy_out (snd (process_object demo_env (demo_obj True 1) (Some (demo_dumps [''b''] (show_int 1000)))
     [Inr [demo_rec ''n'' 9000, demo_rec ''b'' 1000]] None new_elo_state)) = []"
  using big_object_cap_stalls [of "demo_obj True 1" "[demo_rec ''n'' 9000, demo_rec ''b'' 1000]" demo_env
      "Some (demo_dumps [''b''] (show_int 1000))" new_elo_state]
  by (simp add: take_last_def PAGE_LIMIT_def)

theorem elo_tokens_sound_witness:
  "\<exists>x. x \<in> set (cy_out (snd (process_object demo_env (demo_obj False 0) None [Inr [demo_rec ''a'' 1000]] None new_elo_state)))
     \<and> is_valid_watermark py_int (fst (resolve_cursor demo_env (demo_obj False 0) (Some (tok_value (checkpoint x)))))"
proof -
  obtain e cy where run: "process_object demo_env (demo_obj False 0) None [Inr [demo_rec ''a'' 1000]] None new_elo_state = (e, cy)"
    by fastforce
  let ?cy0 = "start_cycle demo_env (demo_obj False 0) None None new_elo_state" and ?r = "demo_rec ''a'' 1000"
  let ?cy1 = "?cy0\<lparr>cy_queries := cy_queries ?cy0 @ [asc_query demo_env ?cy0]\<rparr>"
  let ?cy2 = "?cy1\<lparr>cy_state := clear_stall (demo_obj False 0) (cy_state ?cy1)\<rparr>"
  have c0: "cy_window ?cy0 = []" "cy_stop ?cy0 = None" "cy_out ?cy0 = []" by (simp_all add: start_cycle_def)
  obtain x1 wm1 ws1 st1 where er: "emit_record demo_env (demo_obj False 0) (ck_key (demo_obj False 0)) ?r
      (cy_wm ?cy2) (cy_window ?cy2) (cy_state ?cy2) = Some (Some x1, wm1, ws1, st1)"
    using demo_emit by blast
  have el: "emit_loop demo_env (demo_obj False 0) (ck_key (demo_obj False 0)) [?r] ?cy2 =
      (CyDone, ?cy2\<lparr>cy_wm := wm1, cy_window := ws1, cy_state := st1, cy_out := [x1], cy_emitted := cy_emitted ?cy2 @ [?r]\<rparr>)"
    using er c0 by (simp add: check_stop_def)
  then have "asc_drain demo_env (demo_obj False 0) (ck_key (demo_obj False 0)) [Inr [?r]] ?cy0 =
      (CyDone, clear_failures (demo_obj False 0) (?cy2\<lparr>cy_wm := wm1, cy_window := ws1, cy_state := st1, cy_out := [x1],
         cy_emitted := cy_emitted ?cy2 @ [?r]\<rparr>))"
    using c0 by (simp add: Let_def PAGE_LIMIT_def del: emit_loop.simps)
  then have out: "cy_out cy \<noteq> []"
    using run by (auto simp: process_object_def Let_def end_cycle_def clear_failures_def simp del: asc_drain.simps)
  then obtain x where x: "x \<in> set (cy_out cy)" by (cases "cy_out cy") auto
  have "is_valid_watermark (e_fromiso demo_env) (fst (resolve_cursor demo_env (demo_obj False 0) (Some (tok_value (checkpoint x)))))"
    using elo_tokens_sound [OF run demo_laws(2,1,5)] x by (auto simp: list_all_iff)
  then have "is_valid_watermark py_int (fst (resolve_cursor demo_env (demo_obj False 0) (Some (tok_value (checkpoint x)))))"
    by (simp add: demo_env_def)
  with x run show ?thesis by (intro exI [of _ x]) simp
qed

end
