(* ===== verification/Lifecycle.thy ===== *)
theory Lifecycle
  imports FileLease Pipeline
begin

section \<open>app.py: leadership lifecycle; obs/health.py: the health endpoint\<close>

text \<open>
  \<^verbatim>\<open>obs/health.py\<close> and the part of \<^verbatim>\<open>app.py\<close> that drives the pipeline under a
  coordinator: the callbacks \<^verbatim>\<open>on_acquire\<close> and \<^verbatim>\<open>on_lose\<close>, the pipeline task with its
  done-callback, the startup probe and the shutdown. What the pipeline task does is an input of the
  event at which it ends (\<open>pipe_result\<close>); everything \<^verbatim>\<open>App.run\<close> keeps is the record \<open>app\<close>.

  Results: under any coordinator whose callbacks alternate, at most one pipeline runs, each term
  begins with the store's cache dropped since the one before, and the endpoint reports ready exactly
  during a term; the process fails exactly if a pipeline or the coordinator failed. A commit refused
  by the fence, which the code means to answer by standing by, ends the process instead.
\<close>

subsection \<open>The health endpoint\<close>

definition decide :: "string \<Rightarrow> bool \<Rightarrow> string option \<Rightarrow> string \<Rightarrow> nat \<times> string" where
  "decide path ready reason standby_reason =
     (if path = ''/healthz'' then (200, ''ok'')
      else if path = ''/readyz'' then
        (if \<not> ready then (503, standby_reason)
         else case reason of
           Some (c # cs) \<Rightarrow> (503, c # cs)
         | _ \<Rightarrow> (200, ''ready''))
      else (404, ''not found''))"

definition REASON_PHRASES :: "(nat \<times> string) list" where
  "REASON_PHRASES = [(200, ''OK''), (404, ''Not Found''), (503, ''Service Unavailable'')]"

record health =
  h_ready :: bool
  h_not_ready_reason :: string

definition new_health :: health where
  "new_health = \<lparr>h_ready = False, h_not_ready_reason = ''not ready''\<rparr>"

definition set_ready :: "health \<Rightarrow> health" where
  "set_ready h = h\<lparr>h_ready := True\<rparr>"

definition set_not_ready :: "string \<Rightarrow> health \<Rightarrow> health" where
  "set_not_ready reason h = h\<lparr>h_ready := False, h_not_ready_reason := reason\<rparr>"

text \<open>\<^verbatim>\<open>bytes.split()\<close>, over the white space of bytes.\<close>

definition byte_space :: "char \<Rightarrow> bool" where
  "byte_space c \<longleftrightarrow> of_char c \<in> set [9::nat, 10, 11, 12, 13, 32]"

fun split_ws :: "string \<Rightarrow> string \<Rightarrow> string list" where
  "split_ws cur [] = (if cur = [] then [] else [rev cur])"
| "split_ws cur (c # s) =
     (if byte_space c then (if cur = [] then split_ws [] s else rev cur # split_ws [] s)
      else split_ws (c # cur) s)"

text \<open>\<^verbatim>\<open>_handle\<close> for a request line that arrived in time (\<open>None\<close> is the time-out, which closes
  the connection without an answer): status, reason phrase, declared length and the bytes of the body.
  \<open>decode\<close> and \<open>enc\<close> are the two UTF-8 conversions, \<open>check\<close> is the installed degradation
  predicate.\<close>

definition handle ::
  "(string \<Rightarrow> string) \<Rightarrow> (string \<Rightarrow> 'b list) \<Rightarrow> (unit \<Rightarrow> string option) option \<Rightarrow> health \<Rightarrow> string option
     \<Rightarrow> (nat \<times> string \<times> nat \<times> 'b list) option" where
  "handle decode enc check h req =
     (case req of
        None \<Rightarrow> None
      | Some request_line \<Rightarrow>
          (let parts = split_ws [] request_line;
               path = (case parts of _ # p # _ \<Rightarrow> decode p | _ \<Rightarrow> ''/'');
               (status, body) = decide path (h_ready h) (case check of None \<Rightarrow> None | Some c \<Rightarrow> c ()) (h_not_ready_reason h)
           in Some (status, case map_of REASON_PHRASES status of None \<Rightarrow> [] | Some p \<Rightarrow> p, length (enc body), enc body)))"

subsection \<open>Degradation predicates\<close>

definition format_failing_duration :: "rat \<Rightarrow> string" where
  "format_failing_duration s =
     (if s \<ge> 60 then show_int \<lfloor>s / 60\<rfloor> @ ''m'' else show_int \<lfloor>s\<rfloor> @ ''s'')"

definition sink_degradation_check :: "seconds option \<Rightarrow> seconds \<Rightarrow> seconds \<Rightarrow> string option" where
  "sink_degradation_check since threshold now =
     (case since of
        None \<Rightarrow> None
      | Some t \<Rightarrow>
          if now - t \<le> threshold then None
          else Some (''degraded: loki pushes failing for '' @ format_failing_duration (now - t)))"

text \<open>The orgs that failed at startup, each with whether it has a token by now.\<close>

fun org_auth_degraded_check :: "(string \<times> bool) list \<Rightarrow> string option" where
  "org_auth_degraded_check [] = None"
| "org_auth_degraded_check ((name, has_token) # rest) =
     (if \<not> has_token then Some (''degraded: org '' @ name @ '' auth failing'') else org_auth_degraded_check rest)"

fun composite_degraded_check :: "string option list \<Rightarrow> string option" where
  "composite_degraded_check [] = None"
| "composite_degraded_check (c # cs) = (case c of Some r \<Rightarrow> Some r | None \<Rightarrow> composite_degraded_check cs)"

definition deployment_static_labels :: "labelset \<Rightarrow> labelset" where
  "deployment_static_labels operator_labels =
     dict_merge [(''job'', ''sf2loki''), (''service_name'', ''sf2loki'')] operator_labels"

subsection \<open>Startup probe\<close>

text \<open>Each org with the outcome of its token: the degraded orgs, or the exception raised when every
  org failed. The probe runs for a configured, hence non-empty, list of orgs.\<close>

definition probe_orgs :: "(string \<times> 'x option) list \<Rightarrow> 'x + string list" where
  "probe_orgs results =
     (let failed = filter (\<lambda>(_, x). x \<noteq> None) results in
      if length failed = length results
      then (case failed of (_, Some x) # _ \<Rightarrow> Inl x | _ \<Rightarrow> Inr [])
      else Inr (map fst failed))"

subsection \<open>The application\<close>

text \<open>How a pipeline run ends: drained, cut off after the grace period, a commit refused by the
  fence, or another exception.\<close>

datatype 'x pipe_result = PipeDrained | PipeCutOff | PipeFenced | PipeFailed 'x

text \<open>\<^verbatim>\<open>_drain_with_grace\<close> and \<^verbatim>\<open>_run_pipeline\<close>: \<open>Some x\<close> is the exception of the task.\<close>

definition run_pipeline :: "'x pipe_result \<Rightarrow> 'x option" where
  "run_pipeline r = (case r of PipeFailed x \<Rightarrow> Some x | _ \<Rightarrow> None)"

datatype task = Running | Ended

record 'x app =
  a_stop :: bool
  a_crash :: "'x list"
  a_current :: "(bool \<times> task) option"
  a_leader :: bool
  a_health :: health
  a_cache_dropped :: bool
  a_orphans :: nat
  a_stale_starts :: nat
  a_resets :: nat
  a_terms :: nat

definition new_app :: "'x app" where
  "new_app = \<lparr>a_stop = False, a_crash = [], a_current = None, a_leader = False, a_health = new_health,
     a_cache_dropped = True, a_orphans = 0, a_stale_starts = 0, a_resets = 0, a_terms = 0\<rparr>"

text \<open>\<^verbatim>\<open>_on_pipeline_done\<close>, for a task whose run stop is or is not set.\<close>

definition on_pipeline_done :: "'x option \<Rightarrow> bool \<Rightarrow> 'x app \<Rightarrow> 'x app" where
  "on_pipeline_done exc run_stop a =
     (case exc of
        Some x \<Rightarrow> a\<lparr>a_crash := a_crash a @ [x], a_stop := True\<rparr>
      | None \<Rightarrow> if \<not> run_stop then a\<lparr>a_stop := True\<rparr> else a)"

definition running :: "'x app \<Rightarrow> nat" where
  "running a = (case a_current a of Some (_, Running) \<Rightarrow> 1 | _ \<Rightarrow> 0)"

text \<open>The new run replaces whatever \<^verbatim>\<open>current\<close> held: a pipeline still running there would be an
  orphan. A term that begins with the store's cache still loaded from an earlier term is a stale start.\<close>

definition on_acquire :: "'x app \<Rightarrow> 'x app" where
  "on_acquire a =
     a\<lparr>a_leader := True, a_health := set_ready (a_health a), a_current := Some (False, Running),
       a_orphans := a_orphans a + running a,
       a_stale_starts := a_stale_starts a + (if a_cache_dropped a then 0 else 1),
       a_cache_dropped := False, a_terms := a_terms a + 1\<rparr>"

text \<open>\<^verbatim>\<open>_stop_acquisition\<close>: sets the run stop and waits for the task, which ends with \<open>r\<close> if it had
  not ended before; the done-callback runs with the run stop set.\<close>

definition stop_acquisition :: "'x pipe_result \<Rightarrow> 'x app \<Rightarrow> 'x app" where
  "stop_acquisition r a =
     (case a_current a of
        None \<Rightarrow> a
      | Some (_, Ended) \<Rightarrow> a\<lparr>a_current := None\<rparr>
      | Some (_, Running) \<Rightarrow> on_pipeline_done (run_pipeline r) True (a\<lparr>a_current := None\<rparr>))"

definition on_lose :: "'x pipe_result \<Rightarrow> 'x app \<Rightarrow> 'x app" where
  "on_lose r a =
     (let a1 = stop_acquisition r (a\<lparr>a_leader := False\<rparr>)
      in a1\<lparr>a_resets := a_resets a1 + 1, a_cache_dropped := True, a_health := set_not_ready ''standby'' (a_health a1)\<rparr>)"

text \<open>What happens to the running application: a signal, a callback of the coordinator, the pipeline
  task ending by itself.\<close>

datatype 'x app_event = Signal | Callback callback "'x pipe_result" | PipelineEnds "'x pipe_result"

definition app_step :: "'x app_event \<Rightarrow> 'x app \<Rightarrow> 'x app" where
  "app_step e a =
     (case e of
        Signal \<Rightarrow> a\<lparr>a_stop := True\<rparr>
      | Callback OnAcquire _ \<Rightarrow> on_acquire a
      | Callback OnLose r \<Rightarrow> on_lose r a
      | PipelineEnds r \<Rightarrow>
          (case a_current a of
             Some (run_stop, Running) \<Rightarrow>
               on_pipeline_done (run_pipeline r) run_stop (a\<lparr>a_current := Some (run_stop, Ended)\<rparr>)
           | _ \<Rightarrow> a))"

text \<open>The \<^verbatim>\<open>finally\<close> of \<^verbatim>\<open>run\<close> and its end: \<open>Some x\<close> is the exception the process ends
  with, the coordinator's own (\<open>coord_exc\<close>) before a pipeline's.\<close>

definition app_end :: "'x option \<Rightarrow> 'x pipe_result \<Rightarrow> 'x app \<Rightarrow> 'x option \<times> 'x app" where
  "app_end coord_exc r a =
     (let a1 = stop_acquisition r a;
          a2 = a1\<lparr>a_leader := False, a_health := set_not_ready ''not ready'' (a_health a1)\<rparr>
      in (case coord_exc of Some x \<Rightarrow> Some x | None \<Rightarrow> (case a_crash a2 of [] \<Rightarrow> None | x # _ \<Rightarrow> Some x), a2))"

definition callbacks_of :: "'x app_event list \<Rightarrow> callback list" where
  "callbacks_of es = concat (map (\<lambda>e. case e of Callback c _ \<Rightarrow> [c] | _ \<Rightarrow> []) es)"

subsection \<open>Terms\<close>

definition app_inv :: "callback list \<Rightarrow> 'x app \<Rightarrow> bool" where
  "app_inv cs a \<longleftrightarrow> a_orphans a = 0 \<and> a_stale_starts a = 0 \<and> h_ready (a_health a) = a_leader a
     \<and> a_leader a = (turn_after cs = OnLose) \<and> (\<not> a_leader a \<longrightarrow> a_current a = None \<and> a_cache_dropped a)
     \<and> a_terms a = a_resets a + (if a_leader a then 1 else 0)"

lemma on_pipeline_done_frame [simp]:
  "a_orphans (on_pipeline_done x b a) = a_orphans a" "a_stale_starts (on_pipeline_done x b a) = a_stale_starts a"
  "a_health (on_pipeline_done x b a) = a_health a" "a_leader (on_pipeline_done x b a) = a_leader a"
  "a_current (on_pipeline_done x b a) = a_current a" "a_cache_dropped (on_pipeline_done x b a) = a_cache_dropped a"
  "a_terms (on_pipeline_done x b a) = a_terms a" "a_resets (on_pipeline_done x b a) = a_resets a"
  by (simp_all add: on_pipeline_done_def split: option.split)

lemma stop_acquisition_frame [simp]:
  "a_orphans (stop_acquisition r a) = a_orphans a" "a_stale_starts (stop_acquisition r a) = a_stale_starts a"
  "a_health (stop_acquisition r a) = a_health a" "a_leader (stop_acquisition r a) = a_leader a"
  "a_current (stop_acquisition r a) = None" "a_cache_dropped (stop_acquisition r a) = a_cache_dropped a"
  "a_terms (stop_acquisition r a) = a_terms a" "a_resets (stop_acquisition r a) = a_resets a"
  by (simp_all add: stop_acquisition_def split: option.split prod.split task.split)

lemma callbacks_of_snoc:
  "callbacks_of (es @ [e]) = callbacks_of es @ (case e of Callback c _ \<Rightarrow> [c] | _ \<Rightarrow> [])"
  by (simp add: callbacks_of_def)

lemma app_inv_run:
  "alternates OnAcquire (callbacks_of es) \<Longrightarrow> app_inv (callbacks_of es) (fold app_step es new_app)"
proof (induction es rule: rev_induct)
  case Nil
  then show ?case by (simp add: app_inv_def new_app_def new_health_def callbacks_of_def turn_after_def)
next
  case (snoc e es)
  let ?a = "fold app_step es new_app"
  show ?case
  proof (cases e)
    case Signal
    then show ?thesis using snoc by (simp add: callbacks_of_snoc app_step_def app_inv_def)
  next
    case (PipelineEnds r)
    then show ?thesis using snoc
      by (auto simp: callbacks_of_snoc app_step_def app_inv_def split: option.split prod.split task.split)
  next
    case (Callback c r)
    with snoc.prems have c: "alternates OnAcquire (callbacks_of es)" "c = turn_after (callbacks_of es)"
      by (simp_all add: callbacks_of_snoc alternates_snoc)
    note inv = snoc.IH [OF c(1)]
    show ?thesis
      using inv c(2) Callback
      by (cases c)
        (auto simp: app_inv_def app_step_def on_acquire_def on_lose_def Let_def running_def set_ready_def
          set_not_ready_def callbacks_of_snoc turn_after_def split: if_splits)
  qed
qed

text \<open>
  C21. The application under a file-lease coordinator, for any run of the coordinator and any
  interleaving of signals and pipelines that end by themselves between its callbacks: no pipeline is
  ever left running beside a new one, no term begins on checkpoints cached in an earlier one, and the
  readiness endpoint answers for a leader exactly during a term.
\<close>

theorem lease_terms_sound:
  assumes "run_steps (coord_step isofmt fromiso) ws (new_lease_coord h ttl renew, f) = (cf, callbacks_of es)"
    and "a = fold app_step es new_app"
  shows "a_orphans a = 0 \<and> a_stale_starts a = 0
    \<and> (fst (decide ''/readyz'' (h_ready (a_health a)) None (h_not_ready_reason (a_health a))) = 200
         \<longleftrightarrow> turn_after (callbacks_of es) = OnLose)
    \<and> (running a = 1 \<longrightarrow> a_leader a) \<and> a_terms a = a_resets a + (if a_leader a then 1 else 0)"
proof -
  have "\<not> leading (fst (new_lease_coord h ttl renew, f))" by (simp add: new_lease_coord_def)
  then have "alternates OnAcquire (callbacks_of es)" using flease.callbacks_alternate [OF assms(1)] by blast
  from app_inv_run [OF this] show ?thesis
    using assms(2) by (auto simp: app_inv_def decide_def running_def)
qed

theorem lease_terms_sound_witness:
  "let a = fold app_step [Callback OnAcquire PipeDrained, PipelineEnds (PipeFailed ''disk full'')] new_app
   in a_orphans a = 0 \<and> a_leader a \<and> a_crash a = [''disk full'']"
proof -
  let ?es = "[Callback OnAcquire PipeDrained, PipelineEnds (PipeFailed ''disk full'')]"
  let ?ws = "[(wake_at 0, LFMissing), (wake_at 1, LFMissing)]"
  obtain cf cs where r: "run_steps (coord_step show_int py_int) ?ws (new_lease_coord [] 30 10, LFMissing) = (cf, cs)"
    by fastforce
  then have "cs = callbacks_of ?es" by (auto simp: lease_eval callbacks_of_def)
  with r have "run_steps (coord_step show_int py_int) ?ws (new_lease_coord [] 30 10, LFMissing) = (cf, callbacks_of ?es)"
    by simp
  from lease_terms_sound [OF this refl] show ?thesis
    by (simp add: app_step_def on_acquire_def on_pipeline_done_def run_pipeline_def new_app_def)
qed

subsection \<open>A fenced commit\<close>

text \<open>
  C36. A leader whose commit is refused by the fence before its coordinator has noticed the loss: the
  pipeline task ends without an exception and without its run stop, which is taken for sources that are
  exhausted, so the whole process is stopped and ends with success instead of standing by.
\<close>

theorem fenced_commit_ends_process:
  assumes "a_current a = Some (False, Running)" "a_crash a = []" "\<not> a_stop a"
    and "a' = app_step (PipelineEnds PipeFenced) a"
  shows "a_stop a' \<and> a_crash a' = [] \<and> fst (app_end None r a') = None"
  using assms
  by (simp add: app_step_def run_pipeline_def on_pipeline_done_def app_end_def stop_acquisition_def Let_def)

theorem fenced_commit_ends_process_witness:
  "a_stop (app_step (PipelineEnds PipeFenced) (on_acquire (new_app :: string app)))"
  using fenced_commit_ends_process [of "on_acquire (new_app :: string app)" _ PipeDrained, OF _ _ _ refl]
  by (simp add: on_acquire_def new_app_def)

text \<open>The process ends with an exception exactly when the coordinator or a pipeline raised one.\<close>

lemma app_end_exit:
  "fst (app_end coord_exc r a) = None \<longleftrightarrow>
     coord_exc = None \<and> a_crash a = [] \<and> \<not> (running a = 1 \<and> (\<exists>x. r = PipeFailed x))"
  by (cases r) (auto simp: app_end_def stop_acquisition_def run_pipeline_def on_pipeline_done_def running_def Let_def
      split: option.splits prod.splits task.splits list.splits)

lemma probe_orgs_raises: "(\<exists>x. probe_orgs rs = Inl x) \<longleftrightarrow> rs \<noteq> [] \<and> (\<forall>r \<in> set rs. snd r \<noteq> None)"
proof -
  let ?P = "\<lambda>(_, x). x \<noteq> None"
  show ?thesis
  proof (cases "\<forall>r \<in> set rs. snd r \<noteq> None")
    case True
    then have "filter ?P rs = rs" by (auto simp: filter_id_conv)
    then show ?thesis using True by (cases rs) (auto simp: probe_orgs_def)
  next
    case False
    then obtain r where r: "r \<in> set rs" "\<not> ?P r" by auto
    from length_filter_less [of r rs ?P, OF r] have "length (filter ?P rs) \<noteq> length rs" by simp
    then show ?thesis using False by (simp add: probe_orgs_def Let_def)
  qed
qed

end
