(* ===== verification/Base64.thy ===== *)
theory Base64
  imports Prelude
begin

section \<open>Base64 as the Python library has it\<close>

text \<open>
  \<^verbatim>\<open>base64.b64encode\<close> and \<^verbatim>\<open>base64.b64decode\<close> without validation, which the
  Pub/Sub source uses for replay ids: bytes are numbers below 256, texts are strings. The decoder
  runs over the text with the position in the current group of four, the bits left over and the
  number of padding characters; it skips every character outside the alphabet, and after a complete
  padding it ignores the rest. Results: decoding inverts encoding; and a text damaged by characters
  outside the alphabet decodes like the undamaged one.
\<close>

text \<open>The alphabet: capitals, small letters, digits, plus and slash.\<close>

definition b64_code :: "nat \<Rightarrow> nat" where
  "b64_code n =
     (if n < 26 then n + 65 else if n < 52 then n + 71 else if n < 62 then n - 4 else if n = 62 then 43 else 47)"

definition b64_char :: "nat \<Rightarrow> char" where
  "b64_char n = char_of (b64_code n)"

definition b64_index :: "char \<Rightarrow> nat option" where
  "b64_index c =
     (let n = of_char c :: nat in
      if 65 \<le> n \<and> n \<le> 90 then Some (n - 65)
      else if 97 \<le> n \<and> n \<le> 122 then Some (n - 71)
      else if 48 \<le> n \<and> n \<le> 57 then Some (n + 4)
      else if n = 43 then Some 62
      else if n = 47 then Some 63
      else None)"

fun b64encode :: "nat list \<Rightarrow> string" where
  "b64encode [] = []"
| "b64encode [a] = [b64_char (a div 4), b64_char (a mod 4 * 16), CHR ''='', CHR ''='']"
| "b64encode [a, b] =
     [b64_char (a div 4), b64_char (a mod 4 * 16 + b div 16), b64_char (b mod 16 * 4), CHR ''='']"
| "b64encode (a # b # c # bs) =
     [b64_char (a div 4), b64_char (a mod 4 * 16 + b div 16), b64_char (b mod 16 * 4 + c div 64), b64_char (c mod 64)]
       @ b64encode bs"

text \<open>\<^verbatim>\<open>binascii.a2b_base64\<close>; \<open>None\<close> is the error for a text that ends inside a group.\<close>

fun b64_scan :: "nat \<Rightarrow> nat \<Rightarrow> nat \<Rightarrow> string \<Rightarrow> nat list option" where
  "b64_scan quad_pos leftchar pads [] = (if quad_pos = 0 then Some [] else None)"
| "b64_scan quad_pos leftchar pads (ch # s) =
     (if ch = CHR ''='' then
        (if quad_pos \<ge> 2 then
           (if quad_pos + (pads + 1) \<ge> 4 then Some [] else b64_scan quad_pos leftchar (pads + 1) s)
         else b64_scan quad_pos leftchar pads s)
      else case b64_index ch of
        None \<Rightarrow> b64_scan quad_pos leftchar pads s
      | Some v \<Rightarrow>
          (if quad_pos = 0 then b64_scan 1 v 0 s
           else if quad_pos = 1 then map_option (Cons (leftchar * 4 + v div 16)) (b64_scan 2 (v mod 16) 0 s)
           else if quad_pos = 2 then map_option (Cons (leftchar * 16 + v div 4)) (b64_scan 3 (v mod 4) 0 s)
           else map_option (Cons (leftchar * 64 + v)) (b64_scan 0 0 0 s)))"

text \<open>\<^verbatim>\<open>b64decode\<close> of a \<^verbatim>\<open>str\<close>: a character outside ASCII is an error of its own.\<close>

definition b64decode :: "string \<Rightarrow> nat list option" where
  "b64decode s = (if list_all (\<lambda>c. of_char c < (128 :: nat)) s then b64_scan 0 0 0 s else None)"

subsection \<open>The alphabet\<close>

lemma of_char_b64_char [simp]: "of_char (b64_char n) = b64_code n"
proof -
  have "b64_code n < 256" by (auto simp: b64_code_def)
  then show ?thesis by (simp add: b64_char_def)
qed

lemma b64_char_simps [simp]:
  "n < 64 \<Longrightarrow> b64_index (b64_char n) = Some n"
  "b64_char n \<noteq> CHR ''=''"
  "b64_code n < 128"
proof -
  show "b64_index (b64_char n) = Some n" if "n < 64" using that by (auto simp: b64_index_def b64_code_def Let_def)
  have "of_char (b64_char n) \<noteq> (of_char (CHR ''='') :: nat)" by (auto simp: b64_code_def)
  then show "b64_char n \<noteq> CHR ''=''" by metis
qed (auto simp: b64_code_def)

lemma b64_scan_char [simp]:
  assumes "n < 64"
  shows "b64_scan 0 l p (b64_char n # s) = b64_scan (Suc 0) n 0 s"
    "b64_scan (Suc 0) l p (b64_char n # s) = map_option (Cons (l * 4 + n div 16)) (b64_scan 2 (n mod 16) 0 s)"
    "b64_scan 2 l p (b64_char n # s) = map_option (Cons (l * 16 + n div 4)) (b64_scan 3 (n mod 4) 0 s)"
    "b64_scan 3 l p (b64_char n # s) = map_option (Cons (l * 64 + n)) (b64_scan 0 0 0 s)"
  using assms by simp_all

subsection \<open>Round trip\<close>

abbreviation byte_list :: "nat list \<Rightarrow> bool" where
  "byte_list bs \<equiv> list_all (\<lambda>b. b < 256) bs"

lemma split_byte_bounds:
  fixes a b :: nat
  shows "a < 256 \<Longrightarrow> a div 4 < 64" "a mod 4 * 16 < 64" "b < 256 \<Longrightarrow> a mod 4 * 16 + b div 16 < 64"
    "a mod 16 * 4 < 64" "b < 256 \<Longrightarrow> a mod 16 * 4 + b div 64 < 64" "a mod 64 < 64"
proof -
  have m: "a mod 4 < 4" "a mod 16 < 16" by simp_all
  then show "a mod 4 * 16 < 64" "a mod 16 * 4 < 64" by linarith+
  show "a mod 4 * 16 + b div 16 < 64" "a mod 16 * 4 + b div 64 < 64" if "b < 256"
  proof -
    have "b div 16 < 16" "b div 64 < 4" using that by (simp_all add: less_mult_imp_div_less)
    then show "a mod 4 * 16 + b div 16 < 64" "a mod 16 * 4 + b div 64 < 64" using m by linarith+
  qed
qed (simp_all add: less_mult_imp_div_less)

lemma join_byte:
  fixes b :: nat
  assumes "b < 256"
  shows "b div 16 div 16 = 0" "b div 64 div 4 = 0" "b div 16 mod 16 * 16 + b mod 16 = b"
    "b div 64 mod 4 * 64 + b mod 64 = b"
proof -
  have "b div 16 < 16" "b div 64 < 4" using assms by (simp_all add: less_mult_imp_div_less)
  then show "b div 16 div 16 = 0" "b div 64 div 4 = 0" "b div 16 mod 16 * 16 + b mod 16 = b"
    "b div 64 mod 4 * 64 + b mod 64 = b"
    by simp_all
qed

lemma b64encode_ascii: "byte_list bs \<Longrightarrow> list_all (\<lambda>c. of_char c < (128 :: nat)) (b64encode bs)"
  by (induction bs rule: b64encode.induct) (auto simp: split_byte_bounds)

lemma b64_scan_encode: "byte_list bs \<Longrightarrow> b64_scan 0 0 0 (b64encode bs) = Some bs"
  by (induction bs rule: b64encode.induct) (simp_all add: split_byte_bounds join_byte del: b64_scan.simps(2), simp_all)

theorem b64_roundtrip: "byte_list bs \<Longrightarrow> b64decode (b64encode bs) = Some bs"
  by (simp add: b64decode_def b64encode_ascii b64_scan_encode)

lemma b64encode_eq_Nil [simp]: "b64encode bs = [] \<longleftrightarrow> bs = []"
  by (cases bs rule: b64encode.cases) auto

lemma b64encode_inj: "byte_list as \<Longrightarrow> byte_list bs \<Longrightarrow> b64encode as = b64encode bs \<longleftrightarrow> as = bs"
  using b64_roundtrip by (metis option.inject)

subsection \<open>Damaged texts\<close>

lemma b64_scan_skips:
  "b64_scan q l p s = b64_scan q l p (filter (\<lambda>c. c = CHR ''='' \<or> b64_index c \<noteq> None) s)"
  by (induction q l p s rule: b64_scan.induct) (auto split: option.splits)

lemma b64decode_skips:
  "list_all (\<lambda>c. of_char c < (128 :: nat)) s \<Longrightarrow>
   b64decode s = b64decode (filter (\<lambda>c. c = CHR ''='' \<or> b64_index c \<noteq> None) s)"
  using b64_scan_skips by (simp add: b64decode_def list_all_iff)

end
