(* ===== verification/PubSubClient.thy ===== *)
theory PubSubClient
  imports Base64
begin

section \<open>salesforce/avro_codec.py, salesforce/pubsub_client.py: one subscription\<close>

text \<open>
  The schema cache of \<^verbatim>\<open>AvroCodec\<close> and the \<^verbatim>\<open>subscribe\<close> generator of
  \<^verbatim>\<open>PubSubClient\<close>. A connection is a list of what the wire gives it, one element per wait of
  the loop (a response, the end, silence beyond the watchdog, a failed call); the list being used up
  is a stream still open. The Avro reader and parser, the gRPC channel and the token provider are
  parameters, and what a call of theirs returned is part of the element that needed it.

  Results: what a subscription yields is what the wire delivered, in order, less the payloads that do
  not decode, and never goes past an event whose schema could not be fetched; the alarm for a stuck
  topic is raised exactly once in every run of three or more failed batches.
\<close>

type_synonym bytes = "nat list"

datatype preset = LATEST | EARLIEST | CUSTOM

text \<open>\<open>None\<close> is the \<^verbatim>\<open>ValueError\<close> for an unknown name.\<close>

definition preset_for :: "string \<Rightarrow> preset option" where
  "preset_for name = map_of [(''LATEST'', LATEST), (''EARLIEST'', EARLIEST), (''CUSTOM'', CUSTOM)] name"

datatype rpc_code = UNAUTHENTICATED | INVALID_ARGUMENT | OtherCode

datatype client_exc = AioRpcError rpc_code "(string \<times> string) list" | StreamStalledError | SchemaFetchError | OtherException

datatype 'p stream_item = DecodedEvent (item_id: bytes) (item_payload: 'p) | KeepaliveEvent (item_id: bytes)

subsection \<open>The schema cache\<close>

text \<open>What a fetch of a schema gives: a parsed schema, a failed call, or another exception.\<close>

datatype 's schema_result = SchemaParsed 's | SchemaRpcError rpc_code | SchemaFailed

type_synonym 's codec = "(string, 's) dict"

text \<open>\<open>c0\<close> is the cache at the first look, \<open>c1\<close> once the lock of the id is held; \<open>None\<close> is the
  \<^verbatim>\<open>SchemaFetchError\<close>. The second component tells whether the schema was fetched.\<close>

definition get_parsed_schema :: "'s schema_result \<Rightarrow> string \<Rightarrow> 's codec \<Rightarrow> 's codec \<Rightarrow> 's option \<times> bool \<times> 's codec" where
  "get_parsed_schema fetched sid c0 c1 =
     (case map_of c0 sid of
        Some s \<Rightarrow> (Some s, False, c1)
      | None \<Rightarrow>
          (case map_of c1 sid of
             Some s \<Rightarrow> (Some s, False, c1)
           | None \<Rightarrow>
               (case fetched of
                  SchemaParsed s \<Rightarrow> (Some s, True, AList.update sid s c1)
                | _ \<Rightarrow> (None, True, c1))))"

subsection \<open>Per-topic health\<close>

definition DECODE_FAILURE_STALL_BATCHES :: nat where "DECODE_FAILURE_STALL_BATCHES = 3"
definition SCHEMA_FETCH_STALL_FAILURES :: nat where "SCHEMA_FETCH_STALL_FAILURES = 3"

record topic_health =
  consecutive_decode_failure_batches :: nat
  decode_stall_flagged :: bool
  consecutive_schema_fetch_failures :: nat
  schema_stall_flagged :: bool

definition new_topic_health :: topic_health where
  "new_topic_health = \<lparr>consecutive_decode_failure_batches = 0, decode_stall_flagged = False,
     consecutive_schema_fetch_failures = 0, schema_stall_flagged = False\<rparr>"

text \<open>The client: health of each topic, schema cache, the increments of
  \<^verbatim>\<open>pubsub_decode_stalls\<close> and how often the cached token was invalidated.\<close>

record 's client =
  topic_healths :: "(string, topic_health) dict"
  codec :: "'s codec"
  decode_stalls :: "string list"
  invalidations :: nat
  stream_stalls :: "string list"
  decode_errors :: "string list"

definition new_client :: "'s client" where
  "new_client = \<lparr>topic_healths = [], codec = [], decode_stalls = [], invalidations = 0, stream_stalls = [], decode_errors = []\<rparr>"

definition health_of :: "string \<Rightarrow> 's client \<Rightarrow> topic_health" where
  "health_of topic c = (case map_of (topic_healths c) topic of None \<Rightarrow> new_topic_health | Some h \<Rightarrow> h)"

definition put_health :: "string \<Rightarrow> topic_health \<Rightarrow> 's client \<Rightarrow> 's client" where
  "put_health topic h c = c\<lparr>topic_healths := AList.update topic h (topic_healths c)\<rparr>"

definition handle_rpc_error :: "rpc_code \<Rightarrow> 's client \<Rightarrow> 's client" where
  "handle_rpc_error code c = (if code = UNAUTHENTICATED then c\<lparr>invalidations := invalidations c + 1\<rparr> else c)"

definition note_schema_fetch_failure :: "string \<Rightarrow> 's client \<Rightarrow> 's client" where
  "note_schema_fetch_failure topic c =
     (let h = health_of topic c;
          h1 = h\<lparr>consecutive_schema_fetch_failures := consecutive_schema_fetch_failures h + 1\<rparr>
      in if consecutive_schema_fetch_failures h1 \<ge> SCHEMA_FETCH_STALL_FAILURES \<and> \<not> schema_stall_flagged h1
         then (put_health topic (h1\<lparr>schema_stall_flagged := True\<rparr>) c)\<lparr>decode_stalls := decode_stalls c @ [topic]\<rparr>
         else put_health topic h1 c)"

definition note_schema_fetch_success :: "string \<Rightarrow> 's client \<Rightarrow> 's client" where
  "note_schema_fetch_success topic c =
     put_health topic ((health_of topic c)\<lparr>consecutive_schema_fetch_failures := 0, schema_stall_flagged := False\<rparr>) c"

definition note_decode_batch :: "string \<Rightarrow> nat \<Rightarrow> nat \<Rightarrow> 's client \<Rightarrow> 's client" where
  "note_decode_batch topic tot failures c =
     (if tot = 0 then c
      else
        (let h = health_of topic c in
         if failures = tot then
           (let h1 = h\<lparr>consecutive_decode_failure_batches := consecutive_decode_failure_batches h + 1\<rparr>
            in if consecutive_decode_failure_batches h1 \<ge> DECODE_FAILURE_STALL_BATCHES \<and> \<not> decode_stall_flagged h1
               then (put_health topic (h1\<lparr>decode_stall_flagged := True\<rparr>) c)\<lparr>decode_stalls := decode_stalls c @ [topic]\<rparr>
               else put_health topic h1 c)
         else put_health topic (h\<lparr>consecutive_decode_failure_batches := 0, decode_stall_flagged := False\<rparr>) c))"

subsection \<open>subscribe\<close>

record wire_event =
  we_replay_id :: bytes
  we_schema_id :: string
  we_payload :: bytes

record fetch_response =
  fr_events :: "wire_event list"
  fr_latest_replay_id :: bytes
  fr_pending_num_requested :: nat

datatype write_result = WriteOk | WriteInvalidState | WriteRpcError rpc_code

text \<open>A response comes with what a schema fetch would give while it is handled and how a top-up
  write would end.\<close>

datatype 's wire =
    Response fetch_response "string \<Rightarrow> 's schema_result" write_result
  | EndOfStream
  | Silence
  | CallFailed rpc_code "(string \<times> string) list"

datatype sub_end = SubEnded | SubRaised client_exc | SubOpen

datatype request = FetchRequest (req_topic: string) (req_position: "(preset \<times> bytes) option") (req_num: nat)

text \<open>The events of one response, for a reader of payloads whose \<open>None\<close> is an exception: what is
  yielded, whether a schema could not be fetched, and the number of payloads that did not decode.\<close>

fun decode_events ::
  "('s \<Rightarrow> bytes \<Rightarrow> 'p option) \<Rightarrow> string \<Rightarrow> (string \<Rightarrow> 's schema_result) \<Rightarrow> wire_event list \<Rightarrow> 's client
     \<Rightarrow> 'p stream_item list \<times> bool \<times> nat \<times> 's client" where
  "decode_events reader topic fetch [] c = ([], False, 0, c)"
| "decode_events reader topic fetch (ce # ces) c =
     (let sid = we_schema_id ce in
      case get_parsed_schema (fetch sid) sid (codec c) (codec c) of
        (None, _, _) \<Rightarrow>
          ([], True, 0,
           note_schema_fetch_failure topic
             (case fetch sid of SchemaRpcError code \<Rightarrow> handle_rpc_error code c | _ \<Rightarrow> c))
      | (Some s, _, codec1) \<Rightarrow>
          (let c1 = c\<lparr>codec := codec1\<rparr> in
           case reader s (we_payload ce) of
             None \<Rightarrow>
               (case decode_events reader topic fetch ces (c1\<lparr>decode_errors := decode_errors c1 @ [topic]\<rparr>) of
                  (items, raised, failures, c2) \<Rightarrow> (items, raised, failures + 1, c2))
           | Some p \<Rightarrow>
               (case decode_events reader topic fetch ces (note_schema_fetch_success topic c1) of
                  (items, raised, failures, c2) \<Rightarrow> (DecodedEvent (we_replay_id ce) p # items, raised, failures, c2))))"

definition keepalive_of :: "fetch_response \<Rightarrow> 'p stream_item list" where
  "keepalive_of r =
     (if fr_events r = [] \<and> fr_latest_replay_id r \<noteq> [] then [KeepaliveEvent (fr_latest_replay_id r)] else [])"

fun subscribe_loop ::
  "('s \<Rightarrow> bytes \<Rightarrow> 'p option) \<Rightarrow> string \<Rightarrow> nat \<Rightarrow> 's wire list \<Rightarrow> 's client
     \<Rightarrow> 'p stream_item list \<times> sub_end \<times> request list \<times> 's client" where
  "subscribe_loop reader topic n [] c = ([], SubOpen, [], c)"
| "subscribe_loop reader topic n (w # ws) c =
     (case w of
        EndOfStream \<Rightarrow> ([], SubEnded, [], c)
      | Silence \<Rightarrow> ([], SubRaised StreamStalledError, [], c\<lparr>stream_stalls := stream_stalls c @ [topic]\<rparr>)
      | CallFailed code trailer \<Rightarrow> ([], SubRaised (AioRpcError code trailer), [], handle_rpc_error code c)
      | Response r fetch wr \<Rightarrow>
          (case decode_events reader topic fetch (fr_events r) c of
             (items, True, _, c1) \<Rightarrow> (items, SubRaised SchemaFetchError, [], c1)
           | (items, False, failures, c1) \<Rightarrow>
               (let c2 = note_decode_batch topic (length (fr_events r)) failures c1;
                    items1 = items @ keepalive_of r in
                if fr_pending_num_requested r \<le> n div 2 then
                  (case wr of
                     WriteInvalidState \<Rightarrow> (items1, SubEnded, [], c2)
                   | WriteRpcError code \<Rightarrow> (items1, SubEnded, [], handle_rpc_error code c2)
                   | WriteOk \<Rightarrow>
                       (case subscribe_loop reader topic n ws c2 of
                          (items2, en, reqs, c3) \<Rightarrow> (items1 @ items2, en, FetchRequest topic None n # reqs, c3)))
                else
                  (case subscribe_loop reader topic n ws c2 of
                     (items2, en, reqs, c3) \<Rightarrow> (items1 @ items2, en, reqs, c3)))))"

text \<open>Before the loop: the metadata, which mint a token, the call and the first request. \<open>Inl\<close> is an
  exception on the way, of gRPC or another.\<close>

definition subscribe ::
  "('s \<Rightarrow> bytes \<Rightarrow> 'p option) \<Rightarrow> string \<Rightarrow> preset \<Rightarrow> bytes \<Rightarrow> nat \<Rightarrow> client_exc option \<Rightarrow> 's wire list \<Rightarrow> 's client
     \<Rightarrow> 'p stream_item list \<times> sub_end \<times> request list \<times> 's client" where
  "subscribe reader topic replay_preset replay_id n start ws c =
     (case start of
        Some (AioRpcError code trailer) \<Rightarrow> ([], SubRaised (AioRpcError code trailer), [], handle_rpc_error code c)
      | Some x \<Rightarrow> ([], SubRaised x, [], c)
      | None \<Rightarrow>
          (case subscribe_loop reader topic n ws c of
             (items, en, reqs, c1) \<Rightarrow> (items, en, FetchRequest topic (Some (replay_preset, replay_id)) n # reqs, c1)))"

subsection \<open>What a subscription yields\<close>

text \<open>A topic is a log of events, each with its replay id and, if it decodes, its payload; \<open>pos\<close>
  tells for a replay id how many events of the log lie at or before it. \<open>stream_from\<close>: the items
  are what a subscriber at position \<open>p\<close> may see, no event that decodes being passed over.\<close>

type_synonym 'p topic_log = "(bytes \<times> 'p option) list"

definition undecodable :: "'p topic_log \<Rightarrow> nat \<Rightarrow> nat \<Rightarrow> bool" where
  "undecodable lg p q \<longleftrightarrow> list_all (\<lambda>(_, x). x = None) (take (q - p) (drop p lg))"

fun stream_from :: "'p topic_log \<Rightarrow> (bytes \<Rightarrow> nat) \<Rightarrow> nat \<Rightarrow> 'p stream_item list \<Rightarrow> bool" where
  "stream_from lg pos p [] = True"
| "stream_from lg pos p (DecodedEvent r x # is) =
     (p < pos r \<and> pos r \<le> length lg \<and> lg ! (pos r - 1) = (r, Some x) \<and> undecodable lg p (pos r - 1)
      \<and> stream_from lg pos (pos r) is)"
| "stream_from lg pos p (KeepaliveEvent r # is) =
     (p \<le> pos r \<and> pos r \<le> length lg \<and> undecodable lg p (pos r) \<and> stream_from lg pos (pos r) is)"

text \<open>The server's side: from position \<open>p\<close> the responses carry the log in order, and an empty one
  carries the position reached. Replay ids identify positions.\<close>

fun delivers :: "wire_event list \<Rightarrow> (bytes \<Rightarrow> nat) \<Rightarrow> nat \<Rightarrow> 's wire list \<Rightarrow> bool" where
  "delivers lg pos p [] = True"
| "delivers lg pos p (Response r fetch wr # ws) =
     (take (length (fr_events r)) (drop p lg) = fr_events r
      \<and> (fr_events r = [] \<and> fr_latest_replay_id r \<noteq> [] \<longrightarrow> pos (fr_latest_replay_id r) = p)
      \<and> delivers lg pos (p + length (fr_events r)) ws)"
| "delivers lg pos p (_ # ws) = True"

definition ids_ok :: "wire_event list \<Rightarrow> (bytes \<Rightarrow> nat) \<Rightarrow> bool" where
  "ids_ok lg pos \<longleftrightarrow> list_all (\<lambda>i. pos (we_replay_id (lg ! i)) = Suc i) [0..<length lg]"

text \<open>The registry is immutable: a fetch that succeeds gives the schema of the id.\<close>

definition fetches :: "(string \<Rightarrow> 's) \<Rightarrow> (string \<Rightarrow> 's schema_result) \<Rightarrow> bool" where
  "fetches registry fetch \<longleftrightarrow> (\<forall>sid s. fetch sid = SchemaParsed s \<longrightarrow> s = registry sid)"

fun registry_ok :: "(string \<Rightarrow> 's) \<Rightarrow> 's wire \<Rightarrow> bool" where
  "registry_ok registry (Response r fetch wr) = fetches registry fetch"
| "registry_ok registry _ = True"

definition cache_ok :: "(string \<Rightarrow> 's) \<Rightarrow> 's client \<Rightarrow> bool" where
  "cache_ok registry c \<longleftrightarrow> (\<forall>sid s. map_of (codec c) sid = Some s \<longrightarrow> s = registry sid)"

definition topic_log :: "('s \<Rightarrow> bytes \<Rightarrow> 'p option) \<Rightarrow> (string \<Rightarrow> 's) \<Rightarrow> wire_event list \<Rightarrow> 'p topic_log" where
  "topic_log reader registry lg =
     map (\<lambda>e. (we_replay_id e, reader (registry (we_schema_id e)) (we_payload e))) lg"

lemma codec_frame [simp]:
  "codec (put_health topic h c) = codec c"
  "codec (note_schema_fetch_success topic c) = codec c"
  "codec (note_schema_fetch_failure topic c) = codec c"
  "codec (note_decode_batch topic m k c) = codec c"
  "codec (handle_rpc_error code c) = codec c"
  by (simp_all add: put_health_def note_schema_fetch_success_def note_schema_fetch_failure_def
      note_decode_batch_def handle_rpc_error_def Let_def)

lemma cache_ok_cong: "codec c = codec d \<Longrightarrow> cache_ok registry c = cache_ok registry d"
  by (simp add: cache_ok_def)

lemma get_parsed_schema_sound:
  assumes "get_parsed_schema (fetch sid) sid (codec c) (codec c) = (res, b, cd)"
    and "cache_ok registry c" "fetches registry fetch"
  shows "(\<forall>s. res = Some s \<longrightarrow> s = registry sid) \<and> cache_ok registry (c\<lparr>codec := cd\<rparr>)"
  using assms
  by (auto simp: get_parsed_schema_def cache_ok_def fetches_def update_conv' split: option.splits schema_result.splits if_splits)

text \<open>Positions advance over an undecodable event without a trace.\<close>

lemma undecodable_step:
  "p < length lg \<Longrightarrow> snd (lg ! p) = None \<Longrightarrow> undecodable lg (Suc p) q \<Longrightarrow> undecodable lg p q"
  unfolding undecodable_def
  by (cases "p < q") (auto simp: Cons_nth_drop_Suc [symmetric] case_prod_beta simp flip: Suc_diff_Suc)

lemma stream_from_skip:
  assumes "p < length lg" "snd (lg ! p) = None" "stream_from lg pos (Suc p) is"
  shows "stream_from lg pos p is"
proof (cases "is")
  case (Cons i "is'")
  with assms show ?thesis by (cases i) (auto intro: undecodable_step)
qed simp

lemma undecodable_refl [simp]: "undecodable lg p p"
  by (simp add: undecodable_def)

lemma drop_take_Cons:
  assumes "take (length (e # es)) (drop p lg) = e # es"
  shows "p < length lg" "lg ! p = e" "take (length es) (drop (Suc p) lg) = es"
proof -
  have "drop p lg \<noteq> []" using assms by auto
  then show p: "p < length lg" by simp
  then have "drop p lg = lg ! p # drop (Suc p) lg" by (simp add: Cons_nth_drop_Suc)
  with assms show "lg ! p = e" "take (length es) (drop (Suc p) lg) = es" by simp_all
qed

lemma topic_log_nth:
  "p < length lg \<Longrightarrow> topic_log reader registry lg ! p =
     (we_replay_id (lg ! p), reader (registry (we_schema_id (lg ! p))) (we_payload (lg ! p)))"
  "length (topic_log reader registry lg) = length lg"
  by (simp_all add: topic_log_def)

lemma ids_okD: "ids_ok lg pos \<Longrightarrow> i < length lg \<Longrightarrow> pos (we_replay_id (lg ! i)) = Suc i"
  by (simp add: ids_ok_def list_all_iff)

lemma decode_events_faithful:
  assumes "decode_events reader topic fetch ces c = (items, raised, k, c1)"
    and "cache_ok registry c" "fetches registry fetch" "ids_ok lg pos"
    and "take (length ces) (drop p lg) = ces"
  shows "cache_ok registry c1
    \<and> (raised \<longrightarrow> stream_from (topic_log reader registry lg) pos p items)
    \<and> (\<not> raised \<longrightarrow> (\<forall>tail. stream_from (topic_log reader registry lg) pos (p + length ces) tail
          \<longrightarrow> stream_from (topic_log reader registry lg) pos p (items @ tail)))"
  using assms
proof (induction ces arbitrary: p c items k)
  case Nil
  then show ?case by simp
next
  case (Cons ce ces)
  let ?L = "topic_log reader registry lg"
  note [simp] = topic_log_nth
  note d = drop_take_Cons [OF Cons.prems(5)]
  obtain res b cd where g: "get_parsed_schema (fetch (we_schema_id ce)) (we_schema_id ce) (codec c) (codec c) = (res, b, cd)"
    by (metis prod.exhaust)
  note gs = get_parsed_schema_sound [OF g Cons.prems(2,3)]
  show ?case
  proof (cases res)
    case None
    then have "items = []" "raised" "codec c1 = codec c"
      using Cons.prems(1) g by (auto split: schema_result.splits)
    then show ?thesis using Cons.prems(2) by (simp add: cache_ok_def)
  next
    case (Some s)
    with gs have s: "s = registry (we_schema_id ce)" by simp
    show ?thesis
    proof (cases "reader s (we_payload ce)")
      case None
      then obtain k' where "decode_events reader topic fetch ces
          ((c\<lparr>codec := cd\<rparr>)\<lparr>decode_errors := decode_errors (c\<lparr>codec := cd\<rparr>) @ [topic]\<rparr>) = (items, raised, k', c1)"
        using Cons.prems(1) g Some by (auto simp: Let_def split: prod.splits)
      note ih = Cons.IH [OF this _ Cons.prems(3,4) d(3)]
      have "snd (?L ! p) = None" "p < length ?L" using None s d by simp_all
      then have skip: "stream_from ?L pos p xs" if "stream_from ?L pos (Suc p) xs" for xs
        using stream_from_skip that by blast
      have "cache_ok registry ((c\<lparr>codec := cd\<rparr>)\<lparr>decode_errors := decode_errors (c\<lparr>codec := cd\<rparr>) @ [topic]\<rparr>)"
        using gs by (simp add: cache_ok_def)
      from ih [OF this] show ?thesis using skip by simp
    next
      case (Some x)
      then obtain is' k' where r: "decode_events reader topic fetch ces
          (note_schema_fetch_success topic (c\<lparr>codec := cd\<rparr>)) = (is', raised, k', c1)"
        "items = DecodedEvent (we_replay_id ce) x # is'"
        using Cons.prems(1) g \<open>res = Some s\<close> by (auto simp: Let_def split: prod.splits)
      have c: "cache_ok registry (note_schema_fetch_success topic (c\<lparr>codec := cd\<rparr>))"
        using gs by (simp add: cache_ok_def)
      note ih = Cons.IH [OF r(1) c Cons.prems(3,4) d(3)]
      have "pos (we_replay_id ce) = Suc p" using ids_okD [OF Cons.prems(4) d(1)] d(2) by simp
      moreover have "?L ! p = (we_replay_id ce, Some x)" using Some s d by simp
      ultimately show ?thesis using ih r(2) d(1) by simp
    qed
  qed
qed

lemma keepalive_from:
  "p \<le> length lg \<Longrightarrow> stream_from (topic_log reader registry lg) pos (p + length (fr_events r)) tail \<Longrightarrow>
   (fr_events r = [] \<and> fr_latest_replay_id r \<noteq> [] \<longrightarrow> pos (fr_latest_replay_id r) = p) \<Longrightarrow>
   stream_from (topic_log reader registry lg) pos (p + length (fr_events r)) (keepalive_of r @ tail)"
  by (auto simp: keepalive_of_def topic_log_nth)

lemma subscribe_loop_faithful:
  assumes "subscribe_loop reader topic n ws c = (items, en, reqs, c1)"
    and "delivers lg pos p ws" "ids_ok lg pos" "p \<le> length lg"
    and "list_all (registry_ok registry) ws" "cache_ok registry c"
  shows "stream_from (topic_log reader registry lg) pos p items \<and> cache_ok registry c1"
  using assms
proof (induction ws arbitrary: p c items en reqs c1)
  case Nil
  then show ?case by simp
next
  case (Cons w ws)
  let ?L = "topic_log reader registry lg"
  show ?case
  proof (cases w)
    case (Response r fetch wr)
    note del = Cons.prems(2) [unfolded Response delivers.simps]
    have f: "fetches registry fetch" using Cons.prems(5) Response by simp
    obtain is1 raised k c2 where d: "decode_events reader topic fetch (fr_events r) c = (is1, raised, k, c2)"
      by (metis prod.exhaust)
    note dec = decode_events_faithful [OF d Cons.prems(6) f Cons.prems(3) del [THEN conjunct1]]
    let ?c3 = "note_decode_batch topic (length (fr_events r)) k c2"
    have c3: "cache_ok registry ?c3" using dec by (simp add: cache_ok_def)
    have le: "p + length (fr_events r) \<le> length lg"
      using del Cons.prems(4) by (metis length_take length_drop add.commute le_diff_conv min.cobounded1 diff_diff_cancel
          le_add_diff_inverse2 add_le_cancel_left)
    have tail: "stream_from ?L pos p (is1 @ keepalive_of r @ ts)"
      if "\<not> raised" "stream_from ?L pos (p + length (fr_events r)) ts" for ts
      using dec keepalive_from [OF Cons.prems(4) that(2)] del that(1) by blast
    show ?thesis
    proof (cases raised)
      case True
      then show ?thesis using Cons.prems(1) d dec by (simp add: Response)
    next
      case False
      obtain is2 en2 rq2 c4 where l: "subscribe_loop reader topic n ws ?c3 = (is2, en2, rq2, c4)"
        by (metis prod.exhaust)
      have ih: "stream_from ?L pos (p + length (fr_events r)) is2 \<and> cache_ok registry c4"
        using Cons.IH [OF l, of "p + length (fr_events r)"] del Cons.prems(3,5) le c3 by simp
      have "(items = is1 @ keepalive_of r \<and> codec c1 = codec ?c3) \<or> (items = is1 @ keepalive_of r @ is2 \<and> c1 = c4)"
        using Cons.prems(1) d l False by (auto simp: Response Let_def split: if_splits write_result.splits)
      then show ?thesis using ih tail [OF False] tail [OF False, of "[]"] c3 by (auto simp: cache_ok_def)
    qed
  qed (use Cons.prems in \<open>auto simp: cache_ok_def\<close>)
qed

text \<open>
  A subscription at position \<open>p\<close> yields the events of the topic in order from there, passing over
  no event that decodes, whatever responses, schema failures, watchdog time-outs and failed writes
  occur: an event whose schema cannot be fetched ends it before that event.
\<close>

theorem subscribe_faithful:
  assumes "subscribe reader topic pr rid n start ws c = (items, en, reqs, c1)"
    and "delivers lg pos p ws" "ids_ok lg pos" "p \<le> length lg"
    and "list_all (registry_ok registry) ws" "cache_ok registry c"
  shows "stream_from (topic_log reader registry lg) pos p items \<and> cache_ok registry c1"
proof (cases start)
  case None
  then obtain reqs' where "subscribe_loop reader topic n ws c = (items, en, reqs', c1)"
    using assms(1) by (auto simp: subscribe_def split: prod.splits)
  from subscribe_loop_faithful [OF this assms(2-)] show ?thesis .
next
  case (Some x)
  then show ?thesis using assms(1,6) by (cases x) (auto simp: subscribe_def cache_ok_def)
qed

subsection \<open>The alarm for a stuck topic\<close>

text \<open>Batches as pairs of their size and the number of payloads that did not decode; a run of failed
  batches is not interrupted by empty ones.\<close>

definition failed_run :: "(nat \<times> nat) list \<Rightarrow> nat" where
  "failed_run bs = length (takeWhile (\<lambda>(t, f). f = t) (rev (filter (\<lambda>(t, f). t \<noteq> 0) bs)))"

definition note_batches :: "string \<Rightarrow> (nat \<times> nat) list \<Rightarrow> 's client \<Rightarrow> 's client" where
  "note_batches topic bs c = fold (\<lambda>(t, f). note_decode_batch topic t f) bs c"

text \<open>How many times a run of failed batches reached the length at which the alarm is due.\<close>

definition runs_reaching :: "nat \<Rightarrow> (nat \<times> nat) list \<Rightarrow> nat" where
  "runs_reaching k bs =
     length (filter (\<lambda>i. fst (bs ! i) \<noteq> 0 \<and> failed_run (take (Suc i) bs) = k) [0..<length bs])"

lemma failed_run_snoc:
  "failed_run (bs @ [(t, f)]) = (if t = 0 then failed_run bs else if f = t then Suc (failed_run bs) else 0)"
  by (simp add: failed_run_def)

lemma runs_reaching_snoc:
  "runs_reaching k (bs @ [(t, f)]) = runs_reaching k bs + (if t \<noteq> 0 \<and> failed_run (bs @ [(t, f)]) = k then 1 else 0)"
proof -
  have "filter (\<lambda>i. fst ((bs @ [(t, f)]) ! i) \<noteq> 0 \<and> failed_run (take (Suc i) (bs @ [(t, f)])) = k) [0..<length bs]
      = filter (\<lambda>i. fst (bs ! i) \<noteq> 0 \<and> failed_run (take (Suc i) bs) = k) [0..<length bs]"
    by (rule filter_cong) (auto simp: nth_append)
  then show ?thesis by (simp add: runs_reaching_def)
qed

lemma health_of_put [simp]: "health_of topic (put_health topic h c) = h"
  "health_of topic (c\<lparr>decode_stalls := x\<rparr>) = health_of topic c"
  "decode_stalls (put_health topic h c) = decode_stalls c"
  by (simp_all add: health_of_def put_health_def update_conv')

text \<open>
  The alarm for batches that do not decode at all: for any sequence of batches of a topic, the flag
  is up exactly while at least the last three non-empty batches failed completely, and the alarm was
  raised once for each such run, when it reached three.
\<close>

theorem decode_alarm_exact:
  fixes bs :: "(nat \<times> nat) list" and topic :: string
  defines "c \<equiv> note_batches topic bs (new_client :: 's client)"
  shows "(decode_stall_flagged (health_of topic c) \<longleftrightarrow> failed_run bs \<ge> 3)
    \<and> consecutive_decode_failure_batches (health_of topic c) = failed_run bs
    \<and> decode_stalls c = replicate (runs_reaching 3 bs) topic"
  unfolding c_def
proof (induction bs rule: rev_induct)
  case Nil
  then show ?case
    by (simp add: note_batches_def health_of_def new_client_def new_topic_health_def failed_run_def runs_reaching_def)
next
  case (snoc b bs)
  obtain t f where b: "b = (t, f)" by (metis prod.exhaust)
  have n: "note_batches topic (bs @ [b]) (new_client :: 's client)
      = note_decode_batch topic t f (note_batches topic bs new_client)"
    by (simp add: note_batches_def b)
  show ?case
    unfolding n using snoc
    by (auto simp: b note_decode_batch_def Let_def failed_run_snoc runs_reaching_snoc DECODE_FAILURE_STALL_BATCHES_def
        replicate_append_same)
qed

end
