(* ===== verification/PubSubSource.thy ===== *)
theory PubSubSource
  imports PubSubClient Transforms Overlap
begin

section \<open>sources/pubsub_source.py: the streaming source\<close>

text \<open>
  \<^verbatim>\<open>src/sf2loki/sources/pubsub_source.py\<close>: topic resolution, the subscribe loop of one topic
  (\<open>run_topic\<close>) and the bridge queue between the topic tasks and \<^verbatim>\<open>events\<close>. The loop takes
  one \<open>round\<close> per pass: what the store answered, what the connection yielded and how it ended, and
  where the stop event was found set. The glob matcher, the digest, the JSON codec, the date parsers
  and the compiled transforms are parameters.

  Results: over any number of reconnects, a topic that starts behind a stored token queues every event
  of the topic that decodes, once and in order, so a token in the queue is preceded by everything up to
  it, and a restart behind any queued token neither loses nor repeats an event; the position is given
  up only on a rejection that the trailer confirms or does not speak about; every pause lies between
  the base delay and one and a half times the maximum; the bridge ends exactly when every task has
  ended, and then everything queued was handed on. Two results show limits: a payload whose transform
  raises stops its topic for good, and a stored id damaged beyond decoding starts a topic configured
  for resumption at the tip.
\<close>

subsection \<open>Topics\<close>

definition TOPIC_WILDCARD :: string where "TOPIC_WILDCARD = ''*''"
definition DISCOVERY_ATTEMPTS :: nat where "DISCOVERY_ATTEMPTS = 3"
definition BRIDGE_ENTRY_OVERHEAD :: nat where "BRIDGE_ENTRY_OVERHEAD = 64"

record pubsub_config =
  cfg_topics :: "string list"
  cfg_include :: "string list"
  cfg_exclude :: "string list"
  replay_preset :: preset
  cfg_sample :: "(string \<times> rat) list"
  reconnect_backoff :: seconds
  max_backoff :: seconds
  bridge_max_bytes :: int
  owned_categories :: "string list"

fun filter_from :: "(string \<Rightarrow> string \<Rightarrow> bool) \<Rightarrow> pubsub_config \<Rightarrow> string list \<Rightarrow> string list \<Rightarrow> string list" where
  "filter_from fnm cfg seen [] = []"
| "filter_from fnm cfg seen (topic # ts) =
     (if topic = TOPIC_WILDCARD \<or> topic \<in> set seen then filter_from fnm cfg seen ts
      else if \<not> list_ex (fnm topic) (cfg_include cfg) then filter_from fnm cfg (topic # seen) ts
      else if list_ex (fnm topic) (cfg_exclude cfg) then filter_from fnm cfg (topic # seen) ts
      else topic # filter_from fnm cfg (topic # seen) ts)"

definition filter_topics :: "(string \<Rightarrow> string \<Rightarrow> bool) \<Rightarrow> pubsub_config \<Rightarrow> string list \<Rightarrow> string list" where
  "filter_topics fnm cfg ts = filter_from fnm cfg [] ts"

definition explicit_topics :: "(string \<Rightarrow> string \<Rightarrow> bool) \<Rightarrow> pubsub_config \<Rightarrow> string list" where
  "explicit_topics fnm cfg = filter_topics fnm cfg (cfg_topics cfg)"

definition filter_owned :: "pubsub_config \<Rightarrow> string list \<Rightarrow> string list" where
  "filter_owned cfg discovered =
     (if owned_categories cfg = [] then discovered
      else filter (\<lambda>t. category_of_pubsub t \<notin> set (owned_categories cfg)) discovered)"

definition discovered_additions ::
  "(string \<Rightarrow> string \<Rightarrow> bool) \<Rightarrow> pubsub_config \<Rightarrow> string list \<Rightarrow> string list \<Rightarrow> string list" where
  "discovered_additions fnm cfg discovered have =
     filter_owned cfg (filter (\<lambda>t. t \<notin> set have) (filter_topics fnm cfg discovered))"

text \<open>\<^verbatim>\<open>random.uniform(0, backoff / 2)\<close> for a random number \<open>u\<close> between 0 and 1.\<close>

definition jitter :: "rat \<Rightarrow> seconds \<Rightarrow> seconds" where
  "jitter u backoff = u * (backoff / 2)"

text \<open>\<^verbatim>\<open>_discover_with_retry\<close>: the outcomes of the calls (\<open>None\<close> an exception) with the random
  numbers; the result with the pauses, or \<open>None\<close> while a call has not come back.\<close>

fun discover_attempts ::
  "pubsub_config \<Rightarrow> nat \<Rightarrow> seconds \<Rightarrow> (string list option \<times> rat) list \<Rightarrow> (string list \<times> seconds list) option" where
  "discover_attempts cfg attempt delay [] = None"
| "discover_attempts cfg attempt delay ((Some ts, u) # cs) = Some (ts, [])"
| "discover_attempts cfg attempt delay ((None, u) # cs) =
     (if attempt \<ge> DISCOVERY_ATTEMPTS then Some ([], [])
      else map_option (\<lambda>(ts, ps). (ts, (delay + jitter u delay) # ps))
             (discover_attempts cfg (attempt + 1) (min (delay * 2) (max_backoff cfg)) cs))"

definition discover_with_retry ::
  "pubsub_config \<Rightarrow> (string list option \<times> rat) list \<Rightarrow> (string list \<times> seconds list) option" where
  "discover_with_retry cfg cs = discover_attempts cfg 1 (reconnect_backoff cfg) cs"

text \<open>\<^verbatim>\<open>_resolve_topics\<close>; \<open>discovered\<close> is what discovery gave, \<open>None\<close> without a discoverer.\<close>

definition resolve_topics ::
  "(string \<Rightarrow> string \<Rightarrow> bool) \<Rightarrow> pubsub_config \<Rightarrow> string list option \<Rightarrow> string list" where
  "resolve_topics fnm cfg discovered =
     (let ts = cfg_topics cfg in
      filter_topics fnm cfg
        (case discovered of
           Some ds \<Rightarrow> if TOPIC_WILDCARD \<in> set ts then ts @ discovered_additions fnm cfg ds ts else ts
         | None \<Rightarrow> ts))"

subsection \<open>Shaping an event\<close>

record pubsub_env =
  pe_fnmatch :: "string \<Rightarrow> string \<Rightarrow> bool"
  pe_sha256 :: "string \<Rightarrow> nat list"
  pe_dumps :: "payload \<Rightarrow> ustring"
  pe_fromiso :: dt_parser
  pe_strp :: dt_parser
  pe_mapping :: "pyval \<Rightarrow> payload option"
  pe_transforms :: "compiled list"
  pe_sm_fields :: "string list"

definition event_type :: "string \<Rightarrow> string" where
  "event_type topic = basename topic"

definition sample_rate :: "pubsub_env \<Rightarrow> pubsub_config \<Rightarrow> string \<Rightarrow> rat" where
  "sample_rate E cfg topic =
     (case find (\<lambda>(pattern, _). pe_fnmatch E topic pattern) (cfg_sample cfg) of
        Some (_, rate) \<Rightarrow> rate
      | None \<Rightarrow> 1)"

definition hex_digit :: "nat \<Rightarrow> char" where
  "hex_digit n = char_of (if n < 10 then 48 + n else 87 + n)"

definition hex :: "bytes \<Rightarrow> string" where
  "hex bs = concat (map (\<lambda>b. [hex_digit (b div 16), hex_digit (b mod 16)]) bs)"

definition token_key :: "string \<Rightarrow> string" where
  "token_key topic = ''pubsub:'' @ topic"

definition keepalive_entry :: "datetime \<Rightarrow> string \<Rightarrow> bytes \<Rightarrow> log_entry" where
  "keepalive_entry now topic rid =
     \<lparr>timestamp = now, labels = [], line = [], structured_metadata = [],
      checkpoint = \<lparr>tok_key = token_key topic, tok_value = b64encode rid\<rparr>, checkpoint_only = True, line_nbytes_memo = - 1\<rparr>"

text \<open>\<open>last_good\<close> is the topic's entry of \<^verbatim>\<open>_last_good_ts\<close>.\<close>

definition event_timestamp ::
  "pubsub_env \<Rightarrow> datetime \<Rightarrow> payload \<Rightarrow> datetime option \<Rightarrow> datetime \<times> datetime option" where
  "event_timestamp E now p last_good =
     (let header = Option.bind (map_of p ''ChangeEventHeader'') (pe_mapping E);
          commit_ts = Option.bind header (\<lambda>h. map_of h ''commitTimestamp'');
          opt = (\<lambda>v. case v of None \<Rightarrow> VNone | Some x \<Rightarrow> x);
          ts_source = [(''EventDate'', opt (map_of p ''EventDate'')), (''CreatedDate'', opt (map_of p ''CreatedDate'')),
                       (''commitTimestamp'', opt commit_ts)];
          (ts, used_fallback) = extract_timestamp_checked (pe_fromiso E) (pe_strp E) now ts_source
                                  [''EventDate'', ''CreatedDate'', ''commitTimestamp''] last_good
      in (ts, if used_fallback then last_good else Some ts))"

definition to_log_entry ::
  "pubsub_env \<Rightarrow> datetime \<Rightarrow> string \<Rightarrow> bytes \<Rightarrow> payload \<Rightarrow> datetime option \<Rightarrow> log_entry \<times> datetime option" where
  "to_log_entry E now topic rid p last_good =
     (let (ln, sm) = route_fields (pe_dumps E) p (pe_sm_fields E);
          (ts, last_good1) = event_timestamp E now p last_good
      in (\<lparr>timestamp = ts, labels = [(''source'', ''pubsub''), (''event_type'', event_type topic)], line = ln,
           structured_metadata = sm, checkpoint = \<lparr>tok_key = token_key topic, tok_value = b64encode rid\<rparr>,
           checkpoint_only = False, line_nbytes_memo = - 1\<rparr>, last_good1))"

text \<open>\<open>None\<close> is an exception of a transform.\<close>

definition shape_event ::
  "pubsub_env \<Rightarrow> pubsub_config \<Rightarrow> datetime \<Rightarrow> string \<Rightarrow> bytes \<Rightarrow> payload \<Rightarrow> datetime option
     \<Rightarrow> (log_entry \<times> datetime option) option" where
  "shape_event E cfg now topic rid p last_good =
     (case apply_pipeline (pe_transforms E) p of
        None \<Rightarrow> None
      | Some (None, _) \<Rightarrow> Some (keepalive_entry now topic rid, last_good)
      | Some (Some p1, _) \<Rightarrow>
          if \<not> should_keep (pe_sha256 E) (hex rid) (sample_rate E cfg topic)
          then Some (keepalive_entry now topic rid, last_good)
          else Some (to_log_entry E now topic rid p1 last_good))"

subsection \<open>Rejections\<close>

definition is_invalid_argument :: "client_exc \<Rightarrow> bool" where
  "is_invalid_argument x = (case x of AioRpcError code _ \<Rightarrow> code = INVALID_ARGUMENT | _ \<Rightarrow> False)"

definition REPLAY_CORRUPTION_MARKER :: string where "REPLAY_CORRUPTION_MARKER = ''replayid.corrupted''"

text \<open>\<^verbatim>\<open>m in s\<close>.\<close>

fun contains :: "string \<Rightarrow> string \<Rightarrow> bool" where
  "contains m [] = (m = [])"
| "contains m (c # s) = (startswith (c # s) m \<or> contains m s)"

definition trailer_confirms_replay_corruption :: "client_exc \<Rightarrow> bool option" where
  "trailer_confirms_replay_corruption x =
     (case x of
        AioRpcError _ [] \<Rightarrow> None
      | AioRpcError _ trailer \<Rightarrow> Some (list_ex (\<lambda>(_, v). contains REPLAY_CORRUPTION_MARKER (lower v)) trailer)
      | _ \<Rightarrow> None)"

subsection \<open>The subscribe loop of one topic\<close>

text \<open>The local variables of \<^verbatim>\<open>_run_topic\<close>; \<open>tr_out\<close> is what it put on the queue, each entry with
  the item it was made from, \<open>tr_pauses\<close> the pauses it asked for, \<open>tr_fallbacks\<close> and \<open>tr_load_errors\<close> two of its counters.\<close>

record topic_run =
  tr_replay_id :: bytes
  tr_preset :: preset
  tr_loaded :: bool
  tr_backoff :: seconds
  tr_attempt :: nat
  tr_last_good :: "datetime option"
  tr_out :: "(payload stream_item \<times> log_entry) list"
  tr_pauses :: "seconds list"
  tr_fallbacks :: nat
  tr_load_errors :: nat
  tr_requests :: "(preset \<times> bytes) list"

definition new_topic_run :: "pubsub_config \<Rightarrow> datetime option \<Rightarrow> topic_run" where
  "new_topic_run cfg last_good =
     \<lparr>tr_replay_id = [], tr_preset = LATEST, tr_loaded = False, tr_backoff = reconnect_backoff cfg, tr_attempt = 0,
      tr_last_good = last_good, tr_out = [], tr_pauses = [], tr_fallbacks = 0, tr_load_errors = 0, tr_requests = []\<rparr>"

text \<open>One pass of the loop: stop at its head, the answer of the store (\<open>None\<close> an exception), the items of
  the connection with the clock and the stop event at each, its end, stop after it, the pause's random
  number and whether stop cut the pause short.\<close>

record round =
  rd_stop :: bool
  rd_load :: "string option option"
  rd_items :: "(payload stream_item \<times> datetime \<times> bool) list"
  rd_end :: "client_exc option"
  rd_stop_end :: bool
  rd_rand :: rat
  rd_stop_pause :: bool

definition pause :: "pubsub_config \<Rightarrow> rat \<Rightarrow> topic_run \<Rightarrow> topic_run" where
  "pause cfg u t = t\<lparr>tr_pauses := tr_pauses t @ [tr_backoff t + jitter u (tr_backoff t)]\<rparr>"

definition double_backoff :: "pubsub_config \<Rightarrow> topic_run \<Rightarrow> topic_run" where
  "double_backoff cfg t = t\<lparr>tr_backoff := min (tr_backoff t * 2) (max_backoff cfg)\<rparr>"

definition reset_backoff :: "pubsub_config \<Rightarrow> topic_run \<Rightarrow> topic_run" where
  "reset_backoff cfg t = t\<lparr>tr_backoff := reconnect_backoff cfg\<rparr>"

definition fallback_preset :: "pubsub_config \<Rightarrow> preset" where
  "fallback_preset cfg = (if replay_preset cfg = CUSTOM then LATEST else replay_preset cfg)"

definition load_position :: "pubsub_config \<Rightarrow> string option \<Rightarrow> topic_run \<Rightarrow> topic_run" where
  "load_position cfg stored t =
     (let t1 = (if stored \<noteq> None \<and> stored \<noteq> Some [] then
                  (case b64decode (the stored) of
                     Some rid \<Rightarrow> t\<lparr>tr_replay_id := rid, tr_preset := CUSTOM\<rparr>
                   | None \<Rightarrow> t\<lparr>tr_replay_id := [], tr_preset := fallback_preset cfg,
                                tr_load_errors := tr_load_errors t + 1\<rparr>)
                else t\<lparr>tr_replay_id := [], tr_preset := fallback_preset cfg\<rparr>)
      in t1\<lparr>tr_loaded := True\<rparr>)"

text \<open>The items of one connection: all consumed, left because of stop, or cut off by an exception of
  the body.\<close>

datatype items_end = ItemsConsumed | ItemsStopped | ItemsRaised

definition enqueue :: "payload stream_item \<Rightarrow> log_entry \<Rightarrow> topic_run \<Rightarrow> topic_run" where
  "enqueue i e t = t\<lparr>tr_replay_id := item_id i, tr_preset := CUSTOM, tr_out := tr_out t @ [(i, e)]\<rparr>"

fun on_items ::
  "pubsub_env \<Rightarrow> pubsub_config \<Rightarrow> string \<Rightarrow> (payload stream_item \<times> datetime \<times> bool) list \<Rightarrow> topic_run
     \<Rightarrow> items_end \<times> topic_run" where
  "on_items E cfg topic [] t = (ItemsConsumed, t)"
| "on_items E cfg topic ((ev, now, stop) # is) t =
     (if stop then (ItemsStopped, t)
      else
        (let t1 = reset_backoff cfg t in
         case ev of
           KeepaliveEvent rid \<Rightarrow>
             if rid = tr_replay_id t1 then on_items E cfg topic is t1
             else on_items E cfg topic is (enqueue ev (keepalive_entry now topic rid) t1)
         | DecodedEvent rid p \<Rightarrow>
             (case shape_event E cfg now topic rid p (tr_last_good t1) of
                None \<Rightarrow> (ItemsRaised, t1)
              | Some (e, last_good1) \<Rightarrow>
                  on_items E cfg topic is (enqueue ev e (t1\<lparr>tr_last_good := last_good1\<rparr>)))))"

definition on_stream_error :: "client_exc \<Rightarrow> topic_run \<Rightarrow> topic_run" where
  "on_stream_error x t =
     (if is_invalid_argument x \<and> tr_preset t = CUSTOM then
        (if trailer_confirms_replay_corruption x = Some False then t
         else t\<lparr>tr_fallbacks := tr_fallbacks t + 1, tr_replay_id := [], tr_preset := EARLIEST\<rparr>)
      else t)"

datatype topic_end = TopicReturned | TopicWaiting

text \<open>One pass: whether the task returns, and the variables after it. The backoff is reset at the first
  item only; later resets in a connection change nothing.\<close>

definition topic_pass ::
  "pubsub_env \<Rightarrow> pubsub_config \<Rightarrow> string \<Rightarrow> round \<Rightarrow> topic_run \<Rightarrow> bool \<times> topic_run" where
  "topic_pass E cfg topic r t =
     (if rd_stop r then (True, t)
      else if \<not> tr_loaded t \<and> rd_load r = None then
        (let t1 = pause cfg (rd_rand r) t
         in if rd_stop_pause r then (True, t1) else (False, double_backoff cfg t1))
      else
        (let t1 = (if tr_loaded t then t else load_position cfg (the (rd_load r)) t);
             t2 = t1\<lparr>tr_attempt := tr_attempt t1 + 1, tr_requests := tr_requests t1 @ [(tr_preset t1, tr_replay_id t1)]\<rparr>
         in case on_items E cfg topic (rd_items r) t2 of
              (ItemsStopped, t3) \<Rightarrow> (True, t3)
            | (ie, t3) \<Rightarrow>
                if rd_stop_end r then (True, t3)
                else
                  (case (ie, rd_end r) of
                     (ItemsConsumed, None) \<Rightarrow>
                       (let t4 = pause cfg (rd_rand r) (reset_backoff cfg t3) in (rd_stop_pause r, t4))
                   | _ \<Rightarrow>
                       (let x = (case (ie, rd_end r) of (ItemsConsumed, Some x) \<Rightarrow> x | _ \<Rightarrow> OtherException);
                            t4 = pause cfg (rd_rand r) (on_stream_error x t3)
                        in if rd_stop_pause r then (True, t4) else (False, double_backoff cfg t4)))))"

fun run_topic ::
  "pubsub_env \<Rightarrow> pubsub_config \<Rightarrow> string \<Rightarrow> round list \<Rightarrow> topic_run \<Rightarrow> topic_end \<times> topic_run" where
  "run_topic E cfg topic [] t = (TopicWaiting, t)"
| "run_topic E cfg topic (r # rs) t =
     (case topic_pass E cfg topic r t of
        (True, t1) \<Rightarrow> (TopicReturned, t1)
      | (False, t1) \<Rightarrow> run_topic E cfg topic rs t1)"

subsection \<open>Streams and positions\<close>

fun end_pos :: "(bytes \<Rightarrow> nat) \<Rightarrow> nat \<Rightarrow> 'p stream_item list \<Rightarrow> nat" where
  "end_pos pos p [] = p"
| "end_pos pos p (i # is) = end_pos pos (pos (item_id i)) is"

lemma end_pos_append: "end_pos pos p (xs @ ys) = end_pos pos (end_pos pos p xs) ys"
  by (induction xs arbitrary: p) auto

lemma stream_from_append:
  "stream_from lg pos p (xs @ ys) \<longleftrightarrow> stream_from lg pos p xs \<and> stream_from lg pos (end_pos pos p xs) ys"
proof (induction xs arbitrary: p)
  case (Cons i xs)
  then show ?case by (cases i) auto
qed simp

lemma undecodable_trans:
  "undecodable lg p q \<Longrightarrow> undecodable lg q r \<Longrightarrow> p \<le> q \<Longrightarrow> q \<le> r \<Longrightarrow> undecodable lg p r"
proof -
  assume a: "undecodable lg p q" "undecodable lg q r" "p \<le> q" "q \<le> r"
  have "take (r - p) (drop p lg) = take (q - p) (drop p lg) @ take (r - q) (drop q lg)"
    using a(3,4) take_add [of "q - p" "r - q" "drop p lg"] by simp
  then show ?thesis using a(1,2) by (simp add: undecodable_def)
qed

lemma stream_from_weaken:
  assumes "undecodable lg p q" "p \<le> q" "stream_from lg pos q is"
  shows "stream_from lg pos p is"
proof (cases "is")
  case (Cons i js)
  with assms show ?thesis by (cases i) (auto intro: undecodable_trans)
qed simp

text \<open>The events that decode between two positions, and those among the items queued.\<close>

definition good_events :: "'p topic_log \<Rightarrow> nat \<Rightarrow> nat \<Rightarrow> (bytes \<times> 'p) list" where
  "good_events lg p q =
     concat (map (\<lambda>(r, x). case x of None \<Rightarrow> [] | Some y \<Rightarrow> [(r, y)]) (take (q - p) (drop p lg)))"

fun events_of :: "'p stream_item list \<Rightarrow> (bytes \<times> 'p) list" where
  "events_of [] = []"
| "events_of (DecodedEvent r x # is) = (r, x) # events_of is"
| "events_of (KeepaliveEvent r # is) = events_of is"

lemma good_events_split:
  "p \<le> q \<Longrightarrow> q \<le> r \<Longrightarrow> good_events lg p r = good_events lg p q @ good_events lg q r"
  using take_add [of "q - p" "r - q" "drop p lg"] by (simp add: good_events_def)

lemma good_events_undecodable: "undecodable lg p q \<Longrightarrow> good_events lg p q = []"
  by (auto simp: good_events_def undecodable_def list_all_iff)

lemma good_events_one:
  "q < length lg \<Longrightarrow> lg ! q = (r, Some x) \<Longrightarrow> good_events lg q (Suc q) = [(r, x)]"
  by (simp add: good_events_def Cons_nth_drop_Suc [symmetric])

lemma stream_events:
  "stream_from lg pos p is \<Longrightarrow> events_of is = good_events lg p (end_pos pos p is) \<and> p \<le> end_pos pos p is"
proof (induction "is" arbitrary: p)
  case Nil
  then show ?case by (simp add: good_events_def)
next
  case (Cons i js)
  show ?case
  proof (cases i)
    case (DecodedEvent r x)
    with Cons.prems have s: "p < pos r" "pos r \<le> length lg" "lg ! (pos r - 1) = (r, Some x)"
      "undecodable lg p (pos r - 1)" "stream_from lg pos (pos r) js" by simp_all
    from s(1-3) have "good_events lg (pos r - 1) (pos r) = [(r, x)]"
      using good_events_one [of "pos r - 1" lg r x] by simp
    moreover have "good_events lg p (pos r) = good_events lg p (pos r - 1) @ good_events lg (pos r - 1) (pos r)"
      using s(1) by (intro good_events_split) simp_all
    ultimately have "good_events lg p (pos r) = [(r, x)]"
      using good_events_undecodable [OF s(4)] by simp
    then show ?thesis
      using Cons.IH [OF s(5)] s(1) good_events_split [of p "pos r" "end_pos pos (pos r) js" lg]
      by (simp add: DecodedEvent)
  next
    case (KeepaliveEvent r)
    with Cons.prems have s: "p \<le> pos r" "undecodable lg p (pos r)" "stream_from lg pos (pos r) js" by simp_all
    then show ?thesis
      using Cons.IH [OF s(3)] good_events_undecodable [OF s(2)] good_events_split [of p "pos r" "end_pos pos (pos r) js" lg]
      by (simp add: KeepaliveEvent)
  qed
qed

subsection \<open>One pass over a stream\<close>

definition new_position :: "topic_run \<Rightarrow> (payload stream_item \<times> log_entry) list \<Rightarrow> preset \<times> bytes" where
  "new_position t new =
     (if new = [] then (tr_preset t, tr_replay_id t) else (CUSTOM, item_id (fst (last new))))"

lemma enqueue_simps [simp]:
  "tr_out (enqueue i e t) = tr_out t @ [(i, e)]" "tr_preset (enqueue i e t) = CUSTOM"
  "tr_replay_id (enqueue i e t) = item_id i" "tr_fallbacks (enqueue i e t) = tr_fallbacks t"
  "tr_loaded (enqueue i e t) = tr_loaded t" "tr_backoff (enqueue i e t) = tr_backoff t"
  "tr_pauses (enqueue i e t) = tr_pauses t"
  by (simp_all add: enqueue_def)

lemma run_frames [simp]:
  "tr_out (reset_backoff cfg t) = tr_out t" "tr_preset (reset_backoff cfg t) = tr_preset t"
  "tr_replay_id (reset_backoff cfg t) = tr_replay_id t" "tr_fallbacks (reset_backoff cfg t) = tr_fallbacks t"
  "tr_loaded (reset_backoff cfg t) = tr_loaded t" "tr_pauses (reset_backoff cfg t) = tr_pauses t"
  "tr_out (double_backoff cfg t) = tr_out t" "tr_preset (double_backoff cfg t) = tr_preset t"
  "tr_replay_id (double_backoff cfg t) = tr_replay_id t" "tr_fallbacks (double_backoff cfg t) = tr_fallbacks t"
  "tr_loaded (double_backoff cfg t) = tr_loaded t" "tr_pauses (double_backoff cfg t) = tr_pauses t"
  "tr_out (pause cfg u t) = tr_out t" "tr_preset (pause cfg u t) = tr_preset t"
  "tr_replay_id (pause cfg u t) = tr_replay_id t" "tr_fallbacks (pause cfg u t) = tr_fallbacks t"
  "tr_loaded (pause cfg u t) = tr_loaded t" "tr_backoff (pause cfg u t) = tr_backoff t"
  "tr_out (load_position cfg stored t) = tr_out t" "tr_fallbacks (load_position cfg stored t) = tr_fallbacks t"
  "tr_loaded (load_position cfg stored t)" "tr_backoff (load_position cfg stored t) = tr_backoff t"
  "tr_pauses (load_position cfg stored t) = tr_pauses t"
  "tr_out (on_stream_error x t) = tr_out t" "tr_loaded (on_stream_error x t) = tr_loaded t"
  "tr_backoff (on_stream_error x t) = tr_backoff t" "tr_pauses (on_stream_error x t) = tr_pauses t"
  by (simp_all add: reset_backoff_def double_backoff_def pause_def load_position_def on_stream_error_def Let_def
      split: option.splits)

lemma on_stream_error_position:
  "(tr_fallbacks (on_stream_error x t) = tr_fallbacks t \<and> tr_preset (on_stream_error x t) = tr_preset t
      \<and> tr_replay_id (on_stream_error x t) = tr_replay_id t)
   \<or> (tr_fallbacks (on_stream_error x t) = Suc (tr_fallbacks t) \<and> tr_preset (on_stream_error x t) = EARLIEST)"
  by (simp add: on_stream_error_def)

lemma shape_event_token:
  "shape_event E cfg now topic rid p lg = Some (e, lg') \<Longrightarrow>
   checkpoint e = \<lparr>tok_key = token_key topic, tok_value = b64encode rid\<rparr>"
  by (auto simp: shape_event_def keepalive_entry_def to_log_entry_def split: option.splits prod.splits if_splits)

text \<open>From \<open>t\<close> to \<open>t'\<close> the topic queued \<open>new\<close>, a stream from position \<open>q\<close>, and kept the position of
  the last item queued.\<close>

definition token_ok :: "string \<Rightarrow> payload stream_item \<times> log_entry \<Rightarrow> bool" where
  "token_ok topic ie \<longleftrightarrow>
     checkpoint (snd ie) = \<lparr>tok_key = token_key topic, tok_value = b64encode (item_id (fst ie))\<rparr>"

definition extends ::
  "payload topic_log \<Rightarrow> (bytes \<Rightarrow> nat) \<Rightarrow> string \<Rightarrow> nat \<Rightarrow> topic_run \<Rightarrow> topic_run
     \<Rightarrow> (payload stream_item \<times> log_entry) list \<Rightarrow> bool" where
  "extends lg pos topic q t t' new \<longleftrightarrow>
     tr_out t' = tr_out t @ new \<and> stream_from lg pos q (map fst new) \<and> list_all (token_ok topic) new
     \<and> (tr_preset t', tr_replay_id t') = new_position t new
     \<and> tr_fallbacks t' = tr_fallbacks t \<and> tr_loaded t' = tr_loaded t"

lemma extends_Nil:
  "tr_out t' = tr_out t \<Longrightarrow> tr_preset t' = tr_preset t \<Longrightarrow> tr_replay_id t' = tr_replay_id t \<Longrightarrow>
   tr_fallbacks t' = tr_fallbacks t \<Longrightarrow> tr_loaded t' = tr_loaded t \<Longrightarrow> extends lg pos topic q t t' []"
  by (simp add: extends_def new_position_def)

lemma extends_frame:
  "extends lg pos topic q t t' new \<Longrightarrow> tr_out t = tr_out t0 \<Longrightarrow> tr_preset t = tr_preset t0 \<Longrightarrow>
   tr_replay_id t = tr_replay_id t0 \<Longrightarrow> tr_fallbacks t = tr_fallbacks t0 \<Longrightarrow> tr_loaded t = tr_loaded t0 \<Longrightarrow>
   extends lg pos topic q t0 t' new"
  by (simp add: extends_def new_position_def)

lemma extends_Cons:
  assumes "extends lg pos topic (pos (item_id i)) (enqueue i e t1) t' new" "token_ok topic (i, e)"
    and "tr_out t1 = tr_out t" "tr_fallbacks t1 = tr_fallbacks t" "tr_loaded t1 = tr_loaded t"
    and "stream_from lg pos q (i # js)"
  shows "extends lg pos topic q t t' ((i, e) # new)"
proof -
  have "stream_from lg pos q (map fst ((i, e) # new))"
    using assms(1,6) by (cases i) (auto simp: extends_def)
  then show ?thesis using assms(1-5) by (auto simp: extends_def new_position_def)
qed

lemma extends_skip:
  "extends lg pos topic (pos r) t t' new \<Longrightarrow> stream_from lg pos q (KeepaliveEvent r # js) \<Longrightarrow> extends lg pos topic q t t' new"
  by (auto simp: extends_def intro: stream_from_weaken)

lemma stream_from_tl: "stream_from lg pos q (i # js) \<Longrightarrow> stream_from lg pos (pos (item_id i)) js"
  by (cases i) auto

lemma on_items_stream:
  assumes "on_items E cfg topic is t = (ie, t')" "stream_from lg pos q (map fst is)"
  shows "\<exists>new. extends lg pos topic q t t' new"
  using assms
proof (induction "is" arbitrary: t q)
  case Nil
  then show ?case by (auto intro: extends_Nil)
next
  case (Cons i js)
  obtain ev now stop where i: "i = (ev, now, stop)" by (metis prod.exhaust)
  let ?t1 = "reset_backoff cfg t"
  have st: "stream_from lg pos q (ev # map fst js)" using Cons.prems(2) by (simp add: i)
  have queue: ?case if "on_items E cfg topic js (enqueue ev e t2) = (ie, t')" "token_ok topic (ev, e)"
      "tr_out t2 = tr_out t" "tr_fallbacks t2 = tr_fallbacks t" "tr_loaded t2 = tr_loaded t" for e t2
    using Cons.IH [OF that(1) stream_from_tl [OF st]] extends_Cons [OF _ that(2-) st] by blast
  consider "stop" | rid p where "\<not> stop" "ev = DecodedEvent rid p" | rid where "\<not> stop" "ev = KeepaliveEvent rid"
    by (cases ev) auto
  then show ?case
  proof cases
    case 1
    then show ?thesis using Cons.prems(1) by (auto simp: i intro: extends_Nil)
  next
    case (2 rid p)
    show ?thesis
    proof (cases "shape_event E cfg now topic rid p (tr_last_good ?t1)")
      case None
      then show ?thesis using Cons.prems(1) 2 by (auto simp: i Let_def intro!: extends_Nil exI [of _ "[]"])
    next
      case (Some eg)
      obtain e g where eg: "eg = (e, g)" by (metis prod.exhaust)
      have "token_ok topic (ev, e)" using shape_event_token [OF Some [unfolded eg]] 2 by (simp add: token_ok_def)
      then show ?thesis
        using Cons.prems(1) 2 Some by (intro queue [of e "?t1\<lparr>tr_last_good := g\<rparr>"]) (simp_all add: i Let_def eg)
    qed
  next
    case (3 rid)
    show ?thesis
    proof (cases "rid = tr_replay_id ?t1")
      case True
      then have "on_items E cfg topic js ?t1 = (ie, t')" using Cons.prems(1) 3 by (simp add: i Let_def)
      from Cons.IH [OF this stream_from_tl [OF st]] obtain new
        where "extends lg pos topic (pos rid) ?t1 t' new" using 3 by auto
      then show ?thesis using extends_skip st 3 extends_frame [of lg pos topic q ?t1 t' new t] by auto
    next
      case False
      then show ?thesis using Cons.prems(1) 3
        by (intro queue [of "keepalive_entry now topic rid" ?t1])
          (simp_all add: i Let_def keepalive_entry_def token_ok_def)
    qed
  qed
qed

text \<open>Whether a pass connects, and with which position.\<close>

definition connects :: "round \<Rightarrow> topic_run \<Rightarrow> bool" where
  "connects r t \<longleftrightarrow> \<not> rd_stop r \<and> (tr_loaded t \<or> rd_load r \<noteq> None)"

definition positioned :: "pubsub_config \<Rightarrow> round \<Rightarrow> topic_run \<Rightarrow> topic_run" where
  "positioned cfg r t = (if tr_loaded t then t else load_position cfg (the (rd_load r)) t)"

definition request_of :: "pubsub_config \<Rightarrow> round \<Rightarrow> topic_run \<Rightarrow> preset \<times> bytes" where
  "request_of cfg r t = (tr_preset (positioned cfg r t), tr_replay_id (positioned cfg r t))"

lemma topic_pass_idle:
  "topic_pass E cfg topic r t = (b, t') \<Longrightarrow> \<not> connects r t \<Longrightarrow>
   tr_out t' = tr_out t \<and> tr_loaded t' = tr_loaded t \<and> tr_fallbacks t' = tr_fallbacks t
   \<and> tr_preset t' = tr_preset t \<and> tr_replay_id t' = tr_replay_id t"
  by (auto simp: topic_pass_def connects_def Let_def split: if_splits)

lemma on_stream_error_other [simp]: "on_stream_error OtherException t = t"
  by (simp add: on_stream_error_def is_invalid_argument_def)

text \<open>After the items nothing but a rejection touches the position.\<close>

definition same_position :: "topic_run \<Rightarrow> topic_run \<Rightarrow> bool" where
  "same_position t t' \<longleftrightarrow> tr_out t' = tr_out t \<and> tr_loaded t' = tr_loaded t \<and> tr_fallbacks t' = tr_fallbacks t
     \<and> tr_preset t' = tr_preset t \<and> tr_replay_id t' = tr_replay_id t"

lemma same_position_frames [simp]:
  "same_position t t" "same_position t (pause cfg u t') = same_position t t'"
  "same_position t (double_backoff cfg t') = same_position t t'" "same_position t (reset_backoff cfg t') = same_position t t'"
  by (simp_all add: same_position_def)

lemma topic_pass_connected:
  assumes "topic_pass E cfg topic r t = (b, t')" "connects r t"
    and "on_items E cfg topic (rd_items r)
      ((positioned cfg r t)\<lparr>tr_attempt := tr_attempt (positioned cfg r t) + 1,
         tr_requests := tr_requests (positioned cfg r t) @ [request_of cfg r t]\<rparr>) = (ie, t3)"
  shows "\<exists>x. same_position (on_stream_error x t3) t'"
proof -
  have "topic_pass E cfg topic r t =
    (case (ie, t3) of
       (ItemsStopped, t3) \<Rightarrow> (True, t3)
     | (ie, t3) \<Rightarrow>
         if rd_stop_end r then (True, t3)
         else
           (case (ie, rd_end r) of
              (ItemsConsumed, None) \<Rightarrow>
                (let t4 = pause cfg (rd_rand r) (reset_backoff cfg t3) in (rd_stop_pause r, t4))
            | _ \<Rightarrow>
                (let x = (case (ie, rd_end r) of (ItemsConsumed, Some x) \<Rightarrow> x | _ \<Rightarrow> OtherException);
                     t4 = pause cfg (rd_rand r) (on_stream_error x t3)
                 in if rd_stop_pause r then (True, t4) else (False, double_backoff cfg t4))))"
    using assms(2,3) by (auto simp: topic_pass_def connects_def positioned_def request_of_def Let_def)
  then show ?thesis
    using assms(1) by (auto simp: Let_def split: items_end.splits option.splits if_splits
        intro: exI [of _ OtherException] same_position_frames)
qed

lemma topic_pass_stream:
  assumes "topic_pass E cfg topic r t = (b, t')" "connects r t" "stream_from lg pos q (map fst (rd_items r))"
  shows "\<exists>new t1. extends lg pos topic q (positioned cfg r t) t1 new \<and> tr_out t' = tr_out t @ new \<and> tr_loaded t'
    \<and> (tr_fallbacks t' = tr_fallbacks t \<and> tr_preset t' = tr_preset t1 \<and> tr_replay_id t' = tr_replay_id t1
       \<or> tr_fallbacks t' = Suc (tr_fallbacks t) \<and> tr_preset t' = EARLIEST)"
proof -
  let ?p = "positioned cfg r t"
  let ?t2 = "?p\<lparr>tr_attempt := tr_attempt ?p + 1, tr_requests := tr_requests ?p @ [(tr_preset ?p, tr_replay_id ?p)]\<rparr>"
  obtain ie t3 where o: "on_items E cfg topic (rd_items r) ?t2 = (ie, t3)" by (metis prod.exhaust)
  from on_items_stream [OF o assms(3)] obtain new where n: "extends lg pos topic q ?t2 t3 new" by blast
  then have n': "extends lg pos topic q ?p t3 new" by (rule extends_frame) simp_all
  have p: "tr_out ?p = tr_out t" "tr_loaded ?p" "tr_fallbacks ?p = tr_fallbacks t"
    by (simp_all add: positioned_def)
  from topic_pass_connected [OF assms(1,2)] o obtain x where x: "same_position (on_stream_error x t3) t'"
    unfolding request_of_def by blast
  show ?thesis
    using n' x p on_stream_error_position [of x t3]
    by (intro exI [of _ new] exI [of _ t3]) (auto simp: same_position_def extends_def)
qed

subsection \<open>Resumption\<close>

text \<open>A run of a topic against connections: each pass that connects gets the items and the end of its
  connection, which is served from the position of the request; a subscription without a replay id
  starts at some position \<open>base\<close> (the oldest retained event, or the tip).\<close>

fun start_pos :: "(bytes \<Rightarrow> nat) \<Rightarrow> nat \<Rightarrow> preset \<times> bytes \<Rightarrow> nat" where
  "start_pos pos base (CUSTOM, rid) = pos rid"
| "start_pos pos base (LATEST, rid) = base"
| "start_pos pos base (EARLIEST, rid) = base"

fun served ::
  "(preset \<times> bytes \<Rightarrow> 'c \<Rightarrow> payload stream_item list \<times> client_exc option) \<Rightarrow> (nat \<Rightarrow> 'c \<Rightarrow> bool) \<Rightarrow> (bytes \<Rightarrow> nat)
     \<Rightarrow> pubsub_env \<Rightarrow> pubsub_config \<Rightarrow> string \<Rightarrow> (round \<times> nat \<times> 'c) list \<Rightarrow> topic_run \<Rightarrow> bool" where
  "served connect serves pos E cfg topic [] t = True"
| "served connect serves pos E cfg topic ((r, base, c) # rs) t =
     ((connects r t \<longrightarrow> (map fst (rd_items r), rd_end r) = connect (request_of cfg r t) c
         \<and> serves (start_pos pos base (request_of cfg r t)) c)
      \<and> (case topic_pass E cfg topic r t of
           (True, _) \<Rightarrow> True
         | (False, t1) \<Rightarrow> served connect serves pos E cfg topic rs t1))"

text \<open>The checkpoint store answers with one value, once it answers.\<close>

definition loads :: "string option \<Rightarrow> (round \<times> nat \<times> 'c) list \<Rightarrow> bool" where
  "loads stored rs \<longleftrightarrow> list_all (\<lambda>(r, _). rd_load r = None \<or> rd_load r = Some stored) rs"

lemma loads_simps [simp]:
  "loads stored []"
  "loads stored ((r, bc) # rs) \<longleftrightarrow> (rd_load r = None \<or> rd_load r = Some stored) \<and> loads stored rs"
  by (simp_all add: loads_def)

lemma topic_pass_fallbacks:
  "topic_pass E cfg topic r t = (b, t') \<Longrightarrow> tr_fallbacks t \<le> tr_fallbacks t'"
proof (cases "connects r t")
  case True
  assume p: "topic_pass E cfg topic r t = (b, t')"
  obtain ie t3 where o: "on_items E cfg topic (rd_items r)
      ((positioned cfg r t)\<lparr>tr_attempt := tr_attempt (positioned cfg r t) + 1,
         tr_requests := tr_requests (positioned cfg r t) @ [request_of cfg r t]\<rparr>) = (ie, t3)"
    by (metis prod.exhaust)
  have items: "tr_fallbacks u' = tr_fallbacks u" if "on_items E cfg topic is u = (ie, u')" for "is" u u'
    using that
  proof (induction "is" arbitrary: u)
    case (Cons i js)
    then show ?case
      by (cases i) (auto simp: Let_def split: if_splits stream_item.splits option.splits prod.splits dest!: Cons.IH)
  qed simp
  from topic_pass_connected [OF p True o] obtain x where x: "same_position (on_stream_error x t3) t'" by blast
  from items [OF o] have "tr_fallbacks t3 = tr_fallbacks t" by (simp add: positioned_def)
  with x on_stream_error_position [of x t3] show ?thesis by (auto simp: same_position_def)
qed (auto dest: topic_pass_idle)

lemma run_topic_fallbacks: "run_topic E cfg topic rs t = (en, t') \<Longrightarrow> tr_fallbacks t \<le> tr_fallbacks t'"
proof (induction rs arbitrary: t)
  case (Cons r rs)
  obtain b t1 where p: "topic_pass E cfg topic r t = (b, t1)" by (metis prod.exhaust)
  show ?case
    using Cons.prems Cons.IH [of t1] topic_pass_fallbacks [OF p] p by (cases b) auto
qed simp

text \<open>The position a run stands at, before and after it has read its stored token.\<close>

definition stands_at :: "(bytes \<Rightarrow> nat) \<Rightarrow> bytes \<Rightarrow> nat \<Rightarrow> topic_run \<Rightarrow> bool" where
  "stands_at pos rid0 p t \<longleftrightarrow>
     (if tr_loaded t then tr_preset t = CUSTOM \<and> pos (tr_replay_id t) = p else pos rid0 = p)"

lemma stands_at_request:
  assumes "stands_at pos rid0 p t" "b64decode tok = Some rid0" "tok \<noteq> []"
    and "connects r t" "rd_load r = None \<or> rd_load r = Some (Some tok)"
  shows "tr_preset (positioned cfg r t) = CUSTOM" "pos (tr_replay_id (positioned cfg r t)) = p"
    "request_of cfg r t = (CUSTOM, tr_replay_id (positioned cfg r t))"
  using assms by (auto simp: stands_at_def positioned_def request_of_def connects_def load_position_def)

lemma extends_stands:
  assumes "extends lg pos topic p t0 t1 new" "tr_preset t0 = CUSTOM" "pos (tr_replay_id t0) = p"
  shows "tr_preset t1 = CUSTOM" "pos (tr_replay_id t1) = end_pos pos p (map fst new)"
proof -
  have "end_pos pos p (map fst new) = pos (item_id (fst (last new)))" if "new \<noteq> []"
    using that by (cases new rule: rev_cases) (simp_all add: end_pos_append)
  with assms show "tr_preset t1 = CUSTOM" "pos (tr_replay_id t1) = end_pos pos p (map fst new)"
    by (auto simp: extends_def new_position_def split: if_splits)
qed

text \<open>With rejections: what was queued since the last subscription without a replay id, or since the
  start, is a stream from there to where the run stands. \<open>S\<close> holds the positions of those starts.\<close>

definition in_segment :: "payload topic_log \<Rightarrow> (bytes \<Rightarrow> nat) \<Rightarrow> nat set \<Rightarrow> topic_run \<Rightarrow> bool" where
  "in_segment lg pos S t \<longleftrightarrow>
     (\<exists>pre seg s. tr_out t = pre @ seg \<and> s \<in> S \<and> stream_from lg pos s (map fst seg)
        \<and> end_pos pos s (map fst seg) = pos (tr_replay_id t))"

definition segment_inv :: "payload topic_log \<Rightarrow> (bytes \<Rightarrow> nat) \<Rightarrow> nat set \<Rightarrow> topic_run \<Rightarrow> bool" where
  "segment_inv lg pos S t \<longleftrightarrow> (tr_loaded t \<and> tr_preset t = CUSTOM \<longrightarrow> in_segment lg pos S t)"

definition stored_start :: "(bytes \<Rightarrow> nat) \<Rightarrow> nat set \<Rightarrow> string option \<Rightarrow> bool" where
  "stored_start pos S stored \<longleftrightarrow> (\<forall>tok rid. stored = Some tok \<and> tok \<noteq> [] \<and> b64decode tok = Some rid \<longrightarrow> pos rid \<in> S)"

lemma in_segment_positioned:
  assumes "segment_inv lg pos S t" "stored_start pos S stored" "rd_load r = None \<or> rd_load r = Some stored"
    and "connects r t" "tr_preset (positioned cfg r t) = CUSTOM"
  shows "in_segment lg pos S (positioned cfg r t)"
proof (cases "tr_loaded t")
  case True
  then show ?thesis using assms(1,5) by (simp add: positioned_def segment_inv_def)
next
  case False
  then have p: "positioned cfg r t = load_position cfg stored t" using assms(3,4) by (auto simp: positioned_def connects_def)
  have "fallback_preset cfg \<noteq> CUSTOM" by (simp add: fallback_preset_def)
  then have "pos (tr_replay_id (positioned cfg r t)) \<in> S"
    using assms(2,5) unfolding p by (auto simp: load_position_def stored_start_def Let_def split: if_splits option.splits)
  then show ?thesis
    unfolding in_segment_def
    by (intro exI [of _ "tr_out (positioned cfg r t)"] exI [of _ "[]"] exI [of _ "pos (tr_replay_id (positioned cfg r t))"]) simp
qed

lemma in_segment_extend:
  assumes "in_segment lg pos S t0" "extends lg pos topic (pos (tr_replay_id t0)) t0 t2 new" "tr_preset t0 = CUSTOM"
  shows "in_segment lg pos S t2"
proof -
  obtain pre seg s where g: "tr_out t0 = pre @ seg" "s \<in> S" "stream_from lg pos s (map fst seg)"
    "end_pos pos s (map fst seg) = pos (tr_replay_id t0)" using assms(1) by (auto simp: in_segment_def)
  show ?thesis
    unfolding in_segment_def
    using g assms(2) extends_stands(2) [OF assms(2,3) refl]
    by (intro exI [of _ pre] exI [of _ "seg @ new"] exI [of _ s]) (simp add: stream_from_append end_pos_append extends_def)
qed

lemma in_segment_fresh:
  assumes "extends lg pos topic base t0 t2 new" "base \<in> S" "new \<noteq> []"
  shows "in_segment lg pos S t2"
proof -
  have "end_pos pos base (map fst new) = pos (item_id (fst (last new)))"
    using assms(3) by (cases new rule: rev_cases) (simp_all add: end_pos_append)
  then show ?thesis
    unfolding in_segment_def using assms
    by (intro exI [of _ "tr_out t0"] exI [of _ new] exI [of _ base]) (simp add: extends_def new_position_def)
qed

lemma in_segment_cong: "tr_out t = tr_out t' \<Longrightarrow> tr_replay_id t = tr_replay_id t' \<Longrightarrow> in_segment lg pos S t = in_segment lg pos S t'"
  by (simp add: in_segment_def)

lemma segment_pass:
  assumes "topic_pass E cfg topic r t = (b, t1)" "segment_inv lg pos S t" "stored_start pos S stored"
    and "rd_load r = None \<or> rd_load r = Some stored" "base \<in> S"
    and "connects r t \<Longrightarrow> stream_from lg pos (start_pos pos base (request_of cfg r t)) (map fst (rd_items r))"
  shows "segment_inv lg pos S t1"
proof (cases "connects r t")
  case False
  then show ?thesis
    using topic_pass_idle [OF assms(1)] assms(2) in_segment_cong [of t1 t] by (auto simp: segment_inv_def)
next
  case True
  let ?p = "positioned cfg r t" and ?q = "start_pos pos base (request_of cfg r t)"
  show ?thesis
    unfolding segment_inv_def
  proof (intro impI)
    assume l1: "tr_loaded t1 \<and> tr_preset t1 = CUSTOM"
    from topic_pass_stream [OF assms(1) True assms(6) [OF True]] l1 obtain new t2 where
      n: "extends lg pos topic ?q ?p t2 new" "tr_out t1 = tr_out t @ new" "tr_preset t1 = tr_preset t2"
         "tr_replay_id t1 = tr_replay_id t2" by auto
    have "in_segment lg pos S t2"
    proof (cases "tr_preset ?p = CUSTOM")
      case cu: True
      have "in_segment lg pos S ?p" by (rule in_segment_positioned [OF assms(2-4) True cu])
      then show ?thesis using in_segment_extend [OF _ _ cu] n(1) by (simp add: request_of_def cu)
    next
      case False
      then have "?q = base" by (cases "tr_preset ?p") (simp_all add: request_of_def)
      moreover have "new \<noteq> []" using n(1,3) l1 False by (auto simp: extends_def new_position_def)
      ultimately show ?thesis using in_segment_fresh n(1) assms(5) by metis
    qed
    moreover have "tr_out t1 = tr_out t2" using n(1,2) by (simp add: extends_def positioned_def)
    ultimately show "in_segment lg pos S t1" using n(4) in_segment_cong by blast
  qed
qed

locale subscription =
  fixes connect :: "preset \<times> bytes \<Rightarrow> 'c \<Rightarrow> payload stream_item list \<times> client_exc option"
    and serves :: "nat \<Rightarrow> 'c \<Rightarrow> bool"
    and lg :: "payload topic_log"
    and pos :: "bytes \<Rightarrow> nat"
  assumes connect_stream: "serves p c \<Longrightarrow> stream_from lg pos p (fst (connect req c))"
begin

lemma run_topic_exact:
  assumes "run_topic E cfg topic (map fst rs) t = (en, t')" "served connect serves pos E cfg topic rs t"
    and "stands_at pos rid p t" "b64decode tok = Some rid" "tok \<noteq> []" "loads (Some tok) rs"
    and "tr_fallbacks t' = tr_fallbacks t"
  shows "\<exists>new. tr_out t' = tr_out t @ new \<and> stream_from lg pos p (map fst new) \<and> list_all (token_ok topic) new"
  using assms
proof (induction rs arbitrary: t p)
  case Nil
  then show ?case by simp
next
  case (Cons rbc rs)
  obtain r base c where rbc: "rbc = (r, base, c)" by (metis prod.exhaust)
  obtain b t1 where pass: "topic_pass E cfg topic r t = (b, t1)" by (metis prod.exhaust)
  have rest: "b \<and> t' = t1 \<or> \<not> b \<and> run_topic E cfg topic (map fst rs) t1 = (en, t') \<and> served connect serves pos E cfg topic rs t1"
    using Cons.prems(1,2) pass by (cases b) (auto simp: rbc)
  have ld: "loads (Some tok) rs" "rd_load r = None \<or> rd_load r = Some (Some tok)" using Cons.prems(6) by (simp_all add: rbc)
  have fb: "tr_fallbacks t1 = tr_fallbacks t"
    using rest run_topic_fallbacks topic_pass_fallbacks [OF pass] Cons.prems(7) by fastforce
  have "\<exists>new1. tr_out t1 = tr_out t @ new1 \<and> stream_from lg pos p (map fst new1) \<and> list_all (token_ok topic) new1
      \<and> stands_at pos rid (end_pos pos p (map fst new1)) t1"
  proof (cases "connects r t")
    case False
    then show ?thesis using topic_pass_idle [OF pass] Cons.prems(3) by (intro exI [of _ "[]"]) (auto simp: stands_at_def)
  next
    case True
    note at = stands_at_request [OF Cons.prems(3-5) True ld(2), of cfg]
    have "serves p c" "map fst (rd_items r) = fst (connect (request_of cfg r t) c)"
      using Cons.prems(2) True at by (auto simp: rbc dest: arg_cong [of _ _ fst])
    with connect_stream have "stream_from lg pos p (map fst (rd_items r))" by simp
    from topic_pass_stream [OF pass True this] obtain new1 t2 where n: "extends lg pos topic p (positioned cfg r t) t2 new1"
      "tr_out t1 = tr_out t @ new1" "tr_loaded t1" "tr_preset t1 = tr_preset t2" "tr_replay_id t1 = tr_replay_id t2"
      using fb by auto
    then show ?thesis
      using extends_stands [OF n(1) at(1,2)] by (intro exI [of _ new1]) (auto simp: stands_at_def extends_def)
  qed
  then obtain new1 where n1: "tr_out t1 = tr_out t @ new1" "stream_from lg pos p (map fst new1)" "list_all (token_ok topic) new1"
    "stands_at pos rid (end_pos pos p (map fst new1)) t1" by blast
  show ?case
  proof (cases b)
    case True
    then show ?thesis using rest n1 by auto
  next
    case False
    then obtain new2 where "tr_out t' = tr_out t1 @ new2" "stream_from lg pos (end_pos pos p (map fst new1)) (map fst new2)"
      "list_all (token_ok topic) new2"
      using Cons.IH [OF _ _ n1(4) Cons.prems(4,5) ld(1)] rest fb Cons.prems(7) by auto
    then show ?thesis using n1 by (intro exI [of _ "new1 @ new2"]) (simp add: stream_from_append)
  qed
qed

lemma run_topic_segment:
  assumes "run_topic E cfg topic (map fst rs) t = (en, t')" "served connect serves pos E cfg topic rs t"
    and "segment_inv lg pos S t" "stored_start pos S stored" "loads stored rs" "list_all (\<lambda>(_, base, _). base \<in> S) rs"
  shows "segment_inv lg pos S t'"
  using assms
proof (induction rs arbitrary: t)
  case Nil
  then show ?case by simp
next
  case (Cons rbc rs)
  obtain r base c where rbc: "rbc = (r, base, c)" by (metis prod.exhaust)
  obtain b t1 where pass: "topic_pass E cfg topic r t = (b, t1)" by (metis prod.exhaust)
  have "stream_from lg pos (start_pos pos base (request_of cfg r t)) (map fst (rd_items r))" if "connects r t"
  proof -
    have "serves (start_pos pos base (request_of cfg r t)) c" "map fst (rd_items r) = fst (connect (request_of cfg r t) c)"
      using Cons.prems(2) that by (auto simp: rbc dest: arg_cong [of _ _ fst])
    with connect_stream show ?thesis by simp
  qed
  from segment_pass [OF pass Cons.prems(3,4) _ _ this] have "segment_inv lg pos S t1"
    using Cons.prems(5,6) by (simp add: rbc)
  then show ?case
    using Cons.prems Cons.IH [of t1] pass by (cases b) (auto simp: rbc)
qed

end

text \<open>The connections of the client: the items and the end of \<open>subscribe\<close>, over a server that delivers the
  topic's log from the position asked for and a registry whose schemas do not change.\<close>

type_synonym 's connection = "client_exc option \<times> 's wire list \<times> 's client"

definition client_connect ::
  "('s \<Rightarrow> bytes \<Rightarrow> payload option) \<Rightarrow> string \<Rightarrow> nat \<Rightarrow> preset \<times> bytes \<Rightarrow> 's connection
     \<Rightarrow> payload stream_item list \<times> client_exc option" where
  "client_connect reader topic n req conn =
     (case (req, conn) of ((pr, rid), (start, ws, c)) \<Rightarrow>
        (case subscribe reader topic pr rid n start ws c of
           (items, en, _, _) \<Rightarrow> (items, case en of SubRaised x \<Rightarrow> Some x | _ \<Rightarrow> None)))"

definition client_serves ::
  "wire_event list \<Rightarrow> (bytes \<Rightarrow> nat) \<Rightarrow> (string \<Rightarrow> 's) \<Rightarrow> nat \<Rightarrow> 's connection \<Rightarrow> bool" where
  "client_serves wlg pos registry p conn \<longleftrightarrow>
     (case conn of (start, ws, c) \<Rightarrow>
        delivers wlg pos p ws \<and> ids_ok wlg pos \<and> p \<le> length wlg
        \<and> list_all (registry_ok registry) ws \<and> cache_ok registry c)"

interpretation pubsub: subscription "client_connect reader topic n" "client_serves wlg pos registry"
    "topic_log reader registry wlg" pos for reader topic n wlg pos registry
proof
  fix p :: nat and c :: "'a connection" and req :: "preset \<times> bytes"
  assume "client_serves wlg pos registry p c"
  moreover obtain start ws cl pr rid where c: "c = (start, ws, cl)" "req = (pr, rid)" by (metis prod.exhaust)
  moreover obtain items en reqs cl' where "subscribe reader topic pr rid n start ws cl = (items, en, reqs, cl')"
    by (metis prod.exhaust)
  ultimately show "stream_from (topic_log reader registry wlg) pos p (fst (client_connect reader topic n req c))"
    using subscribe_faithful [of reader topic pr rid n start ws cl items en reqs cl' wlg pos p registry]
    by (simp add: client_connect_def client_serves_def)
qed

text \<open>A session of a topic: a run of its task from the stored token \<open>tok\<close> against the client.\<close>

definition session ::
  "('s \<Rightarrow> bytes \<Rightarrow> payload option) \<Rightarrow> (string \<Rightarrow> 's) \<Rightarrow> wire_event list \<Rightarrow> (bytes \<Rightarrow> nat) \<Rightarrow> nat \<Rightarrow> pubsub_env
     \<Rightarrow> pubsub_config \<Rightarrow> string \<Rightarrow> string option \<Rightarrow> (round \<times> nat \<times> 's connection) list \<Rightarrow> topic_run \<Rightarrow> bool" where
  "session reader registry wlg pos n E cfg topic stored rs t' \<longleftrightarrow>
     snd (run_topic E cfg topic (map fst rs) (new_topic_run cfg None)) = t'
     \<and> served (client_connect reader topic n) (client_serves wlg pos registry) pos E cfg topic rs (new_topic_run cfg None)
     \<and> loads stored rs"

lemma session_exact:
  assumes "session reader registry wlg pos n E cfg topic (Some tok) rs t'" "b64decode tok = Some rid0" "tok \<noteq> []"
    and "tr_fallbacks t' = 0"
  shows "stream_from (topic_log reader registry wlg) pos (pos rid0) (map fst (tr_out t'))"
    "list_all (token_ok topic) (tr_out t')"
proof -
  obtain en where r: "run_topic E cfg topic (map fst rs) (new_topic_run cfg None) = (en, t')"
    using assms(1) unfolding session_def by (metis prod.collapse)
  have "\<exists>new. tr_out t' = tr_out (new_topic_run cfg None) @ new
      \<and> stream_from (topic_log reader registry wlg) pos (pos rid0) (map fst new) \<and> list_all (token_ok topic) new"
    using assms
    by (intro pubsub.run_topic_exact [OF r, where rid = rid0 and tok = tok])
      (auto simp: session_def stands_at_def new_topic_run_def)
  then show "stream_from (topic_log reader registry wlg) pos (pos rid0) (map fst (tr_out t'))"
    "list_all (token_ok topic) (tr_out t')"
    by (auto simp: new_topic_run_def)
qed

text \<open>
  C7. Resumption of a topic across reconnects and a restart, as long as the server accepts the replay
  ids presented to it, so that neither session falls back to the earliest retained event
  (\<open>tr_fallbacks = 0\<close>; such a fallback repeats events, see \<open>fallback_keeps_retained\<close>). In one
  session, over any number of reconnects, the topic queues exactly the events that decode behind its
  stored token, each once and in order. If the process then stops and a second session starts behind
  the token of any queued entry (the one last committed), that entry's predecessors and the second
  session together are again exactly the events behind the first token, none lost and none repeated.
\<close>

theorem pubsub_resume_exact:
  assumes "session reader registry wlg pos n E cfg topic (Some tok0) rs1 t1" "b64decode tok0 = Some rid0" "tok0 \<noteq> []"
    and "tr_fallbacks t1 = 0"
    and "tr_out t1 = done @ (i, e) # unsent" "byte_list (item_id i)" "item_id i \<noteq> []"
    and "session reader registry wlg pos n E cfg topic (Some (tok_value (checkpoint e))) rs2 t2" "tr_fallbacks t2 = 0"
    and "all = map fst (done @ (i, e) # tr_out t2)" "here = end_pos pos (pos rid0) all"
  shows "events_of (map fst (tr_out t1))
      = good_events (topic_log reader registry wlg) (pos rid0) (end_pos pos (pos rid0) (map fst (tr_out t1)))
    \<and> events_of all = good_events (topic_log reader registry wlg) (pos rid0) here \<and> pos rid0 \<le> here"
proof -
  let ?L = "topic_log reader registry wlg"
  note s1 = session_exact [OF assms(1-4)]
  have "checkpoint e = \<lparr>tok_key = token_key topic, tok_value = b64encode (item_id i)\<rparr>"
    using s1(2) assms(5) by (simp add: token_ok_def)
  then have "b64decode (tok_value (checkpoint e)) = Some (item_id i)" "tok_value (checkpoint e) \<noteq> []"
    using assms(6,7) b64_roundtrip by simp_all
  note s2 = session_exact [OF assms(8) this assms(9)]
  have "stream_from ?L pos (pos rid0) (map fst done @ i # map fst unsent)" using s1(1) assms(5) by simp
  then have "stream_from ?L pos (pos rid0) ((map fst done @ [i]) @ map fst (tr_out t2))"
    unfolding stream_from_append using s2(1) by (cases i) (simp_all add: end_pos_append)
  then have "stream_from ?L pos (pos rid0) all" using assms(10) by simp
  from stream_events [OF this] stream_events [OF s1(1)] show ?thesis using assms(11) by simp
qed

text \<open>A topic with three events, the second of which does not decode, read in two sessions: the first
  one loses its connection after the first two events.\<close>

definition demo_log :: "wire_event list" where
  "demo_log = [\<lparr>we_replay_id = [1], we_schema_id = [], we_payload = [9]\<rparr>,
     \<lparr>we_replay_id = [2], we_schema_id = [], we_payload = []\<rparr>,
     \<lparr>we_replay_id = [3], we_schema_id = [], we_payload = [9]\<rparr>]"

definition demo_reader :: "unit \<Rightarrow> bytes \<Rightarrow> payload option" where
  "demo_reader u bs = (if bs = [] then None else Some [])"

definition demo_env :: pubsub_env where
  "demo_env = \<lparr>pe_fnmatch = (=), pe_sha256 = (\<lambda>_. []), pe_dumps = (\<lambda>_. []), pe_fromiso = (\<lambda>_. None), pe_strp = (\<lambda>_. None),
     pe_mapping = (\<lambda>_. None), pe_transforms = [], pe_sm_fields = []\<rparr>"

definition demo_cfg :: pubsub_config where
  "demo_cfg = \<lparr>cfg_topics = [''t''], cfg_include = [''t''], cfg_exclude = [], replay_preset = CUSTOM, cfg_sample = [],
     reconnect_backoff = 1, max_backoff = 30, bridge_max_bytes = 0, owned_categories = []\<rparr>"

definition demo_response :: "wire_event list \<Rightarrow> unit wire" where
  "demo_response es = Response \<lparr>fr_events = es, fr_latest_replay_id = [], fr_pending_num_requested = 9\<rparr> (\<lambda>_. SchemaParsed ()) WriteOk"

definition demo_conn :: "wire_event list \<Rightarrow> unit connection" where
  "demo_conn es = (None, [demo_response es, CallFailed OtherCode []], new_client)"

definition demo_round :: "string \<Rightarrow> bytes list \<Rightarrow> round" where
  "demo_round tok ids = \<lparr>rd_stop = False, rd_load = Some (Some tok), rd_items = map (\<lambda>r. (DecodedEvent r [], 0, False)) ids,
     rd_end = Some (AioRpcError OtherCode []), rd_stop_end = False, rd_rand = 0, rd_stop_pause = True\<rparr>"

lemmas demo_defs = demo_log_def demo_reader_def demo_env_def demo_cfg_def demo_response_def demo_conn_def demo_round_def

lemmas run_eval = topic_pass_def connects_def request_of_def positioned_def load_position_def new_topic_run_def
  pause_def double_backoff_def reset_backoff_def jitter_def enqueue_def on_stream_error_def is_invalid_argument_def
  shape_event_def should_keep_def sample_rate_def to_log_entry_def route_fields_def event_timestamp_def
  extract_timestamp_checked_def pget_def

lemmas wire_eval = client_connect_def client_serves_def subscribe_def keepalive_of_def get_parsed_schema_def
  note_schema_fetch_success_def note_decode_batch_def handle_rpc_error_def put_health_def health_of_def
  ids_ok_def fetches_def cache_ok_def new_client_def

lemma demo_b64: "b64decode ''AA=='' = Some [0]" "b64decode ''AQ=='' = Some [1]"
  by (simp_all add: b64decode_def b64_index_def Let_def)

lemma demo_conn_yields:
  "client_connect demo_reader ''t'' 10 req (demo_conn (take 2 demo_log)) = ([DecodedEvent [1] []], Some (AioRpcError OtherCode []))"
  "client_connect demo_reader ''t'' 10 req (demo_conn (drop 1 demo_log)) = ([DecodedEvent [3] []], Some (AioRpcError OtherCode []))"
  by (simp_all add: wire_eval demo_defs Let_def split: prod.split)

lemma demo_conn_serves:
  "client_serves demo_log hd (\<lambda>_. ()) 0 (demo_conn (take 2 demo_log))"
  "client_serves demo_log hd (\<lambda>_. ()) 1 (demo_conn (drop 1 demo_log))"
  by (simp_all add: wire_eval demo_defs)

abbreviation demo_run :: "string \<Rightarrow> bytes list \<Rightarrow> topic_run" where
  "demo_run tok ids \<equiv> snd (run_topic demo_env demo_cfg ''t'' [demo_round tok ids] (new_topic_run demo_cfg None))"

definition demo_entry :: "bytes \<Rightarrow> log_entry" where
  "demo_entry r = fst (to_log_entry demo_env 0 ''t'' r [] None)"

lemma demo_shape: "shape_event demo_env demo_cfg 0 ''t'' r [] None = Some (demo_entry r, None)"
  by (simp add: shape_event_def demo_entry_def should_keep_def sample_rate_def demo_env_def demo_cfg_def
      to_log_entry_def event_timestamp_def extract_timestamp_checked_def pget_def route_fields_def)

lemma demo_token: "tok_value (checkpoint (demo_entry r)) = b64encode r"
  by (simp add: demo_entry_def to_log_entry_def split: prod.split)

lemma demo_pass:
  assumes "b64decode tok = Some [p]" "tok \<noteq> []"
  shows "request_of demo_cfg (demo_round tok ids) (new_topic_run demo_cfg None) = (CUSTOM, [p])"
    "\<exists>t1. topic_pass demo_env demo_cfg ''t'' (demo_round tok [r]) (new_topic_run demo_cfg None) = (True, t1)
       \<and> tr_out t1 = [(DecodedEvent r [], demo_entry r)] \<and> tr_fallbacks t1 = 0 \<and> tr_loaded t1
       \<and> tr_preset t1 = CUSTOM \<and> tr_replay_id t1 = r"
  using assms
  by (simp_all add: request_of_def positioned_def topic_pass_def load_position_def new_topic_run_def demo_round_def
      Let_def demo_shape is_invalid_argument_def reset_backoff_def on_stream_error_def pause_def enqueue_def)

lemma demo_round_items:
  "rd_items (demo_round tok ids) = map (\<lambda>r. (DecodedEvent r [], 0, False)) ids"
  "rd_end (demo_round tok ids) = Some (AioRpcError OtherCode [])" "rd_load (demo_round tok ids) = Some (Some tok)"
  by (simp_all add: demo_round_def)

lemma demo_session:
  assumes "b64decode tok = Some [p]" "tok \<noteq> []"
    and "\<And>req. client_connect demo_reader ''t'' 10 req (demo_conn es) = ([DecodedEvent r []], Some (AioRpcError OtherCode []))"
    and "client_serves demo_log hd (\<lambda>_. ()) p (demo_conn es)"
  shows "session demo_reader (\<lambda>_. ()) demo_log hd 10 demo_env demo_cfg ''t'' (Some tok) [(demo_round tok [r], 0, demo_conn es)]
      (demo_run tok [r])"
    "tr_out (demo_run tok [r]) = [(DecodedEvent r [], demo_entry r)]" "tr_fallbacks (demo_run tok [r]) = 0"
    "tr_loaded (demo_run tok [r])" "tr_preset (demo_run tok [r]) = CUSTOM" "tr_replay_id (demo_run tok [r]) = r"
proof -
  from demo_pass(2) [OF assms(1,2)] obtain t1 where
    t1: "topic_pass demo_env demo_cfg ''t'' (demo_round tok [r]) (new_topic_run demo_cfg None) = (True, t1)"
      "tr_out t1 = [(DecodedEvent r [], demo_entry r)]" "tr_fallbacks t1 = 0" "tr_loaded t1" "tr_preset t1 = CUSTOM"
      "tr_replay_id t1 = r" by blast
  then show "tr_out (demo_run tok [r]) = [(DecodedEvent r [], demo_entry r)]" "tr_fallbacks (demo_run tok [r]) = 0"
    "tr_loaded (demo_run tok [r])" "tr_preset (demo_run tok [r]) = CUSTOM" "tr_replay_id (demo_run tok [r]) = r"
    by simp_all
  show "session demo_reader (\<lambda>_. ()) demo_log hd 10 demo_env demo_cfg ''t'' (Some tok) [(demo_round tok [r], 0, demo_conn es)]
      (demo_run tok [r])"
    using demo_pass(1) [OF assms(1,2), of "[r]"] t1(1) assms(3,4) by (simp add: session_def demo_round_items)
qed

lemmas demo_first = demo_session [OF demo_b64(1) _ demo_conn_yields(1) demo_conn_serves(1), simplified]
lemmas demo_second = demo_session [OF demo_b64(2) _ demo_conn_yields(2) demo_conn_serves(2), simplified]

theorem pubsub_resume_exact_witness:
  "events_of (map fst ([] @ (DecodedEvent [1] [], demo_entry [1]) # tr_out (demo_run ''AQ=='' [[3]])))
     = good_events (topic_log demo_reader (\<lambda>_. ()) demo_log) 0 3"
proof -
  have tok: "tok_value (checkpoint (demo_entry [1])) = ''AQ==''"
    by (simp add: demo_token b64_char_def b64_code_def char_of_def bit_0)
  show ?thesis
    using pubsub_resume_exact [of demo_reader "\<lambda>_. ()" demo_log hd 10 demo_env demo_cfg "''t''" "''AA==''"
        "[(demo_round ''AA=='' [[1]], 0, demo_conn (take 2 demo_log))]" "demo_run ''AA=='' [[1]]" "[0]" "[]"
        "DecodedEvent [1] []" "demo_entry [1]" "[]"
        "[(demo_round ''AQ=='' [[3]], 0, demo_conn (drop 1 demo_log))]" "demo_run ''AQ=='' [[3]]", OF _ _ _ _ _ _ _ _ _ refl refl]
      demo_first demo_second demo_b64 tok
    by simp
qed

text \<open>
  Rejected replay ids. Whatever the stored token was and however often the position was given up, an
  event that decodes, lies behind the stored token and behind every position at which a subscription
  without a replay id started (so it was still retained then), and lies before where the topic now
  stands, has been queued: falling back to the oldest event loses nothing that the server still has.
\<close>

theorem fallback_keeps_retained:
  assumes "session reader registry wlg pos n E cfg topic stored rs t'"
    and "stored_start pos {..k} stored" "list_all (\<lambda>(_, base, _). base \<le> k) rs"
    and "tr_loaded t'" "tr_preset t' = CUSTOM" "k < pos (tr_replay_id t')"
    and "k < length wlg" "topic_log reader registry wlg ! k = (rid, Some x)"
  shows "(rid, x) \<in> set (events_of (map fst (tr_out t')))"
proof -
  let ?L = "topic_log reader registry wlg"
  obtain en where r: "run_topic E cfg topic (map fst rs) (new_topic_run cfg None) = (en, t')"
    using assms(1) unfolding session_def by (metis prod.collapse)
  have "segment_inv ?L pos {..k} t'"
    using assms(1-3)
    by (intro pubsub.run_topic_segment [OF r, where stored = stored])
      (auto simp: session_def segment_inv_def new_topic_run_def)
  then obtain pre seg s where g: "tr_out t' = pre @ seg" "s \<le> k" "stream_from ?L pos s (map fst seg)"
    "end_pos pos s (map fst seg) = pos (tr_replay_id t')"
    using assms(4,5) by (auto simp: segment_inv_def in_segment_def)
  from stream_events [OF g(3)] have "events_of (map fst seg) = good_events ?L s (pos (tr_replay_id t'))"
    using g(4) by simp
  also have "\<dots> = good_events ?L s k @ good_events ?L k (Suc k) @ good_events ?L (Suc k) (pos (tr_replay_id t'))"
    using g(2) assms(6) good_events_split [of s k "pos (tr_replay_id t')" ?L]
      good_events_split [of k "Suc k" "pos (tr_replay_id t')" ?L] by simp
  finally have "(rid, x) \<in> set (events_of (map fst seg))"
    using good_events_one [of k ?L rid x] assms(7,8) by (simp add: topic_log_nth)
  moreover have "events_of (xs @ ys) = events_of xs @ events_of ys" for xs ys :: "payload stream_item list"
    by (induction xs rule: events_of.induct) auto
  ultimately show ?thesis using g(1) by simp
qed

theorem fallback_keeps_retained_witness:
  "([1], []) \<in> set (events_of (map fst (tr_out (demo_run ''AA=='' [[1]]))))"
  using fallback_keeps_retained [of demo_reader "\<lambda>_. ()" demo_log hd 10 demo_env demo_cfg "''t''" "Some ''AA==''"
      "[(demo_round ''AA=='' [[1]], 0, demo_conn (take 2 demo_log))]" "demo_run ''AA=='' [[1]]" 0 "[1]" "[]"]
    demo_first demo_b64
  by (simp add: stored_start_def topic_log_def demo_log_def demo_reader_def)

subsection \<open>Pauses\<close>

definition backoff_ok :: "pubsub_config \<Rightarrow> topic_run \<Rightarrow> bool" where
  "backoff_ok cfg t \<longleftrightarrow> reconnect_backoff cfg \<le> tr_backoff t \<and> tr_backoff t \<le> max_backoff cfg
     \<and> list_all (\<lambda>d. reconnect_backoff cfg \<le> d \<and> d \<le> max_backoff cfg * 3 / 2) (tr_pauses t)"

lemma on_items_backoff:
  assumes "on_items E cfg topic is t = (ie, t')"
  shows "(tr_backoff t' = tr_backoff t \<or> tr_backoff t' = reconnect_backoff cfg) \<and> tr_pauses t' = tr_pauses t"
  using assms
proof (induction "is" arbitrary: t)
  case (Cons i js)
  then show ?case
    by (cases i)
      (auto simp: Let_def reset_backoff_def split: if_splits stream_item.splits option.splits prod.splits dest!: Cons.IH)
qed simp

lemma backoff_ok_items:
  "on_items E cfg topic is t = (ie, t') \<Longrightarrow> backoff_ok cfg t \<Longrightarrow> reconnect_backoff cfg \<le> max_backoff cfg \<Longrightarrow> backoff_ok cfg t'"
  using on_items_backoff [of E cfg topic "is" t ie t'] by (auto simp: backoff_ok_def)

lemma backoff_ok_pause:
  assumes "backoff_ok cfg t" "0 \<le> reconnect_backoff cfg" "0 \<le> u" "u \<le> 1"
  shows "backoff_ok cfg (pause cfg u t)" "backoff_ok cfg (double_backoff cfg (pause cfg u t))"
proof -
  have b: "reconnect_backoff cfg \<le> tr_backoff t" "tr_backoff t \<le> max_backoff cfg" using assms(1) by (simp_all add: backoff_ok_def)
  with assms(2) have nn: "0 \<le> tr_backoff t" by linarith
  then have "0 \<le> jitter u (tr_backoff t)" "jitter u (tr_backoff t) \<le> tr_backoff t / 2"
    using assms(3,4) mult_right_mono [of u 1 "tr_backoff t / 2"] by (simp_all add: jitter_def)
  then have "reconnect_backoff cfg \<le> tr_backoff t + jitter u (tr_backoff t)"
    "tr_backoff t + jitter u (tr_backoff t) \<le> max_backoff cfg * 3 / 2"
    using b by linarith+
  with assms(1) show p: "backoff_ok cfg (pause cfg u t)" by (auto simp: backoff_ok_def pause_def)
  from b nn have "reconnect_backoff cfg \<le> min (tr_backoff t * 2) (max_backoff cfg)" by simp
  with p show "backoff_ok cfg (double_backoff cfg (pause cfg u t))" by (simp add: backoff_ok_def double_backoff_def)
qed

lemma backoff_ok_frames:
  "backoff_ok cfg t \<Longrightarrow> reconnect_backoff cfg \<le> max_backoff cfg \<Longrightarrow> backoff_ok cfg (reset_backoff cfg t)"
  "backoff_ok cfg (on_stream_error x t) = backoff_ok cfg t"
  "backoff_ok cfg (positioned cfg r t) = backoff_ok cfg t"
  "backoff_ok cfg (t\<lparr>tr_attempt := a, tr_requests := q\<rparr>) = backoff_ok cfg t"
  by (simp_all add: backoff_ok_def reset_backoff_def positioned_def)

lemma topic_pass_backoff:
  assumes "topic_pass E cfg topic r t = (b, t')" "backoff_ok cfg t" "0 \<le> rd_rand r" "rd_rand r \<le> 1"
    and cfg: "0 \<le> reconnect_backoff cfg" "reconnect_backoff cfg \<le> max_backoff cfg"
  shows "backoff_ok cfg t'"
proof (cases "connects r t")
  case False
  with assms(1) show ?thesis
    using backoff_ok_pause [OF assms(2) cfg(1) assms(3,4)] assms(2)
    by (auto simp: topic_pass_def connects_def Let_def split: if_splits)
next
  case True
  let ?p = "positioned cfg r t"
  obtain ie t3 where o: "on_items E cfg topic (rd_items r)
      (?p\<lparr>tr_attempt := tr_attempt ?p + 1, tr_requests := tr_requests ?p @ [request_of cfg r t]\<rparr>) = (ie, t3)"
    by (metis prod.exhaust)
  have t3: "backoff_ok cfg t3"
    using backoff_ok_items [OF o _ cfg(2)] assms(2) by (simp add: backoff_ok_frames)
  have p: "backoff_ok cfg (pause cfg (rd_rand r) u)" "backoff_ok cfg (double_backoff cfg (pause cfg (rd_rand r) u))"
    if "backoff_ok cfg u" for u
    using backoff_ok_pause [OF that cfg(1) assms(3,4)] .
  from assms(1) True o [unfolded request_of_def positioned_def] show ?thesis
    using t3 p cfg(2) backoff_ok_frames(1,2)
    by (auto simp: topic_pass_def connects_def positioned_def Let_def split: items_end.splits option.splits if_splits)
qed

text \<open>
  The pauses of a topic between connections, and between attempts to read its token: however the
  connections end, each is at least the base delay and at most one and a half times the maximum.
\<close>

theorem topic_pauses_bounded:
  assumes "run_topic E cfg topic rs (new_topic_run cfg lg) = (en, t')" "list_all (\<lambda>r. 0 \<le> rd_rand r \<and> rd_rand r \<le> 1) rs"
    and "0 \<le> reconnect_backoff cfg" "reconnect_backoff cfg \<le> max_backoff cfg" "d \<in> set (tr_pauses t')"
  shows "reconnect_backoff cfg \<le> d \<and> d \<le> max_backoff cfg * 3 / 2"
proof -
  have "backoff_ok cfg t'" if "run_topic E cfg topic rs t = (en, t')" "backoff_ok cfg t" for t
    using that assms(2)
  proof (induction rs arbitrary: t)
    case (Cons r rs)
    obtain b t1 where pass: "topic_pass E cfg topic r t = (b, t1)" by (metis prod.exhaust)
    from Cons.prems(3) have "backoff_ok cfg t1"
      using topic_pass_backoff [OF pass Cons.prems(2) _ _ assms(3,4)] by simp
    with Cons pass show ?case by (cases b) auto
  qed simp
  from this [OF assms(1)] have "backoff_ok cfg t'" using assms(4) by (simp add: backoff_ok_def new_topic_run_def)
  with assms(5) show ?thesis by (simp add: backoff_ok_def list_all_iff)
qed

theorem topic_pauses_bounded_witness:
  "reconnect_backoff demo_cfg \<le> 1 \<and> (1 :: rat) \<le> max_backoff demo_cfg * 3 / 2"
proof -
  let ?r = "(demo_round ''AA=='' [])\<lparr>rd_load := None\<rparr>"
  have "run_topic demo_env demo_cfg ''t'' [?r] (new_topic_run demo_cfg None)
      = (TopicReturned, (new_topic_run demo_cfg None)\<lparr>tr_pauses := [1]\<rparr>)"
    by (simp add: topic_pass_def demo_round_def new_topic_run_def Let_def pause_def jitter_def demo_cfg_def)
  from topic_pauses_bounded [OF this, of 1] show ?thesis by (simp add: demo_round_def demo_cfg_def)
qed

subsection \<open>Limits\<close>

text \<open>
  A payload on which a transform raises (a replacement that names a group its pattern does not have)
  stops its topic: as long as the connections of a run begin with that event, as they do behind its
  predecessor, nothing is queued and the position does not move, however many connections there are.
\<close>

theorem poison_event_stalls:
  assumes "apply_pipeline (pe_transforms E) p = None" "tr_loaded t"
    and "list_all (\<lambda>r. rd_items r \<noteq> [] \<and> fst (hd (rd_items r)) = DecodedEvent rid p) rs"
    and "run_topic E cfg topic rs t = (en, t')"
  shows "tr_out t' = tr_out t \<and> tr_preset t' = tr_preset t \<and> tr_replay_id t' = tr_replay_id t
    \<and> (list_all (\<lambda>r. \<not> rd_stop r \<and> \<not> snd (snd (hd (rd_items r))) \<and> \<not> rd_stop_end r \<and> \<not> rd_stop_pause r) rs
        \<longrightarrow> en = TopicWaiting)"
  using assms(2-4)
proof (induction rs arbitrary: t)
  case Nil
  then show ?case by simp
next
  case (Cons r rs)
  obtain now st js where it: "rd_items r = (DecodedEvent rid p, now, st) # js"
    using Cons.prems(2) by (cases "rd_items r") auto
  obtain b t1 where pass: "topic_pass E cfg topic r t = (b, t1)" by (metis prod.exhaust)
  have "shape_event E cfg now topic rid p g = None" for g using assms(1) by (simp add: shape_event_def)
  then have one: "same_position t t1"
    "\<not> rd_stop r \<and> \<not> st \<and> \<not> rd_stop_end r \<and> \<not> rd_stop_pause r \<longrightarrow> \<not> b"
    using pass Cons.prems(1) it
    by (auto simp: topic_pass_def Let_def same_position_def split: if_splits)
  show ?case
  proof (cases b)
    case True
    then show ?thesis using Cons.prems(3) pass one it by (auto simp: same_position_def)
  next
    case False
    with Cons.prems(3) pass have "run_topic E cfg topic rs t1 = (en, t')" by simp
    with Cons.IH [of t1] one Cons.prems(1,2) show ?thesis by (auto simp: same_position_def)
  qed
qed

theorem poison_event_stalls_witness:
  "tr_out (snd (run_topic (demo_env\<lparr>pe_transforms := [\<lambda>_. None]\<rparr>) demo_cfg ''t'' [demo_round ''AA=='' [[1]]]
     ((new_topic_run demo_cfg None)\<lparr>tr_loaded := True\<rparr>))) = []"
  using poison_event_stalls [of "demo_env\<lparr>pe_transforms := [\<lambda>_. None]\<rparr>" "[]" "(new_topic_run demo_cfg None)\<lparr>tr_loaded := True\<rparr>"
      "[1]" "[demo_round ''AA=='' [[1]]]" demo_cfg "''t''", OF _ _ _ surjective_pairing]
  by (simp add: demo_env_def demo_round_def new_topic_run_def)

text \<open>
  A stored token that does not decode, with the default configuration: the topic subscribes at the tip
  of the stream, so that every event between the lost position and now is skipped, although a rejected
  token in the same place falls back to the oldest event.
\<close>

lemma damaged_token_skips_to_tip:
  "rd_load r = Some (Some tok) \<Longrightarrow> tok \<noteq> [] \<Longrightarrow> b64decode tok = None \<Longrightarrow> replay_preset cfg = CUSTOM \<Longrightarrow>
   request_of cfg r (new_topic_run cfg g) = (LATEST, [])"
  by (simp add: request_of_def positioned_def load_position_def new_topic_run_def fallback_preset_def)

end
