(* ===== verification/PubSubBridge.thy ===== *)
theory PubSubBridge
  imports PubSubSource
begin

section \<open>sources/pubsub_source.py: the bridge queue and rediscovery\<close>

text \<open>
  \<^verbatim>\<open>events\<close> of \<^verbatim>\<open>PubSubSource\<close> as a system of steps: the topic tasks and the rediscovery task
  put entries and, when they end, one sentinel each on a bounded queue, under a budget of bytes; the
  generator takes items off until it has seen as many sentinels as tasks were started. What a topic
  task puts is \<open>run_topic\<close>'s business; here it is arbitrary. A task is cut where it waits: for the
  byte budget, for room in the queue, for room for its sentinel.

  Results: the generator ends exactly when every task, late ones included, has ended, and by then it
  has handed on everything that was put, in order; a task that waits is never the last thing that can
  happen; the byte counter is exact; one task is started for each subscribed topic, none is subscribed
  twice, and no discovered topic belongs to another source.
\<close>

definition entry_bytes :: "log_entry option \<Rightarrow> nat" where
  "entry_bytes item =
     (case item of
        None \<Rightarrow> 0
      | Some e \<Rightarrow> if checkpoint_only e then 0 else nbytes e + BRIDGE_ENTRY_OVERHEAD)"

datatype producer = TopicTask string | RediscoverTask

text \<open>\<open>br_putting\<close> holds the entries that are charged and wait for room, \<open>br_ending\<close> the tasks whose
  sentinel waits for room; \<open>br_started\<close> records the tasks ever created, \<open>br_put\<close> and \<open>br_yielded\<close> what
  was put and handed on. \<open>br_subscribed\<close> is the code's set, in the order of addition. Which tasks sleep
  on the byte condition is not part of the state: a charge that failed may be tried again at any
  time, as after \<^verbatim>\<open>notify_all\<close>.\<close>

record bridge =
  br_queue :: "log_entry option list"
  br_bytes :: int
  br_remaining :: nat
  br_subscribed :: "string list"
  br_live :: "producer list"
  br_putting :: "(producer \<times> log_entry) list"
  br_ending :: "producer list"
  br_started :: "producer list"
  br_put :: "log_entry list"
  br_yielded :: "log_entry list"

definition bridge_charge :: "int \<Rightarrow> log_entry option \<Rightarrow> bridge \<Rightarrow> bridge option" where
  "bridge_charge budget item b =
     (if budget \<le> 0 then Some b
      else if entry_bytes item = 0 then Some b
      else if br_bytes b < budget then Some (b\<lparr>br_bytes := br_bytes b + int (entry_bytes item)\<rparr>)
      else None)"

definition bridge_release :: "int \<Rightarrow> log_entry option \<Rightarrow> bridge \<Rightarrow> bridge" where
  "bridge_release budget item b =
     (if budget \<le> 0 then b
      else if entry_bytes item = 0 then b
      else b\<lparr>br_bytes := br_bytes b - int (entry_bytes item)\<rparr>)"

definition has_room :: "nat \<Rightarrow> bridge \<Rightarrow> bool" where
  "has_room maxsize b \<longleftrightarrow> maxsize = 0 \<or> length (br_queue b) < maxsize"

definition spawn_topic :: "string \<Rightarrow> bridge \<Rightarrow> bridge" where
  "spawn_topic topic b = b\<lparr>br_remaining := br_remaining b + 1, br_live := br_live b @ [TopicTask topic],
     br_started := br_started b @ [TopicTask topic]\<rparr>"

text \<open>The start of \<^verbatim>\<open>events\<close> with the topics resolved; \<open>rediscover\<close> tells whether the rediscovery
  interval is positive. Without either there is nothing to do and \<^verbatim>\<open>events\<close> returns at once.\<close>

definition start_events :: "string list \<Rightarrow> bool \<Rightarrow> bridge" where
  "start_events topics rediscover =
     (let b = fold spawn_topic topics
                \<lparr>br_queue = [], br_bytes = 0, br_remaining = 0, br_subscribed = topics, br_live = [], br_putting = [],
                 br_ending = [], br_started = [], br_put = [], br_yielded = []\<rparr>
      in if rediscover
         then b\<lparr>br_remaining := br_remaining b + 1, br_live := br_live b @ [RediscoverTask],
                br_started := br_started b @ [RediscoverTask]\<rparr>
         else b)"

text \<open>One pass of \<^verbatim>\<open>_rediscover_loop\<close> over what discovery returned; \<open>k\<close> additions are handled before
  the stop event is found set.\<close>

definition add_topic :: "string \<Rightarrow> bridge \<Rightarrow> bridge" where
  "add_topic topic b = spawn_topic topic (b\<lparr>br_subscribed := br_subscribed b @ [topic]\<rparr>)"

definition rediscover_pass ::
  "(string \<Rightarrow> string \<Rightarrow> bool) \<Rightarrow> pubsub_config \<Rightarrow> string list \<Rightarrow> nat \<Rightarrow> bridge \<Rightarrow> bridge" where
  "rediscover_pass fnm cfg discovered k b =
     (if discovered = [] then b
      else fold add_topic (take k (discovered_additions fnm cfg discovered (br_subscribed b))) b)"

text \<open>\<^verbatim>\<open>_put_sentinel\<close> of a task that is not being cancelled.\<close>

definition put_sentinel :: "nat \<Rightarrow> producer \<Rightarrow> bridge \<Rightarrow> bridge" where
  "put_sentinel maxsize p b =
     (if has_room maxsize b then b\<lparr>br_queue := br_queue b @ [None]\<rparr> else b\<lparr>br_ending := p # br_ending b\<rparr>)"

text \<open>The generator takes one item.\<close>

definition take_item :: "int \<Rightarrow> bridge \<Rightarrow> bridge" where
  "take_item budget b =
     (case br_queue b of
        [] \<Rightarrow> b
      | None # q \<Rightarrow> b\<lparr>br_queue := q, br_remaining := br_remaining b - 1\<rparr>
      | Some e # q \<Rightarrow> (bridge_release budget (Some e) (b\<lparr>br_queue := q\<rparr>))\<lparr>br_yielded := br_yielded b @ [e]\<rparr>)"

inductive bridge_step :: "(string \<Rightarrow> string \<Rightarrow> bool) \<Rightarrow> pubsub_config \<Rightarrow> nat \<Rightarrow> bridge \<Rightarrow> bridge \<Rightarrow> bool"
  for fnm :: "string \<Rightarrow> string \<Rightarrow> bool" and cfg :: pubsub_config and maxsize :: nat where
  charge: "p = TopicTask t \<Longrightarrow> p \<in> set (br_live b) \<Longrightarrow> list_all (\<lambda>x. fst x \<noteq> p) (br_putting b) \<Longrightarrow> bridge_charge (bridge_max_bytes cfg) (Some e) b = Some b1 \<Longrightarrow>
    bridge_step fnm cfg maxsize b (b1\<lparr>br_putting := (p, e) # br_putting b1\<rparr>)"
| put: "br_putting b = us @ (p, e) # vs \<Longrightarrow> has_room maxsize b \<Longrightarrow>
    bridge_step fnm cfg maxsize b
      (b\<lparr>br_putting := us @ vs, br_queue := br_queue b @ [Some e], br_put := br_put b @ [e]\<rparr>)"
| finish: "br_live b = us @ p # vs \<Longrightarrow> list_all (\<lambda>x. fst x \<noteq> p) (br_putting b) \<Longrightarrow>
    bridge_step fnm cfg maxsize b (put_sentinel maxsize p (b\<lparr>br_live := us @ vs\<rparr>))"
| sentinel: "br_ending b = us @ p # vs \<Longrightarrow> has_room maxsize b \<Longrightarrow>
    bridge_step fnm cfg maxsize b (b\<lparr>br_ending := us @ vs, br_queue := br_queue b @ [None]\<rparr>)"
| rediscover: "RediscoverTask \<in> set (br_live b) \<Longrightarrow>
    bridge_step fnm cfg maxsize b (rediscover_pass fnm cfg discovered k b)"
| get: "0 < br_remaining b \<Longrightarrow> br_queue b \<noteq> [] \<Longrightarrow>
    bridge_step fnm cfg maxsize b (take_item (bridge_max_bytes cfg) b)"

abbreviation bridge_reach where
  "bridge_reach fnm cfg maxsize \<equiv> (bridge_step fnm cfg maxsize)\<^sup>*\<^sup>*"

subsection \<open>The invariant\<close>

definition queued_entries :: "log_entry option list \<Rightarrow> log_entry list" where
  "queued_entries q = map the (filter (\<lambda>x. x \<noteq> None) q)"

definition sentinels :: "log_entry option list \<Rightarrow> nat" where
  "sentinels q = length (filter (\<lambda>x. x = None) q)"

definition held_bytes :: "bridge \<Rightarrow> nat" where
  "held_bytes b = sum_list (map entry_bytes (br_queue b)) + sum_list (map (\<lambda>(_, e). entry_bytes (Some e)) (br_putting b))"

definition counts_ok :: "bridge \<Rightarrow> bool" where
  "counts_ok b \<longleftrightarrow> br_remaining b = length (br_live b) + length (br_ending b) + sentinels (br_queue b)
     \<and> br_put b = br_yielded b @ queued_entries (br_queue b)
     \<and> (br_queue b \<noteq> [] \<and> last (br_queue b) \<noteq> None \<longrightarrow> br_live b \<noteq> [] \<or> br_ending b \<noteq> [])
     \<and> list_all (\<lambda>x. fst x \<in> set (br_live b)) (br_putting b)"

definition bytes_ok :: "int \<Rightarrow> bridge \<Rightarrow> bool" where
  "bytes_ok budget b \<longleftrightarrow> (0 < budget \<longrightarrow> br_bytes b = int (held_bytes b))"

lemma queue_simps [simp]:
  "queued_entries [] = []" "queued_entries (None # q) = queued_entries q" "queued_entries (Some e # q) = e # queued_entries q"
  "queued_entries (q @ r) = queued_entries q @ queued_entries r"
  "sentinels [] = 0" "sentinels (None # q) = Suc (sentinels q)" "sentinels (Some e # q) = sentinels q"
  "sentinels (q @ r) = sentinels q + sentinels r"
  by (simp_all add: queued_entries_def sentinels_def)

lemma spawn_topics:
  "fold spawn_topic ts b = b\<lparr>br_remaining := br_remaining b + length ts, br_live := br_live b @ map TopicTask ts,
     br_started := br_started b @ map TopicTask ts\<rparr>"
  by (induction ts arbitrary: b) (simp_all add: spawn_topic_def)

lemma add_topics:
  "fold add_topic ts b = b\<lparr>br_remaining := br_remaining b + length ts, br_live := br_live b @ map TopicTask ts,
     br_started := br_started b @ map TopicTask ts, br_subscribed := br_subscribed b @ ts\<rparr>"
  by (induction ts arbitrary: b) (simp_all add: add_topic_def spawn_topic_def)

lemma bridge_charge_frame:
  "bridge_charge budget item b = Some b1 \<Longrightarrow>
   \<exists>n. b1 = b\<lparr>br_bytes := n\<rparr> \<and> (0 < budget \<longrightarrow> n = br_bytes b + int (entry_bytes item))"
  by (cases b) (auto simp: bridge_charge_def split: if_splits)

lemma bridge_release_frame:
  "\<exists>n. bridge_release budget item b = b\<lparr>br_bytes := n\<rparr> \<and> (0 < budget \<longrightarrow> n = br_bytes b - int (entry_bytes item))"
  by (cases b) (auto simp: bridge_release_def)

lemma counts_ok_bytes [simp]: "counts_ok (b\<lparr>br_bytes := n\<rparr>) = counts_ok b"
  by (simp add: counts_ok_def)

lemma counts_ok_step:
  assumes "bridge_step fnm cfg maxsize b b'" "counts_ok b"
  shows "counts_ok b'"
  using assms
proof (cases rule: bridge_step.cases)
  case (charge p t e b1)
  from bridge_charge_frame [OF charge(5)] obtain n where "b1 = b\<lparr>br_bytes := n\<rparr>" by blast
  with charge assms(2) show ?thesis by (simp add: counts_ok_def)
next
  case (put us p e vs)
  with assms(2) have "br_live b \<noteq> []" by (auto simp: counts_ok_def)
  with put assms(2) show ?thesis by (simp add: counts_ok_def)
next
  case (finish us p vs)
  then have "list_all (\<lambda>x. fst x \<in> set (us @ vs)) (br_putting b)"
    using assms(2) by (auto simp: counts_ok_def list_all_iff)
  with finish assms(2) show ?thesis by (simp add: counts_ok_def put_sentinel_def)
next
  case (sentinel us p vs)
  with assms(2) show ?thesis by (simp add: counts_ok_def)
next
  case (rediscover discovered k)
  have "counts_ok (fold add_topic ts b)" for ts
  proof -
    have "list_all (\<lambda>x. fst x \<in> set (br_live b @ map TopicTask ts)) (br_putting b)"
      using assms(2) by (auto simp: counts_ok_def list_all_iff)
    then show ?thesis using assms(2) by (simp add: counts_ok_def add_topics)
  qed
  with rediscover assms(2) show ?thesis by (simp add: rediscover_pass_def)
next
  case get
  then obtain x q where q: "br_queue b = x # q" by (auto simp: neq_Nil_conv)
  show ?thesis
  proof (cases x)
    case None
    with get q assms(2) show ?thesis by (auto simp: counts_ok_def take_item_def split: if_splits)
  next
    case (Some e)
    from bridge_release_frame [of "bridge_max_bytes cfg" "Some e" "b\<lparr>br_queue := q\<rparr>"] obtain n
      where "bridge_release (bridge_max_bytes cfg) (Some e) (b\<lparr>br_queue := q\<rparr>) = b\<lparr>br_queue := q, br_bytes := n\<rparr>" by auto
    with get q Some assms(2) show ?thesis by (auto simp: counts_ok_def take_item_def split: if_splits)
  qed
qed

lemma bytes_ok_step:
  assumes "bridge_step fnm cfg maxsize b b'" "bytes_ok (bridge_max_bytes cfg) b"
  shows "bytes_ok (bridge_max_bytes cfg) b'"
  using assms
proof (cases rule: bridge_step.cases)
  case (charge p t e b1)
  from bridge_charge_frame [OF charge(5)] obtain n where
    "b1 = b\<lparr>br_bytes := n\<rparr>" "0 < bridge_max_bytes cfg \<longrightarrow> n = br_bytes b + int (entry_bytes (Some e))" by blast
  with charge assms(2) show ?thesis by (simp add: bytes_ok_def held_bytes_def)
next
  case get
  then obtain x q where q: "br_queue b = x # q" by (auto simp: neq_Nil_conv)
  show ?thesis
  proof (cases x)
    case None
    with get q assms(2) show ?thesis by (simp add: bytes_ok_def held_bytes_def take_item_def entry_bytes_def)
  next
    case (Some e)
    from bridge_release_frame [of "bridge_max_bytes cfg" "Some e" "b\<lparr>br_queue := q\<rparr>"] obtain n
      where "bridge_release (bridge_max_bytes cfg) (Some e) (b\<lparr>br_queue := q\<rparr>) = b\<lparr>br_queue := q, br_bytes := n\<rparr>"
        "0 < bridge_max_bytes cfg \<longrightarrow> n = br_bytes b - int (entry_bytes (Some e))" by auto
    with get q Some assms(2) show ?thesis by (auto simp: bytes_ok_def held_bytes_def take_item_def)
  qed
qed (auto simp: bytes_ok_def held_bytes_def put_sentinel_def rediscover_pass_def add_topics entry_bytes_def)

subsection \<open>Subscriptions\<close>

definition admitted :: "(string \<Rightarrow> string \<Rightarrow> bool) \<Rightarrow> pubsub_config \<Rightarrow> string \<Rightarrow> bool" where
  "admitted fnm cfg t \<longleftrightarrow> t \<noteq> TOPIC_WILDCARD \<and> list_ex (fnm t) (cfg_include cfg) \<and> \<not> list_ex (fnm t) (cfg_exclude cfg)"

lemma filter_from_sound:
  "distinct (filter_from fnm cfg seen ts) \<and> set (filter_from fnm cfg seen ts) = {t \<in> set ts. admitted fnm cfg t} - set seen"
  by (induction fnm cfg seen ts rule: filter_from.induct) (auto simp: admitted_def)

lemma filter_topics_sound:
  "distinct (filter_topics fnm cfg ts)" "set (filter_topics fnm cfg ts) = {t \<in> set ts. admitted fnm cfg t}"
  using filter_from_sound [of fnm cfg "[]" ts] by (simp_all add: filter_topics_def)

definition subscribable :: "(string \<Rightarrow> string \<Rightarrow> bool) \<Rightarrow> pubsub_config \<Rightarrow> string \<Rightarrow> bool" where
  "subscribable fnm cfg t \<longleftrightarrow> admitted fnm cfg t
     \<and> (t \<in> set (cfg_topics cfg) \<or> category_of_pubsub t \<notin> set (owned_categories cfg))"

lemma discovered_additions_sound:
  "distinct (discovered_additions fnm cfg ds have)"
  "set (discovered_additions fnm cfg ds have) =
     {t \<in> set ds. admitted fnm cfg t \<and> t \<notin> set have \<and> category_of_pubsub t \<notin> set (owned_categories cfg)}"
  using filter_topics_sound [of fnm cfg ds] by (auto simp: discovered_additions_def filter_owned_def)

text \<open>The tasks of topics among those ever started, and the tasks that have not ended.\<close>

definition topic_tasks :: "bridge \<Rightarrow> producer list" where
  "topic_tasks b = filter (\<lambda>p. p \<noteq> RediscoverTask) (br_started b)"

definition unfinished :: "bridge \<Rightarrow> producer list" where
  "unfinished b = br_live b @ br_ending b"

definition subscribed_ok :: "(string \<Rightarrow> string \<Rightarrow> bool) \<Rightarrow> pubsub_config \<Rightarrow> bridge \<Rightarrow> bool" where
  "subscribed_ok fnm cfg b \<longleftrightarrow> distinct (br_subscribed b) \<and> list_all (subscribable fnm cfg) (br_subscribed b)
     \<and> topic_tasks b = map TopicTask (br_subscribed b)
     \<and> distinct (unfinished b) \<and> set (unfinished b) \<subseteq> set (br_started b)"

lemma subscribed_ok_mono:
  "subscribed_ok fnm cfg b \<Longrightarrow> br_subscribed b' = br_subscribed b \<Longrightarrow> br_started b' = br_started b \<Longrightarrow>
   distinct (unfinished b') \<Longrightarrow> set (unfinished b') \<subseteq> set (unfinished b) \<Longrightarrow> subscribed_ok fnm cfg b'"
  by (auto simp: subscribed_ok_def topic_tasks_def)

lemma subscribed_ok_distinct: "subscribed_ok fnm cfg b \<Longrightarrow> distinct (br_live b @ br_ending b)"
  by (simp add: subscribed_ok_def unfinished_def)

lemma started_topic:
  assumes "subscribed_ok fnm cfg b" "TopicTask t \<in> set (br_started b)"
  shows "t \<in> set (br_subscribed b)"
proof -
  have "TopicTask t \<in> set (topic_tasks b)" using assms(2) by (simp add: topic_tasks_def)
  then show ?thesis using assms(1) by (auto simp: subscribed_ok_def)
qed

lemma subscribed_ok_add:
  assumes "subscribed_ok fnm cfg b"
  shows "subscribed_ok fnm cfg (fold add_topic (take k (discovered_additions fnm cfg ds (br_subscribed b))) b)"
proof -
  let ?ts = "take k (discovered_additions fnm cfg ds (br_subscribed b))"
  have ts: "distinct ?ts" "set ?ts \<subseteq> set (discovered_additions fnm cfg ds (br_subscribed b))"
    using discovered_additions_sound(1) by (simp_all add: set_take_subset)
  then have new: "\<forall>t \<in> set ?ts. subscribable fnm cfg t \<and> t \<notin> set (br_subscribed b)"
    by (auto simp: discovered_additions_sound(2) subscribable_def)
  have "distinct (map TopicTask ?ts)" using ts(1) by (simp add: distinct_map inj_on_def)
  moreover have "set (br_started b) \<inter> TopicTask ` set ?ts = {}"
    using started_topic [OF assms] new by blast
  moreover have "unfinished (fold add_topic ?ts b) = br_live b @ map TopicTask ?ts @ br_ending b"
    by (simp add: unfinished_def add_topics)
  moreover have "topic_tasks (fold add_topic ?ts b) = topic_tasks b @ map TopicTask ?ts"
    by (simp add: topic_tasks_def add_topics filter_map o_def)
  ultimately show ?thesis
    using assms ts(1) new by (auto simp: subscribed_ok_def unfinished_def add_topics list_all_iff)
qed

lemma subscribed_ok_step:
  assumes "bridge_step fnm cfg maxsize b b'" "subscribed_ok fnm cfg b"
  shows "subscribed_ok fnm cfg b'"
  using assms
proof (cases rule: bridge_step.cases)
  case (charge p t e b1)
  then show ?thesis
    using bridge_charge_frame [OF charge(5)] subscribed_ok_distinct [OF assms(2)]
    by (auto simp: unfinished_def intro!: subscribed_ok_mono [OF assms(2)])
next
  case (rediscover discovered k)
  then show ?thesis using assms(2) subscribed_ok_add by (simp add: rediscover_pass_def)
next
  case get
  then have "br_subscribed b' = br_subscribed b \<and> br_started b' = br_started b \<and> unfinished b' = unfinished b"
    by (auto simp: take_item_def bridge_release_def unfinished_def split: list.splits option.splits)
  then show ?thesis
    using subscribed_ok_distinct [OF assms(2)] by (auto simp: unfinished_def intro!: subscribed_ok_mono [OF assms(2)])
qed (use subscribed_ok_distinct [OF assms(2)] in
    \<open>auto simp: unfinished_def put_sentinel_def intro!: subscribed_ok_mono [OF assms(2)]\<close>)

subsection \<open>Results\<close>

definition bridge_inv :: "(string \<Rightarrow> string \<Rightarrow> bool) \<Rightarrow> pubsub_config \<Rightarrow> bridge \<Rightarrow> bool" where
  "bridge_inv fnm cfg b \<longleftrightarrow> counts_ok b \<and> bytes_ok (bridge_max_bytes cfg) b \<and> subscribed_ok fnm cfg b"

lemma resolve_topics_sound:
  "distinct (resolve_topics fnm cfg ds)" "list_all (subscribable fnm cfg) (resolve_topics fnm cfg ds)"
proof -
  show "distinct (resolve_topics fnm cfg ds)" by (simp add: resolve_topics_def Let_def filter_topics_sound)
  show "list_all (subscribable fnm cfg) (resolve_topics fnm cfg ds)"
    by (auto simp: resolve_topics_def Let_def list_all_iff filter_topics_sound discovered_additions_sound subscribable_def
        split: option.splits if_splits)
qed

lemma bridge_inv_start: "bridge_inv fnm cfg (start_events (resolve_topics fnm cfg ds) red)"
proof -
  have "distinct (map TopicTask (resolve_topics fnm cfg ds))"
    using resolve_topics_sound(1) [of fnm cfg ds] by (simp add: distinct_map inj_on_def)
  then show ?thesis
    using resolve_topics_sound [of fnm cfg ds]
    by (auto simp: bridge_inv_def counts_ok_def bytes_ok_def subscribed_ok_def topic_tasks_def unfinished_def
        start_events_def spawn_topics held_bytes_def filter_map o_def Let_def)
qed

lemma bridge_inv_reach:
  assumes "bridge_reach fnm cfg maxsize (start_events (resolve_topics fnm cfg ds) red) b"
  shows "bridge_inv fnm cfg b"
  using assms
proof (induction rule: rtranclp_induct)
  case base
  then show ?case by (rule bridge_inv_start)
next
  case (step b b')
  then show ?case
    using counts_ok_step bytes_ok_step subscribed_ok_step unfolding bridge_inv_def by blast
qed

text \<open>
  C8. The generator of the Pub/Sub source over its bridge queue, for any interleaving of topic tasks,
  rediscoveries and the consumer: it stops waiting for items exactly when every task that was ever
  started has ended and its sentinel was taken, and then it has handed on every entry any task put, in
  the order they were put; the byte counter is what the queue and the waiting puts hold; the topic
  tasks ever started are one for each subscribed topic, in the order of subscription, no topic is
  subscribed twice, and the tasks that have not ended are among those started, each once; and every
  topic passes the globs and, unless it was configured by name, belongs to no other source.
\<close>

theorem bridge_complete:
  assumes "bridge_reach fnm cfg maxsize (start_events (resolve_topics fnm cfg ds) red) b"
  shows "(br_remaining b = 0 \<longleftrightarrow> br_live b = [] \<and> br_ending b = [] \<and> br_queue b = [])
    \<and> (br_remaining b = 0 \<longrightarrow> br_yielded b = br_put b \<and> br_putting b = [])
    \<and> prefix (br_yielded b) (br_put b)
    \<and> (0 < bridge_max_bytes cfg \<longrightarrow> br_bytes b = int (held_bytes b))
    \<and> distinct (br_subscribed b) \<and> list_all (subscribable fnm cfg) (br_subscribed b)
    \<and> topic_tasks b = map TopicTask (br_subscribed b)
    \<and> distinct (br_live b @ br_ending b) \<and> set (br_live b @ br_ending b) \<subseteq> set (br_started b)"
proof -
  have inv: "counts_ok b" "bytes_ok (bridge_max_bytes cfg) b" "subscribed_ok fnm cfg b"
    using bridge_inv_reach [OF assms] by (simp_all add: bridge_inv_def)
  have empty: "br_queue b = []" if "sentinels (br_queue b) = 0" "br_live b = []" "br_ending b = []"
  proof (rule ccontr)
    assume ne: "br_queue b \<noteq> []"
    with inv(1) that have "last (br_queue b) = None" by (auto simp: counts_ok_def)
    with ne have "None \<in> set (br_queue b)" by (metis last_in_set)
    with that(1) show False by (auto simp: sentinels_def filter_empty_conv)
  qed
  have zero: "br_remaining b = 0 \<longleftrightarrow> br_live b = [] \<and> br_ending b = [] \<and> br_queue b = []"
    using inv(1) empty by (auto simp: counts_ok_def)
  moreover have "br_yielded b = br_put b \<and> br_putting b = []" if "br_remaining b = 0"
    using that zero inv(1) by (cases "br_putting b") (auto simp: counts_ok_def)
  ultimately show ?thesis
    using inv unfolding counts_ok_def bytes_ok_def subscribed_ok_def unfinished_def by auto
qed

theorem bridge_complete_witness:
  "br_remaining (start_events (resolve_topics (=) demo_cfg None) False) = 1"
  using bridge_complete [of "(=)" demo_cfg 5 None False "start_events (resolve_topics (=) demo_cfg None) False", OF rtranclp.rtrancl_refl]
  by (simp add: start_events_def resolve_topics_def filter_topics_def demo_cfg_def TOPIC_WILDCARD_def spawn_topic_def)

text \<open>
  C34. Progress of the bridge: while the generator is waiting for sentinels, either there is an item it can
  take, or a task can put what it waits to put, or there is a task that neither waits for the byte
  budget nor for room. So backpressure never becomes a deadlock, whatever the budget and however large
  a single entry is.
\<close>

theorem bridge_never_wedges:
  assumes "bridge_reach fnm cfg maxsize (start_events (resolve_topics fnm cfg ds) red) b" "0 < br_remaining b"
  shows "br_queue b \<noteq> [] \<or> (br_putting b \<noteq> [] \<or> br_ending b \<noteq> []) \<and> has_room maxsize b
    \<or> br_live b \<noteq> [] \<and> br_putting b = [] \<and> (\<exists>b1. bridge_charge (bridge_max_bytes cfg) (Some e) b = Some b1)"
proof (cases "br_queue b = []")
  case True
  have inv: "counts_ok b" "bytes_ok (bridge_max_bytes cfg) b"
    using bridge_inv_reach [OF assms(1)] by (simp_all add: bridge_inv_def)
  have room: "has_room maxsize b" using True by (auto simp: has_room_def)
  show ?thesis
  proof (cases "br_putting b = [] \<and> br_ending b = []")
    case True
    then have "br_live b \<noteq> []" using inv(1) assms(2) \<open>br_queue b = []\<close> by (auto simp: counts_ok_def)
    moreover have "br_bytes b = 0 \<or> bridge_max_bytes cfg \<le> 0"
      using inv(2) True \<open>br_queue b = []\<close> by (auto simp: bytes_ok_def held_bytes_def)
    ultimately show ?thesis using True by (auto simp: bridge_charge_def)
  qed (use room in auto)
qed simp

theorem bridge_never_wedges_witness:
  "\<exists>b1. bridge_charge (bridge_max_bytes demo_cfg) (Some (demo_entry [1])) (start_events [''t''] False) = Some b1"
proof -
  have t: "resolve_topics (=) demo_cfg None = [''t'']"
    by (simp add: resolve_topics_def filter_topics_def demo_cfg_def TOPIC_WILDCARD_def)
  have s: "br_queue (start_events [''t''] False) = []" "br_putting (start_events [''t''] False) = []"
    "br_ending (start_events [''t''] False) = []" "0 < br_remaining (start_events [''t''] False)"
    by (simp_all add: start_events_def spawn_topic_def)
  show ?thesis
    using bridge_never_wedges [of "(=)" demo_cfg 5 None False "start_events [''t''] False" "demo_entry [1]"] s
    by (simp add: t)
qed

end
