(* ===== verification/ElfSource.thy ===== *)
theory ElfSource
  imports Transforms Overlap
begin

section \<open>sources/eventlogfile_source.py: event log files\<close>

text \<open>
  \<^verbatim>\<open>src/sf2loki/sources/eventlogfile_source.py\<close>. A cycle of one event type takes the stored
  checkpoint, the answer of the listing and, for each file, what its download gives (the rows and how
  it ends), and returns what it yields, how it ended and the state after it. The output is kept as a list of
  items: a row of a file with the entry it became, if any, or a token that rides alone. The date
  parsers, the JSON codec, the digest and the compiled transforms are parameters; the stop event is
  the number of checks that still find it clear.

  Results: whatever interrupts a cycle, a token it yielded never stands for a file whose rows were not
  all gone through before (unless the file was given up on for its age), so resuming from any of them
  loses nothing; every token reads back; a cycle without failures leaves behind every settled file it listed that
  has rows. Two results show limits: files without rows that fill a page of the listing stop a type for
  good, and so do more files with one creation date than a page holds.
\<close>

definition MAX_CARRIED_IDS :: nat where "MAX_CARRIED_IDS = 200"
definition SKEW_APPLY_THRESHOLD :: int where "SKEW_APPLY_THRESHOLD = 30 * 1000000"
definition SKEW_WARN_THRESHOLD :: int where "SKEW_WARN_THRESHOLD = 60 * 1000000"
definition EVENT_TYPE_WILDCARD :: string where "EVENT_TYPE_WILDCARD = ''*''"

type_synonym carried_id = "string \<times> string option"

record elf_meta =
  f_id :: string
  f_event_type :: string
  f_interval :: string
  f_log_date :: string
  f_created :: string
  f_sequence :: int
  f_length :: int

datatype elf_error = ElfThrottledError | ElfError

subsection \<open>Checkpoints\<close>

text \<open>A decoded checkpoint as far as it is looked at: an element of the id window is a string, a pair, or
  something else.\<close>

datatype jitem = JStr string | JPair pyval pyval | JOther

record elf_json =
  j_last_created :: "pyval option"
  j_ids :: "jitem list option"

record elf_env =
  ee_strp_frac :: dt_parser
  ee_strp_sec :: dt_parser
  ee_fromiso :: dt_parser
  ee_strp :: dt_parser
  ee_fmt :: "datetime \<Rightarrow> string"
  ee_now :: datetime
  ee_loads :: "string \<Rightarrow> elf_json option"
  ee_dumps_ck :: "string \<Rightarrow> jitem list \<Rightarrow> string"
  ee_dumps :: "payload \<Rightarrow> ustring"
  ee_dumps_key :: "payload \<Rightarrow> string"
  ee_sha256 :: "string \<Rightarrow> nat list"
  ee_transforms :: "compiled list"
  ee_sm_fields :: "string list"

definition parse_created :: "elf_env \<Rightarrow> string \<Rightarrow> datetime option" where
  "parse_created E s =
     (case ee_strp_frac E s of
        Some t \<Rightarrow> Some t
      | None \<Rightarrow>
          (case ee_strp_sec E s of
             Some t \<Rightarrow> Some t
           | None \<Rightarrow> ee_fromiso E (replace1 (CHR ''Z'') ''+00:00'' s)))"

definition parse_carried_ids :: "jitem list option \<Rightarrow> carried_id list" where
  "parse_carried_ids raw =
     (case raw of
        None \<Rightarrow> []
      | Some items \<Rightarrow>
          concat (map (\<lambda>i. case i of JStr s \<Rightarrow> [(s, None)] | JPair a b \<Rightarrow> [(py_str a, Some (py_str b))] | JOther \<Rightarrow> []) items))"

definition serialize_carried_ids :: "carried_id list \<Rightarrow> jitem list" where
  "serialize_carried_ids ids =
     map (\<lambda>(i, c). case c of None \<Rightarrow> JStr i | Some d \<Rightarrow> JPair (VStr i) (VStr d)) ids"

definition take_tail :: "nat \<Rightarrow> 'a list \<Rightarrow> 'a list" where
  "take_tail n xs = drop (length xs - n) xs"

definition append_carried_id :: "carried_id list \<Rightarrow> elf_meta \<Rightarrow> carried_id list" where
  "append_carried_id ids f =
     (let combined = filter (\<lambda>(i, _). i \<noteq> f_id f) ids @ [(f_id f, Some (f_created f))];
          at_watermark = filter (\<lambda>(_, c). c = Some (f_created f)) combined;
          older = filter (\<lambda>(_, c). c \<noteq> Some (f_created f)) combined
      in take_tail MAX_CARRIED_IDS older @ at_watermark)"

text \<open>\<^verbatim>\<open>dict(ids)\<close>: the last pair of an id wins.\<close>

definition seen_of :: "carried_id list \<Rightarrow> (string, string option) dict" where
  "seen_of ids = fold (\<lambda>(i, c). AList.update i c) ids []"

definition is_already_processed :: "elf_env \<Rightarrow> elf_meta \<Rightarrow> (string, string option) dict \<Rightarrow> bool" where
  "is_already_processed E f seen =
     (case map_of seen (f_id f) of
        None \<Rightarrow> False
      | Some None \<Rightarrow> True
      | Some (Some c) \<Rightarrow>
          if f_created f = c then True
          else (case (parse_created E (f_created f), parse_created E c) of
                  (Some listed, Some recorded) \<Rightarrow> listed \<le> recorded
                | _ \<Rightarrow> False))"

definition checkpoint_value :: "elf_env \<Rightarrow> string \<Rightarrow> carried_id list \<Rightarrow> string" where
  "checkpoint_value E last_created ids = ee_dumps_ck E last_created (serialize_carried_ids ids)"

subsection \<open>Configuration, types, skew\<close>

record elf_type =
  t_name :: string
  t_sm_fields :: "string list option"
  t_labels :: "string list"
  t_sample :: rat

record elf_config =
  c_types :: "elf_type list"
  c_exclude :: "string list"
  c_lookback :: int
  c_timestamp_column :: string
  c_settle_window :: int
  c_download_max_age :: int
  c_exclude_categories :: "string list"

record elf_state =
  es_failures :: "(string, nat) dict"
  es_throttled :: bool
  es_skew :: int
  es_skew_warned :: bool

definition new_elf_state :: elf_state where
  "new_elf_state = \<lparr>es_failures = [], es_throttled = False, es_skew = 0, es_skew_warned = False\<rparr>"

definition discover :: "elf_config \<Rightarrow> bool" where
  "discover cfg = list_ex (\<lambda>t. t_name t = EVENT_TYPE_WILDCARD) (c_types cfg)"

fun add_discovered :: "elf_config \<Rightarrow> rat \<Rightarrow> string list \<Rightarrow> string list \<Rightarrow> elf_type list" where
  "add_discovered cfg rate names [] = []"
| "add_discovered cfg rate names (n # ns) =
     (if n \<in> set names \<or> n \<in> set (c_exclude cfg) then add_discovered cfg rate names ns
      else if category_of_elf n \<in> set (c_exclude_categories cfg) then add_discovered cfg rate names ns
      else \<lparr>t_name = n, t_sm_fields = None, t_labels = [], t_sample = rate\<rparr> # add_discovered cfg rate (n # names) ns)"

text \<open>\<open>answer\<close> is what discovery gave; it is looked at only with the wildcard.\<close>

definition resolve_event_types :: "elf_config \<Rightarrow> elf_error + string list \<Rightarrow> elf_state \<Rightarrow> elf_type list \<times> elf_state" where
  "resolve_event_types cfg answer st =
     (let explicit = filter (\<lambda>t. t_name t \<noteq> EVENT_TYPE_WILDCARD) (c_types cfg) in
      if \<not> discover cfg then (explicit, st)
      else case answer of
        Inl err \<Rightarrow> (explicit, if err = ElfThrottledError then st\<lparr>es_throttled := True\<rparr> else st)
      | Inr discovered \<Rightarrow>
          (let rate = (case find (\<lambda>t. t_name t = EVENT_TYPE_WILDCARD) (c_types cfg) of None \<Rightarrow> 1 | Some w \<Rightarrow> t_sample w)
           in (explicit @ add_discovered cfg rate (map t_name explicit) discovered, st)))"

definition compute_cycle_skew :: "int option \<Rightarrow> elf_state \<Rightarrow> int \<times> elf_state" where
  "compute_cycle_skew skew st =
     (case skew of
        None \<Rightarrow> (0, st)
      | Some s \<Rightarrow>
          if \<bar>s\<bar> \<le> SKEW_APPLY_THRESHOLD then (0, st)
          else (s, if \<bar>s\<bar> > SKEW_WARN_THRESHOLD then st\<lparr>es_skew_warned := True\<rparr> else st))"

definition record_cycle_failure :: "string \<Rightarrow> elf_error \<Rightarrow> elf_state \<Rightarrow> elf_state" where
  "record_cycle_failure et err st =
     (let st1 = st\<lparr>es_failures := AList.update et (get_default (es_failures st) et 0 + 1) (es_failures st)\<rparr>
      in if err = ElfThrottledError then st1\<lparr>es_throttled := True\<rparr> else st1)"

subsection \<open>Rows\<close>

definition elf_key :: "elf_type \<Rightarrow> string" where
  "elf_key t = ''eventlogfile:'' @ t_name t"

text \<open>\<open>None\<close> is an exception of a transform, \<open>Some None\<close> a row that is dropped.\<close>

definition make_entry ::
  "elf_env \<Rightarrow> elf_config \<Rightarrow> elf_type \<Rightarrow> string \<Rightarrow> datetime option \<Rightarrow> payload \<Rightarrow> log_entry option option" where
  "make_entry E cfg t value created row =
     (case apply_pipeline (ee_transforms E) row of
        None \<Rightarrow> None
      | Some (None, _) \<Rightarrow> Some None
      | Some (Some row1, _) \<Rightarrow>
          if t_sample t < 1 \<and>
             \<not> should_keep (ee_sha256 E)
                 (case map_of row1 ''REQUEST_ID'' of
                    Some (VStr s) \<Rightarrow> if s = [] then ee_dumps_key E row1 else s
                  | _ \<Rightarrow> ee_dumps_key E row1) (t_sample t)
          then Some None
          else
            (let ts = fst (extract_timestamp_checked (ee_fromiso E) (ee_strp E) (ee_now E) row1
                             [c_timestamp_column cfg, ''TIMESTAMP''] created);
                 (ln, sm) = route_fields (ee_dumps E) row1 (case t_sm_fields t of None \<Rightarrow> ee_sm_fields E | Some fs \<Rightarrow> fs)
             in Some (Some \<lparr>timestamp = ts,
                  labels = AList.update ''event_type'' (t_name t)
                             (AList.update ''source'' ''eventlogfile'' (promote_labels row1 (t_labels t))),
                  line = ln, structured_metadata = sm,
                  checkpoint = \<lparr>tok_key = elf_key t, tok_value = value\<rparr>,
                  checkpoint_only = False, line_nbytes_memo = - 1\<rparr>)))"

text \<open>What a cycle does, in order: a row of a file with the position its entry carries and the entry, a
  position that rides alone, or a file that is given up.\<close>

type_synonym position = "string \<times> carried_id list"

datatype elf_item = RowItem elf_meta payload position "log_entry option" | TokenItem position log_entry | AbandonItem elf_meta

record elf_cycle =
  ec_last_created :: string
  ec_ids :: "carried_id list"
  ec_last_yielded :: "string option"
  ec_out :: "elf_item list"
  ec_stop :: "nat option"
  ec_state :: elf_state

datatype elf_end = ElfDone | ElfStopped | ElfFailed | ElfRaised

definition elf_check_stop :: "elf_cycle \<Rightarrow> bool \<times> elf_cycle" where
  "elf_check_stop c =
     (case ec_stop c of
        None \<Rightarrow> (False, c)
      | Some 0 \<Rightarrow> (True, c)
      | Some (Suc n) \<Rightarrow> (False, c\<lparr>ec_stop := Some n\<rparr>))"

definition emit_row ::
  "elf_env \<Rightarrow> elf_config \<Rightarrow> elf_type \<Rightarrow> elf_meta \<Rightarrow> position \<Rightarrow> payload \<Rightarrow> elf_cycle \<Rightarrow> elf_cycle option" where
  "emit_row E cfg t f p row c =
     (let value = checkpoint_value E (fst p) (snd p) in
      case make_entry E cfg t value (parse_created E (f_created f)) row of
        None \<Rightarrow> None
      | Some eo \<Rightarrow>
          Some (c\<lparr>ec_out := ec_out c @ [RowItem f row p eo],
                  ec_last_yielded := (if eo = None then ec_last_yielded c else Some value)\<rparr>))"

subsection \<open>Files\<close>

text \<open>A download: its rows, then the end of the iterator; \<open>DlRaised\<close> is an exception outside the client's family.\<close>

datatype dl_end = DlDone | DlError elf_error | DlRaised
type_synonym download = "payload list \<times> dl_end"

definition elf_now :: "elf_env \<Rightarrow> elf_state \<Rightarrow> datetime" where
  "elf_now E st = ee_now E + es_skew st"

definition too_old :: "elf_env \<Rightarrow> elf_config \<Rightarrow> elf_meta \<Rightarrow> elf_state \<Rightarrow> bool" where
  "too_old E cfg f st =
     (case parse_created E (f_created f) of None \<Rightarrow> False | Some t \<Rightarrow> elf_now E st - t > c_download_max_age cfg)"

definition unsettled :: "elf_env \<Rightarrow> elf_config \<Rightarrow> elf_meta \<Rightarrow> elf_state \<Rightarrow> bool" where
  "unsettled E cfg f st \<longleftrightarrow> c_settle_window cfg \<noteq> 0 \<and>
     (case parse_created E (f_created f) of None \<Rightarrow> False | Some t \<Rightarrow> elf_now E st - t < c_settle_window cfg)"

text \<open>The loop over the rows after the first (\<open>pending\<close>); \<open>pre\<close> and \<open>adv\<close> are the positions before and
  after the file. \<open>ElfDone\<close>: the file is finished or given up.\<close>

fun row_loop ::
  "elf_env \<Rightarrow> elf_config \<Rightarrow> elf_type \<Rightarrow> elf_meta \<Rightarrow> position \<Rightarrow> position \<Rightarrow> payload \<Rightarrow> payload list \<Rightarrow> dl_end
     \<Rightarrow> elf_cycle \<Rightarrow> elf_end \<times> elf_cycle" where
  "row_loop E cfg t f pre adv pending [] en c =
     (case elf_check_stop c of
        (True, c1) \<Rightarrow> (ElfStopped, c1)
      | (False, c1) \<Rightarrow>
          (case en of
             DlDone \<Rightarrow> (case emit_row E cfg t f adv pending c1 of None \<Rightarrow> (ElfRaised, c1) | Some c2 \<Rightarrow> (ElfDone, c2))
           | DlError err \<Rightarrow>
               if err \<noteq> ElfThrottledError \<and> too_old E cfg f (ec_state c1)
               then (ElfDone, c1\<lparr>ec_out := ec_out c1 @ [AbandonItem f]\<rparr>)
               else (ElfFailed, c1\<lparr>ec_state := record_cycle_failure (t_name t) err (ec_state c1)\<rparr>)
           | DlRaised \<Rightarrow> (ElfRaised, c1)))"
| "row_loop E cfg t f pre adv pending (nxt # rows) en c =
     (case elf_check_stop c of
        (True, c1) \<Rightarrow> (ElfStopped, c1)
      | (False, c1) \<Rightarrow>
          (case emit_row E cfg t f pre pending c1 of
             None \<Rightarrow> (ElfRaised, c1)
           | Some c2 \<Rightarrow> row_loop E cfg t f pre adv nxt rows en c2))"

text \<open>One file of the listing.\<close>

definition process_file ::
  "elf_env \<Rightarrow> elf_config \<Rightarrow> elf_type \<Rightarrow> (elf_meta \<Rightarrow> download) \<Rightarrow> elf_meta \<Rightarrow> elf_cycle \<Rightarrow> elf_end \<times> elf_cycle" where
  "process_file E cfg t dl f c =
     (let adv = (f_created f, append_carried_id (ec_ids c) f);
          pre = (ec_last_created c, ec_ids c) in
      if unsettled E cfg f (ec_state c) then (ElfDone, c)
      else case dl f of
        ([], DlDone) \<Rightarrow> (ElfDone, c)
      | ([], DlRaised) \<Rightarrow> (ElfRaised, c)
      | ([], DlError err) \<Rightarrow>
          if err \<noteq> ElfThrottledError \<and> too_old E cfg f (ec_state c)
          then (ElfDone, c\<lparr>ec_last_created := fst adv, ec_ids := snd adv, ec_out := ec_out c @ [AbandonItem f]\<rparr>)
          else (ElfFailed, c\<lparr>ec_state := record_cycle_failure (t_name t) err (ec_state c)\<rparr>)
      | (row # rows, en) \<Rightarrow>
          (case row_loop E cfg t f pre adv row rows en c of
             (ElfDone, c1) \<Rightarrow> (ElfDone, c1\<lparr>ec_last_created := fst adv, ec_ids := snd adv\<rparr>)
           | res \<Rightarrow> res))"

fun file_loop ::
  "elf_env \<Rightarrow> elf_config \<Rightarrow> elf_type \<Rightarrow> (elf_meta \<Rightarrow> download) \<Rightarrow> elf_meta list \<Rightarrow> elf_cycle \<Rightarrow> elf_end \<times> elf_cycle" where
  "file_loop E cfg t dl [] c = (ElfDone, c)"
| "file_loop E cfg t dl (f # fs) c =
     (case elf_check_stop c of
        (True, c1) \<Rightarrow> (ElfStopped, c1)
      | (False, c1) \<Rightarrow>
          (case process_file E cfg t dl f c1 of
             (ElfDone, c2) \<Rightarrow> file_loop E cfg t dl fs c2
           | res \<Rightarrow> res))"

definition token_item :: "elf_env \<Rightarrow> elf_type \<Rightarrow> position \<Rightarrow> elf_item" where
  "token_item E t p =
     TokenItem p \<lparr>timestamp = ee_now E, labels = [], line = [], structured_metadata = [],
       checkpoint = \<lparr>tok_key = elf_key t, tok_value = checkpoint_value E (fst p) (snd p)\<rparr>,
       checkpoint_only = True, line_nbytes_memo = - 1\<rparr>"

text \<open>After the loop: the token that rides alone, and the failure count is cleared.\<close>

definition finish_cycle :: "elf_env \<Rightarrow> elf_type \<Rightarrow> position \<Rightarrow> elf_cycle \<Rightarrow> elf_cycle" where
  "finish_cycle E t start c =
     (let p = (ec_last_created c, ec_ids c);
          c1 = (if p \<noteq> start \<and> ec_last_yielded c \<noteq> Some (checkpoint_value E (fst p) (snd p))
                then c\<lparr>ec_out := ec_out c @ [token_item E t p]\<rparr> else c)
      in c1\<lparr>ec_state := (ec_state c1)\<lparr>es_failures := AList.delete (t_name t) (es_failures (ec_state c1))\<rparr>\<rparr>)"

text \<open>The position a cycle starts from; \<open>None\<close> when the stored text is not a JSON object.\<close>

definition start_position :: "elf_env \<Rightarrow> elf_config \<Rightarrow> elf_state \<Rightarrow> string option \<Rightarrow> position option" where
  "start_position E cfg st stored =
     (let default_since = ee_fmt E (elf_now E st - c_lookback cfg) in
      case stored of
        None \<Rightarrow> Some (default_since, [])
      | Some raw \<Rightarrow>
          (case ee_loads E raw of
             None \<Rightarrow> None
           | Some j \<Rightarrow>
               Some (case j_last_created j of
                       None \<Rightarrow> default_since
                     | Some v \<Rightarrow> if truthy v then py_str v else default_since,
                     parse_carried_ids (j_ids j))))"

definition start_cycle :: "elf_state \<Rightarrow> nat option \<Rightarrow> position \<Rightarrow> elf_cycle" where
  "start_cycle st stop p =
     \<lparr>ec_last_created = fst p, ec_ids = snd p, ec_last_yielded = None, ec_out = [], ec_stop = stop,
      ec_state = st\<rparr>"

text \<open>\<^verbatim>\<open>_process_event_type\<close>: \<open>listing\<close> answers the listing for a start date, with \<open>Inl None\<close> for an exception
  outside the client's family.\<close>

definition process_event_type ::
  "elf_env \<Rightarrow> elf_config \<Rightarrow> elf_type \<Rightarrow> string option \<Rightarrow> (string \<Rightarrow> elf_error option + elf_meta list) \<Rightarrow> (elf_meta \<Rightarrow> download)
     \<Rightarrow> nat option \<Rightarrow> elf_state \<Rightarrow> elf_end \<times> elf_cycle" where
  "process_event_type E cfg t stored listing dl stop st =
     (case start_position E cfg st stored of
        None \<Rightarrow> (ElfRaised, start_cycle st stop ([], []))
      | Some p \<Rightarrow>
          (let c = start_cycle st stop p in
           case listing (fst p) of
             Inl None \<Rightarrow> (ElfRaised, c)
           | Inl (Some err) \<Rightarrow> (ElfFailed, c\<lparr>ec_state := record_cycle_failure (t_name t) err st\<rparr>)
           | Inr files \<Rightarrow>
               (case file_loop E cfg t dl (filter (\<lambda>f. \<not> is_already_processed E f (seen_of (snd p))) files) c of
                  (ElfDone, c1) \<Rightarrow> (ElfDone, finish_cycle E t p c1)
                | res \<Rightarrow> res)))"

text \<open>What the generator yields.\<close>

fun yielded :: "elf_item \<Rightarrow> log_entry list" where
  "yielded (RowItem f row p None) = []"
| "yielded (RowItem f row p (Some e)) = [e]"
| "yielded (TokenItem p e) = [e]"
| "yielded (AbandonItem f) = []"

subsection \<open>The id window\<close>

lemma seen_of_map: "wf_dict ids \<Longrightarrow> map_of (seen_of ids) = map_of ids"
  using map_of_dict_merge_wf [of ids "[]"] by (auto simp: seen_of_def dict_merge_def fun_eq_iff split: option.splits)

lemma set_take_tail: "set (take_tail n xs) \<subseteq> set xs"
  by (simp add: take_tail_def set_drop_subset)

lemma append_carried_set:
  "set (append_carried_id ids f) \<subseteq> insert (f_id f, Some (f_created f)) (set ids)"
  using set_take_tail by (fastforce simp: append_carried_id_def Let_def)

lemma append_carried_self: "(f_id f, Some (f_created f)) \<in> set (append_carried_id ids f)"
  by (simp add: append_carried_id_def Let_def)

lemma wf_dict_partition:
  assumes "wf_dict d"
  shows "wf_dict (take_tail n (filter (\<lambda>x. \<not> P x) d) @ filter P d)"
proof -
  have inj: "inj_on fst (set d)" using assms by (simp add: wf_dict_def distinct_map)
  have "distinct (map fst (filter Q d))" for Q using assms by (simp add: wf_dict_def distinct_map_filter)
  then have "distinct (map fst (take_tail n (filter (\<lambda>x. \<not> P x) d)))" "distinct (map fst (filter P d))"
    by (simp_all add: take_tail_def drop_map [symmetric])
  moreover have "fst ` set (take_tail n (filter (\<lambda>x. \<not> P x) d)) \<inter> fst ` set (filter P d) = {}"
  proof -
    have "fst ` set (filter (\<lambda>x. \<not> P x) d) \<inter> fst ` set (filter P d) = {}"
      using inj by (auto dest: inj_onD)
    then show ?thesis using set_take_tail [of n "filter (\<lambda>x. \<not> P x) d"] by blast
  qed
  ultimately show ?thesis by (simp add: wf_dict_def)
qed

lemma wf_append_carried:
  assumes "wf_dict ids"
  shows "wf_dict (append_carried_id ids f)"
proof -
  have "wf_dict (filter (\<lambda>(i, _). i \<noteq> f_id f) ids @ [(f_id f, Some (f_created f))])"
    using assms by (auto simp: wf_dict_def distinct_map_filter)
  from wf_dict_partition [OF this, of MAX_CARRIED_IDS "\<lambda>(_, c). c = Some (f_created f)"] show ?thesis
    by (simp add: append_carried_id_def Let_def case_prod_beta')
qed

subsection \<open>Files behind a position\<close>

definition ts :: "elf_env \<Rightarrow> elf_meta \<Rightarrow> datetime" where
  "ts E f = the (parse_created E (f_created f))"

text \<open>A file whose id the window carries: last with no date, with the date the file has, or with a later one.
  \<open>processed_carried\<close> says that this is what the code tests.\<close>

definition carried :: "elf_env \<Rightarrow> carried_id list \<Rightarrow> elf_meta \<Rightarrow> bool" where
  "carried E ids f \<longleftrightarrow> (\<exists>c. map_of (rev ids) (f_id f) = Some c \<and>
     (\<forall>d. c = Some d \<longrightarrow> f_created f = d \<or>
        (\<exists>a b. parse_created E (f_created f) = Some a \<and> parse_created E d = Some b \<and> a \<le> b)))"

lemma seen_of_rev: "map_of (seen_of ids) = map_of (rev ids)"
proof -
  have "map_of (fold (\<lambda>(i, c). AList.update i c) ids d) = map_of d ++ map_of (rev ids)" for d
    by (induction ids arbitrary: d) (auto simp: update_conv')
  from this [of "[]"] show ?thesis by (simp add: seen_of_def)
qed

lemma processed_carried [simp]: "is_already_processed E f (seen_of ids) \<longleftrightarrow> carried E ids f"
  by (auto simp: is_already_processed_def carried_def seen_of_rev split: option.splits)

text \<open>A file that a cycle starting at a position would list and not skip; \<open>lit\<close> is the instant the listing
  compares with, which cuts a date to the millisecond.\<close>

definition relisted :: "elf_env \<Rightarrow> (string \<Rightarrow> datetime) \<Rightarrow> position \<Rightarrow> elf_meta \<Rightarrow> bool" where
  "relisted E lit p f \<longleftrightarrow> lit (fst p) \<le> ts E f \<and> \<not> carried E (snd p) f"

text \<open>The rows of a file that were gone through.\<close>

definition rows_of :: "elf_meta \<Rightarrow> elf_item list \<Rightarrow> payload list" where
  "rows_of f out = concat (map (\<lambda>i. case i of RowItem g row _ _ \<Rightarrow> if g = f then [row] else [] | _ \<Rightarrow> []) out)"

definition accounted :: "(elf_meta \<Rightarrow> payload list) \<Rightarrow> elf_item list \<Rightarrow> elf_meta \<Rightarrow> bool" where
  "accounted body out f \<longleftrightarrow> sublist (body f) (rows_of f out) \<or> AbandonItem f \<in> set out"

text \<open>The world of a cycle: the table of files in the order of the listing, and downloads that give a file's
  rows when they end well.\<close>

definition elf_world ::
  "elf_env \<Rightarrow> (string \<Rightarrow> datetime) \<Rightarrow> (elf_meta \<Rightarrow> download) \<Rightarrow> (elf_meta \<Rightarrow> payload list) \<Rightarrow> elf_meta list \<Rightarrow> bool" where
  "elf_world E lit dl body table \<longleftrightarrow> sorted (map (ts E) table) \<and> distinct (map f_id table)
     \<and> list_all (\<lambda>f. f_created f \<noteq> [] \<and> parse_created E (f_created f) \<noteq> None \<and> lit (f_created f) \<le> ts E f
          \<and> (snd (dl f) = DlDone \<longrightarrow> fst (dl f) = body f)) table"

definition elf_listing :: "elf_env \<Rightarrow> (string \<Rightarrow> datetime) \<Rightarrow> nat \<Rightarrow> elf_meta list \<Rightarrow> string \<Rightarrow> elf_meta list" where
  "elf_listing E lit page_size table since = take page_size (filter (\<lambda>f. lit since \<le> ts E f) table)"

text \<open>A position is sound after an output: what it stands for was accounted for, or was so at the start.\<close>

definition sound_position ::
  "elf_env \<Rightarrow> (string \<Rightarrow> datetime) \<Rightarrow> (elf_meta \<Rightarrow> payload list) \<Rightarrow> elf_meta list \<Rightarrow> position \<Rightarrow> elf_item list \<Rightarrow> position \<Rightarrow> bool" where
  "sound_position E lit body table start out p \<longleftrightarrow> fst p \<in> insert (fst start) (f_created ` set table) \<and>
     list_all (\<lambda>f. relisted E lit p f \<or> \<not> relisted E lit start f \<or> accounted body out f) table"

fun item_position :: "elf_item \<Rightarrow> position option" where
  "item_position (RowItem f row p eo) = Some p"
| "item_position (TokenItem p e) = Some p"
| "item_position (AbandonItem f) = None"

lemma rows_of_simps [simp]:
  "rows_of f [] = []" "rows_of f (xs @ ys) = rows_of f xs @ rows_of f ys"
  "rows_of f [RowItem g row p eo] = (if g = f then [row] else [])"
  "rows_of f [TokenItem p e] = []" "rows_of f [AbandonItem g] = []"
  by (simp_all add: rows_of_def)

lemma world_simps:
  assumes "elf_world E lit dl body table" "f \<in> set table"
  shows "parse_created E (f_created f) = Some (ts E f)" "lit (f_created f) \<le> ts E f"
    "snd (dl f) = DlDone \<Longrightarrow> fst (dl f) = body f"
  using assms by (auto simp: elf_world_def list_all_iff ts_def)

lemma sorted_before:
  assumes "sorted (map k (xs @ ys))" "x \<in> set ys" "y \<in> set xs"
  shows "k y \<le> (k x :: 'b :: linorder)"
  using assms by (auto simp: sorted_append)

text \<open>Within the listing, a file older than one that was reached was reached before it.\<close>

lemma reached_before:
  assumes w: "elf_world E lit dl body table"
    and fs: "filter (\<lambda>f. \<not> carried E (snd start) f) (elf_listing E lit n table (fst start)) = done @ g # rest"
    and f: "f \<in> set table" "relisted E lit start f" "ts E f < ts E g"
  shows "f \<in> set done"
proof -
  let ?t = "filter (\<lambda>f. lit (fst start) \<le> ts E f) table"
  have srt: "sorted (map (ts E) ?t)" using w by (simp add: elf_world_def sorted_filter)
  have "g \<in> set (take n ?t)" using arg_cong [OF fs, of set] by (auto simp: elf_listing_def)
  moreover have "sorted (map (ts E) (take n ?t @ drop n ?t))" using srt by simp
  ultimately have "f \<notin> set (drop n ?t)" using sorted_before [of "ts E" "take n ?t" "drop n ?t" f g] f(3) by auto
  moreover have "f \<in> set ?t" using f by (simp add: relisted_def)
  ultimately have "f \<in> set (take n ?t)" by (metis append_take_drop_id Un_iff set_append)
  then have "f \<in> set (done @ g # rest)" using f(2) fs [symmetric] by (simp add: relisted_def elf_listing_def)
  moreover have "sorted (map (ts E) (done @ g # rest))"
    using srt fs [symmetric] by (simp add: elf_listing_def sorted_filter take_map [symmetric] sorted_wrt_take)
  ultimately show ?thesis using f(3) by (auto simp: sorted_append)
qed

lemma unsettled_mono:
  assumes "elf_world E lit dl body table" "f \<in> set table" "g \<in> set table" "ts E f \<le> ts E g" "unsettled E cfg f st"
  shows "unsettled E cfg g st"
  using assms(4,5) world_simps(1) [OF assms(1,2)] world_simps(1) [OF assms(1,3)] by (simp add: unsettled_def)

lemma carried_by_map: "map_of (rev s) (f_id f) = map_of (rev s') (f_id f) \<Longrightarrow> carried E s f = carried E s' f"
  by (simp add: carried_def)

lemma map_of_rev: "wf_dict ids \<Longrightarrow> map_of (rev ids) = map_of ids" for ids :: "carried_id list"
  using seen_of_rev [of ids] seen_of_map [of ids] by simp

lemma carried_in: "carried E ids f \<Longrightarrow> wf_dict ids \<Longrightarrow> \<exists>c. (f_id f, c) \<in> set ids \<and> map_of ids (f_id f) = Some c"
  by (auto simp: carried_def map_of_rev dest: map_of_SomeD)

lemma adv_sound:
  assumes w: "elf_world E lit dl body table"
    and fs: "filter (\<lambda>f. \<not> carried E (snd start) f) (elf_listing E lit n table (fst start)) = done @ g # rest"
    and reached: "\<forall>f \<in> set done. accounted body out f \<or> unsettled E cfg f st" "\<not> unsettled E cfg g st" "accounted body out g"
    and ids: "set ids \<subseteq> set (snd start) \<union> {(f_id f, Some (f_created f)) | f. f \<in> set done \<and> accounted body out f}"
    and wf: "wf_dict ids" "wf_dict (snd start)"
  shows "sound_position E lit body table start out (f_created g, append_carried_id ids g)"
  unfolding sound_position_def list_all_iff
proof (intro conjI ballI)
  have "set (filter (\<lambda>f. \<not> carried E (snd start) f) (elf_listing E lit n table (fst start))) \<subseteq> set table"
    by (auto simp: elf_listing_def dest: in_set_takeD)
  then have sub: "set done \<subseteq> set table" "g \<in> set table" unfolding fs by auto
  then show "fst (f_created g, append_carried_id ids g) \<in> insert (fst start) (f_created ` set table)" by simp
  fix f assume f: "f \<in> set table"
  let ?ids = "append_carried_id ids g"
  have same: "h = f" if "h \<in> set table" "f_id h = f_id f" for h
    using w f that by (auto simp: elf_world_def distinct_map dest: inj_onD)
  have old: "accounted body out f" if "relisted E lit start f" "ts E f < lit (f_created g)"
  proof -
    from that(2) world_simps(2) [OF w sub(2)] have lt: "ts E f < ts E g" by simp
    from reached_before [OF w fs f that(1) lt] have "f \<in> set done" .
    moreover have "\<not> unsettled E cfg f st" using unsettled_mono [OF w f sub(2)] lt reached(2) by auto
    ultimately show ?thesis using reached(1) by blast
  qed
  have kept: "accounted body out f" if rel: "relisted E lit start f" and pr: "carried E ?ids f"
  proof -
    obtain c where c: "(f_id f, c) \<in> set ?ids" "map_of ?ids (f_id f) = Some c"
      using carried_in [OF pr wf_append_carried [OF wf(1)]] by blast
    have "(f_id f, c) \<notin> set (snd start)"
    proof
      assume "(f_id f, c) \<in> set (snd start)"
      then have "map_of (snd start) (f_id f) = Some c" using wf(2) by (simp add: wf_dict_def)
      then have "carried E (snd start) f"
        using pr c(2) carried_by_map [of ?ids f "snd start" E] wf wf_append_carried
        by (simp add: map_of_rev)
      then show False using rel by (simp add: relisted_def)
    qed
    with c(1) append_carried_set [of ids g] ids have "f_id f = f_id g \<or> (\<exists>h \<in> set done. f_id f = f_id h \<and> accounted body out h)"
      by auto
    then show ?thesis using same sub reached(3) by (metis subsetD)
  qed
  show "relisted E lit (f_created g, ?ids) f \<or> \<not> relisted E lit start f \<or> accounted body out f"
    using old kept by (cases "ts E f < lit (f_created g)") (auto simp: relisted_def)
qed

subsection \<open>The loops keep it\<close>

lemma accounted_mono: "accounted body out f \<Longrightarrow> accounted body (out @ ext) f"
  by (auto simp: accounted_def intro: sublist_order.order.trans)

lemma sound_position_mono:
  "sound_position E lit body table start out p \<Longrightarrow> sound_position E lit body table start (out @ ext) p"
  using accounted_mono by (fastforce simp: sound_position_def list_all_iff)

definition outs_sound :: "(elf_item list \<Rightarrow> position \<Rightarrow> bool) \<Rightarrow> elf_item list \<Rightarrow> bool" where
  "outs_sound S out \<longleftrightarrow> (\<forall>n < length out. \<forall>p. item_position (out ! n) = Some p \<longrightarrow> S (take (Suc n) out) p)"

lemma outs_sound_Nil [simp]: "outs_sound S []"
  by (simp add: outs_sound_def)

lemma outs_sound_snoc:
  "outs_sound S (out @ [i]) \<longleftrightarrow> outs_sound S out \<and> (\<forall>p. item_position i = Some p \<longrightarrow> S (out @ [i]) p)"
  unfolding outs_sound_def length_append_singleton All_less_Suc
  by (subst conj_commute, rule arg_cong2 [where f = "(\<and>)"]) (simp_all add: nth_append)

lemma check_stop_frame:
  assumes "elf_check_stop c = (b, c1)"
  shows "ec_out c1 = ec_out c" "ec_ids c1 = ec_ids c" "ec_last_created c1 = ec_last_created c" "ec_state c1 = ec_state c"
  using assms by (auto simp: elf_check_stop_def split: option.splits nat.splits)

lemma emit_row_frame:
  "emit_row E cfg t f p row c = Some c1 \<Longrightarrow>
   (\<exists>eo. ec_out c1 = ec_out c @ [RowItem f row p eo]) \<and> ec_ids c1 = ec_ids c \<and> ec_last_created c1 = ec_last_created c
   \<and> ec_state c1 = ec_state c"
  by (auto simp: emit_row_def Let_def split: option.splits)

lemma skew_failure [simp]: "es_skew (record_cycle_failure et err st) = es_skew st"
  by (simp add: record_cycle_failure_def Let_def)

definition grows :: "elf_cycle \<Rightarrow> elf_cycle \<Rightarrow> bool" where
  "grows c c' \<longleftrightarrow> (\<exists>ext. ec_out c' = ec_out c @ ext) \<and> ec_ids c' = ec_ids c \<and> ec_last_created c' = ec_last_created c
     \<and> es_skew (ec_state c') = es_skew (ec_state c)"

lemma grows_trans: "grows a b \<Longrightarrow> grows b c \<Longrightarrow> grows a c"
  by (auto simp: grows_def)

lemma row_loop_sound:
  assumes "row_loop E cfg t g pre adv pending rows en c = (r, c')"
    and "outs_sound S (ec_out c)" "\<And>ext. S (ec_out c @ ext) pre"
    and "\<And>ext. accounted body (ec_out c @ ext) g \<Longrightarrow> S (ec_out c @ ext) adv"
    and "en = DlDone \<Longrightarrow> \<exists>us vs. body g = vs @ pending # rows \<and> rows_of g (ec_out c) = us @ vs"
  shows "outs_sound S (ec_out c') \<and> grows c c' \<and> (r = ElfDone \<longrightarrow> accounted body (ec_out c') g)"
  using assms
proof (induction rows arbitrary: pending c)
  case Nil
  obtain b c1 where cs: "elf_check_stop c = (b, c1)" by (metis prod.exhaust)
  note fr = check_stop_frame [OF cs]
  show ?case
  proof (cases "b \<or> en \<noteq> DlDone")
    case True
    then show ?thesis using Nil.prems(1,2) cs fr
      by (cases en; cases b) (auto simp: grows_def accounted_def outs_sound_snoc split: if_splits)
  next
    case False
    show ?thesis
    proof (cases "emit_row E cfg t g adv pending c1")
      case None
      then show ?thesis using Nil.prems(1,2) cs fr False by (auto simp: grows_def)
    next
      case (Some c2)
      then obtain eo where c2: "ec_out c2 = ec_out c @ [RowItem g pending adv eo]" "ec_ids c2 = ec_ids c"
        "ec_last_created c2 = ec_last_created c" "ec_state c2 = ec_state c"
        using emit_row_frame [OF Some] fr by auto
      have r: "r = ElfDone" "c' = c2" using Nil.prems(1) cs False Some by auto
      obtain us vs where "body g = vs @ [pending]" "rows_of g (ec_out c) = us @ vs" using Nil.prems(5) False by auto
      then have acc: "accounted body (ec_out c2) g" by (simp add: accounted_def c2)
      then show ?thesis
        using Nil.prems(2,4) acc c2 r by (auto simp: outs_sound_snoc grows_def)
    qed
  qed
next
  case (Cons nxt rows)
  obtain b c1 where cs: "elf_check_stop c = (b, c1)" by (metis prod.exhaust)
  note fr = check_stop_frame [OF cs]
  show ?case
  proof (cases "b \<or> emit_row E cfg t g pre pending c1 = None")
    case True
    then show ?thesis using Cons.prems(1,2) cs fr by (cases b) (auto simp: grows_def)
  next
    case False
    then obtain c2 where em: "emit_row E cfg t g pre pending c1 = Some c2" by auto
    then obtain eo where c2: "ec_out c2 = ec_out c @ [RowItem g pending pre eo]" "ec_ids c2 = ec_ids c"
      "ec_last_created c2 = ec_last_created c" "ec_state c2 = ec_state c"
      using emit_row_frame [OF em] fr by auto
    have "outs_sound S (ec_out c') \<and> grows c2 c' \<and> (r = ElfDone \<longrightarrow> accounted body (ec_out c') g)"
    proof (rule Cons.IH)
      show "row_loop E cfg t g pre adv nxt rows en c2 = (r, c')" using Cons.prems(1) cs False em by auto
      show "outs_sound S (ec_out c2)" using Cons.prems(2,3) c2 by (simp add: outs_sound_snoc)
      show "S (ec_out c2 @ ext) pre" for ext using Cons.prems(3) c2 by simp
      show "S (ec_out c2 @ ext) adv" if "accounted body (ec_out c2 @ ext) g" for ext using Cons.prems(4) that c2 by simp
      show "\<exists>us vs. body g = vs @ nxt # rows \<and> rows_of g (ec_out c2) = us @ vs" if "en = DlDone"
        using Cons.prems(5) [OF that] c2 by fastforce
    qed
    then show ?thesis using c2 grows_trans [of c c2 c'] by (auto simp: grows_def)
  qed
qed

definition window_of :: "position \<Rightarrow> (elf_meta \<Rightarrow> payload list) \<Rightarrow> elf_meta list \<Rightarrow> elf_item list \<Rightarrow> carried_id set" where
  "window_of start body done out =
     set (snd start) \<union> {(f_id f, Some (f_created f)) | f. f \<in> set done \<and> accounted body out f}"

definition cycle_inv ::
  "elf_env \<Rightarrow> elf_config \<Rightarrow> (string \<Rightarrow> datetime) \<Rightarrow> (elf_meta \<Rightarrow> payload list) \<Rightarrow> elf_meta list \<Rightarrow> position \<Rightarrow> elf_state
     \<Rightarrow> elf_meta list \<Rightarrow> elf_cycle \<Rightarrow> bool" where
  "cycle_inv E cfg lit body table start st0 done c \<longleftrightarrow>
     wf_dict (ec_ids c) \<and> set (ec_ids c) \<subseteq> window_of start body done (ec_out c)
     \<and> (\<forall>f \<in> set done. accounted body (ec_out c) f \<or> unsettled E cfg f st0)
     \<and> es_skew (ec_state c) = es_skew st0
     \<and> sound_position E lit body table start (ec_out c) (ec_last_created c, ec_ids c)
     \<and> outs_sound (sound_position E lit body table start) (ec_out c)"

lemma unsettled_cong: "es_skew st = es_skew st' \<Longrightarrow> unsettled E cfg f st = unsettled E cfg f st'"
  by (simp add: unsettled_def elf_now_def split: option.split)

lemma window_of_mono: "window_of start body done out \<subseteq> window_of start body (done @ fs) (out @ ext)"
  using accounted_mono by (auto simp: window_of_def)

lemma cycle_inv_advance:
  assumes w: "elf_world E lit dl body table" and wf: "wf_dict (snd start)"
    and fs: "filter (\<lambda>f. \<not> carried E (snd start) f) (elf_listing E lit n table (fst start)) = done @ g # rest"
    and inv: "cycle_inv E cfg lit body table start st0 done c" and g: "\<not> unsettled E cfg g st0"
    and c': "ec_out c' = ec_out c @ ext" "accounted body (ec_out c') g" "es_skew (ec_state c') = es_skew st0"
      "ec_last_created c' = f_created g" "ec_ids c' = append_carried_id (ec_ids c) g"
      "outs_sound (sound_position E lit body table start) (ec_out c')"
  shows "cycle_inv E cfg lit body table start st0 (done @ [g]) c'"
proof -
  have acc: "\<forall>f \<in> set done. accounted body (ec_out c') f \<or> unsettled E cfg f st0"
    using inv accounted_mono c'(1) by (auto simp: cycle_inv_def)
  have sub: "set (ec_ids c) \<subseteq> window_of start body done (ec_out c')"
    using inv window_of_mono [of start body "done" "ec_out c" "[]" ext] c'(1) by (auto simp: cycle_inv_def)
  have wfc: "wf_dict (ec_ids c)" using inv by (simp add: cycle_inv_def)
  have "sound_position E lit body table start (ec_out c') (f_created g, append_carried_id (ec_ids c) g)"
    by (rule adv_sound [OF w fs acc g c'(2) sub [unfolded window_of_def] wfc wf])
  moreover have "set (append_carried_id (ec_ids c) g) \<subseteq> window_of start body (done @ [g]) (ec_out c')"
    using append_carried_set [of "ec_ids c" g] sub c'(2) by (auto simp: window_of_def)
  ultimately show ?thesis
    using acc c' wf_append_carried [OF wfc] by (auto simp: cycle_inv_def)
qed

lemma cycle_inv_skip:
  assumes "cycle_inv E cfg lit body table start st0 done c" "unsettled E cfg g st0 \<or> accounted body (ec_out c) g"
  shows "cycle_inv E cfg lit body table start st0 (done @ [g]) c"
  using assms window_of_mono [of start body "done" "ec_out c" "[g]" "[]"] by (auto simp: cycle_inv_def)

lemma process_file_sound:
  assumes w: "elf_world E lit dl body table" and wf: "wf_dict (snd start)"
    and fs: "filter (\<lambda>f. \<not> carried E (snd start) f) (elf_listing E lit n table (fst start)) = done @ g # rest"
    and inv: "cycle_inv E cfg lit body table start st0 done c"
    and p: "process_file E cfg t dl g c = (r, c')"
  shows "outs_sound (sound_position E lit body table start) (ec_out c')
    \<and> (r = ElfDone \<longrightarrow> cycle_inv E cfg lit body table start st0 (done @ [g]) c')"
proof -
  let ?S = "sound_position E lit body table start"
  let ?adv = "(f_created g, append_carried_id (ec_ids c) g)" and ?pre = "(ec_last_created c, ec_ids c)"
  have g: "g \<in> set table" using arg_cong [OF fs, of set] by (auto simp: elf_listing_def dest!: equalityD2 in_set_takeD)
  have S: "outs_sound ?S (ec_out c)" "es_skew (ec_state c) = es_skew st0" using inv by (simp_all add: cycle_inv_def)
  have uns: "unsettled E cfg g (ec_state c) = unsettled E cfg g st0" using S(2) by (rule unsettled_cong)
  show ?thesis
  proof (cases "unsettled E cfg g st0")
    case True
    then show ?thesis using p uns S cycle_inv_skip [OF inv] by (auto simp: process_file_def Let_def)
  next
    case False
    obtain rows en where d: "dl g = (rows, en)" by (metis prod.exhaust)
    note adv = cycle_inv_advance [OF w wf fs inv False]
    show ?thesis
    proof (cases rows)
      case Nil
      show ?thesis
      proof (cases en)
        case DlDone
        then have "accounted body (ec_out c) g" using world_simps(3) [OF w g] d Nil by (simp add: accounted_def)
        then show ?thesis using p uns False d Nil DlDone S cycle_inv_skip [OF inv] by (auto simp: process_file_def Let_def)
      next
        case (DlError err)
        then show ?thesis
          using p uns False d Nil S adv [of c' "[AbandonItem g]"]
          by (auto simp: process_file_def Let_def outs_sound_snoc accounted_def split: if_splits)
      next
        case DlRaised
        then show ?thesis using p uns False d Nil S by (auto simp: process_file_def Let_def)
      qed
    next
      case (Cons row rs)
      obtain r1 c1 where rl: "row_loop E cfg t g ?pre ?adv row rs en c = (r1, c1)" by (metis prod.exhaust)
      have res: "r = r1" "c' = (if r1 = ElfDone then c1\<lparr>ec_last_created := fst ?adv, ec_ids := snd ?adv\<rparr> else c1)"
        using p uns False d Cons rl by (cases r1; auto simp: process_file_def Let_def)+
      have "outs_sound ?S (ec_out c1) \<and> grows c c1 \<and> (r1 = ElfDone \<longrightarrow> accounted body (ec_out c1) g)"
      proof (rule row_loop_sound [OF rl S(1)])
        show "?S (ec_out c @ ext) ?pre" for ext using inv sound_position_mono by (simp add: cycle_inv_def)
        show "?S (ec_out c @ ext) ?adv" if a: "accounted body (ec_out c @ ext) g" for ext
        proof -
          have "\<forall>f \<in> set done. accounted body (ec_out c @ ext) f \<or> unsettled E cfg f st0"
            using inv accounted_mono by (auto simp: cycle_inv_def)
          moreover have "set (ec_ids c) \<subseteq> window_of start body done (ec_out c @ ext)"
            using inv window_of_mono [of start body "done" "ec_out c" "[]" ext] by (auto simp: cycle_inv_def)
          moreover have "wf_dict (ec_ids c)" using inv by (simp add: cycle_inv_def)
          ultimately show ?thesis using adv_sound [OF w fs _ False a _ _ wf] by (simp add: window_of_def)
        qed
        show "\<exists>us vs. body g = vs @ row # rs \<and> rows_of g (ec_out c) = us @ vs" if "en = DlDone"
          using world_simps(3) [OF w g] d Cons that by auto
      qed
      then show ?thesis using res adv [of c'] S(2) by (auto simp: grows_def)
    qed
  qed
qed

lemma file_loop_sound:
  assumes w: "elf_world E lit dl body table" and wf: "wf_dict (snd start)"
    and fs: "filter (\<lambda>f. \<not> carried E (snd start) f) (elf_listing E lit n table (fst start)) = done @ fs"
    and inv: "cycle_inv E cfg lit body table start st0 done c"
    and p: "file_loop E cfg t dl fs c = (r, c')"
  shows "outs_sound (sound_position E lit body table start) (ec_out c')
    \<and> (r = ElfDone \<longrightarrow> cycle_inv E cfg lit body table start st0 (done @ fs) c')"
  using fs inv p
proof (induction fs arbitrary: "done" c)
  case Nil
  then show ?case by (auto simp: cycle_inv_def)
next
  case (Cons g fs)
  obtain b c1 where cs: "elf_check_stop c = (b, c1)" by (metis prod.exhaust)
  have inv1: "cycle_inv E cfg lit body table start st0 done c1"
    using Cons.prems(2) check_stop_frame [OF cs] by (simp add: cycle_inv_def)
  obtain r2 c2 where pf: "process_file E cfg t dl g c1 = (r2, c2)" by (metis prod.exhaust)
  note ps = process_file_sound [OF w wf Cons.prems(1) inv1 pf]
  show ?case
  proof (cases "b \<or> r2 \<noteq> ElfDone")
    case True
    then show ?thesis
      using Cons.prems(3) cs pf ps inv1 by (cases b; cases r2) (auto simp: cycle_inv_def)
  next
    case False
    with ps have "cycle_inv E cfg lit body table start st0 (done @ [g]) c2" by simp
    from Cons.IH [OF _ this] show ?thesis using Cons.prems(1,3) cs pf False by auto
  qed
qed

subsection \<open>Tokens\<close>

definition elf_codec :: "elf_env \<Rightarrow> bool" where
  "elf_codec E \<longleftrightarrow> (\<forall>lc ids. ee_loads E (ee_dumps_ck E lc (serialize_carried_ids ids))
     = Some \<lparr>j_last_created = Some (VStr lc), j_ids = Some (serialize_carried_ids ids)\<rparr>)"

lemma parse_serialize [simp]: "parse_carried_ids (Some (serialize_carried_ids ids)) = ids"
  by (induction ids) (auto simp: parse_carried_ids_def serialize_carried_ids_def split: option.splits)

lemma token_reads_back:
  "elf_codec E \<Longrightarrow> fst p \<noteq> [] \<Longrightarrow> start_position E cfg st (Some (checkpoint_value E (fst p) (snd p))) = Some p"
  by (simp add: start_position_def checkpoint_value_def elf_codec_def Let_def)

lemma make_entry_token:
  "make_entry E cfg t v cr row = Some (Some e) \<Longrightarrow> checkpoint e = \<lparr>tok_key = elf_key t, tok_value = v\<rparr>"
  by (auto simp: make_entry_def Let_def split: option.splits prod.splits if_splits)

definition item_token :: "elf_env \<Rightarrow> elf_type \<Rightarrow> elf_item \<Rightarrow> bool" where
  "item_token E t i \<longleftrightarrow> list_all (\<lambda>e. \<exists>p. item_position i = Some p
     \<and> checkpoint e = \<lparr>tok_key = elf_key t, tok_value = checkpoint_value E (fst p) (snd p)\<rparr>) (yielded i)"

lemma item_token_row:
  "item_token E t (RowItem f row p eo) \<longleftrightarrow>
     eo = None \<or> checkpoint (the eo) = \<lparr>tok_key = elf_key t, tok_value = checkpoint_value E (fst p) (snd p)\<rparr>"
  by (cases eo) (simp_all add: item_token_def)

lemma make_entry_item:
  "make_entry E cfg t (checkpoint_value E (fst p) (snd p)) cr row = Some eo \<Longrightarrow> item_token E t (RowItem f row p eo)"
  by (cases eo) (auto simp: item_token_row dest: make_entry_token)

text \<open>A file is given up only after a failure other than throttling, and when it is older than the limit.\<close>

definition given_up :: "elf_env \<Rightarrow> elf_config \<Rightarrow> (elf_meta \<Rightarrow> download) \<Rightarrow> elf_state \<Rightarrow> elf_meta \<Rightarrow> bool" where
  "given_up E cfg dl st f \<longleftrightarrow> (\<exists>err. snd (dl f) = DlError err \<and> err \<noteq> ElfThrottledError)
     \<and> (\<exists>t. parse_created E (f_created f) = Some t \<and> c_download_max_age cfg < elf_now E st - t)"

definition item_ok :: "elf_env \<Rightarrow> elf_config \<Rightarrow> elf_type \<Rightarrow> (elf_meta \<Rightarrow> download) \<Rightarrow> elf_state \<Rightarrow> elf_item \<Rightarrow> bool" where
  "item_ok E cfg t dl st i \<longleftrightarrow> item_token E t i \<and> (\<forall>f. i = AbandonItem f \<longrightarrow> given_up E cfg dl st f)"

definition items_sound :: "elf_env \<Rightarrow> elf_config \<Rightarrow> elf_type \<Rightarrow> (elf_meta \<Rightarrow> download) \<Rightarrow> elf_state \<Rightarrow> elf_cycle \<Rightarrow> bool" where
  "items_sound E cfg t dl st c \<longleftrightarrow> list_all (item_ok E cfg t dl st) (ec_out c) \<and> es_skew (ec_state c) = es_skew st"

lemma item_ok_row:
  "make_entry E cfg t (checkpoint_value E (fst p) (snd p)) cr row = Some eo \<Longrightarrow> item_ok E cfg t dl st (RowItem f row p eo)"
  using make_entry_item by (simp add: item_ok_def)

lemma item_ok_abandon:
  "too_old E cfg f st' \<Longrightarrow> es_skew st' = es_skew st \<Longrightarrow> snd (dl f) = DlError err \<Longrightarrow> err \<noteq> ElfThrottledError \<Longrightarrow>
   item_ok E cfg t dl st (AbandonItem f)"
  by (simp add: item_ok_def item_token_def given_up_def too_old_def elf_now_def split: option.splits)

lemma emit_row_items:
  "emit_row E cfg t f p row c = Some c1 \<Longrightarrow> items_sound E cfg t dl st c \<Longrightarrow> items_sound E cfg t dl st c1"
  using item_ok_row [of E cfg t p "parse_created E (f_created f)" row _ dl st f]
  by (auto simp: emit_row_def items_sound_def Let_def split: option.splits)

lemma check_stop_items: "elf_check_stop c = (b, c1) \<Longrightarrow> items_sound E cfg t dl st c1 = items_sound E cfg t dl st c"
  by (simp add: items_sound_def check_stop_frame)

lemma row_loop_items:
  "row_loop E cfg t g pre adv pending rows (snd (dl g)) c = (r, c') \<Longrightarrow> items_sound E cfg t dl st c \<Longrightarrow> items_sound E cfg t dl st c'"
proof (induction rows arbitrary: pending c)
  case Nil
  obtain b c1 where cs: "elf_check_stop c = (b, c1)" by (metis prod.exhaust)
  have c1: "items_sound E cfg t dl st c1" using Nil.prems(2) check_stop_items [OF cs] by simp
  then have gu: "item_ok E cfg t dl st (AbandonItem g)"
    if "snd (dl g) = DlError err" "err \<noteq> ElfThrottledError" "too_old E cfg g (ec_state c1)" for err
    using item_ok_abandon [of E cfg g "ec_state c1" st dl err t] that by (simp add: items_sound_def)
  show ?case
    using Nil.prems(1) cs c1 gu emit_row_items [of E cfg t g adv pending c1 _ dl st]
    by (cases b; cases "snd (dl g)") (auto simp: items_sound_def split: option.splits if_splits)
next
  case (Cons nxt rows)
  obtain b c1 where cs: "elf_check_stop c = (b, c1)" by (metis prod.exhaust)
  show ?case
    using Cons.prems Cons.IH cs check_stop_items [OF cs] emit_row_items [of E cfg t g pre pending c1 _ dl st]
    by (cases b) (auto split: option.splits)
qed

lemma process_file_items:
  assumes "process_file E cfg t dl f c = (r, c')" "items_sound E cfg t dl st c"
  shows "items_sound E cfg t dl st c'"
proof -
  obtain rows en where d: "dl f = (rows, en)" by (metis prod.exhaust)
  show ?thesis
  proof (cases rows)
    case Nil
    have "item_ok E cfg t dl st (AbandonItem f)" if "en = DlError err" "err \<noteq> ElfThrottledError" "too_old E cfg f (ec_state c)" for err
      using item_ok_abandon [of E cfg f "ec_state c" st dl err t] that d assms(2) by (simp add: items_sound_def)
    then show ?thesis
      using assms d Nil by (cases en) (auto simp: process_file_def items_sound_def Let_def split: if_splits)
  next
    case (Cons row rs)
    obtain r1 c1 where rl: "row_loop E cfg t f (ec_last_created c, ec_ids c) (f_created f, append_carried_id (ec_ids c) f) row rs (snd (dl f)) c = (r1, c1)"
      by (metis prod.exhaust)
    have "ec_out c' = (if unsettled E cfg f (ec_state c) then ec_out c else ec_out c1)"
      "ec_state c' = (if unsettled E cfg f (ec_state c) then ec_state c else ec_state c1)"
      using assms(1) d Cons rl by (cases r1; auto simp: process_file_def Let_def)+
    then show ?thesis using row_loop_items [OF rl assms(2)] assms(2) by (simp add: items_sound_def)
  qed
qed

lemma file_loop_items:
  "file_loop E cfg t dl fs c = (r, c') \<Longrightarrow> items_sound E cfg t dl st c \<Longrightarrow> items_sound E cfg t dl st c'"
proof (induction fs arbitrary: c)
  case (Cons f fs)
  obtain b c1 where cs: "elf_check_stop c = (b, c1)" by (metis prod.exhaust)
  obtain r2 c2 where pf: "process_file E cfg t dl f c1 = (r2, c2)" by (metis prod.exhaust)
  have c: "items_sound E cfg t dl st c1" "items_sound E cfg t dl st c2"
    using process_file_items [OF pf] Cons.prems(2) check_stop_items [OF cs] by simp_all
  show ?case using Cons.prems(1) Cons.IH c cs pf by (cases b; cases r2) auto
qed simp

subsection \<open>At least once\<close>

lemma cycle_inv_start:
  "wf_dict (snd start) \<Longrightarrow> cycle_inv E cfg lit body table start st [] (start_cycle st stop start)"
  by (auto simp: cycle_inv_def start_cycle_def window_of_def sound_position_def list_all_iff)

text \<open>
  C9. One cycle of an event type over a table of files, whatever stop, failed or partial downloads,
  throttling or raising transform ends it. Each entry it yields carries a token that reads back as a
  position, and every file that a cycle resuming from there would no longer list or would skip either was
  behind the start already, or was given up, or had all its rows gone through no later than that
  entry. If the cycle ends well, whether or not it yielded anything, every file it listed was carried by the
  start position, or has all its rows gone through or was given up, or is younger than the settle window. A
  file is given up only when its download failed for another reason than throttling and it is older than
  the age limit.
\<close>

theorem elf_resume_safe:
  assumes run: "process_event_type E cfg t stored listing dl stop st = (r, c)"
    and start: "start_position E cfg st stored = Some start" "fst start \<noteq> []" "wf_dict (snd start)" "elf_codec E"
    and world: "elf_world E lit dl body table" "listing (fst start) = Inr (elf_listing E lit page_size table (fst start))"
  shows "(\<forall>k e. k < length (ec_out c) \<and> e \<in> set (yielded (ec_out c ! k)) \<longrightarrow>
        (\<exists>p. start_position E cfg st' (Some (tok_value (checkpoint e))) = Some p
           \<and> (\<forall>f \<in> set table. relisted E lit p f \<or> \<not> relisted E lit start f \<or> accounted body (take (Suc k) (ec_out c)) f)))
      \<and> (r = ElfDone \<longrightarrow> (\<forall>f \<in> set (elf_listing E lit page_size table (fst start)).
           carried E (snd start) f \<or> accounted body (ec_out c) f
           \<or> (c_settle_window cfg \<noteq> 0 \<and> elf_now E st - ts E f < c_settle_window cfg)))
      \<and> (\<forall>f. AbandonItem f \<in> set (ec_out c) \<longrightarrow> given_up E cfg dl st f)"
proof -
  let ?S = "sound_position E lit body table start"
  let ?fs = "filter (\<lambda>f. \<not> carried E (snd start) f) (elf_listing E lit page_size table (fst start))"
  obtain r1 c1 where fl: "file_loop E cfg t dl ?fs (start_cycle st stop start) = (r1, c1)" by (metis prod.exhaust)
  have res: "r = r1" "c = (if r1 = ElfDone then finish_cycle E t start c1 else c1)"
    using run start(1) world(2) fl by (cases r1; auto simp: process_event_type_def Let_def)+
  have inv: "outs_sound ?S (ec_out c1) \<and> (r1 = ElfDone \<longrightarrow> cycle_inv E cfg lit body table start st ?fs c1)"
    using file_loop_sound [OF world(1) start(3) _ cycle_inv_start [OF start(3)] fl, of page_size] by simp
  have tok: "items_sound E cfg t dl st c1" by (rule file_loop_items [OF fl]) (simp add: start_cycle_def items_sound_def)
  have all: "outs_sound ?S (ec_out c)" "list_all (item_ok E cfg t dl st) (ec_out c)"
    using res inv tok
    by (auto simp: finish_cycle_def Let_def outs_sound_snoc cycle_inv_def token_item_def item_token_def item_ok_def items_sound_def
        intro: sound_position_mono)
  have token: "\<exists>p. start_position E cfg st' (Some (tok_value (checkpoint e))) = Some p
      \<and> (\<forall>f \<in> set table. relisted E lit p f \<or> \<not> relisted E lit start f \<or> accounted body (take (Suc k) (ec_out c)) f)"
    if item: "k < length (ec_out c)" "e \<in> set (yielded (ec_out c ! k))" for k e
  proof -
    have "item_token E t (ec_out c ! k)" using all(2) item(1) by (simp add: list_all_length item_ok_def)
    with item(2) obtain p where p: "item_position (ec_out c ! k) = Some p"
      "checkpoint e = \<lparr>tok_key = elf_key t, tok_value = checkpoint_value E (fst p) (snd p)\<rparr>"
      unfolding item_token_def list_all_iff by blast
    have S: "?S (take (Suc k) (ec_out c)) p" using all(1) item(1) p(1) unfolding outs_sound_def by blast
    then have "fst p \<noteq> []" using start(2) world(1) by (auto simp: sound_position_def elf_world_def list_all_iff)
    then show ?thesis
      using p(2) S token_reads_back [OF start(4), of p cfg st'] by (auto simp: sound_position_def list_all_iff)
  qed
  have whole: "carried E (snd start) f \<or> accounted body (ec_out c) f
      \<or> (c_settle_window cfg \<noteq> 0 \<and> elf_now E st - ts E f < c_settle_window cfg)"
    if "r = ElfDone" "f \<in> set (elf_listing E lit page_size table (fst start))" for f
  proof (cases "carried E (snd start) f")
    case False
    have ci: "cycle_inv E cfg lit body table start st ?fs c1" using that(1) res inv by simp
    then have "accounted body (ec_out c1) f \<or> unsettled E cfg f st" using that(2) False by (simp add: cycle_inv_def)
    moreover have "f \<in> set table" using that(2) by (auto simp: elf_listing_def dest: in_set_takeD)
    ultimately show ?thesis
      using res that(1) accounted_mono world_simps(1) [OF world(1)]
      by (auto simp: finish_cycle_def Let_def unsettled_def)
  qed simp
  have "given_up E cfg dl st f" if "AbandonItem f \<in> set (ec_out c)" for f
    using all(2) that by (auto simp: list_all_iff item_ok_def)
  with token whole show ?thesis by blast
qed

subsection \<open>A page that cannot be left\<close>

lemma file_loop_idle:
  assumes "list_all (\<lambda>f. unsettled E cfg f (ec_state c) \<or> dl f = ([], DlDone)) fs" "ec_stop c = None"
  shows "file_loop E cfg t dl fs c = (ElfDone, c)"
  using assms by (induction fs) (auto simp: process_file_def Let_def elf_check_stop_def)

text \<open>
  Files that leave no token behind can fill the page a listing returns: files without rows, files still to
  settle, files of the window. Then a cycle ends well and yields nothing, neither entries nor a token, and it does so again
  however many files with rows the type has after them, because the next cycle asks for the same page.
\<close>

theorem full_page_stalls:
  assumes start: "start_position E cfg st stored = Some p"
    and full: "length (elf_listing E lit n table (fst p)) = n"
    and idle: "list_all (\<lambda>f. carried E (snd p) f \<or> unsettled E cfg f st \<or> dl f = ([], DlDone))
                 (elf_listing E lit n table (fst p))"
    and listing: "listing (fst p) = Inr (elf_listing E lit n (table @ newer) (fst p))"
  shows "fst (process_event_type E cfg t stored listing dl None st) = ElfDone
    \<and> ec_out (snd (process_event_type E cfg t stored listing dl None st)) = []"
proof -
  have same: "elf_listing E lit n (table @ newer) (fst p) = elf_listing E lit n table (fst p)"
    using full by (simp add: elf_listing_def)
  let ?c = "start_cycle st None p"
  let ?fs = "filter (\<lambda>f. \<not> carried E (snd p) f) (elf_listing E lit n table (fst p))"
  have "file_loop E cfg t dl ?fs ?c = (ElfDone, ?c)"
    using idle by (intro file_loop_idle) (auto simp: start_cycle_def list_all_iff)
  then show ?thesis
    using start listing same by (simp add: process_event_type_def Let_def finish_cycle_def start_cycle_def)
qed

subsection \<open>A concrete world\<close>

text \<open>A codec for checkpoints that escapes each character, dates that are the length of their text.\<close>

definition demo_str :: "string \<Rightarrow> string" where
  "demo_str s = concat (map (\<lambda>c. [CHR ''x'', c]) s) @ ''.''"

fun demo_unstr :: "string \<Rightarrow> string \<times> string" where
  "demo_unstr (m # c # r) = (if m = CHR ''x'' then (let (s, r') = demo_unstr r in (c # s, r')) else ([], c # r))"
| "demo_unstr s = ([], [])"

lemma demo_unstr_str [simp]: "demo_unstr (demo_str s @ r) = (s, r)"
  by (induction s; cases r) (simp_all add: demo_str_def)

definition demo_items :: "jitem list \<Rightarrow> string" where
  "demo_items js = concat (map (\<lambda>j. case j of JStr s \<Rightarrow> ''s'' @ demo_str s
     | JPair (VStr a) (VStr b) \<Rightarrow> ''p'' @ demo_str a @ demo_str b | _ \<Rightarrow> []) js) @ ''e''"

fun demo_unitems :: "nat \<Rightarrow> string \<Rightarrow> jitem list" where
  "demo_unitems (Suc n) (m # r) =
     (if m = CHR ''s'' then (let (s, r1) = demo_unstr r in JStr s # demo_unitems n r1)
      else if m = CHR ''p'' then
        (let (a, r1) = demo_unstr r; (b, r2) = demo_unstr r1 in JPair (VStr a) (VStr b) # demo_unitems n r2)
      else [])"
| "demo_unitems n s = []"

lemma demo_items_length: "length ids < length (demo_items (serialize_carried_ids ids))"
  by (induction ids) (auto simp: demo_items_def serialize_carried_ids_def split: option.splits)

lemma demo_unitems_items:
  "length ids < n \<Longrightarrow> demo_unitems n (demo_items (serialize_carried_ids ids)) = serialize_carried_ids ids"
proof (induction ids arbitrary: n)
  case Nil
  then show ?case by (cases n) (simp_all add: demo_items_def serialize_carried_ids_def)
next
  case (Cons x ids)
  then show ?case by (cases n; cases x; cases "snd x") (auto simp: demo_items_def serialize_carried_ids_def)
qed

definition demo_date :: dt_parser where
  "demo_date s = (if s = [] then None else Some (int (length s)))"

definition demo_env :: elf_env where
  "demo_env = \<lparr>ee_strp_frac = demo_date, ee_strp_sec = Map.empty, ee_fromiso = Map.empty, ee_strp = Map.empty,
     ee_fmt = (\<lambda>t. replicate (nat t) (CHR ''0'')), ee_now = 9,
     ee_loads = (\<lambda>s. let (lc, r) = demo_unstr s in
       Some \<lparr>j_last_created = Some (VStr lc), j_ids = Some (demo_unitems (length r) r)\<rparr>),
     ee_dumps_ck = (\<lambda>lc items. demo_str lc @ demo_items items),
     ee_dumps = (\<lambda>p. []), ee_dumps_key = (\<lambda>p. []), ee_sha256 = (\<lambda>s. []), ee_transforms = [], ee_sm_fields = []\<rparr>"

lemma demo_codec: "elf_codec demo_env"
  using demo_items_length by (simp add: elf_codec_def demo_env_def demo_unitems_items Let_def)

definition demo_file :: "string \<Rightarrow> string \<Rightarrow> elf_meta" where
  "demo_file i cr = \<lparr>f_id = i, f_event_type = ''Login'', f_interval = ''Hourly'', f_log_date = [], f_created = cr,
     f_sequence = 0, f_length = 0\<rparr>"

definition demo_table :: "elf_meta list" where
  "demo_table = [demo_file ''A'' ''00'', demo_file ''B'' ''000'']"

definition demo_dl :: "elf_meta \<Rightarrow> download" where
  "demo_dl f = (if f_id f = ''A'' then [[(''N'', VStr ''1'')], [(''N'', VStr ''2'')]] else [], DlDone)"

definition demo_lit :: "string \<Rightarrow> datetime" where
  "demo_lit s = int (length s)"

definition demo_type :: elf_type where
  "demo_type = \<lparr>t_name = ''Login'', t_sm_fields = None, t_labels = [], t_sample = 1\<rparr>"

definition demo_elf_cfg :: elf_config where
  "demo_elf_cfg = \<lparr>c_types = [demo_type], c_exclude = [], c_lookback = 8, c_timestamp_column = ''TIMESTAMP_DERIVED'',
     c_settle_window = 0, c_download_max_age = 5, c_exclude_categories = []\<rparr>"

definition demo_pages :: "nat \<Rightarrow> elf_meta list \<Rightarrow> string \<Rightarrow> elf_error option + elf_meta list" where
  "demo_pages n table since = Inr (elf_listing demo_env demo_lit n table since)"

definition demo_run :: "elf_end \<times> elf_cycle" where
  "demo_run = process_event_type demo_env demo_elf_cfg demo_type None (demo_pages 5 demo_table) demo_dl None new_elf_state"

lemma demo_run_out:
  "fst demo_run = ElfDone" "map (length \<circ> yielded) (ec_out (snd demo_run)) = [1, 1]"
  by code_simp+

lemma demo_start: "start_position demo_env demo_elf_cfg new_elf_state None = Some (''0'', [])"
  by (simp add: start_position_def demo_env_def elf_now_def new_elf_state_def demo_elf_cfg_def Let_def)

lemma demo_world: "elf_world demo_env demo_lit demo_dl (fst \<circ> demo_dl) demo_table"
  by (simp add: elf_world_def demo_table_def demo_file_def ts_def parse_created_def demo_env_def demo_date_def demo_lit_def
      demo_dl_def)

lemma demo_run_item:
  "1 < length (ec_out (snd demo_run))" "hd (yielded (ec_out (snd demo_run) ! 1)) \<in> set (yielded (ec_out (snd demo_run) ! 1))"
proof -
  show len: "1 < length (ec_out (snd demo_run))" using arg_cong [OF demo_run_out(2), of length] by simp
  have "length (yielded (ec_out (snd demo_run) ! 1)) = 1"
    using arg_cong [OF demo_run_out(2), of "\<lambda>xs. xs ! 1"] len by simp
  then show "hd (yielded (ec_out (snd demo_run) ! 1)) \<in> set (yielded (ec_out (snd demo_run) ! 1))"
    by (cases "yielded (ec_out (snd demo_run) ! 1)") simp_all
qed

text \<open>The second row of the first file carries the position after it.\<close>

theorem elf_resume_safe_witness:
  "(\<exists>p. start_position demo_env demo_elf_cfg new_elf_state
            (Some (tok_value (checkpoint (hd (yielded (ec_out (snd demo_run) ! 1)))))) = Some p
      \<and> (relisted demo_env demo_lit p (demo_file ''A'' ''00'')
           \<or> accounted (fst \<circ> demo_dl) (take 2 (ec_out (snd demo_run))) (demo_file ''A'' ''00'')))
   \<and> accounted (fst \<circ> demo_dl) (ec_out (snd demo_run)) (demo_file ''A'' ''00'')"
proof -
  let ?f = "demo_file ''A'' ''00''"
  have run: "process_event_type demo_env demo_elf_cfg demo_type None (demo_pages 5 demo_table) demo_dl None new_elf_state
    = (fst demo_run, snd demo_run)" by (simp add: demo_run_def)
  have pages: "demo_pages 5 demo_table (fst (''0'', [])) = Inr (elf_listing demo_env demo_lit 5 demo_table (fst (''0'', [])))"
    by (simp add: demo_pages_def)
  have "wf_dict (snd (''0'', [] :: carried_id list))" "fst (''0'', [] :: carried_id list) \<noteq> []" by (simp_all add: wf_dict_def)
  note safe = elf_resume_safe [OF run demo_start this(2,1) demo_codec demo_world pages, of new_elf_state]
  have f: "?f \<in> set demo_table" "?f \<in> set (elf_listing demo_env demo_lit 5 demo_table ''0'')" "relisted demo_env demo_lit (''0'', []) ?f"
    "\<not> carried demo_env [] ?f"
    by (simp_all add: demo_table_def elf_listing_def demo_lit_def ts_def parse_created_def demo_env_def demo_date_def
        demo_file_def relisted_def carried_def)
  have win: "c_settle_window demo_elf_cfg = 0" by (simp add: demo_elf_cfg_def)
  show ?thesis using safe demo_run_item demo_run_out(1) f win by (simp add: numeral_2_eq_2) blast
qed

text \<open>A page of one file, which has no rows; the file after it is never reached.\<close>

theorem full_page_stalls_witness:
  "fst (process_event_type demo_env demo_elf_cfg demo_type None
          (demo_pages 1 ([demo_file ''B'' ''0''] @ [demo_file ''A'' ''00''])) demo_dl None new_elf_state) = ElfDone
   \<and> ec_out (snd (process_event_type demo_env demo_elf_cfg demo_type None
          (demo_pages 1 ([demo_file ''B'' ''0''] @ [demo_file ''A'' ''00''])) demo_dl None new_elf_state)) = []"
proof (rule full_page_stalls [OF demo_start])
  show "length (elf_listing demo_env demo_lit 1 [demo_file ''B'' ''0''] (fst (''0'', []))) = 1"
    by (simp add: elf_listing_def demo_lit_def ts_def parse_created_def demo_env_def demo_date_def demo_file_def)
  show "list_all (\<lambda>f. carried demo_env (snd (''0'', [])) f \<or> unsettled demo_env demo_elf_cfg f new_elf_state
      \<or> demo_dl f = ([], DlDone)) (elf_listing demo_env demo_lit 1 [demo_file ''B'' ''0''] (fst (''0'', [])))"
    by (simp add: elf_listing_def demo_dl_def demo_file_def)
qed (simp add: demo_pages_def)

end
