(* ===== verification/ElfCycle.thy ===== *)
theory ElfCycle
  imports ElfSource
begin

section \<open>sources/eventlogfile_source.py: the types of a cycle side by side\<close>

text \<open>
  \<^verbatim>\<open>_process_cycle\<close> and the head of \<^verbatim>\<open>events\<close>. One worker per type, gated by a semaphore, hands its entries to
  the generator through a queue of size one; a throttled type keeps the types that have not started from
  starting. The steps are those of the workers, of the task that gathers them, of the consumer and of the stop
  event, in any order (the semaphore's own queue is fair; here any waiting worker may be next). What a worker's
  generator would give is an argument: the rows of \<open>process_event_type\<close>, whether it raised and whether it
  met the request limit. A consumer that abandons the generator (cancellation) is outside the model.

  Results: a cycle ends after a bounded number of steps and is never stuck before its end; then each type was either
  skipped as a whole, which takes a stop or a throttled type, or handed on all its entries in order.
\<close>

record worker_gen =
  wg_entries :: "log_entry list"
  wg_raised :: bool
  wg_throttled :: bool

definition worker_run :: "elf_end \<times> elf_cycle \<Rightarrow> worker_gen" where
  "worker_run rc = \<lparr>wg_entries = concat (map yielded (ec_out (snd rc))), wg_raised = (fst rc = ElfRaised),
     wg_throttled = es_throttled (ec_state (snd rc))\<rparr>"

text \<open>A worker: before its first look at the events, waiting for the semaphore, with the entries still to put,
  returned without running, or at its end (with whether it raised).\<close>

datatype worker = WNew | WQueued | WRunning "log_entry list" | WSkipped | WEnded bool

datatype cycle_item = CEntry nat log_entry | CycleDone

record cycle_run =
  cr_workers :: "worker list"
  cr_queue :: "cycle_item option"
  cr_throttle_event :: bool
  cr_cycle_throttled :: bool
  cr_stop :: bool
  cr_signalled :: bool
  cr_out :: "(nat \<times> log_entry) list"
  cr_ended :: bool

definition start_run :: "nat \<Rightarrow> bool \<Rightarrow> cycle_run" where
  "start_run n throttled =
     \<lparr>cr_workers = replicate n WNew, cr_queue = None, cr_throttle_event = False, cr_cycle_throttled = throttled,
      cr_stop = False, cr_signalled = False, cr_out = [], cr_ended = False\<rparr>"

definition events_set :: "cycle_run \<Rightarrow> bool" where
  "events_set c \<longleftrightarrow> cr_throttle_event c \<or> cr_stop c"

fun is_running :: "worker \<Rightarrow> bool" where
  "is_running (WRunning es) = True" | "is_running _ = False"

fun finished :: "worker \<Rightarrow> bool" where
  "finished WSkipped = True" | "finished (WEnded r) = True" | "finished _ = False"

definition running :: "cycle_run \<Rightarrow> nat" where
  "running c = length (filter is_running (cr_workers c))"

definition set_worker :: "nat \<Rightarrow> worker \<Rightarrow> cycle_run \<Rightarrow> cycle_run" where
  "set_worker i w c = c\<lparr>cr_workers := (cr_workers c)[i := w]\<rparr>"

text \<open>The end of a worker's generator: a return looks at the throttle mark, an exception passes it by.\<close>

definition end_worker :: "worker_gen \<Rightarrow> nat \<Rightarrow> cycle_run \<Rightarrow> cycle_run" where
  "end_worker g i c =
     (let c1 = (set_worker i (WEnded (wg_raised g)) c)\<lparr>cr_cycle_throttled := cr_cycle_throttled c \<or> wg_throttled g\<rparr>
      in if \<not> wg_raised g \<and> cr_cycle_throttled c1 then c1\<lparr>cr_throttle_event := True\<rparr> else c1)"

inductive cycle_step :: "nat \<Rightarrow> worker_gen list \<Rightarrow> cycle_run \<Rightarrow> cycle_run \<Rightarrow> bool"
  for concurrency :: nat and gens :: "worker_gen list" where
  enter: "i < length (cr_workers c) \<Longrightarrow> cr_workers c ! i = WNew \<Longrightarrow>
    cycle_step concurrency gens c (set_worker i (if events_set c then WSkipped else WQueued) c)"
| acquire: "i < length (cr_workers c) \<Longrightarrow> cr_workers c ! i = WQueued \<Longrightarrow> running c < concurrency \<Longrightarrow>
    cycle_step concurrency gens c (set_worker i (if events_set c then WSkipped else WRunning (wg_entries (gens ! i))) c)"
| put: "i < length (cr_workers c) \<Longrightarrow> cr_workers c ! i = WRunning (e # es) \<Longrightarrow> cr_queue c = None \<Longrightarrow>
    cycle_step concurrency gens c ((set_worker i (WRunning es) c)\<lparr>cr_queue := Some (CEntry i e)\<rparr>)"
| finish: "i < length (cr_workers c) \<Longrightarrow> cr_workers c ! i = WRunning [] \<Longrightarrow>
    cycle_step concurrency gens c (end_worker (gens ! i) i c)"
| signal: "list_all finished (cr_workers c) \<Longrightarrow> \<not> cr_signalled c \<Longrightarrow> cr_queue c = None \<Longrightarrow>
    cycle_step concurrency gens c (c\<lparr>cr_queue := Some CycleDone, cr_signalled := True\<rparr>)"
| get_entry: "cr_queue c = Some (CEntry i e) \<Longrightarrow>
    cycle_step concurrency gens c (c\<lparr>cr_queue := None, cr_out := cr_out c @ [(i, e)]\<rparr>)"
| get_end: "cr_queue c = Some CycleDone \<Longrightarrow> cycle_step concurrency gens c (c\<lparr>cr_queue := None, cr_ended := True\<rparr>)"
| stop: "\<not> cr_stop c \<Longrightarrow> cycle_step concurrency gens c (c\<lparr>cr_stop := True\<rparr>)"

text \<open>After its end the generator raises what the first worker that failed raised.\<close>

definition first_failure :: "cycle_run \<Rightarrow> nat option" where
  "first_failure c = find (\<lambda>i. cr_workers c ! i = WEnded True) [0..<length (cr_workers c)]"

text \<open>The head of a cycle: the throttle mark is cleared, then types and skew are worked out.\<close>

definition begin_cycle ::
  "elf_config \<Rightarrow> elf_error + string list \<Rightarrow> int option \<Rightarrow> elf_state \<Rightarrow> elf_type list \<times> elf_state" where
  "begin_cycle cfg answer skew st =
     (let (types, st1) = resolve_event_types cfg answer (st\<lparr>es_throttled := False\<rparr>);
          (s, st2) = compute_cycle_skew skew st1
      in (types, st2\<lparr>es_skew := s\<rparr>))"

subsection \<open>What each worker has handed on\<close>

definition queued :: "cycle_run \<Rightarrow> (nat \<times> log_entry) list" where
  "queued c = (case cr_queue c of Some (CEntry i e) \<Rightarrow> [(i, e)] | _ \<Rightarrow> [])"

definition handed :: "nat \<Rightarrow> cycle_run \<Rightarrow> log_entry list" where
  "handed i c = map snd (filter (\<lambda>p. fst p = i) (cr_out c @ queued c))"

fun worker_ok :: "worker_gen \<Rightarrow> bool \<Rightarrow> log_entry list \<Rightarrow> worker \<Rightarrow> bool" where
  "worker_ok g ev out WNew \<longleftrightarrow> out = []"
| "worker_ok g ev out WQueued \<longleftrightarrow> out = []"
| "worker_ok g ev out (WRunning es) \<longleftrightarrow> out @ es = wg_entries g"
| "worker_ok g ev out WSkipped \<longleftrightarrow> out = [] \<and> ev"
| "worker_ok g ev out (WEnded r) \<longleftrightarrow> out = wg_entries g \<and> r = wg_raised g"

definition run_inv :: "nat \<Rightarrow> worker_gen list \<Rightarrow> cycle_run \<Rightarrow> bool" where
  "run_inv n gens c \<longleftrightarrow> length (cr_workers c) = length gens
     \<and> (\<forall>i < length gens. worker_ok (gens ! i) (events_set c) (handed i c) (cr_workers c ! i))
     \<and> running c \<le> n \<and> (cr_signalled c \<longrightarrow> list_all finished (cr_workers c) \<and> queued c = [])
     \<and> (cr_queue c = Some CycleDone \<or> cr_ended c \<longleftrightarrow> cr_signalled c) \<and> (cr_ended c \<longrightarrow> cr_queue c = None)"

lemma handed_simps [simp]:
  "handed i (set_worker j w c) = handed i c" "queued (set_worker j w c) = queued c"
  "events_set (set_worker j w c) = events_set c"
  by (simp_all add: handed_def set_worker_def queued_def events_set_def)

lemma set_worker_fields [simp]:
  "cr_workers (set_worker i w c) = (cr_workers c)[i := w]" "cr_queue (set_worker i w c) = cr_queue c"
  "cr_signalled (set_worker i w c) = cr_signalled c" "cr_ended (set_worker i w c) = cr_ended c"
  "cr_out (set_worker i w c) = cr_out c" "cr_stop (set_worker i w c) = cr_stop c"
  by (simp_all add: set_worker_def)

lemma end_worker_fields [simp]:
  "cr_workers (end_worker g i c) = (cr_workers c)[i := WEnded (wg_raised g)]" "cr_queue (end_worker g i c) = cr_queue c"
  "cr_signalled (end_worker g i c) = cr_signalled c" "cr_ended (end_worker g i c) = cr_ended c"
  "cr_out (end_worker g i c) = cr_out c" "cr_stop (end_worker g i c) = cr_stop c"
  "handed j (end_worker g i c) = handed j c" "running (end_worker g i c) = running (set_worker i (WEnded (wg_raised g)) c)"
  "events_set c \<Longrightarrow> events_set (end_worker g i c)"
  by (auto simp: end_worker_def Let_def handed_def queued_def running_def events_set_def set_worker_def)

lemma worker_ok_mono: "worker_ok g ev out w \<Longrightarrow> (ev \<longrightarrow> ev') \<Longrightarrow> worker_ok g ev' out w"
  by (cases w) auto

lemma running_set:
  "i < length (cr_workers c) \<Longrightarrow>
   running (set_worker i w c) + (if is_running (cr_workers c ! i) then 1 else 0) = running c + (if is_running w then 1 else 0)"
  using count_update [of i "cr_workers c" is_running w] by (simp add: running_def set_worker_def)

lemma run_inv_worker:
  assumes inv: "run_inv n gens c" and i: "i < length gens" "\<not> finished (cr_workers c ! i)"
    and c': "cr_workers c' = (cr_workers c)[i := w]" "cr_signalled c' = cr_signalled c" "cr_ended c' = cr_ended c"
      "cr_queue c' \<noteq> Some CycleDone \<or> cr_queue c' = cr_queue c" "events_set c \<Longrightarrow> events_set c'" "running c' \<le> n"
    and own: "worker_ok (gens ! i) (events_set c') (handed i c') w" and others: "\<And>j. j \<noteq> i \<Longrightarrow> handed j c' = handed j c"
  shows "run_inv n gens c'"
proof -
  have len: "length (cr_workers c) = length gens" using inv by (simp add: run_inv_def)
  have "\<not> list_all finished (cr_workers c)" using i len by (auto simp: list_all_length)
  then have off: "\<not> cr_signalled c" "cr_queue c \<noteq> Some CycleDone" "\<not> cr_ended c" using inv by (auto simp: run_inv_def)
  have "worker_ok (gens ! j) (events_set c') (handed j c') ((cr_workers c)[i := w] ! j)" if "j < length gens" for j
  proof (cases "j = i")
    case False
    then show ?thesis using inv that c'(5) others by (auto simp: run_inv_def intro: worker_ok_mono)
  qed (use own i len in simp)
  then show ?thesis using inv off c' by (auto simp: run_inv_def)
qed

lemma run_inv_step:
  assumes "cycle_step n gens c c'" "run_inv n gens c"
  shows "run_inv n gens c'"
  using assms(1)
proof (cases rule: cycle_step.cases)
  case (enter i)
  let ?w = "if events_set c then WSkipped else WQueued"
  have i: "i < length gens" using enter assms(2) by (simp add: run_inv_def)
  have "worker_ok (gens ! i) (events_set c) (handed i c) WNew" using assms(2) i enter by (auto simp: run_inv_def)
  then show ?thesis unfolding enter(1)
    using running_set [OF enter(2), of ?w] enter(3) assms(2)
    by (intro run_inv_worker [OF assms(2) i, where w = ?w]) (simp_all add: run_inv_def)
next
  case (acquire i)
  let ?w = "if events_set c then WSkipped else WRunning (wg_entries (gens ! i))"
  have i: "i < length gens" using acquire assms(2) by (simp add: run_inv_def)
  have "worker_ok (gens ! i) (events_set c) (handed i c) WQueued" using assms(2) i acquire by (auto simp: run_inv_def)
  then show ?thesis unfolding acquire(1)
    using running_set [OF acquire(2), of ?w] acquire(3,4) assms(2)
    by (intro run_inv_worker [OF assms(2) i, where w = ?w]) (simp_all add: run_inv_def split: if_splits)
next
  case (put i e es)
  have i: "i < length gens" using put assms(2) by (simp add: run_inv_def)
  have "worker_ok (gens ! i) (events_set c) (handed i c) (WRunning (e # es))" using assms(2) i put by (auto simp: run_inv_def)
  then show ?thesis unfolding put(1)
    using running_set [OF put(2), of "WRunning es"] put(3,4) assms(2)
    by (intro run_inv_worker [OF assms(2) i, where w = "WRunning es"])
      (simp_all add: run_inv_def events_set_def handed_def queued_def running_def set_worker_def)
next
  case (finish i)
  let ?w = "WEnded (wg_raised (gens ! i))"
  have i: "i < length gens" using finish assms(2) by (simp add: run_inv_def)
  have "worker_ok (gens ! i) (events_set c) (handed i c) (WRunning [])" using assms(2) i finish by (auto simp: run_inv_def)
  then show ?thesis unfolding finish(1)
    using running_set [OF finish(2), of ?w] finish(3) assms(2)
    by (intro run_inv_worker [OF assms(2) i, where w = ?w])
      (simp_all add: run_inv_def)
next
  case signal
  then show ?thesis using assms(2) by (auto simp: run_inv_def handed_def queued_def events_set_def running_def)
next
  case (get_entry i e)
  then have "\<not> cr_signalled c" using assms(2) by (auto simp: run_inv_def queued_def)
  then show ?thesis using assms(2) get_entry by (auto simp: run_inv_def handed_def queued_def events_set_def running_def)
next
  case get_end
  then show ?thesis using assms(2) by (auto simp: run_inv_def handed_def queued_def events_set_def running_def)
next
  case stop
  then show ?thesis using assms(2)
    by (auto simp: run_inv_def handed_def queued_def events_set_def running_def intro: worker_ok_mono)
qed

lemma run_inv_start: "run_inv n gens (start_run (length gens) thr)"
  by (auto simp: run_inv_def start_run_def handed_def queued_def running_def)

lemma run_inv_reach: "(cycle_step n gens)\<^sup>*\<^sup>* (start_run (length gens) thr) c \<Longrightarrow> run_inv n gens c"
  by (induction rule: rtranclp_induct) (auto simp: run_inv_start intro: run_inv_step)

subsection \<open>Bounded length\<close>

fun worker_work :: "worker_gen \<Rightarrow> worker \<Rightarrow> nat" where
  "worker_work g WNew = 3 + 2 * length (wg_entries g)"
| "worker_work g WQueued = 2 + 2 * length (wg_entries g)"
| "worker_work g (WRunning es) = 1 + 2 * length es"
| "worker_work g _ = 0"

definition work :: "worker_gen list \<Rightarrow> cycle_run \<Rightarrow> nat" where
  "work gens c = sum_list (map2 worker_work gens (cr_workers c)) + (if cr_queue c = None then 0 else 1)
     + (if cr_signalled c then 0 else 2) + (if cr_stop c then 0 else 1)"

lemma work_set:
  assumes "i < length ws" "length gens = length ws"
  shows "sum_list (map2 worker_work gens (ws[i := w])) + worker_work (gens ! i) (ws ! i)
    = sum_list (map2 worker_work gens ws) + worker_work (gens ! i) w"
  using assms(2,1)
proof (induction gens ws arbitrary: i rule: list_induct2)
  case (Cons g gens x ws)
  then show ?case by (cases i) auto
qed simp

lemma work_decreases:
  assumes "cycle_step n gens c c'" "length gens = length (cr_workers c)"
  shows "work gens c' < work gens c"
  using assms(1)
proof (cases rule: cycle_step.cases)
  case (enter i)
  then show ?thesis using work_set [OF enter(2) assms(2), of "if events_set c then WSkipped else WQueued"]
    by (auto simp: work_def set_worker_def)
next
  case (acquire i)
  then show ?thesis
    using work_set [OF acquire(2) assms(2), of "if events_set c then WSkipped else WRunning (wg_entries (gens ! i))"]
    by (auto simp: work_def set_worker_def)
next
  case (put i e es)
  then show ?thesis using work_set [OF put(2) assms(2), of "WRunning es"] by (auto simp: work_def set_worker_def)
next
  case (finish i)
  then show ?thesis using work_set [OF finish(2) assms(2), of "WEnded (wg_raised (gens ! i))"]
    by (auto simp: work_def set_worker_def end_worker_def Let_def)
qed (auto simp: work_def)

lemma run_length:
  "(cycle_step n gens ^^ k) (start_run (length gens) thr) c \<Longrightarrow>
   run_inv n gens c \<and> k + work gens c \<le> work gens (start_run (length gens) thr)"
proof (induction k arbitrary: c)
  case 0
  then show ?case using run_inv_start [of n gens thr] by auto
next
  case (Suc k)
  then obtain b where b: "(cycle_step n gens ^^ k) (start_run (length gens) thr) b" "cycle_step n gens b c" by auto
  with Suc.IH have inv: "run_inv n gens b" "k + work gens b \<le> work gens (start_run (length gens) thr)" by auto
  moreover have "work gens c < work gens b" using work_decreases [OF b(2)] inv(1) by (simp add: run_inv_def)
  ultimately show ?case using run_inv_step [OF b(2)] by auto
qed

lemma work_start: "work gens (start_run (length gens) thr) = 3 * length gens + 2 * sum_list (map (length \<circ> wg_entries) gens) + 3"
proof -
  have "sum_list (map2 worker_work gens (replicate (length gens) WNew)) = 3 * length gens + 2 * sum_list (map (length \<circ> wg_entries) gens)"
    by (induction gens) auto
  then show ?thesis by (simp add: work_def start_run_def)
qed

subsection \<open>Never stuck\<close>

lemma can_step:
  assumes inv: "run_inv n gens c" and "\<not> cr_ended c" "0 < n"
  shows "\<exists>c'. cycle_step n gens c c' \<and> cr_stop c' = cr_stop c"
proof (cases "cr_queue c")
  case (Some q)
  then show ?thesis by (cases q) (force intro: cycle_step.get_entry cycle_step.get_end)+
next
  case None
  show ?thesis
  proof (cases "list_all finished (cr_workers c)")
    case True
    moreover have "\<not> cr_signalled c" using inv assms(2) None by (simp add: run_inv_def)
    ultimately show ?thesis using cycle_step.signal None by fastforce
  next
    case False
    then obtain i where i: "i < length (cr_workers c)" "\<not> finished (cr_workers c ! i)" by (auto simp: list_all_length)
    consider (new) "cr_workers c ! i = WNew" | (run) j where "j < length (cr_workers c)" "is_running (cr_workers c ! j)"
      | (q) "cr_workers c ! i = WQueued" "running c = 0"
    proof (cases "cr_workers c ! i")
      case WQueued
      then show thesis using that(2,3) by (cases "running c = 0") (auto simp: running_def filter_empty_conv in_set_conv_nth)
    qed (use that i in auto)
    then show ?thesis
    proof cases
      case new
      from cycle_step.enter [OF i(1) this] show ?thesis by (intro exI conjI) (assumption | simp)+
    next
      case q
      have "running c < n" using q(2) assms(3) by simp
      from cycle_step.acquire [OF i(1) q(1) this] show ?thesis by (intro exI conjI) (assumption | simp)+
    next
      case (run j)
      then obtain es where es: "cr_workers c ! j = WRunning es" by (cases "cr_workers c ! j") auto
      show ?thesis
      proof (cases es)
        case Nil
        from cycle_step.finish [OF run(1) es [unfolded Nil]] show ?thesis by (intro exI conjI) (assumption | simp)+
      next
        case (Cons e es')
        from cycle_step.put [OF run(1) es [unfolded Cons] None] show ?thesis by (intro exI conjI) (assumption | simp)+
      qed
    qed
  qed
qed

text \<open>What the generator yielded of one type; at its end nothing is left in the queue.\<close>

definition yields :: "nat \<Rightarrow> cycle_run \<Rightarrow> log_entry list" where
  "yields i c = map snd (filter (\<lambda>p. fst p = i) (cr_out c))"

lemma ended_yields: "run_inv n gens c \<Longrightarrow> cr_ended c \<Longrightarrow> handed i c = yields i c"
  by (auto simp: run_inv_def handed_def yields_def)

lemma reaches_end:
  assumes "run_inv n gens c" "0 < n"
  shows "\<exists>k c'. (cycle_step n gens ^^ k) c c' \<and> cr_ended c' \<and> cr_stop c' = cr_stop c"
  using assms(1)
proof (induction c rule: measure_induct_rule [of "work gens"])
  case (less c)
  show ?case
  proof (cases "cr_ended c")
    case True
    then show ?thesis by (intro exI [of _ 0] exI [of _ c]) simp
  next
    case False
    then obtain b where b: "cycle_step n gens c b" "cr_stop b = cr_stop c" using can_step less.prems assms(2) by blast
    then have "work gens b < work gens c" "run_inv n gens b"
      using work_decreases run_inv_step less.prems by (auto simp: run_inv_def)
    then obtain k c' where "(cycle_step n gens ^^ k) b c'" "cr_ended c'" "cr_stop c' = cr_stop b" using less.IH by blast
    then show ?thesis using b relpowp_Suc_I2 by metis
  qed
qed

text \<open>Once the throttle event is set, a type that does not run yet never will.\<close>

lemma throttle_bars_start:
  assumes "(cycle_step n gens)\<^sup>*\<^sup>* c c'" "cr_throttle_event c" "i < length (cr_workers c)" "cr_workers c ! i \<in> {WNew, WQueued, WSkipped}"
  shows "cr_throttle_event c' \<and> i < length (cr_workers c') \<and> cr_workers c' ! i \<in> {WNew, WQueued, WSkipped}"
  using assms
proof (induction rule: rtranclp_induct)
  case (step b d)
  then have b: "cr_throttle_event b" "i < length (cr_workers b)" "cr_workers b ! i \<in> {WNew, WQueued, WSkipped}" by auto
  from step.hyps(2) show ?case
    by (cases rule: cycle_step.cases)
      (use b in \<open>auto simp: set_worker_def events_set_def end_worker_def Let_def nth_list_update split: if_splits\<close>)
qed simp

text \<open>A throttled discovery, on the other hand, does not keep the first types from running.\<close>

lemma throttled_discovery_runs_on:
  "\<exists>c. (cycle_step 2 [g, h])\<^sup>*\<^sup>* (start_run 2 True) c \<and> running c = 2"
proof -
  let ?s = "start_run 2 True"
  let ?a = "set_worker 0 WQueued ?s" let ?b = "set_worker 1 WQueued ?a"
  let ?c = "set_worker 0 (WRunning (wg_entries g)) ?b" let ?d = "set_worker 1 (WRunning (wg_entries h)) ?c"
  note defs = start_run_def events_set_def running_def set_worker_def numeral_2_eq_2
  have "cycle_step 2 [g, h] ?s ?a" using cycle_step.enter [of 0 ?s 2 "[g, h]"] by (simp add: defs)
  moreover have "cycle_step 2 [g, h] ?a ?b" using cycle_step.enter [of 1 ?a 2 "[g, h]"] by (simp add: defs)
  moreover have "cycle_step 2 [g, h] ?b ?c" using cycle_step.acquire [of 0 ?b 2 "[g, h]"] by (simp add: defs)
  moreover have "cycle_step 2 [g, h] ?c ?d" using cycle_step.acquire [of 1 ?c 2 "[g, h]"] by (simp add: defs)
  moreover have "running ?d = 2" by (simp add: defs)
  ultimately show ?thesis by (meson rtranclp.rtrancl_refl rtranclp.rtrancl_into_rtrancl)
qed

text \<open>
  C10. Any cycle of any event types, with any interleaving of workers, consumer and stop: after \<open>k\<close> steps either it has ended
  or it can go on without waiting for a stop, at most the configured number of types run, and \<open>k\<close> is bounded by three steps per
  type and two per entry. At its end every type is finished, and it was skipped as a whole, with nothing
  handed on (only after a stop or a throttled type), or all of its entries were handed on in order.
\<close>

theorem elf_cycle_ends:
  assumes types: "gens = map (\<lambda>t. worker_run (process_event_type E cfg t (stored t) (listing t) (dl t) (stops t) st)) types"
    and run: "(cycle_step concurrency gens ^^ k) (start_run (length types) (es_throttled st)) c" and pos: "0 < concurrency"
  shows "k \<le> 3 * length types + 2 * sum_list (map (length \<circ> wg_entries) gens) + 3 \<and> running c \<le> concurrency
    \<and> (cr_ended c \<or> (\<exists>c'. cycle_step concurrency gens c c' \<and> cr_stop c' = cr_stop c))
    \<and> (cr_ended c \<and> i < length types \<longrightarrow>
        cr_workers c ! i = WSkipped \<and> events_set c \<and> yields i c = []
        \<or> cr_workers c ! i = WEnded (wg_raised (gens ! i)) \<and> yields i c = wg_entries (gens ! i))"
proof (intro conjI impI)
  have len: "length gens = length types" using types by simp
  note rl = run_length [OF run [folded len]]
  show "k \<le> 3 * length types + 2 * sum_list (map (length \<circ> wg_entries) gens) + 3"
    using rl work_start [of gens "es_throttled st"] len by simp
  show "running c \<le> concurrency" using rl by (simp add: run_inv_def)
  show "cr_ended c \<or> (\<exists>c'. cycle_step concurrency gens c c' \<and> cr_stop c' = cr_stop c)"
    using can_step rl pos by blast
  assume e: "cr_ended c \<and> i < length types"
  have inv: "run_inv concurrency gens c" using rl by simp
  have y: "handed i c = yields i c" using ended_yields [OF inv] e by simp
  have "finished (cr_workers c ! i)" using inv e len by (auto simp: list_all_length run_inv_def)
  moreover have "worker_ok (gens ! i) (events_set c) (handed i c) (cr_workers c ! i)" using inv e len by (simp add: run_inv_def)
  ultimately show "cr_workers c ! i = WSkipped \<and> events_set c \<and> yields i c = []
      \<or> cr_workers c ! i = WEnded (wg_raised (gens ! i)) \<and> yields i c = wg_entries (gens ! i)"
    using y by (cases "cr_workers c ! i") auto
qed

text \<open>The type of the concrete world above: its cycle ends, with both of its entries.\<close>

theorem elf_cycle_ends_witness:
  "\<exists>k c. (cycle_step 1 [worker_run demo_run] ^^ k) (start_run 1 False) c \<and> cr_ended c \<and> \<not> cr_stop c
     \<and> k \<le> 3 * 1 + 2 * length (wg_entries (worker_run demo_run)) + 3
     \<and> (cr_workers c ! 0 = WSkipped \<and> events_set c \<and> yields 0 c = []
        \<or> cr_workers c ! 0 = WEnded False \<and> yields 0 c = wg_entries (worker_run demo_run))"
proof -
  let ?g = "worker_run demo_run"
  obtain k c where c: "(cycle_step 1 [?g] ^^ k) (start_run 1 False) c" "cr_ended c" "\<not> cr_stop c"
    using reaches_end [OF run_inv_start [of 1 "[?g]" False]] by (auto simp: start_run_def)
  have "[?g] = map (\<lambda>t. worker_run (process_event_type demo_env demo_elf_cfg t None (demo_pages 5 demo_table) demo_dl None new_elf_state))
      [demo_type]" by (simp add: demo_run_def)
  from elf_cycle_ends [OF this, where concurrency = 1 and k = k and c = c and i = 0] c show ?thesis
    by (intro exI [of _ k] exI [of _ c]) (simp add: new_elf_state_def worker_run_def demo_run_out)
qed

end
