(* ===== verification/Auth.thy ===== *)
theory Auth
  imports Retry Shaping
begin

section \<open>auth/jwt_auth.py: access tokens\<close>

text \<open>
  \<^verbatim>\<open>src/sf2loki/auth/jwt_auth.py\<close>. The network and the clock are a world of any type that
  requests and clock readings move on; the JWT signature and the retry engine are parameters, and a statement about
  retries assumes that the engine runs at most four attempts. \<open>token\<close> and \<open>org_id\<close> are the calls of one task; the step relation
  cuts \<open>token\<close> at its awaits, for any number of tasks on one provider.

  Results: what a mint sends and when it raises which exception; of any number of concurrent callers at most one mints,
  and only when no valid token is cached; a lifetime of at most the refresh skew makes every call mint.
\<close>

definition JWT_LIFETIME :: int where "JWT_LIFETIME = 180 * 1000000"
definition REFRESH_SKEW :: int where "REFRESH_SKEW = 60 * 1000000"
definition MAX_AUTH_ATTEMPTS :: nat where "MAX_AUTH_ATTEMPTS = 4"

record access_token =
  at_value :: string
  at_instance_url :: string
  at_expires_at :: datetime

text \<open>An HTTP response: its status, its text and its decoded JSON, if it is JSON.\<close>

record 'b response =
  rs_status :: nat
  rs_text :: string
  rs_json :: "'b option"

definition is_success :: "'b response \<Rightarrow> bool" where
  "is_success r \<longleftrightarrow> 200 \<le> rs_status r \<and> rs_status r < 300"

text \<open>What a request raises: an error of the transport, a status the endpoint answered with, or anything
  else (a body that is not JSON or lacks a field).\<close>

datatype auth_exc = TransportError | TokenEndpointError nat | OtherError

definition should_retry :: "auth_exc \<Rightarrow> bool" where
  "should_retry exc = (case exc of TransportError \<Rightarrow> True | TokenEndpointError s \<Rightarrow> 500 \<le> s | OtherError \<Rightarrow> False)"

datatype auth_mode = JwtBearer | ClientCredentials

record sf_config =
  sf_login_url :: string
  sf_client_id :: string
  sf_username :: string
  sf_private_key :: "string option"
  sf_client_secret :: "string option"
  sf_auth_mode :: auth_mode
  sf_token_ttl :: int
  sf_org_id :: "string option"
  sf_api_version :: string

record claims =
  cl_iss :: string
  cl_sub :: string
  cl_aud :: string
  cl_exp :: datetime

type_synonym json_body = "(string, string) dict"

record 'o auth_env =
  au_cfg :: sf_config
  au_now :: "'o \<Rightarrow> datetime \<times> 'o"
  au_post :: "string \<Rightarrow> (string, string) dict \<Rightarrow> 'o \<Rightarrow> (auth_exc + json_body response) \<times> 'o"
  au_userinfo :: "string \<Rightarrow> string \<Rightarrow> 'o \<Rightarrow> (auth_exc + json_body response) \<times> 'o"
  au_jwt_encode :: "claims \<Rightarrow> string \<Rightarrow> string"
  au_retry_mint :: "('o, auth_exc, access_token) attempt_fn \<Rightarrow> ('o, auth_exc, access_token) attempt_fn"
  au_retry_org :: "('o, auth_exc, string) attempt_fn \<Rightarrow> ('o, auth_exc, string) attempt_fn"

record provider =
  tp_cached :: "access_token option"
  tp_org_id_cached :: "string option"
  tp_refreshes :: nat
  tp_errors :: nat

definition new_provider :: provider where
  "new_provider = \<lparr>tp_cached = None, tp_org_id_cached = None, tp_refreshes = 0, tp_errors = 0\<rparr>"

text \<open>The exceptions that leave the provider: \<^verbatim>\<open>AuthError\<close> with its cause, or another one.\<close>

datatype auth_fail = AuthError auth_exc | AuthOther

definition is_valid :: "datetime \<Rightarrow> access_token option \<Rightarrow> bool" where
  "is_valid now tok = (case tok of None \<Rightarrow> False | Some t \<Rightarrow> now < at_expires_at t - REFRESH_SKEW)"

definition invalidate :: "provider \<Rightarrow> provider" where
  "invalidate tp = tp\<lparr>tp_cached := None\<rparr>"

definition has_token :: "datetime \<Rightarrow> provider \<Rightarrow> bool" where
  "has_token now tp = is_valid now (tp_cached tp)"

text \<open>\<open>None\<close> is the failed assertion that a key is there.\<close>

definition mint_jwt :: "'o auth_env \<Rightarrow> 'o \<Rightarrow> string option \<times> 'o" where
  "mint_jwt env o0 =
     (let (now, o1) = au_now env o0; cfg = au_cfg env in
      (map_option
        (au_jwt_encode env \<lparr>cl_iss = sf_client_id cfg, cl_sub = sf_username cfg, cl_aud = sf_login_url cfg,
                            cl_exp = now + JWT_LIFETIME\<rparr>)
        (sf_private_key cfg), o1))"

definition token_form :: "'o auth_env \<Rightarrow> 'o \<Rightarrow> (string, string) dict option \<times> 'o" where
  "token_form env o0 =
     (let cfg = au_cfg env in
      case sf_auth_mode cfg of
        ClientCredentials \<Rightarrow>
          (map_option (\<lambda>s. [(''grant_type'', ''client_credentials''), (''client_id'', sf_client_id cfg), (''client_secret'', s)])
             (sf_client_secret cfg), o0)
      | JwtBearer \<Rightarrow>
          (let (jwt, o1) = mint_jwt env o0 in
           (map_option (\<lambda>a. [(''grant_type'', ''urn:ietf:params:oauth:grant-type:jwt-bearer''), (''assertion'', a)]) jwt, o1)))"

definition request_token :: "'o auth_env \<Rightarrow> ('o, auth_exc, access_token) attempt_fn" where
  "request_token env o0 =
     (case token_form env o0 of
        (None, o1) \<Rightarrow> (Inl OtherError, o1)
      | (Some form, o1) \<Rightarrow>
          (case au_post env (sf_login_url (au_cfg env) @ ''/services/oauth2/token'') form o1 of
             (Inl exc, o2) \<Rightarrow> (Inl exc, o2)
           | (Inr resp, o2) \<Rightarrow>
               if \<not> is_success resp then (Inl (TokenEndpointError (rs_status resp)), o2)
               else (case rs_json resp of
                       None \<Rightarrow> (Inl OtherError, o2)
                     | Some body \<Rightarrow>
                         (case (map_of body ''access_token'', map_of body ''instance_url'') of
                            (Some v, Some u) \<Rightarrow>
                              (let (now, o3) = au_now env o2
                               in (Inr \<lparr>at_value = v, at_instance_url = u, at_expires_at = now + sf_token_ttl (au_cfg env)\<rparr>, o3))
                          | _ \<Rightarrow> (Inl OtherError, o2)))))"

text \<open>The two handlers around the retries: an exhausted or non-retryable endpoint error becomes
  \<^verbatim>\<open>AuthError\<close>, anything else passes.\<close>

definition auth_error :: "auth_exc \<Rightarrow> auth_fail" where
  "auth_error exc = (if exc = OtherError then AuthOther else AuthError exc)"

definition mint_token :: "'o auth_env \<Rightarrow> 'o \<times> provider \<Rightarrow> (auth_fail + access_token) \<times> ('o \<times> provider)" where
  "mint_token env s =
     (case au_retry_mint env (request_token env) (fst s) of
        (Inr tok, o1) \<Rightarrow> (Inr tok, (o1, (snd s)\<lparr>tp_refreshes := tp_refreshes (snd s) + 1\<rparr>))
      | (Inl exc, o1) \<Rightarrow>
          (Inl (auth_error exc),
           (o1, if exc = OtherError then snd s else (snd s)\<lparr>tp_errors := tp_errors (snd s) + 1\<rparr>)))"

definition token :: "'o auth_env \<Rightarrow> 'o \<times> provider \<Rightarrow> (auth_fail + access_token) \<times> ('o \<times> provider)" where
  "token env s =
     (let (now, o1) = au_now env (fst s) in
      if is_valid now (tp_cached (snd s)) then (Inr (the (tp_cached (snd s))), (o1, snd s))
      else
        (let (now', o2) = au_now env o1 in
         if is_valid now' (tp_cached (snd s)) then (Inr (the (tp_cached (snd s))), (o2, snd s))
         else (case mint_token env (o2, snd s) of
                 (Inr tok, (o3, tp)) \<Rightarrow> (Inr tok, (o3, tp\<lparr>tp_cached := Some tok\<rparr>))
               | (Inl f, s') \<Rightarrow> (Inl f, s'))))"

definition fetch_org_id :: "'o auth_env \<Rightarrow> access_token \<Rightarrow> ('o, auth_exc, string) attempt_fn" where
  "fetch_org_id env tok o0 =
     (case au_userinfo env (at_instance_url tok @ ''/services/oauth2/userinfo'') (at_value tok) o0 of
        (Inl exc, o1) \<Rightarrow> (Inl exc, o1)
      | (Inr resp, o1) \<Rightarrow>
          if \<not> is_success resp then (Inl (TokenEndpointError (rs_status resp)), o1)
          else (case rs_json resp of
                  None \<Rightarrow> (Inl OtherError, o1)
                | Some body \<Rightarrow> (case map_of body ''organization_id'' of None \<Rightarrow> (Inl OtherError, o1) | Some i \<Rightarrow> (Inr i, o1))))"

definition org_id :: "'o auth_env \<Rightarrow> 'o \<times> provider \<Rightarrow> (auth_fail + string) \<times> ('o \<times> provider)" where
  "org_id env s =
     (case (sf_org_id (au_cfg env), tp_org_id_cached (snd s)) of
        (Some i, _) \<Rightarrow> (Inr i, s)
      | (None, Some i) \<Rightarrow> (Inr i, s)
      | (None, None) \<Rightarrow>
          (case token env s of
             (Inl f, s1) \<Rightarrow> (Inl f, s1)
           | (Inr tok, (o1, tp)) \<Rightarrow>
               (case au_retry_org env (fetch_org_id env tok) o1 of
                  (Inr i, o2) \<Rightarrow> (Inr i, (o2, tp\<lparr>tp_org_id_cached := Some i\<rparr>))
                | (Inl exc, o2) \<Rightarrow> (Inl (auth_error exc), (o2, tp)))))"

subsection \<open>Several tasks on one provider\<close>

text \<open>\<open>Minting\<close> holds the lock; a task that got something keeps it, with the time of the check that let a
  cached token pass (\<open>None\<close>: it minted).\<close>

datatype caller = Idle | Waiting | Minting | Returned access_token "datetime option" | Raised auth_fail

record shared =
  sh_now :: datetime
  sh_provider :: provider
  sh_locked :: bool
  sh_tasks :: "caller list"

definition set_task :: "nat \<Rightarrow> caller \<Rightarrow> shared \<Rightarrow> shared" where
  "set_task i t s = s\<lparr>sh_tasks := (sh_tasks s)[i := t]\<rparr>"

definition hit :: "nat \<Rightarrow> shared \<Rightarrow> shared" where
  "hit i s = set_task i (Returned (the (tp_cached (sh_provider s))) (Some (sh_now s))) s"

text \<open>The end of a mint, with its outcome: the token is cached, the lock released.\<close>

definition minted :: "nat \<Rightarrow> auth_fail + access_token \<Rightarrow> shared \<Rightarrow> shared" where
  "minted i r s =
     (case r of
        Inr tok \<Rightarrow>
          (set_task i (Returned tok None) s)\<lparr>sh_locked := False,
             sh_provider := (sh_provider s)\<lparr>tp_cached := Some tok, tp_refreshes := tp_refreshes (sh_provider s) + 1\<rparr>\<rparr>
      | Inl f \<Rightarrow>
          (set_task i (Raised f) s)\<lparr>sh_locked := False,
             sh_provider := (if f = AuthOther then sh_provider s
                             else (sh_provider s)\<lparr>tp_errors := tp_errors (sh_provider s) + 1\<rparr>)\<rparr>)"

inductive token_step :: "shared \<Rightarrow> shared \<Rightarrow> bool" where
  fast: "i < length (sh_tasks s) \<Longrightarrow> sh_tasks s ! i = Idle \<Longrightarrow> is_valid (sh_now s) (tp_cached (sh_provider s)) \<Longrightarrow>
    token_step s (hit i s)"
| wait: "i < length (sh_tasks s) \<Longrightarrow> sh_tasks s ! i = Idle \<Longrightarrow> \<not> is_valid (sh_now s) (tp_cached (sh_provider s)) \<Longrightarrow>
    token_step s (set_task i Waiting s)"
| recheck: "i < length (sh_tasks s) \<Longrightarrow> sh_tasks s ! i = Waiting \<Longrightarrow> \<not> sh_locked s \<Longrightarrow>
    is_valid (sh_now s) (tp_cached (sh_provider s)) \<Longrightarrow> token_step s (hit i s)"
| mint: "i < length (sh_tasks s) \<Longrightarrow> sh_tasks s ! i = Waiting \<Longrightarrow> \<not> sh_locked s \<Longrightarrow>
    \<not> is_valid (sh_now s) (tp_cached (sh_provider s)) \<Longrightarrow> token_step s ((set_task i Minting s)\<lparr>sh_locked := True\<rparr>)"
| mint_end: "i < length (sh_tasks s) \<Longrightarrow> sh_tasks s ! i = Minting \<Longrightarrow> token_step s (minted i r s)"
| again: "i < length (sh_tasks s) \<Longrightarrow> sh_tasks s ! i \<noteq> Waiting \<Longrightarrow> sh_tasks s ! i \<noteq> Minting \<Longrightarrow> token_step s (set_task i Idle s)"
| drop: "token_step s (s\<lparr>sh_provider := invalidate (sh_provider s)\<rparr>)"
| tick: "sh_now s \<le> t \<Longrightarrow> token_step s (s\<lparr>sh_now := t\<rparr>)"

definition new_shared :: "datetime \<Rightarrow> provider \<Rightarrow> nat \<Rightarrow> shared" where
  "new_shared now tp n = \<lparr>sh_now = now, sh_provider = tp, sh_locked = False, sh_tasks = replicate n Idle\<rparr>"

subsection \<open>Minting\<close>

definition auth_engine :: "'o auth_env \<Rightarrow> bool" where
  "auth_engine env \<longleftrightarrow> (\<forall>att q. au_retry_mint env att q = run_attempts MAX_AUTH_ATTEMPTS should_retry att q)
     \<and> (\<forall>att q. au_retry_org env att q = run_attempts MAX_AUTH_ATTEMPTS should_retry att q)"

text \<open>
  A mint sends at most four requests, each after a retryable failure (transport, 5xx) of the one before. It returns exactly the last
  answer's token and counts it; it raises \<^verbatim>\<open>AuthError\<close> exactly when the last request failed at the transport or with a status, which
  for a 4xx is the first such answer and for the others the fourth attempt; a 2xx answer that is not the expected JSON raises
  an exception that is not an \<^verbatim>\<open>AuthError\<close> and counts as no error. The cache is touched by none of it.
\<close>

theorem mint_outcomes:
  assumes "auth_engine env" "mint_token env (o0, tp) = (r, (o1, tp'))"
  shows "\<exists>k < 4. o1 = after (request_token env) (Suc k) o0
    \<and> (\<forall>j < k. \<exists>err. should_retry err \<and> fst (request_token env (after (request_token env) j o0)) = Inl err)
    \<and> (case fst (request_token env (after (request_token env) k o0)) of
          Inr tok \<Rightarrow> r = Inr tok \<and> tp' = tp\<lparr>tp_refreshes := tp_refreshes tp + 1\<rparr>
        | Inl OtherError \<Rightarrow> r = Inl AuthOther \<and> tp' = tp
        | Inl exc \<Rightarrow> r = Inl (AuthError exc) \<and> tp' = tp\<lparr>tp_errors := tp_errors tp + 1\<rparr> \<and> (should_retry exc \<longrightarrow> k = 3))"
proof -
  let ?att = "request_token env"
  obtain q where q: "run_attempts MAX_AUTH_ATTEMPTS should_retry ?att o0 = (q, o1)"
    and r: "mint_token env (o0, tp) = (case q of Inr tok \<Rightarrow> (Inr tok, (o1, tp\<lparr>tp_refreshes := tp_refreshes tp + 1\<rparr>))
      | Inl exc \<Rightarrow> (Inl (auth_error exc), (o1, if exc = OtherError then tp else tp\<lparr>tp_errors := tp_errors tp + 1\<rparr>)))"
    using assms by (auto simp: mint_token_def auth_engine_def split: prod.splits sum.splits)
  obtain k where k: "k < MAX_AUTH_ATTEMPTS" "o1 = after ?att (Suc k) o0" "q = fst (?att (after ?att k o0))"
    "\<forall>j < k. \<exists>err. should_retry err \<and> fst (?att (after ?att j o0)) = Inl err"
    "\<forall>err. q = Inl err \<and> should_retry err \<longrightarrow> k = MAX_AUTH_ATTEMPTS - 1"
    using run_attempts_bounded [OF q] by (auto simp: MAX_AUTH_ATTEMPTS_def)
  have "case q of Inr tok \<Rightarrow> r = Inr tok \<and> tp' = tp\<lparr>tp_refreshes := tp_refreshes tp + 1\<rparr>
        | Inl OtherError \<Rightarrow> r = Inl AuthOther \<and> tp' = tp
        | Inl exc \<Rightarrow> r = Inl (AuthError exc) \<and> tp' = tp\<lparr>tp_errors := tp_errors tp + 1\<rparr> \<and> (should_retry exc \<longrightarrow> k = 3)"
    using r assms(2) k(5) by (auto simp: auth_error_def MAX_AUTH_ATTEMPTS_def split: sum.splits auth_exc.splits)
  then show ?thesis using k(1-4) by (intro exI [of _ k]) (simp add: MAX_AUTH_ATTEMPTS_def)
qed

lemma request_token_fresh:
  assumes "request_token env o0 = (Inr tok, o1)" shows "\<exists>o2. au_now env o2 = (at_expires_at tok - sf_token_ttl (au_cfg env), o1)"
  using assms
  by (auto simp: request_token_def Let_def split: prod.splits option.splits sum.splits if_splits)

text \<open>A lifetime of at most the refresh skew gives tokens that are never valid, so none is ever reused.\<close>

lemma short_ttl_never_valid:
  assumes "request_token env o0 = (Inr tok, o1)" "sf_token_ttl (au_cfg env) \<le> REFRESH_SKEW"
    and "at_expires_at tok - sf_token_ttl (au_cfg env) \<le> now"
  shows "\<not> is_valid now (Some tok)"
  using assms(2,3) by (simp add: is_valid_def)

subsection \<open>One mint at a time\<close>

fun is_minting :: "caller \<Rightarrow> bool" where
  "is_minting Minting = True" | "is_minting _ = False"

fun caller_ok :: "caller \<Rightarrow> bool" where
  "caller_ok (Returned tok (Some t)) \<longleftrightarrow> t < at_expires_at tok - REFRESH_SKEW"
| "caller_ok _ \<longleftrightarrow> True"

definition shared_inv :: "shared \<Rightarrow> bool" where
  "shared_inv s \<longleftrightarrow> length (filter is_minting (sh_tasks s)) = (if sh_locked s then 1 else 0) \<and> list_all caller_ok (sh_tasks s)"

lemma minting_set:
  "i < length (sh_tasks s) \<Longrightarrow>
   length (filter is_minting ((sh_tasks s)[i := t])) + (if is_minting (sh_tasks s ! i) then 1 else 0)
     = length (filter is_minting (sh_tasks s)) + (if is_minting t then 1 else 0)"
  by (rule count_update)

lemma shared_inv_step:
  assumes "token_step s s'" "shared_inv s"
  shows "shared_inv s'"
  using assms(1)
proof (cases rule: token_step.cases)
  case (fast i)
  then show ?thesis using minting_set [of i s "Returned (the (tp_cached (sh_provider s))) (Some (sh_now s))"] assms(2)
    by (auto simp: shared_inv_def hit_def set_task_def is_valid_def intro!: list_all_set split: option.splits)
next
  case (wait i)
  then show ?thesis using minting_set [of i s Waiting] assms(2) by (auto simp: shared_inv_def set_task_def intro!: list_all_set)
next
  case (recheck i)
  then show ?thesis using minting_set [of i s "Returned (the (tp_cached (sh_provider s))) (Some (sh_now s))"] assms(2)
    by (auto simp: shared_inv_def hit_def set_task_def is_valid_def intro!: list_all_set split: option.splits)
next
  case (mint i)
  then show ?thesis using minting_set [of i s Minting] assms(2) by (auto simp: shared_inv_def set_task_def intro!: list_all_set)
next
  case (mint_end i r)
  have "i \<in> {i. i < length (sh_tasks s) \<and> is_minting (sh_tasks s ! i)}" using mint_end by simp
  then have "0 < length (filter is_minting (sh_tasks s))" by (auto simp: length_filter_conv_card card_gt_0_iff)
  then have "sh_locked s" using assms(2) by (auto simp: shared_inv_def split: if_splits)
  then show ?thesis
    using mint_end minting_set [of i s "Returned (projr r) None"] minting_set [of i s "Raised (projl r)"] assms(2)
    by (cases r) (auto simp: shared_inv_def minted_def set_task_def intro!: list_all_set)
next
  case (again i)
  then show ?thesis using minting_set [of i s Idle] assms(2)
    by (cases "sh_tasks s ! i") (auto simp: shared_inv_def set_task_def intro!: list_all_set)
qed (use assms(2) in \<open>auto simp: shared_inv_def\<close>)

lemma shared_inv_start: "shared_inv (new_shared now tp n)"
  by (simp add: new_shared_def shared_inv_def list_all_iff)

lemma shared_inv_reach: "token_step\<^sup>*\<^sup>* (new_shared now tp n) s \<Longrightarrow> shared_inv s"
  by (induction rule: rtranclp_induct) (auto simp: shared_inv_start intro: shared_inv_step)

text \<open>A run in which the cache is never emptied and the clock stays below a token's expiry keeps that token.\<close>

lemma valid_token_kept:
  assumes "token_step s s'" "\<not> sh_locked s" "shared_inv s" "tp_cached (sh_provider s) = Some tok" "is_valid (sh_now s') (Some tok)"
    and "tp_cached (sh_provider s') \<noteq> None"
  shows "sh_provider s' = sh_provider s \<and> \<not> sh_locked s'"
  using assms(1)
proof (cases rule: token_step.cases)
  case (mint_end i r)
  have "i \<in> {i. i < length (sh_tasks s) \<and> is_minting (sh_tasks s ! i)}" using mint_end by simp
  then have "0 < length (filter is_minting (sh_tasks s))" by (auto simp: length_filter_conv_card card_gt_0_iff)
  then show ?thesis using assms(2,3) by (simp add: shared_inv_def)
qed (use assms in \<open>auto simp: hit_def set_task_def invalidate_def\<close>)

text \<open>
  C17. For any number of tasks that call \<^verbatim>\<open>token\<close>, and any interleaving with invalidations and the clock: at most one
  of them is minting, and then it holds the lock; a task that got a cached token got one with more than the refresh skew left
  when it looked. Once a token is cached and nobody mints, the callers mint no other one as long as it is neither
  invalidated nor within the skew of its expiry.
\<close>

theorem auth_single_flight:
  assumes start: "token_step\<^sup>*\<^sup>* (new_shared now tp n) s"
    and quiet: "(\<lambda>a b. token_step a b \<and> tp_cached (sh_provider b) \<noteq> None \<and> is_valid (sh_now b) (Some tok))\<^sup>*\<^sup>* s s'"
  shows "length (filter is_minting (sh_tasks s)) \<le> 1 \<and> list_all caller_ok (sh_tasks s)
    \<and> (\<not> sh_locked s \<and> tp_cached (sh_provider s) = Some tok \<longrightarrow>
        sh_provider s' = sh_provider s \<and> length (filter is_minting (sh_tasks s')) = 0)"
proof -
  have inv: "shared_inv s" by (rule shared_inv_reach [OF start])
  have "sh_provider s' = sh_provider s \<and> \<not> sh_locked s' \<and> shared_inv s'"
    if cached: "\<not> sh_locked s" "tp_cached (sh_provider s) = Some tok"
    using quiet
  proof (induction rule: rtranclp_induct)
    case (step b d)
    then show ?case using valid_token_kept [of b d tok] shared_inv_step [of b d] cached by auto
  qed (use inv cached in simp)
  then show ?thesis using inv by (auto simp: shared_inv_def split: if_splits)
qed

subsection \<open>Witnesses\<close>

text \<open>A world that counts its requests: the first answer is a 503, the next one a token.\<close>

definition demo_cfg :: sf_config where
  "demo_cfg = \<lparr>sf_login_url = ''l'', sf_client_id = ''c'', sf_username = ''u'', sf_private_key = Some ''k'', sf_client_secret = None,
     sf_auth_mode = JwtBearer, sf_token_ttl = 3600000000, sf_org_id = None, sf_api_version = ''60.0''\<rparr>"

definition demo_auth :: "nat auth_env" where
  "demo_auth = \<lparr>au_cfg = demo_cfg, au_now = (\<lambda>q. (0, q)),
     au_post = (\<lambda>url form q. (Inr \<lparr>rs_status = (if q = 0 then 503 else 200), rs_text = [],
       rs_json = Some [(''access_token'', ''t''), (''instance_url'', ''i'')]\<rparr>, Suc q)),
     au_userinfo = (\<lambda>url b q. (Inr \<lparr>rs_status = 200, rs_text = [], rs_json = Some [(''organization_id'', ''o'')]\<rparr>, Suc q)),
     au_jwt_encode = (\<lambda>c k. k), au_retry_mint = run_attempts MAX_AUTH_ATTEMPTS should_retry,
     au_retry_org = run_attempts MAX_AUTH_ATTEMPTS should_retry\<rparr>"

definition demo_token :: access_token where
  "demo_token = \<lparr>at_value = ''t'', at_instance_url = ''i'', at_expires_at = 3600000000\<rparr>"

lemma demo_request:
  "request_token demo_auth q = (if q = 0 then Inl (TokenEndpointError 503) else Inr demo_token, Suc q)"
  by (simp add: request_token_def token_form_def mint_jwt_def demo_auth_def demo_cfg_def demo_token_def is_success_def)

lemma demo_engine: "auth_engine demo_auth"
  by (simp add: auth_engine_def demo_auth_def)

theorem mint_outcomes_witness:
  "\<exists>k < 4. (2::nat) = after (request_token demo_auth) (Suc k) 0
    \<and> (\<forall>j < k. \<exists>err. should_retry err \<and> fst (request_token demo_auth (after (request_token demo_auth) j 0)) = Inl err)
    \<and> (case fst (request_token demo_auth (after (request_token demo_auth) k 0)) of
          Inr tok \<Rightarrow> Inr demo_token = (Inr tok :: auth_fail + access_token)
            \<and> new_provider\<lparr>tp_refreshes := 1\<rparr> = new_provider\<lparr>tp_refreshes := tp_refreshes new_provider + 1\<rparr>
        | Inl OtherError \<Rightarrow> Inr demo_token = Inl AuthOther \<and> new_provider\<lparr>tp_refreshes := 1\<rparr> = new_provider
        | Inl exc \<Rightarrow> Inr demo_token = Inl (AuthError exc)
            \<and> new_provider\<lparr>tp_refreshes := 1\<rparr> = new_provider\<lparr>tp_errors := tp_errors new_provider + 1\<rparr>
            \<and> (should_retry exc \<longrightarrow> k = 3))"
proof (rule mint_outcomes [OF demo_engine])
  have "au_retry_mint demo_auth = run_attempts (Suc (Suc (Suc (Suc 0)))) should_retry"
    by (simp add: demo_auth_def MAX_AUTH_ATTEMPTS_def eval_nat_numeral)
  then show "mint_token demo_auth (0, new_provider) = (Inr demo_token, (2, new_provider\<lparr>tp_refreshes := 1\<rparr>))"
    by (simp add: mint_token_def demo_request should_retry_def new_provider_def numeral_2_eq_2)
qed

text \<open>Two tasks: the first mints, the second finds the token.\<close>

definition demo_cached :: shared where
  "demo_cached = minted 0 (Inr demo_token) ((set_task 0 Minting (set_task 0 Waiting (new_shared 0 new_provider 2)))\<lparr>sh_locked := True\<rparr>)"

lemmas demo_shared_defs = demo_cached_def minted_def set_task_def new_shared_def new_provider_def hit_def

lemma demo_cached_reached: "token_step\<^sup>*\<^sup>* (new_shared 0 new_provider 2) demo_cached"
proof -
  let ?a = "new_shared 0 new_provider 2"
  let ?b = "set_task 0 Waiting ?a" let ?c = "(set_task 0 Minting ?b)\<lparr>sh_locked := True\<rparr>"
  have "token_step ?a ?b" by (rule token_step.wait) (simp_all add: demo_shared_defs is_valid_def)
  moreover have "token_step ?b ?c" by (rule token_step.mint) (simp_all add: demo_shared_defs is_valid_def)
  moreover have "token_step ?c demo_cached"
    unfolding demo_cached_def by (rule token_step.mint_end) (simp_all add: demo_shared_defs)
  ultimately show ?thesis by (meson rtranclp.rtrancl_refl rtranclp.rtrancl_into_rtrancl)
qed

theorem auth_single_flight_witness:
  "length (filter is_minting (sh_tasks demo_cached)) \<le> 1 \<and> list_all caller_ok (sh_tasks demo_cached)
   \<and> sh_provider (hit 1 demo_cached) = sh_provider demo_cached \<and> length (filter is_minting (sh_tasks (hit 1 demo_cached))) = 0"
proof -
  have v: "is_valid 0 (Some demo_token)" by (simp add: is_valid_def demo_token_def REFRESH_SKEW_def)
  have f: "\<not> sh_locked demo_cached" "tp_cached (sh_provider demo_cached) = Some demo_token" "sh_now demo_cached = 0"
    "sh_tasks demo_cached ! 1 = Idle" "length (sh_tasks demo_cached) = 2" by (simp_all add: demo_shared_defs)
  have "token_step demo_cached (hit 1 demo_cached)" by (rule token_step.fast) (simp_all add: f v f(4) [simplified])
  then have "(\<lambda>a b. token_step a b \<and> tp_cached (sh_provider b) \<noteq> None \<and> is_valid (sh_now b) (Some demo_token))\<^sup>*\<^sup>*
      demo_cached (hit 1 demo_cached)"
    using f v by (intro r_into_rtranclp) (simp add: hit_def set_task_def)
  from auth_single_flight [OF demo_cached_reached this] f show ?thesis by simp
qed

end
