(* ===== verification/Rest.thy ===== *)
theory Rest
  imports Auth
begin

section \<open>The REST clients\<close>

text \<open>
  \<^verbatim>\<open>salesforce/soql_client.py\<close>, \<^verbatim>\<open>salesforce/limits_client.py\<close>, \<^verbatim>\<open>salesforce/metadata_client.py\<close> and
  \<^verbatim>\<open>obs/limits_poller.py\<close>. Every client asks the provider for a token, sends a request and, on a 401, drops the token,
  asks again and sends once more. The locale \<open>bearer_source\<close> is what this relies on, interpreted on the provider. The
  HTTP library is a function of the world; what was sent is logged with the number of mints at that time.

  Results: a request is sent at most twice, the second time with a token minted since; a query over any number of pages
  yields exactly the result set even when tokens expire between its pages; which error ends a query with what.
\<close>

definition REQUEST_LIMIT_ERROR_CODE :: string where "REQUEST_LIMIT_ERROR_CODE = ''REQUEST_LIMIT_EXCEEDED''"

record 'o net =
  nt_world :: 'o
  nt_provider :: provider
  nt_sent :: "(string \<times> nat) list"

type_synonym params = "(string, string) dict option"
type_synonym ('o, 'b) http_get = "string \<Rightarrow> params \<Rightarrow> string \<Rightarrow> 'o \<Rightarrow> (unit + 'b response) \<times> 'o"

definition net_token :: "'o auth_env \<Rightarrow> 'o net \<Rightarrow> (auth_fail + access_token) \<times> 'o net" where
  "net_token env n =
     (case token env (nt_world n, nt_provider n) of (r, (o1, tp)) \<Rightarrow> (r, n\<lparr>nt_world := o1, nt_provider := tp\<rparr>))"

definition net_invalidate :: "'o net \<Rightarrow> 'o net" where
  "net_invalidate n = n\<lparr>nt_provider := invalidate (nt_provider n)\<rparr>"

definition send :: "('o, 'b) http_get \<Rightarrow> string \<Rightarrow> params \<Rightarrow> access_token \<Rightarrow> 'o net \<Rightarrow> (unit + 'b response) \<times> 'o net" where
  "send get url params tok n =
     (case get url params (at_value tok) (nt_world n) of
        (r, o1) \<Rightarrow> (r, n\<lparr>nt_world := o1, nt_sent := nt_sent n @ [(at_value tok, tp_refreshes (nt_provider n))]\<rparr>))"

text \<open>The shared pattern; the token in use is returned with the response.\<close>

datatype rest_exc = RTransport | RAuth auth_fail

definition with_retry ::
  "('s \<Rightarrow> (auth_fail + access_token) \<times> 's) \<Rightarrow> ('s \<Rightarrow> 's) \<Rightarrow> (access_token \<Rightarrow> 's \<Rightarrow> (unit + 'b response) \<times> 's)
     \<Rightarrow> access_token \<Rightarrow> 's \<Rightarrow> (rest_exc + 'b response \<times> access_token) \<times> 's" where
  "with_retry get_token drop_token req tok s =
     (case req tok s of
        (Inl _, s1) \<Rightarrow> (Inl RTransport, s1)
      | (Inr resp, s1) \<Rightarrow>
          if rs_status resp \<noteq> 401 then (Inr (resp, tok), s1)
          else (case get_token (drop_token s1) of
                  (Inl f, s2) \<Rightarrow> (Inl (RAuth f), s2)
                | (Inr tok', s2) \<Rightarrow>
                    (case req tok' s2 of
                       (Inl _, s3) \<Rightarrow> (Inl RTransport, s3)
                     | (Inr resp', s3) \<Rightarrow> (Inr (resp', tok'), s3))))"

definition throttled_response :: "'b response \<Rightarrow> bool" where
  "throttled_response resp \<longleftrightarrow> rs_status resp = 403 \<and> sublist REQUEST_LIMIT_ERROR_CODE (rs_text resp)"

subsection \<open>SOQL queries\<close>

record soql_body =
  sb_records :: "payload list"
  sb_done :: "bool option"
  sb_next :: "string option"

datatype query_end = QDone | QThrottled | QError | QAuth auth_fail | QBadBody | QWaiting

record 'o rest_env =
  re_auth :: "'o auth_env"
  re_soql :: "('o, soql_body) http_get"
  re_tooling :: bool

definition next_url :: "string \<Rightarrow> soql_body \<Rightarrow> string option" where
  "next_url base body =
     (case sb_next body of Some u \<Rightarrow> if sb_done body = Some False \<and> u \<noteq> [] then Some (base @ u) else None | None \<Rightarrow> None)"

text \<open>The loop over the pages; \<open>fuel\<close> bounds their number.\<close>

fun soql_pages ::
  "'o rest_env \<Rightarrow> nat \<Rightarrow> string \<Rightarrow> string \<Rightarrow> params \<Rightarrow> access_token \<Rightarrow> payload list \<Rightarrow> 'o net \<Rightarrow> query_end \<times> payload list \<times> 'o net" where
  "soql_pages env 0 base url params tok acc n = (QWaiting, acc, n)"
| "soql_pages env (Suc fuel) base url params tok acc n =
     (case with_retry (net_token (re_auth env)) net_invalidate (send (re_soql env) url params) tok n of
        (Inl RTransport, n1) \<Rightarrow> (QError, acc, n1)
      | (Inl (RAuth f), n1) \<Rightarrow> (QAuth f, acc, n1)
      | (Inr (resp, tok'), n1) \<Rightarrow>
          if \<not> is_success resp then (if throttled_response resp then QThrottled else QError, acc, n1)
          else (case rs_json resp of
                  None \<Rightarrow> (QBadBody, acc, n1)
                | Some body \<Rightarrow>
                    (case next_url base body of
                       Some url' \<Rightarrow> soql_pages env fuel base url' None tok' (acc @ sb_records body) n1
                     | None \<Rightarrow> (QDone, acc @ sb_records body, n1))))"

definition query_url :: "'o rest_env \<Rightarrow> access_token \<Rightarrow> string" where
  "query_url env tok =
     at_instance_url tok @ ''/services/data/v'' @ sf_api_version (au_cfg (re_auth env)) @ ''/''
       @ (if re_tooling env then ''tooling/query'' else ''query'')"

definition soql_query :: "'o rest_env \<Rightarrow> nat \<Rightarrow> string \<Rightarrow> 'o net \<Rightarrow> query_end \<times> payload list \<times> 'o net" where
  "soql_query env fuel soql n =
     (case net_token (re_auth env) n of
        (Inl f, n1) \<Rightarrow> (QAuth f, [], n1)
      | (Inr tok, n1) \<Rightarrow> soql_pages env fuel (at_instance_url tok) (query_url env tok) (Some [(''q'', soql)]) tok [] n1)"

subsection \<open>Limits and metadata\<close>

text \<open>One limit as the endpoint gives it; \<open>None\<close>: not an object, or a field is missing.\<close>

type_synonym limit_info = "(pyval \<times> pyval) option"

fun int_of :: "pyval \<Rightarrow> int option" where
  "int_of (VInt i) = Some i"
| "int_of (VBool b) = Some (if b then 1 else 0)"
| "int_of (VFloat r s) = Some (if 0 \<le> r then \<lfloor>r\<rfloor> else \<lceil>r\<rceil>)"
| "int_of (VStr s) = py_int s"
| "int_of _ = None"

definition parse_limits :: "(string, limit_info) dict \<Rightarrow> (string, int \<times> int) dict" where
  "parse_limits body =
     fold (\<lambda>(name, info) result.
             case info of
               None \<Rightarrow> result
             | Some (m, r) \<Rightarrow>
                 (case (int_of m, int_of r) of (Some a, Some b) \<Rightarrow> AList.update name (a, b) result | _ \<Rightarrow> result)) body []"

datatype limits_exc = LimitsError nat | LimitsTransport | LimitsAuth auth_fail | LimitsBadBody

definition limits_fetch ::
  "'o auth_env \<Rightarrow> ('o, (string, limit_info) dict) http_get \<Rightarrow> 'o net \<Rightarrow> (limits_exc + (string, int \<times> int) dict) \<times> 'o net" where
  "limits_fetch env get n =
     (case net_token env n of
        (Inl f, n1) \<Rightarrow> (Inl (LimitsAuth f), n1)
      | (Inr tok, n1) \<Rightarrow>
          (let url = at_instance_url tok @ ''/services/data/v'' @ sf_api_version (au_cfg env) @ ''/limits'' in
           case with_retry (net_token env) net_invalidate (send get url None) tok n1 of
             (Inl RTransport, n2) \<Rightarrow> (Inl LimitsTransport, n2)
           | (Inl (RAuth f), n2) \<Rightarrow> (Inl (LimitsAuth f), n2)
           | (Inr (resp, _), n2) \<Rightarrow>
               if \<not> is_success resp then (Inl (LimitsError (rs_status resp)), n2)
               else (case rs_json resp of None \<Rightarrow> (Inl LimitsBadBody, n2) | Some body \<Rightarrow> (Inr (parse_limits body), n2))))"

text \<open>The poller: gauges by limit name, the count of failed polls; one outcome of a fetch per pass, \<open>stops\<close> tells
  whether the stop event is set at the head of each pass.\<close>

record gauges =
  g_max :: "(string, int) dict"
  g_remaining :: "(string, int) dict"
  g_poll_errors :: nat

definition publish :: "(string, int \<times> int) dict \<Rightarrow> gauges \<Rightarrow> gauges" where
  "publish limits g = fold (\<lambda>(name, (m, r)) g. g\<lparr>g_max := AList.update name m (g_max g), g_remaining := AList.update name r (g_remaining g)\<rparr>) limits g"

definition poll_limits :: "limits_exc + (string, int \<times> int) dict \<Rightarrow> gauges \<Rightarrow> gauges" where
  "poll_limits fetched g =
     (case fetched of Inl _ \<Rightarrow> g\<lparr>g_poll_errors := g_poll_errors g + 1\<rparr> | Inr limits \<Rightarrow> publish limits g)"

fun limits_run :: "bool \<Rightarrow> (bool \<times> (limits_exc + (string, int \<times> int) dict)) list \<Rightarrow> gauges \<Rightarrow> gauges" where
  "limits_run once [] g = g"
| "limits_run once ((stop, fetched) # rest) g =
     (if stop then g else if once then poll_limits fetched g else limits_run once rest (poll_limits fetched g))"

datatype metadata_exc = MetadataStatus nat | MetadataTransport | MetadataAuth auth_fail | MetadataBadBody

definition stream_topics :: "string list \<Rightarrow> string list" where
  "stream_topics names = sort (map (\<lambda>n. ''/event/'' @ n) (filter (\<lambda>n. endswith n ''EventStream'') names))"

definition list_event_stream_topics ::
  "'o auth_env \<Rightarrow> ('o, string list) http_get \<Rightarrow> 'o net \<Rightarrow> (metadata_exc + string list) \<times> 'o net" where
  "list_event_stream_topics env get n =
     (case net_token env n of
        (Inl f, n1) \<Rightarrow> (Inl (MetadataAuth f), n1)
      | (Inr tok, n1) \<Rightarrow>
          (let url = at_instance_url tok @ ''/services/data/v'' @ sf_api_version (au_cfg env) @ ''/sobjects/'' in
           case with_retry (net_token env) net_invalidate (send get url None) tok n1 of
             (Inl RTransport, n2) \<Rightarrow> (Inl MetadataTransport, n2)
           | (Inl (RAuth f), n2) \<Rightarrow> (Inl (MetadataAuth f), n2)
           | (Inr (resp, _), n2) \<Rightarrow>
               if \<not> is_success resp then (Inl (MetadataStatus (rs_status resp)), n2)
               else (case rs_json resp of None \<Rightarrow> (Inl MetadataBadBody, n2) | Some names \<Rightarrow> (Inr (stream_topics names), n2))))"

subsection \<open>What the clients rely on\<close>

locale bearer_source =
  fixes get_token :: "'s \<Rightarrow> (auth_fail + access_token) \<times> 's"
    and drop_token :: "'s \<Rightarrow> 's"
    and mints :: "'s \<Rightarrow> nat"
    and sent :: "'s \<Rightarrow> (string \<times> nat) list"
  assumes token_frame: "get_token s = (r, s') \<Longrightarrow> sent s' = sent s \<and> mints s \<le> mints s'"
    and drop_frame: "sent (drop_token s) = sent s \<and> mints (drop_token s) = mints s"
    and token_fresh: "get_token (drop_token s) = (Inr tok, s') \<Longrightarrow> mints s < mints s'"
begin

definition sends :: "(access_token \<Rightarrow> 's \<Rightarrow> (unit + 'b response) \<times> 's) \<Rightarrow> bool" where
  "sends req \<longleftrightarrow> (\<forall>tok s r s'. req tok s = (r, s') \<longrightarrow> sent s' = sent s @ [(at_value tok, mints s)] \<and> mints s' = mints s)"

text \<open>One request, or two of which the second carries a token minted after the first.\<close>

lemma retry_once:
  assumes run: "with_retry get_token drop_token req tok s = (r, s')" and req: "sends req"
  shows "\<exists>b m. sent s' = sent s @ [(at_value tok, mints s)] \<or> sent s' = sent s @ [(at_value tok, mints s), (b, m)] \<and> mints s < m"
proof -
  obtain r1 s1 where r1: "req tok s = (r1, s1)" by force
  with req have s1: "sent s1 = sent s @ [(at_value tok, mints s)]" "mints s1 = mints s" by (auto simp: sends_def)
  show ?thesis
  proof (cases "\<exists>resp. r1 = Inr resp \<and> rs_status resp = 401")
    case False
    then show ?thesis using run r1 s1 by (cases r1) (auto simp: with_retry_def split: if_splits)
  next
    case True
    obtain r2 s2 where r2: "get_token (drop_token s1) = (r2, s2)" by force
    then have s2: "sent s2 = sent s1" using token_frame drop_frame by metis
    show ?thesis
    proof (cases r2)
      case (Inl f)
      then show ?thesis using run r1 r2 s1 s2 True by (auto simp: with_retry_def)
    next
      case (Inr tok')
      with r2 token_fresh have lt: "mints s1 < mints s2" by blast
      obtain r3 s3 where r3: "req tok' s2 = (r3, s3)" by force
      with req have "sent s3 = sent s2 @ [(at_value tok', mints s2)]" by (auto simp: sends_def)
      moreover have "s' = s3" using run r1 r2 r3 True Inr by (cases r3) (auto simp: with_retry_def)
      ultimately show ?thesis using s1 s2 lt by auto
    qed
  qed
qed

end

lemma token_refreshes:
  "token env (q, tp) = (r, (q', tp')) \<Longrightarrow> tp_refreshes tp \<le> tp_refreshes tp'"
  by (auto simp: token_def mint_token_def Let_def split: prod.splits sum.splits if_splits)

lemma token_mints:
  "token env (q, invalidate tp) = (Inr tok, (q', tp')) \<Longrightarrow> tp_refreshes tp < tp_refreshes tp'"
  by (auto simp: token_def mint_token_def Let_def invalidate_def is_valid_def split: prod.splits sum.splits if_splits)

interpretation net: bearer_source "net_token env" net_invalidate "tp_refreshes \<circ> nt_provider" nt_sent for env
proof unfold_locales
  show "nt_sent s' = nt_sent s \<and> (tp_refreshes \<circ> nt_provider) s \<le> (tp_refreshes \<circ> nt_provider) s'"
    if "net_token env s = (r, s')" for s r s'
    using that token_refreshes [of env "nt_world s" "nt_provider s"] by (auto simp: net_token_def split: prod.splits)
  show "nt_sent (net_invalidate s) = nt_sent s \<and> (tp_refreshes \<circ> nt_provider) (net_invalidate s) = (tp_refreshes \<circ> nt_provider) s" for s
    by (simp add: net_invalidate_def invalidate_def)
  show "(tp_refreshes \<circ> nt_provider) s < (tp_refreshes \<circ> nt_provider) s'"
    if "net_token env (net_invalidate s) = (Inr tok, s')" for s tok s'
    using that token_mints [of env "nt_world s" "nt_provider s"] by (auto simp: net_token_def net_invalidate_def split: prod.splits)
qed

lemma send_sends: "net.sends (send get url params)"
  by (auto simp: net.sends_def send_def split: prod.splits)

subsection \<open>Queries over pages\<close>

text \<open>A server with a result set in pages: a request for a page gets it if its bearer is good at that moment, else a
  401; a fresh token is good when it is handed out.\<close>

fun chained :: "string \<Rightarrow> (string \<times> params \<times> soql_body) list \<Rightarrow> bool" where
  "chained base [] \<longleftrightarrow> False"
| "chained base [(u, p, b)] \<longleftrightarrow> next_url base b = None"
| "chained base ((u, p, b) # (u', p', b') # pages) \<longleftrightarrow>
     next_url base b = Some u' \<and> p' = None \<and> chained base ((u', p', b') # pages)"

definition serves :: "'o rest_env \<Rightarrow> ('o \<Rightarrow> string \<Rightarrow> bool) \<Rightarrow> (string \<times> params \<times> soql_body) list \<Rightarrow> bool" where
  "serves env good pages \<longleftrightarrow>
     (\<forall>(u, p, b) \<in> set pages. \<forall>bearer q. \<exists>r q'. re_soql env u p bearer q = (Inr r, q')
        \<and> (if good q bearer then is_success r \<and> rs_json r = Some b else rs_status r = 401))
     \<and> (\<forall>n. \<exists>tok n'. net_token (re_auth env) (net_invalidate n) = (Inr tok, n') \<and> good (nt_world n') (at_value tok))"

definition result_set :: "(string \<times> params \<times> soql_body) list \<Rightarrow> payload list" where
  "result_set pages = concat (map (\<lambda>pg. sb_records (snd (snd pg))) pages)"

text \<open>With a server that answers a good bearer and rejects the others, the pattern gets its answer.\<close>

lemma with_retry_gets:
  assumes req: "\<And>tok s. \<exists>r s'. req tok s = (Inr r, s') \<and> (if good s tok then P r \<and> is_success r else rs_status r = 401)"
    and fresh: "\<And>s. \<exists>tok s'. get_token (drop_token s) = (Inr tok, s') \<and> good s' tok"
  shows "\<exists>resp tok' s'. with_retry get_token drop_token req tok s = (Inr (resp, tok'), s') \<and> P resp \<and> is_success resp"
proof -
  obtain r s1 where r: "req tok s = (Inr r, s1)" "if good s tok then P r \<and> is_success r else rs_status r = 401" using req by blast
  show ?thesis
  proof (cases "rs_status r = 401")
    case False
    then show ?thesis using r by (auto simp: with_retry_def split: if_splits)
  next
    case True
    obtain tok' s2 where t: "get_token (drop_token s1) = (Inr tok', s2)" "good s2 tok'" using fresh by blast
    obtain r' s3 where "req tok' s2 = (Inr r', s3)" "P r' \<and> is_success r'" using req [of tok' s2] t(2) by auto
    then show ?thesis using r(1) t(1) True by (auto simp: with_retry_def)
  qed
qed

lemma page_served:
  assumes "serves env good pages" "(u, p, b) \<in> set pages"
  shows "\<exists>resp tok' n'. with_retry (net_token (re_auth env)) net_invalidate (send (re_soql env) u p) tok n = (Inr (resp, tok'), n')
    \<and> rs_json resp = Some b \<and> is_success resp"
proof (rule with_retry_gets [where good = "\<lambda>n tok. good (nt_world n) (at_value tok)"])
  fix tok :: access_token and n :: "'a net"
  from assms obtain r q' where "re_soql env u p (at_value tok) (nt_world n) = (Inr r, q')"
    "if good (nt_world n) (at_value tok) then is_success r \<and> rs_json r = Some b else rs_status r = 401"
    by (fastforce simp: serves_def)
  then show "\<exists>r n'. send (re_soql env) u p tok n = (Inr r, n')
      \<and> (if good (nt_world n) (at_value tok) then rs_json r = Some b \<and> is_success r else rs_status r = 401)"
    by (auto simp: send_def split: if_splits)
qed (use assms(1) in \<open>unfold serves_def, blast\<close>)

lemma pages_complete:
  assumes "serves env good all" "chained base pages" "set pages \<subseteq> set all" "length pages \<le> fuel" "pages = (u, p, b) # rest"
  shows "\<exists>n'. soql_pages env fuel base u p tok acc n = (QDone, acc @ result_set pages, n')
    \<and> length (nt_sent n') \<le> length (nt_sent n) + 2 * length pages"
  using assms(2-5)
proof (induction fuel arbitrary: pages u p b rest tok acc n)
  case (Suc fuel)
  have "(u, p, b) \<in> set all" using Suc.prems by auto
  from page_served [OF assms(1) this] obtain resp tok' n1
    where w: "with_retry (net_token (re_auth env)) net_invalidate (send (re_soql env) u p) tok n = (Inr (resp, tok'), n1)"
      and ok: "is_success resp" "rs_json resp = Some b" by blast
  have sent: "length (nt_sent n1) \<le> length (nt_sent n) + 2" using net.retry_once [OF w send_sends] by auto
  show ?case
  proof (cases rest)
    case Nil
    then show ?thesis using Suc.prems w ok sent by (simp add: result_set_def)
  next
    case (Cons pg rest')
    obtain u' p' b' where pg: "pg = (u', p', b')" by (metis prod.exhaust)
    have nx: "next_url base b = Some u'" "p' = None" "chained base rest" using Suc.prems(1,4) Cons pg by auto
    from Suc.IH [OF nx(3), of u' p' b' rest' tok' "acc @ sb_records b" n1] Suc.prems(2-4) Cons pg
    obtain n' where "soql_pages env fuel base u' p' tok' (acc @ sb_records b) n1
        = (QDone, (acc @ sb_records b) @ result_set rest, n')"
      "length (nt_sent n') \<le> length (nt_sent n1) + 2 * length rest" by auto
    then show ?thesis using w ok nx sent Suc.prems(4) Cons by (simp add: result_set_def)
  qed
qed simp

text \<open>
  C16. A query against a server that holds its result set in any number of pages, where the token in use may be rejected before any page: it ends
  after the last page and has yielded exactly the records of all pages, in order, with at most two requests a page.
  With fuel for the pages the loop returns.
\<close>

theorem soql_query_complete:
  assumes tok: "net_token (re_auth env) n = (Inr tok, n1)"
    and server: "serves env good pages" "chained (at_instance_url tok) pages" "pages = (query_url env tok, Some [(''q'', soql)], b) # rest"
    and fuel: "length pages \<le> fuel"
  shows "\<exists>n'. soql_query env fuel soql n = (QDone, result_set pages, n')
    \<and> length (nt_sent n') \<le> length (nt_sent n1) + 2 * length pages"
  using pages_complete [OF server(1,2) _ fuel server(3), of tok "[]" n1] tok by (auto simp: soql_query_def)

text \<open>
  The family of errors: a query that fails has yielded a prefix of its records and sent at most two requests a page; it ends as throttled only
  after a 403 that names the request limit. An exception of the token provider and a success answer that is not JSON
  end it with errors of their own, outside the family the callers handle.
\<close>

lemma soql_auth_escapes:
  "net_token (re_auth env) n = (Inl f, n1) \<Longrightarrow> soql_query env fuel soql n = (QAuth f, [], n1)"
  by (simp add: soql_query_def)

lemma soql_pages_prefix:
  "soql_pages env fuel base url params tok acc n = (e, recs, n') \<Longrightarrow> prefix acc recs \<and> length (nt_sent n') \<le> length (nt_sent n) + 2 * fuel"
proof (induction fuel arbitrary: url params tok acc n)
  case (Suc fuel)
  obtain r n1 where w: "with_retry (net_token (re_auth env)) net_invalidate (send (re_soql env) url params) tok n = (r, n1)" by force
  have sent: "length (nt_sent n1) \<le> length (nt_sent n) + 2" using net.retry_once [OF w send_sends] by auto
  show ?case
  proof (cases "\<exists>resp tok' body url'. r = Inr (resp, tok') \<and> is_success resp \<and> rs_json resp = Some body \<and> next_url base body = Some url'")
    case True
    then obtain resp tok' body url' where t: "r = Inr (resp, tok')" "is_success resp" "rs_json resp = Some body"
      "next_url base body = Some url'" by blast
    with Suc.prems w have "soql_pages env fuel base url' None tok' (acc @ sb_records body) n1 = (e, recs, n')" by simp
    from Suc.IH [OF this] sent show ?thesis by (auto dest: append_prefixD)
  next
    case False
    then show ?thesis using Suc.prems w sent
      by (cases r) (auto split: rest_exc.splits prod.splits option.splits if_splits)
  qed
qed simp

subsection \<open>Witness\<close>

text \<open>Two pages, and a cached token that the server rejects.\<close>

definition demo_pages :: "(string \<times> params \<times> soql_body) list" where
  "demo_pages =
     [(''i/services/data/v60.0/query'', Some [(''q'', ''s'')],
       \<lparr>sb_records = [[(''Id'', VStr ''1'')]], sb_done = Some False, sb_next = Some ''/2''\<rparr>),
      (''i/2'', None, \<lparr>sb_records = [[(''Id'', VStr ''2'')]], sb_done = Some True, sb_next = None\<rparr>)]"

definition demo_rest :: "nat rest_env" where
  "demo_rest = \<lparr>re_auth = demo_auth,
     re_soql = (\<lambda>u p bearer q. (Inr (if bearer = ''t''
       then \<lparr>rs_status = 200, rs_text = [], rs_json = Some (if u = ''i/2'' then snd (snd (demo_pages ! 1)) else snd (snd (demo_pages ! 0)))\<rparr>
       else \<lparr>rs_status = 401, rs_text = [], rs_json = None\<rparr>), q)),
     re_tooling = False\<rparr>"

definition demo_old :: access_token where
  "demo_old = demo_token\<lparr>at_value := ''old''\<rparr>"

definition demo_net :: "nat net" where
  "demo_net = \<lparr>nt_world = 1, nt_provider = new_provider\<lparr>tp_cached := Some demo_old\<rparr>, nt_sent = []\<rparr>"

lemma demo_mint: "\<exists>q'. run_attempts MAX_AUTH_ATTEMPTS should_retry (request_token demo_auth) q = (Inr demo_token, q')"
proof -
  have four: "MAX_AUTH_ATTEMPTS = Suc (Suc (Suc (Suc 0)))" by (simp add: MAX_AUTH_ATTEMPTS_def)
  show ?thesis unfolding four by (cases q) (simp_all add: demo_request should_retry_def)
qed

lemma demo_fresh: "\<exists>n'. net_token demo_auth (net_invalidate n) = (Inr demo_token, n')"
proof -
  have "au_retry_mint demo_auth = run_attempts MAX_AUTH_ATTEMPTS should_retry" "au_now demo_auth q = (0, q)" for q
    by (simp_all add: demo_auth_def)
  then show ?thesis
    using demo_mint [of "nt_world n"]
    by (auto simp: net_token_def net_invalidate_def token_def mint_token_def is_valid_def invalidate_def Let_def)
qed

lemma demo_serves: "serves demo_rest (\<lambda>q b. b = ''t'') demo_pages"
proof -
  have "\<exists>tok n'. net_token (re_auth demo_rest) (net_invalidate n) = (Inr tok, n') \<and> at_value tok = ''t''" for n
    using demo_fresh [of n] by (auto simp: demo_rest_def demo_token_def)
  then show ?thesis by (auto simp: serves_def demo_rest_def demo_pages_def is_success_def)
qed

theorem soql_query_complete_witness:
  "\<exists>n'. soql_query demo_rest 2 ''s'' demo_net = (QDone, [[(''Id'', VStr ''1'')], [(''Id'', VStr ''2'')]], n') \<and> length (nt_sent n') \<le> 4"
proof -
  have t: "net_token (re_auth demo_rest) demo_net = (Inr demo_old, demo_net)"
    by (simp add: net_token_def demo_rest_def demo_auth_def token_def demo_net_def is_valid_def demo_old_def demo_token_def REFRESH_SKEW_def)
  have c: "chained (at_instance_url demo_old) demo_pages"
    by (simp add: demo_pages_def demo_old_def demo_token_def next_url_def)
  have p: "demo_pages = (query_url demo_rest demo_old, Some [(''q'', ''s'')], snd (snd (demo_pages ! 0))) # [demo_pages ! 1]"
    by (simp add: demo_pages_def query_url_def demo_old_def demo_token_def demo_rest_def demo_auth_def demo_cfg_def)
  from soql_query_complete [OF t demo_serves c p, of 2] show ?thesis
    by (simp add: result_set_def demo_net_def) (simp add: demo_pages_def)
qed

end
