(* ===== verification/Csv.thy ===== *)
theory Csv
  imports Shaping
begin

section \<open>Rows of a CSV body\<close>

text \<open>
  The part of Python's \<^verbatim>\<open>csv\<close> module that \<^verbatim>\<open>salesforce/eventlogfile_client.py\<close> uses, with the default dialect (comma, quote
  doubled inside quotes, not strict): the reader's state machine, the record loop over a text whose lines end at
  \<^verbatim>\<open>\n\<close>, \<^verbatim>\<open>\r\<close> or \<^verbatim>\<open>\r\n\<close> (the file is opened with \<^verbatim>\<open>newline=""\<close>), \<^verbatim>\<open>DictReader\<close>, and the
  client's joining of cells beyond the header. A text is what remains after decoding.

  Result: a table written with every field quoted, whatever the fields contain, is read back exactly.
\<close>

definition quote_char :: char where "quote_char = CHR 34"
definition cr :: char where "cr = CHR 13"
definition lf :: char where "lf = CHR 10"

definition is_eol :: "char \<Rightarrow> bool" where
  "is_eol c \<longleftrightarrow> c = cr \<or> c = lf"

datatype csv_state = StartRecord | StartField | InField | InQuoted | QuoteInQuoted | EatCrnl

record parse =
  p_state :: csv_state
  p_field :: string
  p_fields :: "string list"

definition reset :: parse where
  "reset = \<lparr>p_state = StartRecord, p_field = [], p_fields = []\<rparr>"

definition save_field :: "csv_state \<Rightarrow> parse \<Rightarrow> parse" where
  "save_field st p = \<lparr>p_state = st, p_field = [], p_fields = p_fields p @ [p_field p]\<rparr>"

text \<open>\<open>None\<close>: the field has reached the limit.\<close>

definition add_char :: "nat \<Rightarrow> csv_state \<Rightarrow> char \<Rightarrow> parse \<Rightarrow> parse option" where
  "add_char limit st c p = (if limit \<le> length (p_field p) then None else Some (p\<lparr>p_state := st, p_field := p_field p @ [c]\<rparr>))"

definition start_field :: "nat \<Rightarrow> char \<Rightarrow> parse \<Rightarrow> parse option" where
  "start_field limit c p =
     (if is_eol c then Some (save_field EatCrnl p)
      else if c = quote_char then Some (p\<lparr>p_state := InQuoted\<rparr>)
      else if c = CHR '','' then Some (save_field StartField p)
      else add_char limit InField c p)"

definition process_char :: "nat \<Rightarrow> char \<Rightarrow> parse \<Rightarrow> parse option" where
  "process_char limit c p =
     (case p_state p of
        StartRecord \<Rightarrow> if is_eol c then Some (p\<lparr>p_state := EatCrnl\<rparr>) else start_field limit c p
      | StartField \<Rightarrow> start_field limit c p
      | InField \<Rightarrow>
          if is_eol c then Some (save_field EatCrnl p)
          else if c = CHR '','' then Some (save_field StartField p)
          else add_char limit InField c p
      | InQuoted \<Rightarrow> if c = quote_char then Some (p\<lparr>p_state := QuoteInQuoted\<rparr>) else add_char limit InQuoted c p
      | QuoteInQuoted \<Rightarrow>
          if c = quote_char then add_char limit InQuoted c p
          else if c = CHR '','' then Some (save_field StartField p)
          else if is_eol c then Some (save_field EatCrnl p)
          else add_char limit InField c p
      | EatCrnl \<Rightarrow> if is_eol c then Some p else None)"

text \<open>The end of a line.\<close>

definition end_line :: "parse \<Rightarrow> parse" where
  "end_line p =
     (case p_state p of
        StartRecord \<Rightarrow> p
      | StartField \<Rightarrow> save_field StartRecord p
      | InField \<Rightarrow> save_field StartRecord p
      | InQuoted \<Rightarrow> p
      | QuoteInQuoted \<Rightarrow> save_field StartRecord p
      | EatCrnl \<Rightarrow> p\<lparr>p_state := StartRecord\<rparr>)"

definition ends_line :: "char \<Rightarrow> string \<Rightarrow> bool" where
  "ends_line c s \<longleftrightarrow> c = lf \<or> c = cr \<and> (s = [] \<or> hd s \<noteq> lf)"

datatype csv_result = CsvRow "string list" | CsvStop | CsvError

definition exhausted :: "parse \<Rightarrow> csv_result" where
  "exhausted p = (if p_field p \<noteq> [] \<or> p_state p = InQuoted then CsvRow (p_fields p @ [p_field p]) else CsvStop)"

text \<open>One record: characters and line ends until the machine is back at the start of a record; \<open>mid\<close> tells
  whether a line has begun.\<close>

fun scan :: "nat \<Rightarrow> parse \<Rightarrow> bool \<Rightarrow> string \<Rightarrow> csv_result \<times> string" where
  "scan limit p mid [] =
     (if mid then (let p1 = end_line p in (if p_state p1 = StartRecord then CsvRow (p_fields p1) else exhausted p1, []))
      else (exhausted p, []))"
| "scan limit p mid (c # s) =
     (case process_char limit c p of
        None \<Rightarrow> (CsvError, s)
      | Some p1 \<Rightarrow>
          if ends_line c s
          then (let p2 = end_line p1 in if p_state p2 = StartRecord then (CsvRow (p_fields p2), s) else scan limit p2 False s)
          else scan limit p1 True s)"

definition next_row :: "nat \<Rightarrow> string \<Rightarrow> csv_result \<times> string" where
  "next_row limit s = scan limit reset False s"

lemma scan_shorter: "scan limit p mid s = (r, rest) \<Longrightarrow> length rest \<le> length s"
  by (induction limit p mid s rule: scan.induct)
    (auto simp: Let_def split: if_splits option.splits intro: le_SucI)

lemma next_row_shorter:
  assumes "next_row limit s = (CsvRow row, rest)" shows "length rest < length s"
proof (cases s)
  case Nil
  then show ?thesis using assms by (simp add: next_row_def reset_def exhausted_def)
next
  case (Cons c s')
  then show ?thesis using assms scan_shorter
    by (fastforce simp: next_row_def Let_def less_Suc_eq_le split: option.splits if_splits)
qed

subsection \<open>Dictionaries\<close>

definition OVERFLOW_KEY :: string where "OVERFLOW_KEY = ''_extra''"

text \<open>A row of \<^verbatim>\<open>DictReader\<close> with \<^verbatim>\<open>restkey\<close> and \<^verbatim>\<open>restval\<close>, after the client joined what lies beyond the header.\<close>

definition row_dict :: "string list \<Rightarrow> string list \<Rightarrow> payload" where
  "row_dict header row =
     (let d = fold (\<lambda>(k, v). AList.update k (VStr v)) (zip header row) [] in
      if length header < length row
      then AList.update OVERFLOW_KEY (VStr (join '','' (drop (length header) row))) d
      else fold (\<lambda>k. AList.update k (VStr [])) (drop (length row) header) d)"

text \<open>The rows after the header, without the empty ones; the flag tells whether the reader raised.\<close>

function dict_rows :: "nat \<Rightarrow> string list \<Rightarrow> string \<Rightarrow> payload list \<times> bool" where
  "dict_rows limit header s =
     (case next_row limit s of
        (CsvStop, _) \<Rightarrow> ([], False)
      | (CsvError, _) \<Rightarrow> ([], True)
      | (CsvRow row, rest) \<Rightarrow>
          (case dict_rows limit header rest of
             (rows, err) \<Rightarrow> (if row = [] then rows else row_dict header row # rows, err)))"
  by pat_completeness auto
termination
  by (relation "measure (\<lambda>(limit, header, s). length s)") (auto dest!: next_row_shorter [OF sym])

definition dict_reader :: "nat \<Rightarrow> string \<Rightarrow> payload list \<times> bool" where
  "dict_reader limit s =
     (case next_row limit s of
        (CsvStop, _) \<Rightarrow> ([], False)
      | (CsvError, _) \<Rightarrow> ([], True)
      | (CsvRow header, rest) \<Rightarrow> dict_rows limit header rest)"

declare dict_rows.simps [simp del]

subsection \<open>Round trip\<close>

definition escape :: "string \<Rightarrow> string" where
  "escape f = concat (map (\<lambda>c. if c = quote_char then [quote_char, quote_char] else [c]) f)"

definition quote_field :: "string \<Rightarrow> string" where
  "quote_field f = quote_char # escape f @ [quote_char]"

definition csv_line :: "string list \<Rightarrow> string" where
  "csv_line row = join '','' (map quote_field row) @ [lf]"

definition csv_text :: "string list list \<Rightarrow> string" where
  "csv_text rows = concat (map csv_line rows)"

lemma special_chars [simp]:
  "quote_char \<noteq> CHR '',''" "quote_char \<noteq> lf" "quote_char \<noteq> cr" "CHR '','' \<noteq> quote_char" "lf \<noteq> quote_char" "cr \<noteq> quote_char"
  "lf \<noteq> CHR '',''" "CHR '','' \<noteq> lf" "CHR '','' \<noteq> cr" "\<not> is_eol quote_char" "\<not> is_eol (CHR '','')" "is_eol lf"
  "\<not> ends_line quote_char s" "\<not> ends_line (CHR '','') s" "ends_line lf s"
  by (simp_all add: quote_char_def lf_def cr_def is_eol_def ends_line_def)

lemma escape_simps [simp]:
  "escape [] = []" "escape (c # f) = (if c = quote_char then [quote_char, quote_char] else [c]) @ escape f"
  by (simp_all add: escape_def)

lemma scan_body:
  "p_state p = InQuoted \<Longrightarrow> length (p_field p) + length f \<le> limit \<Longrightarrow>
   scan limit p mid (escape f @ quote_char # s) = scan limit (p\<lparr>p_state := QuoteInQuoted, p_field := p_field p @ f\<rparr>) True s"
proof (induction f arbitrary: p mid)
  case Nil
  then show ?case by (simp add: process_char_def)
next
  case (Cons c f)
  let ?p = "p\<lparr>p_state := InQuoted, p_field := p_field p @ [c]\<rparr>"
  have IH: "scan limit ?p m (escape f @ quote_char # s)
      = scan limit (p\<lparr>p_state := QuoteInQuoted, p_field := p_field p @ c # f\<rparr>) True s" for m
    using Cons.IH [of ?p m] Cons.prems by simp
  have room: "\<not> limit \<le> length (p_field p)" using Cons.prems by simp
  show ?case
    using Cons.prems(1) room IH by (cases "c = quote_char") (auto simp: process_char_def add_char_def end_line_def Let_def)
qed

lemma scan_field:
  assumes "p_state p \<in> {StartRecord, StartField}" "p_field p = []" "length f \<le> limit"
  shows "scan limit p mid (quote_field f @ s) = scan limit (p\<lparr>p_state := QuoteInQuoted, p_field := f\<rparr>) True s"
  using assms scan_body [of "p\<lparr>p_state := InQuoted\<rparr>" f limit True s]
  by (auto simp: quote_field_def process_char_def start_field_def)

lemma scan_row:
  assumes "p_state p \<in> {StartRecord, StartField}" "p_field p = []" "list_all (\<lambda>f. length f \<le> limit) (f # fs)"
  shows "scan limit p mid (csv_line (f # fs) @ s) = (CsvRow (p_fields p @ f # fs), s)"
  using assms
proof (induction fs arbitrary: f p mid)
  case Nil
  then show ?case
    by (simp add: csv_line_def scan_field process_char_def save_field_def end_line_def)
next
  case (Cons g fs)
  let ?p = "\<lparr>p_state = StartField, p_field = [], p_fields = p_fields p @ [f]\<rparr>"
  have "scan limit p mid (csv_line (f # g # fs) @ s) = scan limit ?p True (csv_line (g # fs) @ s)"
    using Cons.prems by (simp add: csv_line_def scan_field process_char_def save_field_def)
  also have "\<dots> = (CsvRow (p_fields p @ f # g # fs), s)" using Cons.IH [of ?p g True] Cons.prems(3) by simp
  finally show ?case .
qed

lemma next_row_line:
  "row \<noteq> [] \<Longrightarrow> list_all (\<lambda>f. length f \<le> limit) row \<Longrightarrow> next_row limit (csv_line row @ s) = (CsvRow row, s)"
  using scan_row [of reset limit "hd row" "tl row" False s] by (cases row) (simp_all add: next_row_def reset_def)

lemma fold_update_distinct:
  "distinct (map fst d @ map fst kvs) \<Longrightarrow> fold (\<lambda>(k, v). AList.update k (g v)) kvs d = d @ map (\<lambda>(k, v). (k, g v)) kvs"
proof (induction kvs arbitrary: d)
  case (Cons kv kvs)
  obtain k v where kv: "kv = (k, v)" by force
  have "AList.update k (g v) d = d @ [(k, g v)]" using Cons.prems kv by (induction d) auto
  then show ?case using Cons kv by simp
qed simp

lemma row_dict_exact:
  assumes "distinct header" "length row = length header"
  shows "row_dict header row = zip header (map VStr row)"
proof -
  have "map (\<lambda>(k, v). (k, VStr v)) (zip header row) = zip header (map VStr row)" by (simp add: zip_map2)
  then show ?thesis using assms fold_update_distinct [of "[]" "zip header row" VStr] by (simp add: row_dict_def)
qed

text \<open>
  A file with a header and rows of its width, written with every field in quotes: whatever the fields contain
  (commas, quotes, line breaks of any kind) and as long as none is longer than the limit, the download yields one dictionary per row with
  exactly the fields, and no error.
\<close>

lemma csv_roundtrip:
  assumes "header \<noteq> []" "distinct header" "list_all (\<lambda>row. length row = length header) rows"
    and "list_all (list_all (\<lambda>f. length f \<le> limit)) (header # rows)"
  shows "dict_reader limit (csv_text (header # rows)) = (map (\<lambda>row. zip header (map VStr row)) rows, False)"
proof -
  have "dict_rows limit header (csv_text rows) = (map (\<lambda>row. zip header (map VStr row)) rows, False)"
    using assms(3,4)
  proof (induction rows)
    case Nil
    then show ?case by (simp add: csv_text_def dict_rows.simps next_row_def reset_def exhausted_def)
  next
    case (Cons row rows)
    have row: "row \<noteq> []" "length row = length header" "list_all (\<lambda>f. length f \<le> limit) row"
      using Cons.prems assms(1) by auto
    have "next_row limit (csv_text (row # rows)) = (CsvRow row, csv_text rows)"
      using next_row_line [OF row(1,3)] by (simp add: csv_text_def)
    then show ?case using Cons row row_dict_exact [OF assms(2) row(2)] by (simp add: dict_rows.simps [of limit header "csv_text (row # rows)"])
  qed
  moreover have "next_row limit (csv_text (header # rows)) = (CsvRow header, csv_text rows)"
    using next_row_line [OF assms(1)] assms(4) by (simp add: csv_text_def)
  ultimately show ?thesis by (simp add: dict_reader_def)
qed

text \<open>A field with a comma, a quote and a line break.\<close>

lemma csv_roundtrip_example:
  "dict_reader 10 (csv_text [[''A'', ''B''], [[CHR '','', quote_char, cr, lf], []]])
     = ([[(''A'', VStr [CHR '','', quote_char, cr, lf]), (''B'', VStr [])]], False)"
  using csv_roundtrip [of "[''A'', ''B'']" "[[[CHR '','', quote_char, cr, lf], []]]" 10] by simp

end
