(* ===== verification/ElfClient.thy ===== *)
theory ElfClient
  imports Rest Csv ElfSource
begin

section \<open>salesforce/eventlogfile\_client.py\<close>

text \<open>
  The client of the EventLogFile source over the SOQL client, the token provider and the CSV reader: listing, discovery,
  download and clock skew. The state is the network with what was sent, and the last skew.

  Results: a download of a file whose CSV quotes its fields gives exactly its rows, with at most two requests; listing and download
  turn every failure of the request into the client's own errors, but not a failure of the token provider, which leaves the source
  through its cycle.
\<close>

definition CSV_FIELD_SIZE_LIMIT :: nat where "CSV_FIELD_SIZE_LIMIT = 4 * 262144"

text \<open>\<open>to_float\<close> is Python's \<^verbatim>\<open>float()\<close>, \<open>None\<close> where it raises.\<close>

definition as_int :: "(pyval \<Rightarrow> rat option) \<Rightarrow> pyval option \<Rightarrow> int" where
  "as_int to_float v =
     (case v of
        None \<Rightarrow> 0
      | Some VNone \<Rightarrow> 0
      | Some u \<Rightarrow> (case to_float u of None \<Rightarrow> 0 | Some r \<Rightarrow> if 0 \<le> r then \<lfloor>r\<rfloor> else \<lceil>r\<rceil>))"

text \<open>A response to a download: its text after decoding and its \<^verbatim>\<open>Date\<close> header.\<close>

record elf_body =
  eb_text :: string
  eb_date :: "string option"

record 'o elf_client =
  ek_net :: "'o net"
  ek_skew :: "int option"

record 'o elf_rest =
  er_rest :: "'o rest_env"
  er_get :: "('o, elf_body) http_get"
  er_parse_date :: "string \<Rightarrow> datetime option"
  er_to_float :: "pyval \<Rightarrow> rat option"
  er_fromiso :: dt_parser
  er_fmt :: "datetime \<Rightarrow> string"
  er_show_nat :: "nat \<Rightarrow> string"

definition record_server_date :: "'o elf_rest \<Rightarrow> string option \<Rightarrow> 'o elf_client \<Rightarrow> 'o elf_client" where
  "record_server_date env hdr k =
     (case hdr of
        None \<Rightarrow> k
      | Some h \<Rightarrow>
          if h = [] then k
          else (case er_parse_date env h of
                  None \<Rightarrow> k
                | Some t \<Rightarrow>
                    (let (now, o1) = au_now (re_auth (er_rest env)) (nt_world (ek_net k))
                     in k\<lparr>ek_net := (ek_net k)\<lparr>nt_world := o1\<rparr>, ek_skew := Some (t - now)\<rparr>)))"

subsection \<open>Listing\<close>

definition list_soql :: "'o elf_rest \<Rightarrow> string \<Rightarrow> string \<Rightarrow> string \<Rightarrow> nat \<Rightarrow> string" where
  "list_soql env et interval since page_size =
     ''SELECT Id,EventType,Interval,LogDate,CreatedDate,LogFileLength,Sequence FROM EventLogFile WHERE EventType=''
       @ [CHR 39] @ et @ [CHR 39] @ '' AND Interval='' @ [CHR 39] @ interval @ [CHR 39] @ '' AND CreatedDate >= ''
       @ to_soql_datetime_literal (er_fromiso env) (er_fmt env) since
       @ '' ORDER BY CreatedDate, Id LIMIT '' @ er_show_nat env page_size"

definition str_get :: "payload \<Rightarrow> string \<Rightarrow> string \<Rightarrow> string" where
  "str_get r k d = (case map_of r k of None \<Rightarrow> d | Some v \<Rightarrow> py_str v)"

text \<open>\<open>None\<close>: the record has no \<^verbatim>\<open>Id\<close>.\<close>

definition meta_of :: "'o elf_rest \<Rightarrow> string \<Rightarrow> string \<Rightarrow> payload \<Rightarrow> elf_meta option" where
  "meta_of env et interval r =
     map_option (\<lambda>i. \<lparr>f_id = py_str i, f_event_type = str_get r ''EventType'' et, f_interval = str_get r ''Interval'' interval,
        f_log_date = str_get r ''LogDate'' [], f_created = str_get r ''CreatedDate'' [],
        f_sequence = as_int (er_to_float env) (map_of r ''Sequence''),
        f_length = as_int (er_to_float env) (map_of r ''LogFileLength'')\<rparr>) (map_of r ''Id'')"

text \<open>How a query that is not done leaves the client; \<open>None\<close> is an exception outside the family.\<close>

fun wrap_soql_error :: "query_end \<Rightarrow> elf_error option" where
  "wrap_soql_error QThrottled = Some ElfThrottledError"
| "wrap_soql_error QError = Some ElfError"
| "wrap_soql_error _ = None"

text \<open>A record without an \<^verbatim>\<open>Id\<close> raises wherever it comes; \<open>fuel\<close> bounds the pages of the query.\<close>

definition list_files ::
  "'o elf_rest \<Rightarrow> nat \<Rightarrow> string \<Rightarrow> string \<Rightarrow> string \<Rightarrow> nat \<Rightarrow> 'o elf_client \<Rightarrow> (elf_error option + elf_meta list) \<times> 'o elf_client" where
  "list_files env fuel et interval since page_size k =
     (case soql_query (er_rest env) fuel (list_soql env et interval since page_size) (ek_net k) of
        (e, recs, n) \<Rightarrow>
          (if list_ex (\<lambda>r. meta_of env et interval r = None) recs then Inl None
           else if e = QDone then Inr (map (\<lambda>r. the (meta_of env et interval r)) recs)
           else Inl (wrap_soql_error e), k\<lparr>ek_net := n\<rparr>))"

definition list_event_types ::
  "'o elf_rest \<Rightarrow> nat \<Rightarrow> string \<Rightarrow> 'o elf_client \<Rightarrow> (elf_error option + string list) \<times> 'o elf_client" where
  "list_event_types env fuel interval k =
     (case soql_query (er_rest env) fuel
             (''SELECT EventType FROM EventLogFile WHERE Interval='' @ [CHR 39] @ interval @ [CHR 39] @ '' GROUP BY EventType'') (ek_net k) of
        (e, recs, n) \<Rightarrow>
          (if e = QDone
           then Inr (sort (remdups (map py_str (filter truthy (concat (map (\<lambda>r. case map_of r ''EventType'' of None \<Rightarrow> [] | Some v \<Rightarrow> [v]) recs))))))
           else Inl (wrap_soql_error e), k\<lparr>ek_net := n\<rparr>))"

subsection \<open>Download\<close>

definition ek_token :: "'o elf_rest \<Rightarrow> 'o elf_client \<Rightarrow> (auth_fail + access_token) \<times> 'o elf_client" where
  "ek_token env k = (case net_token (re_auth (er_rest env)) (ek_net k) of (r, n) \<Rightarrow> (r, k\<lparr>ek_net := n\<rparr>))"

definition ek_invalidate :: "'o elf_client \<Rightarrow> 'o elf_client" where
  "ek_invalidate k = k\<lparr>ek_net := net_invalidate (ek_net k)\<rparr>"

definition log_file_url :: "'o elf_rest \<Rightarrow> elf_meta \<Rightarrow> access_token \<Rightarrow> string" where
  "log_file_url env f tok =
     at_instance_url tok @ ''/services/data/v'' @ sf_api_version (au_cfg (re_auth (er_rest env))) @ ''/sobjects/EventLogFile/''
       @ f_id f @ ''/LogFile''"

definition fetch_attempt :: "'o elf_rest \<Rightarrow> elf_meta \<Rightarrow> access_token \<Rightarrow> 'o elf_client \<Rightarrow> (unit + elf_body response) \<times> 'o elf_client" where
  "fetch_attempt env f tok k =
     (case send (er_get env) (log_file_url env f tok) None tok (ek_net k) of
        (Inl u, n) \<Rightarrow> (Inl u, k\<lparr>ek_net := n\<rparr>)
      | (Inr resp, n) \<Rightarrow>
          (Inr resp, record_server_date env (case rs_json resp of None \<Rightarrow> None | Some b \<Rightarrow> eb_date b) (k\<lparr>ek_net := n\<rparr>)))"

datatype fetched = FetchBody string | FetchError elf_error | FetchTransport | FetchAuth auth_fail

definition fetch_to_spool :: "'o elf_rest \<Rightarrow> elf_meta \<Rightarrow> 'o elf_client \<Rightarrow> fetched \<times> 'o elf_client" where
  "fetch_to_spool env f k =
     (case ek_token env k of
        (Inl af, k1) \<Rightarrow> (FetchAuth af, k1)
      | (Inr tok, k1) \<Rightarrow>
          (case with_retry (ek_token env) ek_invalidate (fetch_attempt env f) tok k1 of
             (Inl RTransport, k2) \<Rightarrow> (FetchTransport, k2)
           | (Inl (RAuth af), k2) \<Rightarrow> (FetchAuth af, k2)
           | (Inr (resp, _), k2) \<Rightarrow>
               (if \<not> is_success resp then FetchError (if throttled_response resp then ElfThrottledError else ElfError)
                else FetchBody (case rs_json resp of None \<Rightarrow> [] | Some b \<Rightarrow> eb_text b), k2)))"

text \<open>\<open>download\<close> of a file: what the source gets to iterate over.\<close>

definition download_file :: "'o elf_rest \<Rightarrow> elf_meta \<Rightarrow> 'o elf_client \<Rightarrow> download \<times> 'o elf_client" where
  "download_file env f k =
     (case fetch_to_spool env f k of
        (FetchAuth af, k1) \<Rightarrow> (([], DlRaised), k1)
      | (FetchTransport, k1) \<Rightarrow> (([], DlError ElfError), k1)
      | (FetchError err, k1) \<Rightarrow> (([], DlError err), k1)
      | (FetchBody text, k1) \<Rightarrow>
          (case dict_reader CSV_FIELD_SIZE_LIMIT text of
             (rows, err) \<Rightarrow> ((rows, if err then DlError ElfError else DlDone), k1)))"

subsection \<open>The client as a user of the provider\<close>

lemma record_server_date_frame [simp]:
  "nt_sent (ek_net (record_server_date env h k)) = nt_sent (ek_net k)"
  "nt_provider (ek_net (record_server_date env h k)) = nt_provider (ek_net k)"
  by (auto simp: record_server_date_def Let_def split: option.splits prod.splits)

interpretation ek: bearer_source "ek_token env" ek_invalidate "\<lambda>k. tp_refreshes (nt_provider (ek_net k))" "\<lambda>k. nt_sent (ek_net k)" for env
proof unfold_locales
  fix s :: "'a elf_client" and r s' tok
  show "nt_sent (ek_net s') = nt_sent (ek_net s) \<and> tp_refreshes (nt_provider (ek_net s)) \<le> tp_refreshes (nt_provider (ek_net s'))"
    if "ek_token env s = (r, s')"
    using that net.token_frame [of "re_auth (er_rest env)" "ek_net s"] by (auto simp: ek_token_def split: prod.splits)
  show "nt_sent (ek_net (ek_invalidate s)) = nt_sent (ek_net s)
      \<and> tp_refreshes (nt_provider (ek_net (ek_invalidate s))) = tp_refreshes (nt_provider (ek_net s))"
    using net.drop_frame [of "ek_net s"] by (simp add: ek_invalidate_def)
  show "tp_refreshes (nt_provider (ek_net s)) < tp_refreshes (nt_provider (ek_net s'))"
    if "ek_token env (ek_invalidate s) = (Inr tok, s')"
    using that net.token_fresh [of "re_auth (er_rest env)" "ek_net s"]
    by (auto simp: ek_token_def ek_invalidate_def split: prod.splits)
qed

lemma fetch_sends: "ek.sends (fetch_attempt env f)"
  by (auto simp: ek.sends_def fetch_attempt_def send_def split: prod.splits sum.splits)

subsection \<open>What a download gives\<close>

text \<open>A server that holds a file as a table with every field in quotes; a bearer may be rejected at any time, but not a
  fresh one.\<close>

definition file_server :: "'o elf_rest \<Rightarrow> ('o \<Rightarrow> string \<Rightarrow> bool) \<Rightarrow> elf_meta \<Rightarrow> string \<Rightarrow> bool" where
  "file_server env good f text \<longleftrightarrow>
     (\<forall>tok q. \<exists>r q'. er_get env (log_file_url env f tok) None (at_value tok) q = (Inr r, q')
        \<and> (if good q (at_value tok) then is_success r \<and> (\<exists>b. rs_json r = Some b \<and> eb_text b = text) else rs_status r = 401))
     \<and> (\<forall>n. \<exists>tok n'. net_token (re_auth (er_rest env)) (net_invalidate n) = (Inr tok, n') \<and> good (nt_world n') (at_value tok))"

lemma fetch_served:
  assumes "file_server env good f text"
  shows "\<exists>resp tok' k'. with_retry (ek_token env) ek_invalidate (fetch_attempt env f) tok k = (Inr (resp, tok'), k')
    \<and> (\<exists>b. rs_json resp = Some b \<and> eb_text b = text) \<and> is_success resp"
proof (rule with_retry_gets [where good = "\<lambda>k tok. good (nt_world (ek_net k)) (at_value tok)"])
  fix tok and k :: "'a elf_client"
  from assms obtain r q' where "er_get env (log_file_url env f tok) None (at_value tok) (nt_world (ek_net k)) = (Inr r, q')"
    "if good (nt_world (ek_net k)) (at_value tok) then is_success r \<and> (\<exists>b. rs_json r = Some b \<and> eb_text b = text) else rs_status r = 401"
    unfolding file_server_def by blast
  then show "\<exists>r k'. fetch_attempt env f tok k = (Inr r, k')
      \<and> (if good (nt_world (ek_net k)) (at_value tok) then (\<exists>b. rs_json r = Some b \<and> eb_text b = text) \<and> is_success r else rs_status r = 401)"
    by (auto simp: fetch_attempt_def send_def split: if_splits)
next
  fix k :: "'a elf_client"
  obtain tok n where "net_token (re_auth (er_rest env)) (net_invalidate (ek_net k)) = (Inr tok, n)" "good (nt_world n) (at_value tok)"
    using assms unfolding file_server_def by blast
  then show "\<exists>tok k'. ek_token env (ek_invalidate k) = (Inr tok, k') \<and> good (nt_world (ek_net k')) (at_value tok)"
    by (auto simp: ek_token_def ek_invalidate_def)
qed

text \<open>
  C15. The download of a file, through token provider, retry on a rejected token and CSV reader. Let the file be a table with distinct column
  names, as many fields in each row as columns, and no field over the reader's limit of a MiB, all fields quoted. Whatever
  characters the fields hold, the source gets one row per line of the table with exactly its fields and a regular end, after at
  most two requests, the second of them with a token minted after the first.
\<close>

theorem elf_download_exact:
  assumes tok: "ek_token env k = (Inr tok, k1)"
    and server: "file_server env good f (csv_text (header # rows))"
    and table: "header \<noteq> []" "distinct header" "list_all (\<lambda>row. length row = length header) rows"
      "list_all (list_all (\<lambda>c. length c \<le> CSV_FIELD_SIZE_LIMIT)) (header # rows)"
  shows "\<exists>k' b m. download_file env f k = ((map (\<lambda>row. zip header (map VStr row)) rows, DlDone), k')
    \<and> (nt_sent (ek_net k') = nt_sent (ek_net k1) @ [(at_value tok, tp_refreshes (nt_provider (ek_net k1)))]
       \<or> nt_sent (ek_net k') = nt_sent (ek_net k1) @ [(at_value tok, tp_refreshes (nt_provider (ek_net k1))), (b, m)]
         \<and> tp_refreshes (nt_provider (ek_net k1)) < m)"
proof -
  obtain resp tok' k' bd where w: "with_retry (ek_token env) ek_invalidate (fetch_attempt env f) tok k1 = (Inr (resp, tok'), k')"
    and r: "rs_json resp = Some bd" "eb_text bd = csv_text (header # rows)" "is_success resp"
    using fetch_served [OF server] by blast
  have "download_file env f k = ((map (\<lambda>row. zip header (map VStr row)) rows, DlDone), k')"
    using tok w r csv_roundtrip [OF table] by (simp add: download_file_def fetch_to_spool_def)
  then show ?thesis using ek.retry_once [OF w fetch_sends] by blast
qed

text \<open>An exception of the token provider is in no family: the download raises it, and a listing too, so that the cycle
  of the type ends with it.\<close>

lemma token_failure_escapes:
  assumes "ek_token env k = (Inl af, k1)"
  shows "download_file env f k = (([], DlRaised), k1)" "fst (list_files env fuel et interval since n k) = Inl None"
  using assms by (auto simp: download_file_def fetch_to_spool_def list_files_def soql_query_def ek_token_def split: prod.splits)

lemma token_failure_ends_cycle:
  assumes "start_position E cfg st stored = Some p" "ek_token env k = (Inl af, k1)"
    and "listing (fst p) = fst (list_files env fuel et interval (fst p) n k)"
  shows "fst (process_event_type E cfg t stored listing dl stop st) = ElfRaised"
  using assms token_failure_escapes(2) [OF assms(2)] by (simp add: process_event_type_def Let_def)

subsection \<open>Witness\<close>

text \<open>The world of the query witness, where the cached token is rejected, and a file with one awkward field.\<close>

definition demo_header :: "string list" where "demo_header = [''USER'', ''QUERY'']"
definition demo_rows :: "string list list" where "demo_rows = [[''u'', [CHR '','', quote_char, lf]]]"

definition demo_elf :: "nat elf_rest" where
  "demo_elf = \<lparr>er_rest = demo_rest,
     er_get = (\<lambda>u p bearer q. (Inr \<lparr>rs_status = (if bearer = ''t'' then 200 else 401), rs_text = [],
       rs_json = Some \<lparr>eb_text = csv_text (demo_header # demo_rows), eb_date = None\<rparr>\<rparr>, q)),
     er_parse_date = Map.empty, er_to_float = Map.empty, er_fromiso = Map.empty, er_fmt = (\<lambda>t. []), er_show_nat = (\<lambda>n. [])\<rparr>"

definition demo_client :: "nat elf_client" where
  "demo_client = \<lparr>ek_net = demo_net, ek_skew = None\<rparr>"

lemma demo_file_server: "file_server demo_elf (\<lambda>q b. b = ''t'') f (csv_text (demo_header # demo_rows))"
proof -
  have "\<exists>tok n'. net_token (re_auth (er_rest demo_elf)) (net_invalidate n) = (Inr tok, n') \<and> at_value tok = ''t''" for n
    using demo_fresh [of n] by (auto simp: demo_elf_def demo_rest_def demo_token_def)
  then show ?thesis by (auto simp: file_server_def demo_elf_def is_success_def)
qed

theorem elf_download_exact_witness:
  "\<exists>k' b m. download_file demo_elf (demo_file ''A'' ''00'') demo_client
      = (([[(''USER'', VStr ''u''), (''QUERY'', VStr [CHR '','', quote_char, lf])]], DlDone), k')
    \<and> (nt_sent (ek_net k') = [(''old'', 0)] \<or> nt_sent (ek_net k') = [(''old'', 0), (b, m)] \<and> 0 < m)"
proof -
  have t: "ek_token demo_elf demo_client = (Inr demo_old, demo_client)"
    by (simp add: ek_token_def net_token_def demo_elf_def demo_rest_def demo_auth_def token_def demo_client_def demo_net_def is_valid_def
        demo_old_def demo_token_def REFRESH_SKEW_def)
  have p: "nt_sent (ek_net demo_client) = []" "tp_refreshes (nt_provider (ek_net demo_client)) = 0" "at_value demo_old = ''old''"
    by (simp_all add: demo_client_def demo_net_def new_provider_def demo_old_def)
  from elf_download_exact [OF t demo_file_server] show ?thesis
    unfolding p by (simp add: demo_header_def demo_rows_def CSV_FIELD_SIZE_LIMIT_def)
qed

end
