(* ===== verification/Apex.thy ===== *)
theory Apex
  imports ObjectsSource Rest
begin

section \<open>Apex debug logs\<close>

text \<open>
  \<^verbatim>\<open>salesforce/apexlog_client.py\<close> and \<^verbatim>\<open>sources/apexlog_source.py\<close>. The watermark, checkpoint and window functions of
  the source are the same code as those of the event objects source and are taken from there. A poll takes what each listing and each body
  download answers as functions, and returns how it ended, what it yielded and the state after it; the
  number of listings is bounded by fuel.

  Results: a poll goes through the rows behind its cursor once and in order, over any number of pages of equal start
  times; each token it yields resumes exactly behind the row it was yielded for; a body that cannot be had costs
  only the body.
\<close>

definition APEX_PAGE_LIMIT :: nat where "APEX_PAGE_LIMIT = 200"
definition APEX_MAX_CARRIED_IDS :: nat where "APEX_MAX_CARRIED_IDS = 500"
definition CHECKPOINT_KEY :: string where "CHECKPOINT_KEY = ''apexlog''"

record apex_meta =
  a_id :: string
  a_log_user_id :: string
  a_log_length :: int
  a_operation :: string
  a_request :: string
  a_status :: string
  a_start_time :: string
  a_application :: string
  a_duration_ms :: int
  a_location :: string

datatype apex_error = ApexLogThrottledError | ApexLogError

subsection \<open>The client\<close>

definition apex_as_int :: "(pyval \<Rightarrow> rat option) \<Rightarrow> pyval option \<Rightarrow> int" where
  "apex_as_int to_float v =
     (case v of
        None \<Rightarrow> 0
      | Some VNone \<Rightarrow> 0
      | Some u \<Rightarrow> (case to_float u of None \<Rightarrow> 0 | Some r \<Rightarrow> if 0 \<le> r then \<lfloor>r\<rfloor> else \<lceil>r\<rceil>))"

definition get_str :: "payload \<Rightarrow> string \<Rightarrow> string" where
  "get_str r k = (case map_of r k of None \<Rightarrow> [] | Some v \<Rightarrow> py_str v)"

definition apex_meta_of :: "(pyval \<Rightarrow> rat option) \<Rightarrow> payload \<Rightarrow> apex_meta" where
  "apex_meta_of to_float r =
     \<lparr>a_id = get_str r ''Id'', a_log_user_id = get_str r ''LogUserId'', a_log_length = apex_as_int to_float (map_of r ''LogLength''),
      a_operation = get_str r ''Operation'', a_request = get_str r ''Request'', a_status = get_str r ''Status'',
      a_start_time = get_str r ''StartTime'', a_application = get_str r ''Application'',
      a_duration_ms = apex_as_int to_float (map_of r ''DurationMilliseconds''), a_location = get_str r ''Location''\<rparr>"

definition APEXLOG_FIELDS :: string where
  "APEXLOG_FIELDS = ''Id, LogUserId, LogLength, Operation, Request, Status, StartTime, Application, DurationMilliseconds, Location''"

definition quoted :: "string \<Rightarrow> string" where
  "quoted s = [CHR 39] @ s @ [CHR 39]"

definition logs_where :: "string \<Rightarrow> string list \<Rightarrow> string \<Rightarrow> string list" where
  "logs_where lit users since_id =
     [if since_id \<noteq> [] then ''(StartTime > '' @ lit @ '' OR (StartTime = '' @ lit @ '' AND Id > '' @ quoted since_id @ ''))''
      else ''StartTime >= '' @ lit]
     @ (if users = [] then [] else [''LogUser.Username IN ('' @ join '','' (map quoted users) @ '')''])"

definition logs_soql :: "string \<Rightarrow> string list \<Rightarrow> string \<Rightarrow> string \<Rightarrow> string" where
  "logs_soql lit users since_id page_size =
     ''SELECT '' @ APEXLOG_FIELDS @ '' FROM ApexLog WHERE '' @ join '' AND '' (logs_where lit users since_id)
       @ '' ORDER BY StartTime ASC, Id ASC LIMIT '' @ page_size"

text \<open>\<open>Inl None\<close>: an exception outside the client's family.\<close>

fun apex_wrap :: "query_end \<Rightarrow> apex_error option" where
  "apex_wrap QThrottled = Some ApexLogThrottledError"
| "apex_wrap QError = Some ApexLogError"
| "apex_wrap _ = None"

definition list_logs ::
  "'o rest_env \<Rightarrow> nat \<Rightarrow> (pyval \<Rightarrow> rat option) \<Rightarrow> (string \<Rightarrow> string) \<Rightarrow> string list \<Rightarrow> string \<Rightarrow> string \<Rightarrow> string \<Rightarrow> 'o net
     \<Rightarrow> (apex_error option + apex_meta list) \<times> 'o net" where
  "list_logs env fuel to_float lit users page_size since since_id n =
     (case soql_query env fuel (logs_soql (lit since) users since_id page_size) n of
        (e, recs, n1) \<Rightarrow> (if e = QDone then Inr (map (apex_meta_of to_float) recs) else Inl (apex_wrap e), n1))"

definition count_active_traceflags :: "'o rest_env \<Rightarrow> nat \<Rightarrow> string \<Rightarrow> 'o net \<Rightarrow> (apex_error option + nat) \<times> 'o net" where
  "count_active_traceflags env fuel now_literal n =
     (case soql_query env fuel (''SELECT Id FROM TraceFlag WHERE ExpirationDate > '' @ now_literal @ '' LIMIT 200'') n of
        (e, recs, n1) \<Rightarrow> (if e = QDone then Inr (length recs) else Inl (apex_wrap e), n1))"

definition body_url :: "'o rest_env \<Rightarrow> string \<Rightarrow> access_token \<Rightarrow> string" where
  "body_url env i tok =
     at_instance_url tok @ ''/services/data/v'' @ sf_api_version (au_cfg (re_auth env)) @ ''/tooling/sobjects/ApexLog/'' @ i @ ''/Body''"

definition download_body ::
  "'o rest_env \<Rightarrow> ('o, ustring) http_get \<Rightarrow> string \<Rightarrow> 'o net \<Rightarrow> (apex_error option + ustring) \<times> 'o net" where
  "download_body env get i n =
     (case net_token (re_auth env) n of
        (Inl f, n1) \<Rightarrow> (Inl None, n1)
      | (Inr tok, n1) \<Rightarrow>
          (case with_retry (net_token (re_auth env)) net_invalidate (\<lambda>tok. send get (body_url env i tok) None tok) tok n1 of
             (Inl RTransport, n2) \<Rightarrow> (Inl (Some ApexLogError), n2)
           | (Inl (RAuth f), n2) \<Rightarrow> (Inl None, n2)
           | (Inr (resp, _), n2) \<Rightarrow>
               (if \<not> is_success resp then Inl (Some (if throttled_response resp then ApexLogThrottledError else ApexLogError))
                else Inr (case rs_json resp of None \<Rightarrow> [] | Some b \<Rightarrow> b), n2)))"

subsection \<open>One log\<close>

record apex_env =
  ae_fromiso :: dt_parser
  ae_strp :: dt_parser
  ae_fmt_default :: "datetime \<Rightarrow> string"
  ae_now :: datetime
  ae_loads :: "string \<Rightarrow> json option"
  ae_dumps_ck :: "string list \<Rightarrow> string \<Rightarrow> string"
  ae_dumps :: "payload \<Rightarrow> ustring"
  ae_sha256 :: "string \<Rightarrow> nat list"
  ae_transforms :: "compiled list"
  ae_sm_fields :: "string list"

record apex_config =
  ax_lookback :: int
  ax_max_body_bytes :: int
  ax_sample :: rat

definition meta_payload :: "apex_meta \<Rightarrow> payload" where
  "meta_payload m =
     [(''Id'', VStr (a_id m)), (''LogUserId'', VStr (a_log_user_id m)), (''LogLength'', VInt (a_log_length m)),
      (''Operation'', VStr (a_operation m)), (''Request'', VStr (a_request m)), (''Status'', VStr (a_status m)),
      (''StartTime'', VStr (a_start_time m)), (''Application'', VStr (a_application m)),
      (''DurationMilliseconds'', VInt (a_duration_ms m)), (''Location'', VStr (a_location m))]"

definition setdefault :: "string \<Rightarrow> string \<Rightarrow> labelset \<Rightarrow> labelset" where
  "setdefault k v d = (if map_of d k = None then d @ [(k, v)] else d)"

definition promote_metadata :: "payload \<Rightarrow> labelset \<Rightarrow> labelset" where
  "promote_metadata p sm = fold (\<lambda>(k, v) d. if v \<noteq> VNone \<and> py_str v \<noteq> [] then setdefault k (py_str v) d else d) p sm"

definition skip_body :: "string \<Rightarrow> labelset \<Rightarrow> labelset" where
  "skip_body reason sm = AList.update ''body_skip_reason'' reason (AList.update ''body_skipped'' ''true'' sm)"

text \<open>The line with the structured metadata, or the exception that leaves: a throttled download or one outside the
  client's family.\<close>

definition resolve_line ::
  "apex_env \<Rightarrow> apex_config \<Rightarrow> (string \<Rightarrow> apex_error option + ustring) \<Rightarrow> apex_meta \<Rightarrow> payload \<Rightarrow> labelset \<Rightarrow> apex_error option + ustring \<times> labelset" where
  "resolve_line E cfg body m p sm =
     (if a_log_length m > ax_max_body_bytes cfg then Inr (ae_dumps E p, skip_body ''size'' sm)
      else (case body (a_id m) of
              Inr text \<Rightarrow> Inr (text, sm)
            | Inl (Some ApexLogError) \<Rightarrow> Inr (ae_dumps E p, skip_body ''download_error'' sm)
            | Inl exc \<Rightarrow> Inl exc))"

definition build_entry ::
  "apex_env \<Rightarrow> apex_config \<Rightarrow> (string \<Rightarrow> apex_error option + ustring) \<Rightarrow> apex_meta \<Rightarrow> payload \<Rightarrow> string \<Rightarrow> string \<Rightarrow> apex_error option + log_entry" where
  "build_entry E cfg body m p wm ckpt =
     (let sm = promote_metadata p (snd (route_fields (ae_dumps E) p (ae_sm_fields E))) in
      case resolve_line E cfg body m p sm of
        Inl exc \<Rightarrow> Inl exc
      | Inr (text, sm1) \<Rightarrow>
          Inr \<lparr>timestamp = fst (extract_timestamp_checked (ae_fromiso E) (ae_strp E) (ae_now E) p [''StartTime'']
                                  (watermark_datetime (ae_fromiso E) wm)),
               labels = [(''source'', ''apexlog''), (''event_type'', ''apexlog'')], line = text, structured_metadata = sm1,
               checkpoint = \<lparr>tok_key = CHECKPOINT_KEY, tok_value = ckpt\<rparr>, checkpoint_only = False, line_nbytes_memo = - 1\<rparr>)"

subsection \<open>A poll\<close>

text \<open>\<open>ac_done\<close> are the rows gone through, \<open>ac_marks\<close> their number when each entry was yielded.\<close>

record apex_cycle =
  ac_wm :: string
  ac_window :: "string list"
  ac_since_id :: string
  ac_emitted_any :: bool
  ac_progress :: bool
  ac_failures :: nat
  ac_stalls :: nat
  ac_stall_alerts :: nat
  ac_poll_errors :: nat
  ac_stop :: "nat option"
  ac_out :: "log_entry list"
  ac_done :: "apex_meta list"
  ac_marks :: "nat list"

datatype apex_end = ApDone | ApStopped | ApThrottled | ApFailed | ApRaised | ApWaiting

definition apex_check_stop :: "apex_cycle \<Rightarrow> bool \<times> apex_cycle" where
  "apex_check_stop c =
     (case ac_stop c of
        None \<Rightarrow> (False, c)
      | Some 0 \<Rightarrow> (True, c)
      | Some (Suc n) \<Rightarrow> (False, c\<lparr>ac_stop := Some n\<rparr>))"

definition apex_advance :: "apex_env \<Rightarrow> apex_meta \<Rightarrow> apex_cycle \<Rightarrow> apex_cycle" where
  "apex_advance E m c =
     c\<lparr>ac_wm := (if is_valid_watermark (ae_fromiso E) (a_start_time m) then a_start_time m else ac_wm c),
       ac_window := take_last APEX_MAX_CARRIED_IDS (ac_window c @ [a_id m]),
       ac_since_id := a_id m, ac_done := ac_done c @ [m]\<rparr>"

definition yield_entry :: "log_entry \<Rightarrow> apex_cycle \<Rightarrow> apex_cycle" where
  "yield_entry e c = c\<lparr>ac_out := ac_out c @ [e], ac_marks := ac_marks c @ [length (ac_done c)], ac_emitted_any := True\<rparr>"

text \<open>One row.\<close>

definition process_log ::
  "apex_env \<Rightarrow> apex_config \<Rightarrow> (string \<Rightarrow> apex_error option + ustring) \<Rightarrow> apex_meta \<Rightarrow> apex_cycle \<Rightarrow> apex_end \<times> apex_cycle" where
  "process_log E cfg body m c0 =
     (let c = apex_advance E m c0 in
      case apply_pipeline (ae_transforms E) (meta_payload m) of
        None \<Rightarrow> (ApRaised, c)
      | Some (None, _) \<Rightarrow> (ApDone, c)
      | Some (Some p, _) \<Rightarrow>
          if ax_sample cfg < 1 \<and> \<not> should_keep (ae_sha256 E) (a_id m) (ax_sample cfg) then (ApDone, c)
          else (case build_entry E cfg body m p (ac_wm c) (ae_dumps_ck E (ac_window c) (ac_wm c)) of
                  Inl (Some _) \<Rightarrow> (ApThrottled, c\<lparr>ac_poll_errors := ac_poll_errors c + 1\<rparr>)
                | Inl None \<Rightarrow> (ApRaised, c)
                | Inr e \<Rightarrow> (ApDone, (yield_entry e c)\<lparr>ac_failures := 0\<rparr>)))"

fun log_loop ::
  "apex_env \<Rightarrow> apex_config \<Rightarrow> (string \<Rightarrow> apex_error option + ustring) \<Rightarrow> apex_meta list \<Rightarrow> apex_cycle \<Rightarrow> apex_end \<times> apex_cycle" where
  "log_loop E cfg body [] c = (ApDone, c)"
| "log_loop E cfg body (m # ms) c =
     (case apex_check_stop c of
        (True, c1) \<Rightarrow> (ApStopped, c1)
      | (False, c1) \<Rightarrow>
          (case process_log E cfg body m c1 of
             (ApDone, c2) \<Rightarrow> log_loop E cfg body ms c2
           | res \<Rightarrow> res))"

definition record_stall :: "apex_cycle \<Rightarrow> apex_cycle" where
  "record_stall c =
     c\<lparr>ac_stalls := ac_stalls c + 1, ac_stall_alerts := ac_stall_alerts c + (if 1 \<le> ac_stalls c then 1 else 0)\<rparr>"

type_synonym apex_listing = "nat \<Rightarrow> string \<Rightarrow> string \<Rightarrow> apex_error option + apex_meta list"

text \<open>The loop over the pages; \<open>listing k since since_id\<close> answers the \<open>k\<close>th request.\<close>

fun drain ::
  "apex_env \<Rightarrow> apex_config \<Rightarrow> apex_listing \<Rightarrow> (string \<Rightarrow> apex_error option + ustring) \<Rightarrow> nat \<Rightarrow> nat \<Rightarrow> apex_cycle \<Rightarrow> apex_end \<times> apex_cycle" where
  "drain E cfg listing body 0 k c = (ApWaiting, c)"
| "drain E cfg listing body (Suc fuel) k c =
     (case listing k (ac_wm c) (ac_since_id c) of
        Inl None \<Rightarrow> (ApRaised, c)
      | Inl (Some ApexLogThrottledError) \<Rightarrow> (ApThrottled, c\<lparr>ac_poll_errors := ac_poll_errors c + 1\<rparr>)
      | Inl (Some ApexLogError) \<Rightarrow>
          (ApFailed, c\<lparr>ac_failures := ac_failures c + 1, ac_poll_errors := ac_poll_errors c + 1\<rparr>)
      | Inr page \<Rightarrow>
          (let new_logs = filter (\<lambda>m. a_id m \<noteq> [] \<and> a_id m \<notin> set (ac_window c)) page in
           if new_logs = [] then (ApDone, if APEX_PAGE_LIMIT \<le> length page then record_stall c else c)
           else (case log_loop E cfg body new_logs (c\<lparr>ac_stalls := 0, ac_progress := True\<rparr>) of
                   (ApDone, c1) \<Rightarrow>
                     if length page < APEX_PAGE_LIMIT then (ApDone, c1) else drain E cfg listing body fuel (Suc k) c1
                 | res \<Rightarrow> res)))"

definition apex_cursor :: "apex_env \<Rightarrow> apex_config \<Rightarrow> string option \<Rightarrow> string \<times> string list" where
  "apex_cursor E cfg raw =
     (let (wm, window0) = (case raw of None \<Rightarrow> ([], []) | Some r \<Rightarrow> parse_checkpoint (ae_loads E) r);
          window = take_last APEX_MAX_CARRIED_IDS window0
      in (if is_valid_watermark (ae_fromiso E) wm then wm else ae_fmt_default E (ae_now E - ax_lookback cfg), window))"

definition since_of :: "string list \<Rightarrow> string" where
  "since_of window = (if window = [] then [] else last window)"

definition start_poll :: "apex_env \<Rightarrow> apex_config \<Rightarrow> string option \<Rightarrow> nat option \<Rightarrow> nat \<times> nat \<Rightarrow> apex_cycle" where
  "start_poll E cfg raw stop counts =
     (let (wm, window) = apex_cursor E cfg raw in
      \<lparr>ac_wm = wm, ac_window = window, ac_since_id = since_of window, ac_emitted_any = False,
       ac_progress = False, ac_failures = fst counts, ac_stalls = snd counts, ac_stall_alerts = 0, ac_poll_errors = 0, ac_stop = stop,
       ac_out = [], ac_done = [], ac_marks = []\<rparr>)"

definition token_entry :: "apex_env \<Rightarrow> apex_cycle \<Rightarrow> log_entry" where
  "token_entry E c =
     \<lparr>timestamp = ae_now E, labels = [], line = [], structured_metadata = [],
      checkpoint = \<lparr>tok_key = CHECKPOINT_KEY, tok_value = ae_dumps_ck E (ac_window c) (ac_wm c)\<rparr>, checkpoint_only = True,
      line_nbytes_memo = - 1\<rparr>"

definition apex_poll ::
  "apex_env \<Rightarrow> apex_config \<Rightarrow> apex_listing \<Rightarrow> (string \<Rightarrow> apex_error option + ustring) \<Rightarrow> nat \<Rightarrow> string option \<Rightarrow> nat option
     \<Rightarrow> nat \<times> nat \<Rightarrow> apex_end \<times> apex_cycle" where
  "apex_poll E cfg listing body fuel raw stop counts =
     (case drain E cfg listing body fuel 0 (start_poll E cfg raw stop counts) of
        (ApDone, c) \<Rightarrow> (ApDone, if ac_progress c \<and> \<not> ac_emitted_any c then yield_entry (token_entry E c) c else c)
      | res \<Rightarrow> res)"

subsection \<open>The table of logs\<close>

definition a_ts :: "apex_env \<Rightarrow> apex_meta \<Rightarrow> datetime" where
  "a_ts E m = the (watermark_datetime (ae_fromiso E) (a_start_time m))"

definition a_key :: "apex_env \<Rightarrow> apex_meta \<Rightarrow> datetime \<times> string" where
  "a_key E m = (a_ts E m, a_id m)"

text \<open>The rows in the order of the listing; \<open>lit\<close> is the instant the listing reads from a start time.\<close>

definition logs_table :: "apex_env \<Rightarrow> (string \<Rightarrow> datetime) \<Rightarrow> apex_meta list \<Rightarrow> bool" where
  "logs_table E lit T \<longleftrightarrow> sorted_wrt (\<lambda>a b. a_key E a < a_key E b) T \<and> distinct (map a_id T)
     \<and> list_all (\<lambda>m. is_valid_watermark (ae_fromiso E) (a_start_time m) \<and> a_id m \<noteq> [] \<and> lit (a_start_time m) = a_ts E m) T"

definition logs_behind :: "apex_env \<Rightarrow> (string \<Rightarrow> datetime) \<Rightarrow> apex_meta list \<Rightarrow> string \<Rightarrow> string \<Rightarrow> apex_meta list" where
  "logs_behind E lit T since since_id =
     filter (\<lambda>m. if since_id = [] then lit since \<le> a_ts E m else (lit since, since_id) < a_key E m) T"

definition listing_ok :: "apex_env \<Rightarrow> (string \<Rightarrow> datetime) \<Rightarrow> apex_meta list \<Rightarrow> apex_listing \<Rightarrow> bool" where
  "listing_ok E lit T listing \<longleftrightarrow>
     (\<forall>k since i page. listing k since i = Inr page \<longrightarrow> page = take APEX_PAGE_LIMIT (logs_behind E lit T since i))"

definition apex_codec :: "apex_env \<Rightarrow> bool" where
  "apex_codec E \<longleftrightarrow> (\<forall>ws wm. parse_checkpoint (ae_loads E) (ae_dumps_ck E ws wm) = (wm, ws))"

text \<open>A cursor that stands behind the first \<open>j\<close> rows.\<close>

definition cursor_at ::
  "apex_env \<Rightarrow> (string \<Rightarrow> datetime) \<Rightarrow> apex_meta list \<Rightarrow> apex_meta list \<Rightarrow> nat \<Rightarrow> string \<Rightarrow> string list \<Rightarrow> bool" where
  "cursor_at E lit T rows j wm ws \<longleftrightarrow> is_valid_watermark (ae_fromiso E) wm \<and> length ws \<le> APEX_MAX_CARRIED_IDS
     \<and> logs_behind E lit T wm (since_of ws) = drop j rows \<and> list_all (\<lambda>m. a_id m \<notin> set ws) (drop j rows)"

definition token_at :: "apex_env \<Rightarrow> (string \<Rightarrow> datetime) \<Rightarrow> apex_meta list \<Rightarrow> apex_meta list \<Rightarrow> nat \<Rightarrow> log_entry \<Rightarrow> bool" where
  "token_at E lit T rows j e \<longleftrightarrow> tok_key (checkpoint e) = CHECKPOINT_KEY
     \<and> (\<exists>wm ws. tok_value (checkpoint e) = ae_dumps_ck E ws wm \<and> cursor_at E lit T rows j wm ws)"

definition apex_inv :: "apex_env \<Rightarrow> (string \<Rightarrow> datetime) \<Rightarrow> apex_meta list \<Rightarrow> apex_meta list \<Rightarrow> apex_cycle \<Rightarrow> bool" where
  "apex_inv E lit T rows c \<longleftrightarrow> ac_done c = take (length (ac_done c)) rows \<and> ac_since_id c = since_of (ac_window c)
     \<and> cursor_at E lit T rows (length (ac_done c)) (ac_wm c) (ac_window c)
     \<and> list_all2 (\<lambda>j e. j \<le> length (ac_done c) \<and> token_at E lit T rows j e) (ac_marks c) (ac_out c)"

lemma length_take_last: "length (take_last n xs) \<le> n"
  by (simp add: take_last_def)

lemma since_of_snoc: "0 < n \<Longrightarrow> since_of (take_last n (ws @ [i])) = i"
  using last_take_last [of n "ws @ [i]"] by (simp add: since_of_def)

lemma behind_upward:
  assumes "logs_table E lit T" "logs_behind E lit T since i = ys @ m # zs"
  shows "logs_behind E lit T (a_start_time m) (a_id m) = zs"
proof -
  have srt: "sorted_wrt (\<lambda>a b. a_key E a < a_key E b) T" using assms(1) by (simp add: logs_table_def)
  have "m \<in> set T" using arg_cong [OF assms(2), of set] by (auto simp: logs_behind_def)
  then have m: "a_id m \<noteq> []" "lit (a_start_time m) = a_ts E m" using assms(1) by (auto simp: logs_table_def list_all_iff)
  have "filter (\<lambda>r. a_key E m < a_key E r) T = zs"
    by (rule filter_behind [OF srt _ assms(2) [unfolded logs_behind_def]])
      (auto simp: a_key_def less_prod_def split: if_splits)
  then show ?thesis using m by (simp add: logs_behind_def a_key_def)
qed

lemma advance_cursor:
  assumes T: "logs_table E lit T" and rows: "rows = logs_behind E lit T since0 i0"
    and at: "cursor_at E lit T rows j (ac_wm c) (ac_window c)" "drop j rows = m # rest"
  shows "cursor_at E lit T rows (Suc j) (ac_wm (apex_advance E m c)) (ac_window (apex_advance E m c))"
proof -
  have split: "rows = take j rows @ m # rest" using at(2) append_take_drop_id [of j rows] by simp
  have rest: "drop (Suc j) rows = rest" using at(2) by (metis drop_Suc list.sel(3) tl_drop)
  have sub: "set rows \<subseteq> set T" unfolding rows by (auto simp: logs_behind_def)
  have m: "m \<in> set T" using split sub by (metis in_set_conv_decomp subsetD)
  then have v: "is_valid_watermark (ae_fromiso E) (a_start_time m)" using T by (auto simp: logs_table_def list_all_iff)
  have "distinct (map a_id rows)" unfolding rows logs_behind_def using T by (simp add: logs_table_def distinct_map_filter)
  then have d: "\<forall>x \<in> set rest. a_id x \<noteq> a_id m" using split by (metis (no_types, lifting) distinct.simps(2) distinct_append image_eqI list.simps(9) map_append set_map)
  have "logs_behind E lit T (a_start_time m) (a_id m) = rest"
    using split rows by (intro behind_upward [OF T, of since0 i0 "take j rows"]) simp
  moreover have "list_all (\<lambda>x. a_id x \<notin> set (take_last APEX_MAX_CARRIED_IDS (ac_window c @ [a_id m]))) rest"
    using at d set_take_last [of APEX_MAX_CARRIED_IDS "ac_window c @ [a_id m]"]
    by (auto simp: cursor_at_def list_all_iff)
  ultimately show ?thesis
    using v rest length_take_last since_of_snoc [of APEX_MAX_CARRIED_IDS "ac_window c" "a_id m"]
    by (simp add: cursor_at_def apex_advance_def APEX_MAX_CARRIED_IDS_def)
qed

lemma apex_inv_frame:
  assumes "apex_inv E lit T rows c" "ac_done c' = ac_done c" "ac_since_id c' = ac_since_id c" "ac_wm c' = ac_wm c" "ac_window c' = ac_window c"
    "ac_marks c' = ac_marks c" "ac_out c' = ac_out c"
  shows "apex_inv E lit T rows c'"
  using assms by (simp add: apex_inv_def)

lemma apex_inv_advance:
  assumes T: "logs_table E lit T" "rows = logs_behind E lit T since0 i0"
    and inv: "apex_inv E lit T rows c" and m: "drop (length (ac_done c)) rows = m # rest"
  shows "apex_inv E lit T rows (apex_advance E m c)"
proof -
  have "length (ac_done c) < length rows" using m by (metis drop_eq_Nil list.distinct(1) not_le)
  moreover have "rows ! length (ac_done c) = m" using m by (metis calculation Cons_nth_drop_Suc list.inject)
  ultimately have dn: "ac_done c @ [m] = take (Suc (length (ac_done c))) rows"
    using inv by (simp add: apex_inv_def take_Suc_conv_app_nth)
  have "list_all2 (\<lambda>j e. j \<le> Suc (length (ac_done c)) \<and> token_at E lit T rows j e) (ac_marks c) (ac_out c)"
    using inv by (auto simp: apex_inv_def elim!: list_all2_mono)
  moreover have "cursor_at E lit T rows (Suc (length (ac_done c))) (ac_wm (apex_advance E m c)) (ac_window (apex_advance E m c))"
    using inv m by (intro advance_cursor [OF T]) (simp_all add: apex_inv_def)
  moreover have f: "ac_done (apex_advance E m c) = ac_done c @ [m]" "ac_marks (apex_advance E m c) = ac_marks c"
    "ac_out (apex_advance E m c) = ac_out c" by (simp_all add: apex_advance_def)
  moreover have "ac_since_id (apex_advance E m c) = since_of (ac_window (apex_advance E m c))"
    using since_of_snoc [of APEX_MAX_CARRIED_IDS "ac_window c" "a_id m"] by (simp add: apex_advance_def APEX_MAX_CARRIED_IDS_def)
  moreover have "length (ac_done c @ [m]) = Suc (length (ac_done c))" by simp
  ultimately show ?thesis using dn unfolding apex_inv_def f by (simp only: simp_thms)
qed

lemma apex_inv_yield:
  assumes "apex_inv E lit T rows c" "checkpoint e = \<lparr>tok_key = CHECKPOINT_KEY, tok_value = ae_dumps_ck E (ac_window c) (ac_wm c)\<rparr>"
  shows "apex_inv E lit T rows (yield_entry e c)"
proof -
  have "list_all2 (\<lambda>j e. j \<le> length (ac_done c) \<and> token_at E lit T rows j e) (ac_marks c @ [length (ac_done c)]) (ac_out c @ [e])"
    using assms by (intro list_all2_appendI) (auto simp: apex_inv_def token_at_def)
  then show ?thesis using assms(1) by (simp add: apex_inv_def yield_entry_def)
qed

lemma build_entry_token:
  "build_entry E cfg body m p wm ckpt = Inr e \<Longrightarrow> checkpoint e = \<lparr>tok_key = CHECKPOINT_KEY, tok_value = ckpt\<rparr>"
  by (auto simp: build_entry_def Let_def split: sum.splits)

lemma process_log_cases:
  assumes "process_log E cfg body m c = (r, c')"
  shows "(r \<noteq> ApWaiting \<and> c' = apex_advance E m c)
    \<or> (r \<noteq> ApWaiting \<and> c' = (apex_advance E m c)\<lparr>ac_poll_errors := ac_poll_errors (apex_advance E m c) + 1\<rparr>)
    \<or> (\<exists>e q. r = ApDone \<and> c' = (yield_entry e (apex_advance E m c))\<lparr>ac_failures := 0\<rparr>
        \<and> build_entry E cfg body m q (ac_wm (apex_advance E m c))
             (ae_dumps_ck E (ac_window (apex_advance E m c)) (ac_wm (apex_advance E m c))) = Inr e)"
proof (cases "apply_pipeline (ae_transforms E) (meta_payload m)")
  case None
  then show ?thesis using assms by (simp add: process_log_def Let_def)
next
  case (Some pr)
  obtain po cs where pr: "pr = (po, cs)" by (metis prod.exhaust)
  let ?c = "apex_advance E m c"
  show ?thesis
  proof (cases po)
    case None
    then show ?thesis using assms Some pr by (simp add: process_log_def Let_def)
  next
    case po: (Some q)
    show ?thesis
    proof (cases "build_entry E cfg body m q (ac_wm ?c) (ae_dumps_ck E (ac_window ?c) (ac_wm ?c))")
      case (Inl exc)
      then show ?thesis using assms Some pr po by (cases exc) (simp_all add: process_log_def Let_def split: if_splits)
    next
      case (Inr e)
      have "(r = ApDone \<and> c' = ?c) \<or> (r = ApDone \<and> c' = (yield_entry e ?c)\<lparr>ac_failures := 0\<rparr>)"
        using assms Some pr po Inr by (simp add: process_log_def Let_def split: if_splits)
      then show ?thesis using Inr by auto
    qed
  qed
qed

lemma process_log_inv:
  assumes T: "logs_table E lit T" "rows = logs_behind E lit T since0 i0"
    and inv: "apex_inv E lit T rows c" and m: "drop (length (ac_done c)) rows = m # rest"
    and p: "process_log E cfg body m c = (r, c')"
  shows "apex_inv E lit T rows c' \<and> ac_done c' = ac_done c @ [m] \<and> r \<noteq> ApWaiting"
proof -
  let ?c = "apex_advance E m c"
  have inv1: "apex_inv E lit T rows ?c" by (rule apex_inv_advance [OF T inv m])
  have dn: "ac_done ?c = ac_done c @ [m]" by (simp add: apex_advance_def)
  consider (same) "r \<noteq> ApWaiting" "c' = ?c" | (err) "r \<noteq> ApWaiting" "c' = ?c\<lparr>ac_poll_errors := ac_poll_errors ?c + 1\<rparr>"
    | (ent) e q where "r = ApDone" "c' = (yield_entry e ?c)\<lparr>ac_failures := 0\<rparr>"
        "build_entry E cfg body m q (ac_wm ?c) (ae_dumps_ck E (ac_window ?c) (ac_wm ?c)) = Inr e"
    using process_log_cases [OF p] by blast
  then show ?thesis
  proof cases
    case ent
    have "apex_inv E lit T rows (yield_entry e ?c)" by (rule apex_inv_yield [OF inv1 build_entry_token [OF ent(3)]])
    then show ?thesis using ent dn by (auto simp: yield_entry_def elim: apex_inv_frame)
  qed (use inv1 dn in \<open>auto elim: apex_inv_frame\<close>)
qed

lemma apex_check_stop_frame:
  assumes "apex_check_stop c = (b, c1)"
  shows "ac_done c1 = ac_done c" "apex_inv E lit T rows c1 = apex_inv E lit T rows c"
  using assms by (auto simp: apex_check_stop_def apex_inv_def split: option.splits nat.splits)

lemma log_loop_inv:
  assumes T: "logs_table E lit T" "rows = logs_behind E lit T since0 i0"
    and "apex_inv E lit T rows c" "drop (length (ac_done c)) rows = ms @ rest" "log_loop E cfg body ms c = (r, c')"
  shows "apex_inv E lit T rows c' \<and> r \<noteq> ApWaiting \<and> (r = ApDone \<longrightarrow> ac_done c' = ac_done c @ ms)"
  using assms(3-)
proof (induction ms arbitrary: c)
  case Nil
  then show ?case by auto
next
  case (Cons m ms)
  obtain b c1 where cs: "apex_check_stop c = (b, c1)" by (metis prod.exhaust)
  note fr = apex_check_stop_frame [OF cs]
  obtain r2 c2 where pl: "process_log E cfg body m c1 = (r2, c2)" by (metis prod.exhaust)
  have inv1: "apex_inv E lit T rows c1" using Cons.prems(1) fr by simp
  have p2: "apex_inv E lit T rows c2" "ac_done c2 = ac_done c @ [m]" "r2 \<noteq> ApWaiting"
    using process_log_inv [OF T inv1 _ pl] Cons.prems(2) fr by auto
  show ?case
  proof (cases "b \<or> r2 \<noteq> ApDone")
    case True
    then show ?thesis using Cons.prems(3) cs pl inv1 p2 by (cases b; cases r2) auto
  next
    case False
    have "drop (length (ac_done c2)) rows = ms @ rest"
      using Cons.prems(2) p2(2) by (metis append_Cons drop_Suc length_append_singleton list.sel(3) tl_drop)
    moreover have "log_loop E cfg body ms c2 = (r, c')" using Cons.prems(3) cs pl False by simp
    ultimately show ?thesis using Cons.IH [of c2] p2 by simp
  qed
qed

lemma drain_inv:
  assumes T: "logs_table E lit T" "rows = logs_behind E lit T since0 i0" and L: "listing_ok E lit T listing"
    and "apex_inv E lit T rows c" "drain E cfg listing body fuel k c = (r, c')"
  shows "apex_inv E lit T rows c' \<and> (r = ApDone \<longrightarrow> ac_done c' = rows)
    \<and> (r = ApWaiting \<longrightarrow> APEX_PAGE_LIMIT * fuel \<le> length rows - length (ac_done c))"
  using assms(4-)
proof (induction fuel arbitrary: k c)
  case 0
  then show ?case by auto
next
  case (Suc fuel)
  let ?n = "length (ac_done c)"
  show ?case
  proof (cases "listing k (ac_wm c) (ac_since_id c)")
    case (Inl exc)
    then show ?thesis using Suc.prems
      by (auto elim: apex_inv_frame split: option.splits apex_error.splits)
  next
    case (Inr page)
    have inv: "cursor_at E lit T rows ?n (ac_wm c) (ac_window c)" "ac_done c = take ?n rows" "ac_since_id c = since_of (ac_window c)"
      using Suc.prems(1) by (simp_all add: apex_inv_def)
    have page: "page = take APEX_PAGE_LIMIT (drop ?n rows)"
      using L [unfolded listing_ok_def, rule_format, OF Inr] inv(1,3) by (simp add: cursor_at_def)
    have "list_all (\<lambda>m. a_id m \<noteq> []) rows" using T by (auto simp: logs_table_def logs_behind_def list_all_iff)
    then have new: "filter (\<lambda>m. a_id m \<noteq> [] \<and> a_id m \<notin> set (ac_window c)) page = page"
      using inv(1) unfolding page by (intro filter_True) (auto simp: cursor_at_def list_all_iff dest!: in_set_takeD dest: in_set_dropD)
    show ?thesis
    proof (cases "page = []")
      case True
      then have "ac_done c = rows" using page inv(2) by (auto simp: APEX_PAGE_LIMIT_def)
      then show ?thesis using Suc.prems Inr new True by (auto simp: record_stall_def APEX_PAGE_LIMIT_def)
    next
      case False
      let ?c = "c\<lparr>ac_stalls := 0, ac_progress := True\<rparr>"
      obtain r1 c1 where ll: "log_loop E cfg body page ?c = (r1, c1)" by (metis prod.exhaust)
      have invc: "apex_inv E lit T rows ?c" using Suc.prems(1) by (simp add: apex_inv_def)
      have "drop (length (ac_done ?c)) rows = page @ drop APEX_PAGE_LIMIT (drop ?n rows)"
        unfolding page append_take_drop_id by simp
      from log_loop_inv [OF T invc this ll]
      have l: "apex_inv E lit T rows c1" "r1 \<noteq> ApWaiting" "r1 = ApDone \<Longrightarrow> ac_done c1 = ac_done c @ page" by simp_all
      show ?thesis
      proof (cases "r1 = ApDone \<and> \<not> length page < APEX_PAGE_LIMIT")
        case True
        then have "drain E cfg listing body fuel (Suc k) c1 = (r, c')" using Suc.prems(2) Inr new False ll by (simp add: Let_def)
        from Suc.IH [OF l(1) this] show ?thesis using l(3) True page by auto
      next
        case last: False
        then have res: "r = r1" "c' = c1" using Suc.prems(2) Inr new False ll by (cases r1; auto simp: Let_def)+
        have "ac_done c1 = rows" if "r1 = ApDone"
        proof -
          have "length page < APEX_PAGE_LIMIT" using last that by simp
          then have "page = drop ?n rows" unfolding page by (simp add: min_def split: if_splits)
          then show ?thesis using l(3) [OF that] inv(2) append_take_drop_id [of ?n rows] by simp
        qed
        then show ?thesis using res l by simp
      qed
    qed
  qed
qed

text \<open>
  C14. A poll against a table of logs, whatever listings fail, bodies are throttled, a transform raises or a stop comes: it goes through a prefix of the
  rows behind its cursor, in order and each once; if it ends well, through all of them, however many share a start
  time. Every token it yields reads back as a cursor behind exactly the rows gone through when it was yielded, so a later poll
  resumes with the next row. With fuel for the pages the loop ends.
\<close>

theorem apex_poll_exact:
  assumes T: "logs_table E lit T" and L: "listing_ok E lit T listing" and codec: "apex_codec E"
    and start: "apex_cursor E cfg raw = (wm, ws)" "is_valid_watermark (ae_fromiso E) wm" "rows = logs_behind E lit T wm (since_of ws)"
      "list_all (\<lambda>m. a_id m \<notin> set ws) rows"
    and run: "apex_poll E cfg listing body fuel raw stop counts = (r, c)"
  shows "prefix (ac_done c) rows \<and> (r = ApDone \<longrightarrow> ac_done c = rows) \<and> (r = ApWaiting \<longrightarrow> APEX_PAGE_LIMIT * fuel \<le> length rows)
    \<and> (i < length (ac_out c) \<longrightarrow>
        (\<exists>wm' ws'. apex_cursor E cfg (Some (tok_value (checkpoint (ac_out c ! i)))) = (wm', ws')
           \<and> logs_behind E lit T wm' (since_of ws') = drop (ac_marks c ! i) rows \<and> ac_marks c ! i \<le> length (ac_done c)))"
proof -
  let ?c = "start_poll E cfg raw stop counts"
  have len: "length ws \<le> APEX_MAX_CARRIED_IDS" using start(1) length_take_last by (auto simp: apex_cursor_def Let_def split: prod.splits)
  have inv0: "apex_inv E lit T rows ?c"
    using start len by (simp add: apex_inv_def start_poll_def cursor_at_def)
  obtain r1 c1 where d: "drain E cfg listing body fuel 0 ?c = (r1, c1)" by (metis prod.exhaust)
  note di = drain_inv [OF T start(3) L inv0 d]
  have dn0: "ac_done ?c = []" by (simp add: start_poll_def split: prod.splits)
  have res: "r = r1" "c = (if r1 = ApDone \<and> ac_progress c1 \<and> \<not> ac_emitted_any c1 then yield_entry (token_entry E c1) c1 else c1)"
    using run d by (cases r1; auto simp: apex_poll_def)+
  have inv: "apex_inv E lit T rows c" using di apex_inv_yield [of E lit T rows c1 "token_entry E c1"]
    by (simp add: res(2) token_entry_def)
  have dn: "ac_done c = ac_done c1" by (simp add: res(2) yield_entry_def)
  have "prefix (ac_done c) rows" using inv unfolding apex_inv_def by (metis take_is_prefix)
  moreover have "\<exists>wm' ws'. apex_cursor E cfg (Some (tok_value (checkpoint (ac_out c ! i)))) = (wm', ws')
      \<and> logs_behind E lit T wm' (since_of ws') = drop (ac_marks c ! i) rows \<and> ac_marks c ! i \<le> length (ac_done c)"
    if "i < length (ac_out c)"
  proof -
    have "token_at E lit T rows (ac_marks c ! i) (ac_out c ! i)" "ac_marks c ! i \<le> length (ac_done c)"
      using inv that by (auto simp: apex_inv_def list_all2_conv_all_nth)
    then obtain wm' ws' where t: "tok_value (checkpoint (ac_out c ! i)) = ae_dumps_ck E ws' wm'" "ac_marks c ! i \<le> length (ac_done c)"
      "cursor_at E lit T rows (ac_marks c ! i) wm' ws'" by (auto simp: token_at_def)
    then have "apex_cursor E cfg (Some (tok_value (checkpoint (ac_out c ! i)))) = (wm', ws')"
      using codec by (simp add: apex_cursor_def apex_codec_def cursor_at_def take_last_def)
    then show ?thesis using t by (auto simp: cursor_at_def)
  qed
  ultimately show ?thesis using di dn res(1) dn0 by auto
qed

text \<open>A successful listing without rows does not clear the count of consecutive failures.\<close>

lemma empty_poll_keeps_failures:
  assumes "listing 0 (ac_wm (start_poll E cfg raw None counts)) (ac_since_id (start_poll E cfg raw None counts)) = Inr []" "0 < fuel"
  shows "ac_failures (snd (apex_poll E cfg listing body fuel raw None counts)) = fst counts"
  using assms by (cases fuel) (simp_all add: apex_poll_def start_poll_def APEX_PAGE_LIMIT_def split: prod.splits)

subsection \<open>Witness\<close>

text \<open>Two logs with one start time, times that are decimal numbers.\<close>

definition demo_apex :: apex_env where
  "demo_apex = \<lparr>ae_fromiso = py_int, ae_strp = Map.empty, ae_fmt_default = show_int, ae_now = 9, ae_loads = demo_loads,
     ae_dumps_ck = demo_dumps, ae_dumps = (\<lambda>p. []), ae_sha256 = (\<lambda>s. []), ae_transforms = [], ae_sm_fields = []\<rparr>"

definition demo_apex_cfg :: apex_config where
  "demo_apex_cfg = \<lparr>ax_lookback = 9, ax_max_body_bytes = 10, ax_sample = 1\<rparr>"

definition demo_log :: "string \<Rightarrow> apex_meta" where
  "demo_log i = \<lparr>a_id = i, a_log_user_id = [], a_log_length = 1, a_operation = [], a_request = [], a_status = [], a_start_time = show_int 5,
     a_application = [], a_duration_ms = 0, a_location = []\<rparr>"

definition demo_instant :: "string \<Rightarrow> datetime" where
  "demo_instant s = (case watermark_datetime py_int s of None \<Rightarrow> 0 | Some t \<Rightarrow> t)"

definition demo_logs :: "apex_meta list" where "demo_logs = [demo_log ''a'', demo_log ''b'']"

definition demo_listing :: apex_listing where
  "demo_listing k since i = Inr (take APEX_PAGE_LIMIT (logs_behind demo_apex demo_instant demo_logs since i))"

definition demo_poll :: "apex_end \<times> apex_cycle" where
  "demo_poll = apex_poll demo_apex demo_apex_cfg demo_listing (\<lambda>i. Inr []) 1 None None (0, 0)"

lemma demo_logs_table: "logs_table demo_apex demo_instant demo_logs"
  by (simp add: logs_table_def demo_logs_def demo_log_def demo_apex_def a_key_def a_ts_def is_valid_watermark_def demo_instant_def)

lemma demo_apex_codec: "apex_codec demo_apex"
  using parse_dumped [OF demo_laws(1)] by (simp add: apex_codec_def demo_apex_def demo_env_def)

lemma demo_apex_start: "apex_cursor demo_apex demo_apex_cfg None = (show_int 0, [])"
  by (simp add: apex_cursor_def demo_apex_def demo_apex_cfg_def is_valid_watermark_def watermark_datetime_def take_last_def)

lemma demo_poll_out: "length (ac_out (snd demo_poll)) = 2 \<and> fst demo_poll = ApDone"
  by code_simp

theorem apex_poll_exact_witness:
  "prefix (ac_done (snd demo_poll)) demo_logs \<and> fst demo_poll = ApDone \<and> ac_done (snd demo_poll) = demo_logs
   \<and> (\<exists>wm' ws'. apex_cursor demo_apex demo_apex_cfg (Some (tok_value (checkpoint (ac_out (snd demo_poll) ! 1)))) = (wm', ws')
        \<and> logs_behind demo_apex demo_instant demo_logs wm' (since_of ws') = drop (ac_marks (snd demo_poll) ! 1) demo_logs
        \<and> ac_marks (snd demo_poll) ! 1 \<le> length (ac_done (snd demo_poll)))"
proof -
  have l: "listing_ok demo_apex demo_instant demo_logs demo_listing" by (simp add: listing_ok_def demo_listing_def)
  have v: "is_valid_watermark (ae_fromiso demo_apex) (show_int 0)" by (simp add: demo_apex_def is_valid_watermark_def)
  have rows: "demo_logs = logs_behind demo_apex demo_instant demo_logs (show_int 0) (since_of [])"
    by (simp add: logs_behind_def since_of_def demo_logs_def demo_log_def a_ts_def demo_apex_def demo_instant_def)
  have run: "apex_poll demo_apex demo_apex_cfg demo_listing (\<lambda>i. Inr []) 1 None None (0, 0) = (fst demo_poll, snd demo_poll)"
    by (simp add: demo_poll_def)
  have "list_all (\<lambda>m. a_id m \<notin> set []) demo_logs" by (simp add: list_all_iff)
  from apex_poll_exact [OF demo_logs_table l demo_apex_codec demo_apex_start v rows this run, of 1] demo_poll_out
  show ?thesis by (simp only: One_nat_def) auto
qed

end
