(* ===== verification/Backfill.thy ===== *)
theory Backfill
  imports Sink ElfSource StoreSpec
begin

section \<open>backfill.py: history of event log files\<close>

text \<open>
  \<^verbatim>\<open>src/sf2loki/backfill.py\<close>. A run lists each event type page by page, downloads the files of a page concurrently, pushes
  their rows in file order and commits after each file. The sink and the store are operations on their
  states, as in the pipeline; listing and downloads are functions; the number of listings is bounded by fuel. Downloads are
  taken in file order, as they are awaited; warnings, the summary line and the count of API calls are left out.

  Results: chunks keep the entries and respect both limits; a batch is pushed at most ten times, with bounded pauses; a
  committed checkpoint never stands for a file of the window that was not disposed of; a page of files with one creation date of
  which one has nothing to push is listed for ever.
\<close>

definition BF_BACKOFF_BASE :: seconds where "BF_BACKOFF_BASE = 1"
definition BF_BACKOFF_MAX :: seconds where "BF_BACKOFF_MAX = 30"
definition MAX_CONSECUTIVE_PUSH_FAILURES :: nat where "MAX_CONSECUTIVE_PUSH_FAILURES = 10"
definition UNPARSEABLE_SENTINEL :: datetime where "UNPARSEABLE_SENTINEL = - 62135596800000000"

subsection \<open>Cursor and clock\<close>

record type_cursor =
  last_created :: "string option"
  done_ids :: "string list"

definition advance_cursor :: "elf_meta \<Rightarrow> type_cursor \<Rightarrow> type_cursor" where
  "advance_cursor f c =
     (if last_created c = Some (f_created f)
      then (if f_id f \<in> set (done_ids c) then c else c\<lparr>done_ids := done_ids c @ [f_id f]\<rparr>)
      else \<lparr>last_created = Some (f_created f), done_ids = [f_id f]\<rparr>)"

text \<open>The ticking clock: the next timestamp, and the clock after it.\<close>

definition clock_next :: "datetime \<Rightarrow> datetime \<times> datetime" where
  "clock_next t = (t, t + 1)"

definition backfill_checkpoint_key :: "string \<Rightarrow> string \<Rightarrow> string \<Rightarrow> string" where
  "backfill_checkpoint_key interval et org =
     (if org = [] then ''backfill:'' @ interval @ '':'' @ et else ''backfill:org='' @ org @ '':'' @ interval @ '':'' @ et)"

subsection \<open>Shaping and chunks\<close>

record bf_config =
  b_types :: "elf_type list"
  b_sm_fields :: "string list"
  b_timestamp_column :: string
  b_static_labels :: labelset
  b_max_entries :: nat
  b_max_bytes :: nat
  b_page_size :: nat
  b_ingest_timestamps :: bool
  b_interval :: string
  b_org :: string
  b_legacy_fallback :: bool

definition resolve_type_overrides :: "bf_config \<Rightarrow> string \<Rightarrow> string list \<times> string list" where
  "resolve_type_overrides cfg et =
     (case find (\<lambda>t. t_name t = et) (b_types cfg) of
        None \<Rightarrow> (b_sm_fields cfg, [])
      | Some t \<Rightarrow> (case t_sm_fields t of None \<Rightarrow> b_sm_fields cfg | Some fs \<Rightarrow> fs, t_labels t))"

text \<open>One row, \<open>None\<close> if a transform raised; the clock ticks only for rows that are shipped at ingest time.\<close>

definition shape_row ::
  "elf_env \<Rightarrow> (datetime \<Rightarrow> string) \<Rightarrow> bf_config \<Rightarrow> string \<Rightarrow> string \<Rightarrow> datetime option \<Rightarrow> payload \<Rightarrow> datetime \<Rightarrow> (log_entry option \<times> datetime) option" where
  "shape_row E iso_format cfg et key created raw clock =
     (case apply_pipeline (ee_transforms E) raw of
        None \<Rightarrow> None
      | Some (None, _) \<Rightarrow> Some (None, clock)
      | Some (Some row, _) \<Rightarrow>
          (let (sm_fields, label_fields) = resolve_type_overrides cfg et;
               (text, sm) = route_fields (ee_dumps E) row sm_fields;
               lbls = AList.update ''event_type'' et (AList.update ''source'' ''eventlogfile''
                        (dict_merge (promote_labels row label_fields) (b_static_labels cfg)));
               event_ts = fst (extract_timestamp_checked (ee_fromiso E) (ee_strp E) (ee_now E) row
                                 [b_timestamp_column cfg, ''TIMESTAMP''] created);
               entry = (\<lambda>t ls m. \<lparr>timestamp = t, labels = ls, line = text, structured_metadata = m,
                          checkpoint = \<lparr>tok_key = key, tok_value = []\<rparr>, checkpoint_only = False, line_nbytes_memo = - 1\<rparr>)
           in if b_ingest_timestamps cfg
              then (case clock_next clock of (stamp, clock1) \<Rightarrow> Some (Some (entry stamp lbls (AList.update ''event_time'' (iso_format event_ts) sm)), clock1))
              else Some (Some (entry event_ts (AList.update ''backfill'' ''true'' lbls) sm), clock)))"

fun shape_rows ::
  "elf_env \<Rightarrow> (datetime \<Rightarrow> string) \<Rightarrow> bf_config \<Rightarrow> string \<Rightarrow> string \<Rightarrow> datetime option \<Rightarrow> payload list \<Rightarrow> datetime \<Rightarrow> (log_entry list \<times> datetime) option" where
  "shape_rows E iso_format cfg et key created [] clock = Some ([], clock)"
| "shape_rows E iso_format cfg et key created (r # rs) clock =
     (case shape_row E iso_format cfg et key created r clock of
        None \<Rightarrow> None
      | Some (eo, clock1) \<Rightarrow>
          map_option (\<lambda>(es, clock2). ((case eo of None \<Rightarrow> [] | Some e \<Rightarrow> [e]) @ es, clock2))
            (shape_rows E iso_format cfg et key created rs clock1))"

definition shape_file_rows ::
  "elf_env \<Rightarrow> (datetime \<Rightarrow> string) \<Rightarrow> bf_config \<Rightarrow> string \<Rightarrow> string \<Rightarrow> elf_meta \<Rightarrow> payload list \<Rightarrow> datetime \<Rightarrow> (log_entry list \<times> datetime) option" where
  "shape_file_rows E iso_format cfg et key f rows clock =
     map_option (\<lambda>(es, clock1). (if b_ingest_timestamps cfg then es else sort_key timestamp es, clock1))
       (shape_rows E iso_format cfg et key (parse_created E (f_created f)) rows clock)"

fun chunk_loop :: "nat \<Rightarrow> nat \<Rightarrow> log_entry list \<Rightarrow> log_entry list \<Rightarrow> nat \<Rightarrow> log_entry list list" where
  "chunk_loop max_entries max_bytes [] current current_bytes = (if current = [] then [] else [current])"
| "chunk_loop max_entries max_bytes (e # es) current current_bytes =
     (let entry_bytes = utf8_len (line e);
          over_count = (max_entries > 0 \<and> length current \<ge> max_entries);
          over_bytes = (max_bytes > 0 \<and> current \<noteq> [] \<and> current_bytes + entry_bytes > max_bytes)
      in if current \<noteq> [] \<and> (over_count \<or> over_bytes)
         then current # chunk_loop max_entries max_bytes es [e] entry_bytes
         else chunk_loop max_entries max_bytes es (current @ [e]) (current_bytes + entry_bytes))"

definition chunk_entries :: "nat \<Rightarrow> nat \<Rightarrow> log_entry list \<Rightarrow> log_entry list list" where
  "chunk_entries max_entries max_bytes es = chunk_loop max_entries max_bytes es [] 0"

subsection \<open>Pushing\<close>

datatype push_end = Pushed | Rejected string | Aborted

text \<open>\<open>left\<close> attempts remain; the pauses are collected.\<close>

fun push_tries ::
  "(batch \<Rightarrow> 's \<Rightarrow> (sink_error + unit) \<times> 's) \<Rightarrow> batch \<Rightarrow> nat \<Rightarrow> seconds \<Rightarrow> 's \<Rightarrow> push_end \<times> seconds list \<times> 's" where
  "push_tries do_push b 0 backoff s = (Aborted, [], s)"
| "push_tries do_push b (Suc left) backoff s =
     (case do_push b s of
        (Inr _, s1) \<Rightarrow> (Pushed, [], s1)
      | (Inl (PermanentSinkError r), s1) \<Rightarrow> (Rejected r, [], s1)
      | (Inl RetryableSinkError, s1) \<Rightarrow>
          if left = 0 then (Aborted, [], s1)
          else (case push_tries do_push b left (min (backoff * 2) BF_BACKOFF_MAX) s1 of
                  (e, pauses, s2) \<Rightarrow> (e, min backoff BF_BACKOFF_MAX # pauses, s2)))"

definition push_with_retry ::
  "(batch \<Rightarrow> 's \<Rightarrow> (sink_error + unit) \<times> 's) \<Rightarrow> batch \<Rightarrow> 's \<Rightarrow> push_end \<times> seconds list \<times> 's" where
  "push_with_retry do_push b s = push_tries do_push b MAX_CONSECUTIVE_PUSH_FAILURES BF_BACKOFF_BASE s"

subsection \<open>Files\<close>

text \<open>\<open>bf_rejected\<close> are the batches counted as dropped, \<open>bf_disposed\<close> the files gone through,
  \<open>bf_commits\<close> what was committed and the number of files disposed of by then.\<close>

record ('s, 'd) bf_state =
  bf_sink :: 's
  bf_store :: 'd
  bf_clock :: datetime
  bf_files_processed :: nat
  bf_rows_attempted :: nat
  bf_bytes_attempted :: nat
  bf_cursor :: type_cursor
  bf_rejected :: "log_entry list list"
  bf_disposed :: "elf_meta list"
  bf_commits :: "(type_cursor \<times> nat) list"

record ('s, 'd, 'e) bf_env =
  be_elf :: elf_env
  be_iso_format :: "datetime \<Rightarrow> string"
  be_push :: "batch \<Rightarrow> 's \<Rightarrow> (sink_error + unit) \<times> 's"
  be_load :: "string \<Rightarrow> ('d, 'e, string option) op"
  be_commit :: "string \<Rightarrow> string \<Rightarrow> ('d, 'e, unit) op"
  be_loads :: "string \<Rightarrow> (pyval option \<times> pyval list option) option"
  be_dumps :: "string option \<Rightarrow> string list \<Rightarrow> string"
  be_list :: "string \<Rightarrow> string \<Rightarrow> elf_error option + elf_meta list"
  be_download :: "elf_meta \<Rightarrow> download"
  be_since_literal :: "datetime \<Rightarrow> string"

definition serialize :: "('s, 'd, 'e) bf_env \<Rightarrow> type_cursor \<Rightarrow> string" where
  "serialize B c = be_dumps B (last_created c) (done_ids c)"

datatype bf_end = BfContinue | BfStopType | BfAbort | BfRaised | BfWaiting

fun push_chunks :: "('s, 'd, 'e) bf_env \<Rightarrow> log_entry list list \<Rightarrow> ('s, 'd) bf_state \<Rightarrow> bool \<times> ('s, 'd) bf_state" where
  "push_chunks B [] st = (True, st)"
| "push_chunks B (b # bs) st =
     (let st1 = st\<lparr>bf_rows_attempted := bf_rows_attempted st + length b,
                   bf_bytes_attempted := bf_bytes_attempted st + sum_list (map (utf8_len \<circ> line) b)\<rparr> in
      case push_with_retry (be_push B) b (bf_sink st1) of
        (Aborted, _, s) \<Rightarrow> (False, st1\<lparr>bf_sink := s\<rparr>)
      | (Rejected r, _, s) \<Rightarrow> push_chunks B bs (st1\<lparr>bf_sink := s, bf_rejected := bf_rejected st1 @ [b]\<rparr>)
      | (Pushed, _, s) \<Rightarrow> push_chunks B bs (st1\<lparr>bf_sink := s\<rparr>))"

definition process_file ::
  "('s, 'd, 'e) bf_env \<Rightarrow> bf_config \<Rightarrow> string \<Rightarrow> string \<Rightarrow> elf_meta \<Rightarrow> payload list \<Rightarrow> ('s, 'd) bf_state \<Rightarrow> bf_end \<times> ('s, 'd) bf_state" where
  "process_file B cfg et key f rows st =
     (let st1 = st\<lparr>bf_files_processed := bf_files_processed st + 1\<rparr> in
      case shape_file_rows (be_elf B) (be_iso_format B) cfg et key f rows (bf_clock st1) of
        None \<Rightarrow> (BfRaised, st1)
      | Some (entries, clock1) \<Rightarrow>
          (let st2 = st1\<lparr>bf_clock := clock1\<rparr> in
           if entries = [] then (BfContinue, st2\<lparr>bf_disposed := bf_disposed st2 @ [f]\<rparr>)
           else (case push_chunks B (chunk_entries (b_max_entries cfg) (b_max_bytes cfg) entries) st2 of
                   (False, st3) \<Rightarrow> (BfAbort, st3)
                 | (True, st3) \<Rightarrow>
                     (let c = advance_cursor f (bf_cursor st3) in
                      case be_commit B key (serialize B c) (bf_store st3) of
                        (Inl _, d) \<Rightarrow> (BfRaised, st3\<lparr>bf_store := d, bf_cursor := c\<rparr>)
                      | (Inr _, d) \<Rightarrow>
                          (BfContinue, st3\<lparr>bf_store := d, bf_cursor := c, bf_disposed := bf_disposed st3 @ [f],
                             bf_commits := bf_commits st3 @ [(c, Suc (length (bf_disposed st3)))]\<rparr>)))))"

text \<open>\<^verbatim>\<open>_process_files\<close>: the downloads are awaited in the order of the files.\<close>

fun process_files ::
  "('s, 'd, 'e) bf_env \<Rightarrow> bf_config \<Rightarrow> string \<Rightarrow> string \<Rightarrow> elf_meta list \<Rightarrow> ('s, 'd) bf_state \<Rightarrow> bf_end \<times> ('s, 'd) bf_state" where
  "process_files B cfg et key [] st = (BfContinue, st)"
| "process_files B cfg et key (f # fs) st =
     (case be_download B f of
        (rows, DlRaised) \<Rightarrow> (BfRaised, st)
      | (rows, DlError err) \<Rightarrow> (BfStopType, st)
      | (rows, DlDone) \<Rightarrow>
          (case process_file B cfg et key f rows st of
             (BfContinue, st1) \<Rightarrow> process_files B cfg et key fs st1
           | res \<Rightarrow> res))"

subsection \<open>Listings\<close>

definition created_or_min :: "elf_env \<Rightarrow> elf_meta \<Rightarrow> datetime" where
  "created_or_min E f = (case parse_created E (f_created f) of None \<Rightarrow> UNPARSEABLE_SENTINEL | Some t \<Rightarrow> t)"

definition before_until :: "elf_env \<Rightarrow> datetime option \<Rightarrow> elf_meta \<Rightarrow> bool" where
  "before_until E until f = (case until of None \<Rightarrow> True | Some u \<Rightarrow> created_or_min E f < u)"

definition at_boundary :: "type_cursor \<Rightarrow> elf_meta \<Rightarrow> bool" where
  "at_boundary c f \<longleftrightarrow> last_created c = Some (f_created f) \<and> f_id f \<in> set (done_ids c)"

text \<open>What is left of a page, sorted.\<close>

definition page_files :: "elf_env \<Rightarrow> datetime option \<Rightarrow> type_cursor \<Rightarrow> elf_meta list \<Rightarrow> elf_meta list" where
  "page_files E until c raw_files = filter (\<lambda>f. before_until E until f \<and> \<not> at_boundary c f) raw_files"

fun list_loop ::
  "('s, 'd, 'e) bf_env \<Rightarrow> bf_config \<Rightarrow> datetime option \<Rightarrow> string \<Rightarrow> string \<Rightarrow> nat \<Rightarrow> string \<Rightarrow> ('s, 'd) bf_state \<Rightarrow> bf_end \<times> ('s, 'd) bf_state" where
  "list_loop B cfg until et key 0 since st = (BfWaiting, st)"
| "list_loop B cfg until et key (Suc fuel) since st =
     (case be_list B et since of
        Inl None \<Rightarrow> (BfRaised, st)
      | Inl (Some _) \<Rightarrow> (BfStopType, st)
      | Inr raw \<Rightarrow>
          (let raw_files = sort_key (\<lambda>f. (created_or_min (be_elf B) f, f_id f)) raw in
           if raw_files = [] \<or> \<not> before_until (be_elf B) until (hd raw_files) then (BfContinue, st)
           else
             (let files = page_files (be_elf B) until (bf_cursor st) raw_files;
                  new_since = f_created (last raw_files) in
              if files = [] then
                (if length raw_files < b_page_size cfg \<or> new_since = since then (BfContinue, st)
                 else list_loop B cfg until et key fuel new_since st)
              else (case process_files B cfg et key files st of
                      (BfContinue, st1) \<Rightarrow>
                        if length raw_files < b_page_size cfg then (BfContinue, st1)
                        else list_loop B cfg until et key fuel new_since st1
                    | res \<Rightarrow> res))))"

text \<open>The stored cursor, with the fallback of the first org; \<open>Inl\<close> is an exception.\<close>

definition load_raw :: "('s, 'd, 'e) bf_env \<Rightarrow> bf_config \<Rightarrow> string \<Rightarrow> 'd \<Rightarrow> (unit + string option) \<times> 'd" where
  "load_raw B cfg et d =
     (case be_load B (backfill_checkpoint_key (b_interval cfg) et (b_org cfg)) d of
        (Inl _, d1) \<Rightarrow> (Inl (), d1)
      | (Inr (Some raw), d1) \<Rightarrow> (Inr (Some raw), d1)
      | (Inr None, d1) \<Rightarrow>
          if b_org cfg \<noteq> [] \<and> b_legacy_fallback cfg
          then (case be_load B (''backfill:'' @ b_interval cfg @ '':'' @ et) d1 of (Inl _, d2) \<Rightarrow> (Inl (), d2) | (Inr v, d2) \<Rightarrow> (Inr v, d2))
          else (Inr None, d1))"

definition parse_cursor :: "('s, 'd, 'e) bf_env \<Rightarrow> string option \<Rightarrow> type_cursor option" where
  "parse_cursor B raw =
     (case raw of
        None \<Rightarrow> Some \<lparr>last_created = None, done_ids = []\<rparr>
      | Some r \<Rightarrow>
          map_option (\<lambda>(lc, ids). \<lparr>last_created = (case lc of None \<Rightarrow> None | Some v \<Rightarrow> if truthy v then Some (py_str v) else None),
                                  done_ids = (case ids of None \<Rightarrow> [] | Some vs \<Rightarrow> map py_str vs)\<rparr>) (be_loads B r))"

definition first_since :: "('s, 'd, 'e) bf_env \<Rightarrow> datetime \<Rightarrow> type_cursor \<Rightarrow> string" where
  "first_since B since c = (case last_created c of None \<Rightarrow> be_since_literal B since | Some lc \<Rightarrow> lc)"

definition backfill_type ::
  "('s, 'd, 'e) bf_env \<Rightarrow> bf_config \<Rightarrow> datetime \<Rightarrow> datetime option \<Rightarrow> nat \<Rightarrow> string \<Rightarrow> ('s, 'd) bf_state \<Rightarrow> bf_end \<times> ('s, 'd) bf_state" where
  "backfill_type B cfg since until fuel et st =
     (case load_raw B cfg et (bf_store st) of
        (Inl _, d) \<Rightarrow> (BfRaised, st\<lparr>bf_store := d\<rparr>)
      | (Inr raw, d) \<Rightarrow>
          (case parse_cursor B raw of
             None \<Rightarrow> (BfRaised, st\<lparr>bf_store := d\<rparr>)
           | Some c \<Rightarrow>
               list_loop B cfg until et (backfill_checkpoint_key (b_interval cfg) et (b_org cfg)) fuel (first_since B since c)
                 (st\<lparr>bf_store := d, bf_cursor := c\<rparr>)))"

definition bf_resolve_event_types ::
  "bf_config \<Rightarrow> string list \<Rightarrow> elf_error + string list \<Rightarrow> string list" where
  "bf_resolve_event_types cfg requested discovered =
     (let configured = map t_name (filter (\<lambda>t. t_name t \<noteq> EVENT_TYPE_WILDCARD) (b_types cfg)) in
      if requested \<noteq> [] then requested
      else if configured \<noteq> [] then configured
      else (case discovered of Inl _ \<Rightarrow> [] | Inr names \<Rightarrow> names))"

text \<open>The types one after the other; the exit code, if the run returns.\<close>

fun run_types ::
  "('s, 'd, 'e) bf_env \<Rightarrow> bf_config \<Rightarrow> datetime \<Rightarrow> datetime option \<Rightarrow> nat \<Rightarrow> string list \<Rightarrow> ('s, 'd) bf_state \<Rightarrow> int option \<times> ('s, 'd) bf_state" where
  "run_types B cfg since until fuel [] st = (Some 0, st)"
| "run_types B cfg since until fuel (et # ets) st =
     (case backfill_type B cfg since until fuel et st of
        (BfAbort, st1) \<Rightarrow> (Some 1, st1)
      | (BfRaised, st1) \<Rightarrow> (None, st1)
      | (BfWaiting, st1) \<Rightarrow> (None, st1)
      | (_, st1) \<Rightarrow> run_types B cfg since until fuel ets st1)"

definition run_backfill ::
  "('s, 'd, 'e) bf_env \<Rightarrow> bf_config \<Rightarrow> datetime \<Rightarrow> datetime option \<Rightarrow> nat \<Rightarrow> string list \<Rightarrow> elf_error + string list
     \<Rightarrow> ('s, 'd) bf_state \<Rightarrow> int option \<times> ('s, 'd) bf_state" where
  "run_backfill B cfg since until fuel requested discovered st =
     run_types B cfg since until fuel (bf_resolve_event_types cfg requested discovered) st"

section \<open>Lemmas\<close>

subsection \<open>Chunks\<close>

text \<open>A chunk respects both limits; a limit of 0 is off, and a single entry larger than the byte limit is a chunk of its own.\<close>

definition chunk_ok :: "nat \<Rightarrow> nat \<Rightarrow> log_entry list \<Rightarrow> bool" where
  "chunk_ok max_entries max_bytes c \<longleftrightarrow>
     c \<noteq> [] \<and> (max_entries > 0 \<longrightarrow> length c \<le> max_entries)
     \<and> (max_bytes > 0 \<longrightarrow> length c = 1 \<or> sum_list (map (utf8_len \<circ> line) c) \<le> max_bytes)"

lemma chunk_loop_concat: "concat (chunk_loop me mb es cur n) = cur @ es"
  by (induction me mb es cur n rule: chunk_loop.induct) (auto simp: Let_def)

lemma chunk_loop_ok:
  assumes "cur \<noteq> [] \<longrightarrow> chunk_ok me mb cur" "n = sum_list (map (utf8_len \<circ> line) cur)"
  shows "list_all (chunk_ok me mb) (chunk_loop me mb es cur n)"
  using assms
proof (induction me mb es cur n rule: chunk_loop.induct)
  case (1 me mb cur n)
  then show ?case by simp
next
  case (2 me mb e es cur n)
  let ?full = "cur \<noteq> [] \<and> (me > 0 \<and> length cur \<ge> me \<or> mb > 0 \<and> cur \<noteq> [] \<and> n + utf8_len (line e) > mb)"
  show ?case
  proof (cases ?full)
    case True
    moreover have "list_all (chunk_ok me mb) (chunk_loop me mb es [e] (utf8_len (line e)))"
      by (rule "2.IH"(1)[OF refl refl refl]) (use True in \<open>auto simp: chunk_ok_def Suc_leI\<close>)
    ultimately show ?thesis using "2.prems" by (auto simp: Let_def)
  next
    case False
    then have "list_all (chunk_ok me mb) (chunk_loop me mb es (cur @ [e]) (n + utf8_len (line e)))"
      by (intro "2.IH"(2)[OF refl refl refl]) (use False "2.prems" in \<open>auto simp: chunk_ok_def comp_def Suc_le_eq\<close>)
    then show ?thesis using False by (auto simp: Let_def)
  qed
qed

text \<open>
  \<^verbatim>\<open>_chunk_entries\<close> loses, repeats and reorders nothing, and every batch it makes is non-empty and within
  \<open>max_entries\<close> and \<open>max_bytes\<close> (a single line longer than \<open>max_bytes\<close> is a batch of its own).\<close>

theorem chunk_entries_correct:
  "concat (chunk_entries max_entries max_bytes es) = es
   \<and> list_all (chunk_ok max_entries max_bytes) (chunk_entries max_entries max_bytes es)"
  by (simp add: chunk_entries_def chunk_loop_concat chunk_loop_ok)

subsection \<open>Retries of a push\<close>

text \<open>The sink, counting its pushes.\<close>

definition counted :: "(batch \<Rightarrow> 's \<Rightarrow> (sink_error + unit) \<times> 's) \<Rightarrow> batch \<Rightarrow> 's \<times> nat \<Rightarrow> (sink_error + unit) \<times> ('s \<times> nat)" where
  "counted do_push b = (\<lambda>(s, n). case do_push b s of (r, s1) \<Rightarrow> (r, s1, Suc n))"

lemma counted_apply: "counted do_push b (s, n) = (fst (do_push b s), snd (do_push b s), Suc n)"
  by (simp add: counted_def split_beta)

lemma push_tries_bounds:
  assumes "push_tries (counted do_push) b left backoff (s, n) = (e, pauses, (s1, n1))" "1 \<le> backoff"
  shows "(0 < left \<longrightarrow> n < n1) \<and> n1 \<le> n + left \<and> length pauses \<le> left - 1 \<and> list_all (\<lambda>p. 1 \<le> p \<and> p \<le> BF_BACKOFF_MAX) pauses \<and> (e = Aborted \<longrightarrow> n1 = n + left)"
  using assms
proof (induction left arbitrary: backoff s n e pauses s1 n1)
  case 0
  then show ?case by simp
next
  case (Suc left)
  have m: "1 \<le> min (backoff * 2) BF_BACKOFF_MAX" "1 \<le> min backoff BF_BACKOFF_MAX"
    using Suc.prems(2) by (simp_all add: BF_BACKOFF_MAX_def)
  obtain r s2 where p: "do_push b s = (r, s2)" by (cases "do_push b s")
  consider "\<exists>u. r = Inr u" | "\<exists>m. r = Inl (PermanentSinkError m)" | "r = Inl RetryableSinkError" "left = 0"
    | "r = Inl RetryableSinkError" "left \<noteq> 0"
    by (metis sink_error.exhaust sum.exhaust)
  then show ?case
  proof cases
    case 4
    obtain e' ps s' n' where q: "push_tries (counted do_push) b left (min (backoff * 2) BF_BACKOFF_MAX) (s2, Suc n) = (e', ps, (s', n'))"
      by (metis prod_cases4)
    have "e' = e" "pauses = min backoff BF_BACKOFF_MAX # ps" "s' = s1" "n' = n1"
      using Suc.prems(1) p q 4 by (simp_all add: counted_apply)
    then show ?thesis using Suc.IH[OF q m(1)] m(2) 4 by auto
  qed (use Suc.prems(1) p in \<open>auto simp: counted_apply\<close>)
qed

text \<open>
  \<^verbatim>\<open>_push_with_retry\<close> calls the sink at least once and at most ten times, gives up only after ten
  retryable failures, and every pause between two calls is between one and thirty seconds.\<close>

theorem push_with_retry_bounded:
  assumes "push_with_retry (counted do_push) b (s, 0) = (e, pauses, (s1, n))"
  shows "1 \<le> n \<and> n \<le> 10 \<and> length pauses \<le> 9 \<and> list_all (\<lambda>p. 1 \<le> p \<and> p \<le> 30) pauses \<and> (e = Aborted \<longrightarrow> n = 10)"
  using push_tries_bounds[OF assms[unfolded push_with_retry_def]]
  by (auto simp: MAX_CONSECUTIVE_PUSH_FAILURES_def BF_BACKOFF_BASE_def BF_BACKOFF_MAX_def)

subsection \<open>Resumption\<close>

text \<open>What the code relies on: \<open>lit\<close> reads a date literal; the page for a literal holds files of the table at or after it, and what it
  leaves out is not older than what it holds, and only if the page is full (\<^verbatim>\<open>ORDER BY CreatedDate, Id LIMIT\<close>).\<close>

definition listing_ok :: "('s, 'd, 'e) bf_env \<Rightarrow> bf_config \<Rightarrow> string \<Rightarrow> elf_meta set \<Rightarrow> (string \<Rightarrow> datetime) \<Rightarrow> bool" where
  "listing_ok B cfg et table lit \<longleftrightarrow>
     inj_on f_id table \<and> (\<forall>f \<in> table. lit (f_created f) = created_or_min (be_elf B) f)
     \<and> (\<forall>since raw. be_list B et since = Inr raw \<longrightarrow>
          set raw \<subseteq> {f \<in> table. lit since \<le> created_or_min (be_elf B) f}
          \<and> (\<forall>g \<in> table. lit since \<le> created_or_min (be_elf B) g \<longrightarrow>
               g \<in> set raw \<or> b_page_size cfg \<le> length raw \<and> (\<forall>f \<in> set raw. created_or_min (be_elf B) f \<le> created_or_min (be_elf B) g)))"

text \<open>A run that starts from cursor \<open>c\<close> does not process \<open>f\<close>.\<close>

definition covers :: "(string \<Rightarrow> datetime) \<Rightarrow> elf_env \<Rightarrow> type_cursor \<Rightarrow> elf_meta \<Rightarrow> bool" where
  "covers lit E c f \<longleftrightarrow> (\<exists>lc. last_created c = Some lc \<and> created_or_min E f < lit lc) \<or> at_boundary c f"

definition safe_cursor :: "(string \<Rightarrow> datetime) \<Rightarrow> elf_env \<Rightarrow> elf_meta set \<Rightarrow> type_cursor \<Rightarrow> elf_meta list \<Rightarrow> bool" where
  "safe_cursor lit E window c D \<longleftrightarrow> {f \<in> window. covers lit E c f} \<subseteq> set D"

definition safe_commits :: "(string \<Rightarrow> datetime) \<Rightarrow> elf_env \<Rightarrow> elf_meta set \<Rightarrow> nat \<Rightarrow> ('s, 'd) bf_state \<Rightarrow> bool" where
  "safe_commits lit E window k st \<longleftrightarrow>
     k \<le> length (bf_commits st) \<and>
     list_all (\<lambda>(c, n). n \<le> length (bf_disposed st) \<and> safe_cursor lit E window c (take n (bf_disposed st))) (drop k (bf_commits st))"

definition bf_inv :: "(string \<Rightarrow> datetime) \<Rightarrow> elf_env \<Rightarrow> elf_meta set \<Rightarrow> nat \<Rightarrow> ('s, 'd) bf_state \<Rightarrow> bool" where
  "bf_inv lit E window k st \<longleftrightarrow> safe_cursor lit E window (bf_cursor st) (bf_disposed st) \<and> safe_commits lit E window k st"

text \<open>Of the window, what is neither disposed of nor to be processed is not older than what is to be processed.\<close>

definition ready :: "elf_env \<Rightarrow> elf_meta set \<Rightarrow> elf_meta list \<Rightarrow> elf_meta list \<Rightarrow> bool" where
  "ready E window fs D \<longleftrightarrow>
     (\<forall>g \<in> window. g \<in> set D \<or> g \<in> set fs \<or> (\<forall>f \<in> set fs. created_or_min E f \<le> created_or_min E g))"

lemma safe_cursor_mono: "safe_cursor lit E window c D \<Longrightarrow> set D \<subseteq> set D' \<Longrightarrow> safe_cursor lit E window c D'"
  unfolding safe_cursor_def by blast

lemma safe_commits_dispose: "safe_commits lit E window k st \<Longrightarrow> safe_commits lit E window k (st\<lparr>bf_disposed := bf_disposed st @ [f]\<rparr>)"
  by (auto simp: safe_commits_def list_all_iff)

lemma safe_commits_commit:
  "safe_commits lit E window k st \<Longrightarrow> safe_cursor lit E window c (bf_disposed st @ [f]) \<Longrightarrow>
   safe_commits lit E window k (st\<lparr>bf_store := d, bf_cursor := c, bf_disposed := bf_disposed st @ [f],
                                   bf_commits := bf_commits st @ [(c, Suc (length (bf_disposed st)))]\<rparr>)"
  by (auto simp: safe_commits_def list_all_iff)

lemma safe_commits_frame:
  "bf_disposed st' = bf_disposed st \<Longrightarrow> bf_commits st' = bf_commits st \<Longrightarrow> safe_commits lit E window k st' = safe_commits lit E window k st"
  by (simp add: safe_commits_def)

text \<open>Advancing over the oldest file that is left keeps the cursor safe.\<close>

lemma advance_safe:
  assumes safe: "safe_cursor lit E window c D" and rdy: "ready E window (f # fs) D"
    and srt: "\<forall>g \<in> set fs. created_or_min E f \<le> created_or_min E g"
    and lit: "lit (f_created f) = created_or_min E f" and inj: "\<forall>g \<in> window. f_id g = f_id f \<longrightarrow> g = f"
  shows "safe_cursor lit E window (advance_cursor f c) (D @ [f])"
  unfolding safe_cursor_def
proof (intro subsetI, elim CollectE conjE)
  fix g assume g: "g \<in> window" "covers lit E (advance_cursor f c) g"
  from g(2) consider "created_or_min E g < created_or_min E f" | "f_id g = f_id f" | "at_boundary c g"
    using lit by (auto simp: covers_def advance_cursor_def at_boundary_def split: if_splits)
  then show "g \<in> set (D @ [f])"
  proof cases
    case 1
    then show ?thesis using rdy g(1) srt by (fastforce simp: ready_def)
  next
    case 2
    then show ?thesis using inj g(1) by simp
  next
    case 3
    then show ?thesis using safe g(1) by (auto simp: safe_cursor_def covers_def)
  qed
qed

lemma ready_step: "ready E window (f # fs) D \<Longrightarrow> ready E window fs (D @ [f])"
  unfolding ready_def by auto

lemma push_chunks_frame:
  "bf_cursor (snd (push_chunks B bs st)) = bf_cursor st"
  "bf_disposed (snd (push_chunks B bs st)) = bf_disposed st"
  "bf_commits (snd (push_chunks B bs st)) = bf_commits st"
  by (induction B bs st rule: push_chunks.induct) (simp_all add: Let_def split: prod.split push_end.split)

lemma process_file_inv:
  assumes run: "process_file B cfg et key f rows st = (e, st')"
    and inv: "bf_inv lit E window k st" and rdy: "ready E window (f # fs) (bf_disposed st)"
    and srt: "\<forall>g \<in> set fs. created_or_min E f \<le> created_or_min E g"
    and lit: "lit (f_created f) = created_or_min E f" and inj: "\<forall>g \<in> window. f_id g = f_id f \<longrightarrow> g = f"
  shows "safe_commits lit E window k st' \<and>
    (e = BfContinue \<longrightarrow> bf_inv lit E window k st' \<and> bf_disposed st' = bf_disposed st @ [f])"
proof -
  let ?st1 = "st\<lparr>bf_files_processed := bf_files_processed st + 1\<rparr>"
  have c0: "safe_cursor lit E window (bf_cursor st) (bf_disposed st @ [f])"
    using inv by (auto simp: bf_inv_def intro: safe_cursor_mono)
  have c1: "safe_cursor lit E window (advance_cursor f (bf_cursor st)) (bf_disposed st @ [f])"
    using advance_safe[of lit E window "bf_cursor st" "bf_disposed st" f fs] inv rdy srt lit inj by (simp add: bf_inv_def)
  have sc: "safe_commits lit E window k st" using inv by (simp add: bf_inv_def)
  show ?thesis
  proof (cases "shape_file_rows (be_elf B) (be_iso_format B) cfg et key f rows (bf_clock ?st1)")
    case None
    then have "st' = ?st1" "e = BfRaised" using run by (simp_all add: process_file_def)
    then show ?thesis using sc by (simp add: safe_commits_def)
  next
    case (Some r)
    obtain entries clock1 where r: "r = (entries, clock1)" by (cases r)
    let ?st2 = "?st1\<lparr>bf_clock := clock1\<rparr>"
    obtain ok st3 where p: "push_chunks B (chunk_entries (b_max_entries cfg) (b_max_bytes cfg) entries) ?st2 = (ok, st3)"
      by (metis surj_pair)
    have fr: "bf_cursor st3 = bf_cursor st" "bf_disposed st3 = bf_disposed st" "bf_commits st3 = bf_commits st"
      using push_chunks_frame[of B "chunk_entries (b_max_entries cfg) (b_max_bytes cfg) entries" ?st2] unfolding p by simp_all
    have sc3: "safe_commits lit E window k st3" using sc fr by (simp add: safe_commits_def)
    obtain q d where cm: "be_commit B key (serialize B (advance_cursor f (bf_cursor st3))) (bf_store st3) = (q, d)" by (metis surj_pair)
    consider "entries = []" | "entries \<noteq> []" "\<not> ok" | "entries \<noteq> []" "ok" "isl q" | "entries \<noteq> []" "ok" "\<not> isl q" by blast
    then show ?thesis
    proof cases
      case 1
      then have "e = BfContinue" "st' = ?st2\<lparr>bf_disposed := bf_disposed st @ [f]\<rparr>"
        using run Some r by (simp_all add: process_file_def)
      then show ?thesis using c0 safe_commits_dispose[of lit E window k ?st2 f] sc
        by (simp add: bf_inv_def safe_commits_def)
    next
      case 2
      then have "e = BfAbort" "st' = st3" using run Some r p by (simp_all add: process_file_def)
      then show ?thesis using sc3 by simp
    next
      case 3
      then have "e = BfRaised" "bf_disposed st' = bf_disposed st3" "bf_commits st' = bf_commits st3"
        using run Some r p cm by (auto simp: process_file_def Let_def isl_def)
      then show ?thesis using sc3 by (simp add: safe_commits_def)
    next
      case 4
      then have "e = BfContinue" "st' = st3\<lparr>bf_store := d, bf_cursor := advance_cursor f (bf_cursor st3), bf_disposed := bf_disposed st3 @ [f],
                             bf_commits := bf_commits st3 @ [(advance_cursor f (bf_cursor st3), Suc (length (bf_disposed st3)))]\<rparr>"
        using run Some r p cm by (auto simp: process_file_def Let_def split: sum.splits)
      then show ?thesis using c1 fr safe_commits_commit[OF sc3, of "advance_cursor f (bf_cursor st3)" f d] by (simp add: bf_inv_def)
    qed
  qed
qed

lemma process_files_inv:
  assumes "process_files B cfg et key fs st = (e, st')" "bf_inv lit E window k st" "ready E window fs (bf_disposed st)"
    "sorted (map (created_or_min E) fs)"
    "\<forall>f \<in> set fs. lit (f_created f) = created_or_min E f \<and> (\<forall>g \<in> window. f_id g = f_id f \<longrightarrow> g = f)"
  shows "safe_commits lit E window k st' \<and>
    (e = BfContinue \<longrightarrow> bf_inv lit E window k st' \<and> set (bf_disposed st') = set (bf_disposed st) \<union> set fs)"
  using assms
proof (induction fs arbitrary: st)
  case Nil
  then show ?case by (simp add: bf_inv_def)
next
  case (Cons f fs)
  obtain rows d where dl: "be_download B f = (rows, d)" by (cases "be_download B f")
  obtain e1 st1 where pf: "process_file B cfg et key f rows st = (e1, st1)" by (metis surj_pair)
  have step: "safe_commits lit E window k st1 \<and>
      (e1 = BfContinue \<longrightarrow> bf_inv lit E window k st1 \<and> bf_disposed st1 = bf_disposed st @ [f])"
    by (rule process_file_inv[OF pf, of lit E window k fs]) (use Cons.prems in auto)
  consider "d \<noteq> DlDone" | "d = DlDone" "e1 = BfContinue" | "d = DlDone" "e1 \<noteq> BfContinue" by blast
  then show ?case
  proof cases
    case 1
    then have "st' = st" "e \<noteq> BfContinue" using Cons.prems(1) dl by (auto split: dl_end.splits)
    then show ?thesis using Cons.prems(2) by (simp add: bf_inv_def)
  next
    case 2
    then have rest: "process_files B cfg et key fs st1 = (e, st')" using Cons.prems(1) dl pf by simp
    have "safe_commits lit E window k st' \<and>
      (e = BfContinue \<longrightarrow> bf_inv lit E window k st' \<and> set (bf_disposed st') = set (bf_disposed st1) \<union> set fs)"
      using step 2 Cons.prems by (intro Cons.IH[OF rest]) (auto intro: ready_step)
    then show ?thesis using step 2 by auto
  next
    case 3
    then have "e = e1" "st' = st1" using Cons.prems(1) dl pf by (auto split: bf_end.splits)
    then show ?thesis using step 3 by simp
  qed
qed

text \<open>Files of the window older than the literal of the next listing are disposed of.\<close>

definition listed_up_to :: "elf_env \<Rightarrow> elf_meta set \<Rightarrow> datetime \<Rightarrow> elf_meta list \<Rightarrow> bool" where
  "listed_up_to E window t D \<longleftrightarrow> {f \<in> window. created_or_min E f < t} \<subseteq> set D"

text \<open>One listing, sorted by the code, of a window \<open>W\<close> of the table.\<close>

definition page_of :: "('s, 'd, 'e) bf_env \<Rightarrow> elf_meta list \<Rightarrow> elf_meta list" where
  "page_of B raw = sort_key (\<lambda>f. (created_or_min (be_elf B) f, f_id f)) raw"

text \<open>A full page of files with one creation date, at the listing literal: the one way to end without having seen every file.\<close>

definition stuck_page :: "('s, 'd, 'e) bf_env \<Rightarrow> bf_config \<Rightarrow> string \<Rightarrow> bool" where
  "stuck_page B cfg et \<longleftrightarrow>
     (\<exists>since raw. be_list B et since = Inr raw \<and> raw \<noteq> [] \<and> b_page_size cfg \<le> length raw \<and>
        f_created (last (page_of B raw)) = since)"

lemma set_page_of [simp]: "set (page_of B raw) = set raw" "length (page_of B raw) = length raw" "page_of B raw = [] \<longleftrightarrow> raw = []"
  by (simp_all add: page_of_def) (metis length_0_conv length_sort)

lemma sorted_page_of: "sorted (map (created_or_min (be_elf B)) (page_of B raw))"
proof -
  have "sorted (map (\<lambda>f. (created_or_min (be_elf B) f, f_id f)) (page_of B raw))" by (simp add: page_of_def)
  then show ?thesis by (simp add: sorted_map sorted_wrt_iff_nth_less less_eq_prod_def)
      (metis less_eq_prod_def fst_conv order.order_iff_strict)
qed

lemma sorted_page_files: "sorted (map (created_or_min (be_elf B)) (page_files E until c (page_of B raw)))"
  by (simp add: page_files_def sorted_filter sorted_page_of)

lemma page_last: "f \<in> set raw \<Longrightarrow> created_or_min (be_elf B) f \<le> created_or_min (be_elf B) (last (page_of B raw))"
proof -
  assume f: "f \<in> set raw"
  then have "page_of B raw \<noteq> []" by auto
  then have "page_of B raw = butlast (page_of B raw) @ [last (page_of B raw)]" by (rule append_butlast_last_id[symmetric])
  then have "f \<in> set (butlast (page_of B raw) @ [last (page_of B raw)])"
    "sorted (map (created_or_min (be_elf B)) (butlast (page_of B raw) @ [last (page_of B raw)]))"
    using f sorted_page_of[of B raw] set_page_of(1)[of B raw] by metis+
  then show ?thesis by (auto simp: sorted_append)
qed

lemma page_hd: "f \<in> set raw \<Longrightarrow> created_or_min (be_elf B) (hd (page_of B raw)) \<le> created_or_min (be_elf B) f"
proof -
  assume "f \<in> set raw"
  then have "f \<in> set (page_of B raw)" by simp
  then show ?thesis using sorted_page_of[of B raw] by (cases "page_of B raw") auto
qed

text \<open>What one listing says of a window of the table, before its files are processed and after.\<close>

definition window_ok :: "elf_env \<Rightarrow> datetime option \<Rightarrow> elf_meta set \<Rightarrow> elf_meta set \<Rightarrow> bool" where
  "window_ok E until table window \<longleftrightarrow> window \<subseteq> {f \<in> table. before_until E until f}"

lemma page_cases:
  assumes "listing_ok B cfg et table lit" "be_list B et since = Inr raw" "window_ok (be_elf B) until table W"
    "listed_up_to (be_elf B) W (lit since) D" "safe_cursor lit (be_elf B) W c D" "g \<in> W"
  shows "g \<in> set D \<or> g \<in> set (page_files (be_elf B) until c (page_of B raw)) \<or>
     b_page_size cfg \<le> length raw \<and> (\<forall>f \<in> set raw. created_or_min (be_elf B) f \<le> created_or_min (be_elf B) g)"
proof (cases "created_or_min (be_elf B) g < lit since")
  case True
  then show ?thesis using assms(4,6) by (auto simp: listed_up_to_def)
next
  case False
  have "g \<in> table" "before_until (be_elf B) until g" using assms(3,6) by (auto simp: window_ok_def)
  then have "g \<in> set raw \<or> b_page_size cfg \<le> length raw \<and> (\<forall>f \<in> set raw. created_or_min (be_elf B) f \<le> created_or_min (be_elf B) g)"
    using assms(1,2) False by (auto simp: listing_ok_def)
  moreover have "at_boundary c g \<Longrightarrow> g \<in> set D" using assms(5,6) by (auto simp: safe_cursor_def covers_def)
  ultimately show ?thesis using \<open>before_until (be_elf B) until g\<close> by (auto simp: page_files_def)
qed

lemma page_table:
  "listing_ok B cfg et table lit \<Longrightarrow> be_list B et since = Inr raw \<Longrightarrow> f \<in> set raw \<Longrightarrow>
   f \<in> table \<and> lit (f_created f) = created_or_min (be_elf B) f"
  by (auto simp: listing_ok_def)

lemma page_ready:
  assumes "listing_ok B cfg et table lit" "be_list B et since = Inr raw" "window_ok (be_elf B) until table W"
    "listed_up_to (be_elf B) W (lit since) D" "safe_cursor lit (be_elf B) W c D"
  shows "ready (be_elf B) W (page_files (be_elf B) until c (page_of B raw)) D"
  unfolding ready_def
proof
  fix g assume "g \<in> W"
  from page_cases[OF assms this] show "g \<in> set D \<or> g \<in> set (page_files (be_elf B) until c (page_of B raw)) \<or>
      (\<forall>f \<in> set (page_files (be_elf B) until c (page_of B raw)). created_or_min (be_elf B) f \<le> created_or_min (be_elf B) g)"
    by (auto simp: page_files_def)
qed

lemma page_advances:
  assumes "listing_ok B cfg et table lit" "be_list B et since = Inr raw" "window_ok (be_elf B) until table W"
    "listed_up_to (be_elf B) W (lit since) D" "safe_cursor lit (be_elf B) W c D"
    and ne: "raw \<noteq> []" and D': "set D \<union> set (page_files (be_elf B) until c (page_of B raw)) \<subseteq> set D'"
  shows "listed_up_to (be_elf B) W (lit (f_created (last (page_of B raw)))) D'"
    and "length raw < b_page_size cfg \<Longrightarrow> W \<subseteq> set D'"
proof -
  have l: "last (page_of B raw) \<in> set raw" using ne by (metis last_in_set set_page_of(1) set_page_of(3))
  show "listed_up_to (be_elf B) W (lit (f_created (last (page_of B raw)))) D'"
    unfolding listed_up_to_def
  proof (intro subsetI, elim CollectE conjE)
    fix g assume "g \<in> W" "created_or_min (be_elf B) g < lit (f_created (last (page_of B raw)))"
    then show "g \<in> set D'"
      using page_cases[OF assms(1-5) \<open>g \<in> W\<close>] page_table[OF assms(1,2) l] l D' by (auto simp: not_le[symmetric])
  qed
  show "W \<subseteq> set D'" if "length raw < b_page_size cfg"
    using page_cases[OF assms(1-5)] that D' by fastforce
qed

lemma page_past_until:
  assumes "listing_ok B cfg et table lit" "be_list B et since = Inr raw" "window_ok (be_elf B) until table W"
    "listed_up_to (be_elf B) W (lit since) D" "safe_cursor lit (be_elf B) W c D" "0 < b_page_size cfg"
    "raw = [] \<or> \<not> before_until (be_elf B) until (hd (page_of B raw))"
  shows "W \<subseteq> set D"
proof
  fix g assume g: "g \<in> W"
  then have b: "before_until (be_elf B) until g" using assms(3) by (auto simp: window_ok_def)
  show "g \<in> set D"
  proof (cases "raw = []")
    case True
    then show ?thesis using page_cases[OF assms(1-5) g] assms(6) by (auto simp: page_files_def page_of_def)
  next
    case False
    have "hd (page_of B raw) \<in> set raw" using False by (metis hd_in_set set_page_of(1) set_page_of(3))
    then have "g \<in> set D \<or> created_or_min (be_elf B) (hd (page_of B raw)) \<le> created_or_min (be_elf B) g"
      using page_cases[OF assms(1-5) g] page_hd[of g raw B] by (auto simp: page_files_def)
    then show ?thesis using assms(7) False b by (auto simp: before_until_def split: option.splits)
  qed
qed

lemma list_loop_step:
  "list_loop B cfg until et key (Suc fuel) since st =
     (case be_list B et since of
        Inl None \<Rightarrow> (BfRaised, st)
      | Inl (Some _) \<Rightarrow> (BfStopType, st)
      | Inr raw \<Rightarrow>
          if raw = [] \<or> \<not> before_until (be_elf B) until (hd (page_of B raw)) then (BfContinue, st)
          else
            (let files = page_files (be_elf B) until (bf_cursor st) (page_of B raw); new_since = f_created (last (page_of B raw)) in
             if files = [] then
               (if length raw < b_page_size cfg \<or> new_since = since then (BfContinue, st)
                else list_loop B cfg until et key fuel new_since st)
             else (case process_files B cfg et key files st of
                     (BfContinue, st1) \<Rightarrow>
                       if length raw < b_page_size cfg then (BfContinue, st1)
                       else list_loop B cfg until et key fuel new_since st1
                   | res \<Rightarrow> res)))"
  by (simp add: Let_def page_of_def[symmetric] split: sum.split option.split prod.split bf_end.split)

declare list_loop.simps(2) [simp del]

lemma list_loop_inv:
  assumes ok: "listing_ok B cfg et table lit" and win: "window_ok (be_elf B) until table W" and pos: "0 < b_page_size cfg"
    and "list_loop B cfg until et key fuel since st = (e, st')" "bf_inv lit (be_elf B) W k st"
    "listed_up_to (be_elf B) W (lit since) (bf_disposed st)"
  shows "safe_commits lit (be_elf B) W k st' \<and> (e = BfContinue \<longrightarrow> W \<subseteq> set (bf_disposed st') \<or> stuck_page B cfg et)"
  using assms(4-6)
proof (induction fuel arbitrary: since st)
  case 0
  then show ?case by (auto simp: bf_inv_def)
next
  case (Suc fuel)
  have sc: "safe_commits lit (be_elf B) W k st" and safe: "safe_cursor lit (be_elf B) W (bf_cursor st) (bf_disposed st)"
    using Suc.prems(2) by (simp_all add: bf_inv_def)
  show ?case
  proof (cases "be_list B et since")
    case (Inl err)
    then show ?thesis using Suc.prems(1) sc by (auto simp: list_loop_step split: option.splits)
  next
    case (Inr raw)
    note page = ok Inr win Suc.prems(3) safe
    let ?files = "page_files (be_elf B) until (bf_cursor st) (page_of B raw)"
    let ?next = "f_created (last (page_of B raw))"
    obtain e1 st1 where pf: "process_files B cfg et key ?files st = (e1, st1)" by (metis surj_pair)
    have files: "\<forall>f \<in> set ?files. lit (f_created f) = created_or_min (be_elf B) f \<and> (\<forall>g \<in> W. f_id g = f_id f \<longrightarrow> g = f)"
      using page_table[OF ok Inr] ok win by (auto simp: page_files_def listing_ok_def window_ok_def inj_on_def)
    have st1: "safe_commits lit (be_elf B) W k st1 \<and>
      (e1 = BfContinue \<longrightarrow> bf_inv lit (be_elf B) W k st1 \<and> set (bf_disposed st1) = set (bf_disposed st) \<union> set ?files)"
      by (rule process_files_inv[OF pf Suc.prems(2) page_ready[OF page] sorted_page_files files])
    consider "raw = [] \<or> \<not> before_until (be_elf B) until (hd (page_of B raw))"
      | "raw \<noteq> []" "before_until (be_elf B) until (hd (page_of B raw))" "?files = []"
      | "raw \<noteq> []" "before_until (be_elf B) until (hd (page_of B raw))" "?files \<noteq> []" "e1 \<noteq> BfContinue"
      | "raw \<noteq> []" "before_until (be_elf B) until (hd (page_of B raw))" "?files \<noteq> []" "e1 = BfContinue" by blast
    then show ?thesis
    proof cases
      case 1
      then have "(e, st') = (BfContinue, st)" using Suc.prems(1) Inr by (auto simp: list_loop_step)
      then show ?thesis using page_past_until[OF page pos 1] sc by simp
    next
      case 2
      note adv = page_advances[OF page 2(1), of "bf_disposed st"]
      show ?thesis
      proof (cases "length raw < b_page_size cfg \<or> ?next = since")
        case True
        then have "(e, st') = (BfContinue, st)" using Suc.prems(1) Inr 2 by (auto simp: list_loop_step)
        moreover have "W \<subseteq> set (bf_disposed st) \<or> stuck_page B cfg et"
          using True adv(2) 2 Inr by (fastforce simp: stuck_page_def not_less)
        ultimately show ?thesis using sc by simp
      next
        case False
        then have "list_loop B cfg until et key fuel ?next st = (e, st')" using Suc.prems(1) Inr 2 by (auto simp: list_loop_step)
        then show ?thesis using adv(1) 2 by (intro Suc.IH[OF _ Suc.prems(2)]) simp_all
      qed
    next
      case 3
      then have "(e, st') = (e1, st1)" using Suc.prems(1) Inr pf by (auto simp: list_loop_step split: bf_end.splits)
      then show ?thesis using st1 3 by simp
    next
      case 4
      note adv = page_advances[OF page 4(1), of "bf_disposed st1"]
      show ?thesis
      proof (cases "length raw < b_page_size cfg")
        case True
        then have "(e, st') = (BfContinue, st1)" using Suc.prems(1) Inr 4 pf by (auto simp: list_loop_step)
        then show ?thesis using st1 4 adv(2) True by simp
      next
        case False
        then have "list_loop B cfg until et key fuel ?next st1 = (e, st')" using Suc.prems(1) Inr 4 pf by (auto simp: list_loop_step)
        then show ?thesis using adv(1) 4 st1 by (intro Suc.IH) simp_all
      qed
    qed
  qed
qed

text \<open>The files a run that starts from cursor \<open>c\<close> has to process.\<close>

definition bf_window :: "('s, 'd, 'e) bf_env \<Rightarrow> datetime \<Rightarrow> datetime option \<Rightarrow> elf_meta set \<Rightarrow> (string \<Rightarrow> datetime) \<Rightarrow> type_cursor \<Rightarrow> elf_meta set" where
  "bf_window B since until table lit c =
     {f \<in> table. lit (first_since B since c) \<le> created_or_min (be_elf B) f \<and> \<not> at_boundary c f \<and> before_until (be_elf B) until f}"

lemma backfill_type_inv:
  assumes ok: "listing_ok B cfg et table lit" and pos: "0 < b_page_size cfg"
    and ld: "load_raw B cfg et (bf_store st) = (Inr raw, d)" and c: "parse_cursor B raw = Some c"
    and run: "backfill_type B cfg since until fuel et st = (e, st')"
  shows "safe_commits lit (be_elf B) (bf_window B since until table lit c) (length (bf_commits st)) st' \<and>
    (e = BfContinue \<longrightarrow> bf_window B since until table lit c \<subseteq> set (bf_disposed st') \<or> stuck_page B cfg et)"
proof (rule list_loop_inv[OF ok _ pos])
  show "window_ok (be_elf B) until table (bf_window B since until table lit c)" by (auto simp: window_ok_def bf_window_def)
  show "list_loop B cfg until et (backfill_checkpoint_key (b_interval cfg) et (b_org cfg)) fuel (first_since B since c)
          (st\<lparr>bf_store := d, bf_cursor := c\<rparr>) = (e, st')"
    using run ld c by (simp add: backfill_type_def)
  show "bf_inv lit (be_elf B) (bf_window B since until table lit c) (length (bf_commits st)) (st\<lparr>bf_store := d, bf_cursor := c\<rparr>)"
    by (auto simp: bf_inv_def safe_commits_def safe_cursor_def bf_window_def covers_def first_since_def)
  show "listed_up_to (be_elf B) (bf_window B since until table lit c) (lit (first_since B since c)) (bf_disposed (st\<lparr>bf_store := d, bf_cursor := c\<rparr>))"
    by (auto simp: listed_up_to_def bf_window_def)
qed

text \<open>
  C11. A backfill may be stopped at any moment: whenever it commits a checkpoint for an event type, every file of the window that a run
  resumed from this checkpoint would pass over has been disposed of by then.\<close>

theorem backfill_resume_safe:
  assumes "listing_ok B cfg et table lit" "0 < b_page_size cfg" "load_raw B cfg et (bf_store st) = (Inr raw, d)" "parse_cursor B raw = Some c"
    "backfill_type B cfg since until fuel et st = (e, st')"
    and "(c', n) \<in> set (drop (length (bf_commits st)) (bf_commits st'))" "f \<in> bf_window B since until table lit c" "covers lit (be_elf B) c' f"
  shows "f \<in> set (take n (bf_disposed st'))"
  using backfill_type_inv[OF assms(1-5)] assms(6-8) by (auto simp: safe_commits_def list_all_iff safe_cursor_def)

text \<open>
  C12. When the backfill of an event type ends normally, every file of the window has been disposed of, unless a full page of files has
  its last creation date equal to the date it was listed from (the case the code gives up on).\<close>

theorem backfill_complete:
  assumes "listing_ok B cfg et table lit" "0 < b_page_size cfg" "load_raw B cfg et (bf_store st) = (Inr raw, d)" "parse_cursor B raw = Some c"
    "backfill_type B cfg since until fuel et st = (BfContinue, st')" "\<not> stuck_page B cfg et"
  shows "bf_window B since until table lit c \<subseteq> set (bf_disposed st')"
  using backfill_type_inv[OF assms(1-5)] assms(6) by simp

subsection \<open>The sink\<close>

context sink_contract
begin

lemma push_tries_settles:
  assumes "list_all entry_ok b" "push_tries do_push b left backoff s = (e, pauses, s')"
  shows "settled s \<subseteq># settled s' \<and> (e = Pushed \<longrightarrow> settled s + image_mset form (mset b) \<subseteq># settled s')"
  using assms(2)
proof (induction left arbitrary: backoff s pauses)
  case 0
  then show ?case by simp
next
  case (Suc left)
  obtain r s1 where p: "do_push b s = (r, s1)" by (cases "do_push b s")
  note k = push_keeps[OF assms(1) p]
  consider "r = Inr ()" | "\<exists>m. r = Inl (PermanentSinkError m)" | "r = Inl RetryableSinkError" "left = 0"
    | "r = Inl RetryableSinkError" "left \<noteq> 0"
    by (metis (full_types) old.unit.exhaust sink_error.exhaust sum.exhaust)
  then show ?case
  proof cases
    case 1
    then show ?thesis using Suc.prems p k push_returns[OF assms(1), of s s1] by auto
  next
    case 4
    obtain e1 ps s2 where q: "push_tries do_push b left (min (backoff * 2) BF_BACKOFF_MAX) s1 = (e1, ps, s2)" by (metis prod_cases3)
    then have "e1 = e" "s2 = s'" using Suc.prems p 4 by simp_all
    then show ?thesis using Suc.IH[OF q[unfolded \<open>e1 = e\<close> \<open>s2 = s'\<close>]] k
      by (meson subset_mset.order_trans subset_mset.add_right_mono)
  qed (use Suc.prems p k in auto)
qed

lemma push_chunks_settles:
  assumes "be_push B = do_push" "list_all (list_all entry_ok) bs" "push_chunks B bs st = (ok, st')"
  shows "\<exists>rej. bf_rejected st' = bf_rejected st @ rej \<and> set rej \<subseteq> set bs \<and> settled (bf_sink st) \<subseteq># settled (bf_sink st') \<and>
    (ok \<longrightarrow> settled (bf_sink st) + image_mset form (mset (concat bs)) \<subseteq># settled (bf_sink st') + image_mset form (mset (concat rej)))"
  using assms(2,3)
proof (induction bs arbitrary: st)
  case Nil
  then show ?case by simp
next
  case (Cons b bs)
  let ?st1 = "st\<lparr>bf_rows_attempted := bf_rows_attempted st + length b,
                 bf_bytes_attempted := bf_bytes_attempted st + sum_list (map (utf8_len \<circ> line) b)\<rparr>"
  obtain e ps s where p: "push_with_retry do_push b (bf_sink st) = (e, ps, s)" by (metis prod_cases3)
  have b: "list_all entry_ok b" using Cons.prems(1) by simp
  note ps = push_tries_settles[OF b p[unfolded push_with_retry_def]]
  show ?case
  proof (cases e)
    case Pushed
    then have "push_chunks B bs (?st1\<lparr>bf_sink := s\<rparr>) = (ok, st')" using Cons.prems(2) p assms(1) by (simp add: Let_def)
    from Cons.IH[OF _ this] obtain rej where "bf_rejected st' = bf_rejected st @ rej" "set rej \<subseteq> set bs" "settled s \<subseteq># settled (bf_sink st')"
      "ok \<longrightarrow> settled s + image_mset form (mset (concat bs)) \<subseteq># settled (bf_sink st') + image_mset form (mset (concat rej))"
      using Cons.prems(1) by auto
    moreover have "settled (bf_sink st) + image_mset form (mset (concat (b # bs))) \<subseteq># settled s + image_mset form (mset (concat bs))"
      using ps Pushed by (simp add: add.assoc[symmetric])
    ultimately show ?thesis
      using ps by (intro exI[of _ rej] conjI impI) (auto intro: subset_mset.order_trans simp del: concat.simps)
  next
    case (Rejected r)
    then have "push_chunks B bs (?st1\<lparr>bf_sink := s, bf_rejected := bf_rejected st @ [b]\<rparr>) = (ok, st')"
      using Cons.prems(2) p assms(1) by (simp add: Let_def)
    from Cons.IH[OF _ this] obtain rej where rej: "bf_rejected st' = bf_rejected st @ [b] @ rej" "set rej \<subseteq> set bs" "settled s \<subseteq># settled (bf_sink st')"
      "ok \<longrightarrow> settled s + image_mset form (mset (concat bs)) \<subseteq># settled (bf_sink st') + image_mset form (mset (concat rej))"
      using Cons.prems(1) by auto
    have "settled (bf_sink st) + image_mset form (mset (concat bs)) \<subseteq># settled s + image_mset form (mset (concat bs))"
      using ps by simp
    then have "ok \<longrightarrow> settled (bf_sink st) + image_mset form (mset (concat bs)) \<subseteq># settled (bf_sink st') + image_mset form (mset (concat rej))"
      using rej(4) by (meson subset_mset.order_trans)
    moreover have "settled (bf_sink st) \<subseteq># settled (bf_sink st')" using ps rej(3) by (meson subset_mset.order_trans)
    ultimately show ?thesis using rej(1,2) by (intro exI[of _ "b # rej"]) auto
  next
    case Aborted
    then have "\<not> ok" "st' = ?st1\<lparr>bf_sink := s\<rparr>" using Cons.prems(2) p assms(1) by (simp_all add: Let_def)
    then show ?thesis using ps by simp
  qed
qed

end

text \<open>
  C13. A file that is processed to the end is wholly accounted for: every entry shaped from its rows is settled with the sink (accepted,
  or dropped and counted by it) or belongs to a batch that was counted as rejected, and the checkpoint is committed after that. The sink is
  \<^verbatim>\<open>LokiSink.push\<close> itself.\<close>

theorem backfill_file_settled:
  assumes run: "process_file B cfg et key f rows st = (BfContinue, st')" and sink: "be_push B = push env"
    and sh: "shape_file_rows (be_elf B) (be_iso_format B) cfg et key f rows (bf_clock st) = Some (es, clock)" and ok: "list_all entry_ok es"
  shows "\<exists>rej. bf_rejected st' = bf_rejected st @ rej \<and> set (concat rej) \<subseteq> set es \<and>
    loki_settled (bf_sink st) + image_mset (delivered_form (line_cap env)) (mset es)
      \<subseteq># loki_settled (bf_sink st') + image_mset (delivered_form (line_cap env)) (mset (concat rej))"
proof (cases "es = []")
  case True
  then show ?thesis using run sh by (auto simp: process_file_def)
next
  case False
  let ?chunks = "chunk_entries (b_max_entries cfg) (b_max_bytes cfg) es"
  have cat: "concat ?chunks = es" by (simp add: chunk_entries_def chunk_loop_concat)
  have "list_all entry_ok (concat ?chunks)" using ok cat by simp
  then have ch: "list_all (list_all entry_ok) ?chunks" by (auto simp: list_all_iff)
  obtain okp st3 where p: "push_chunks B ?chunks (st\<lparr>bf_files_processed := bf_files_processed st + 1, bf_clock := clock\<rparr>) = (okp, st3)"
    by (metis surj_pair)
  have st3: "okp" "bf_rejected st' = bf_rejected st3" "bf_sink st' = bf_sink st3"
    using run sh False p by (auto simp: process_file_def Let_def split: bool.splits sum.splits prod.splits)
  from loki.push_chunks_settles[OF sink ch p] obtain rej where rej: "bf_rejected st3 = bf_rejected st @ rej" "set rej \<subseteq> set ?chunks"
      "loki_settled (bf_sink st) + image_mset (delivered_form (line_cap env)) (mset es)
        \<subseteq># loki_settled (bf_sink st3) + image_mset (delivered_form (line_cap env)) (mset (concat rej))"
    using st3(1) by (auto simp: cat)
  have "set (concat rej) \<subseteq> set (concat ?chunks)" using rej(2) by auto
  then show ?thesis using rej(1,3) st3 cat by auto
qed

subsection \<open>A listing that does not advance\<close>

lemma process_files_empty:
  assumes "\<forall>f \<in> set fs. be_download B f = ([], DlDone)"
  shows "\<exists>st'. process_files B cfg et key fs st = (BfContinue, st') \<and> bf_cursor st' = bf_cursor st"
  using assms
proof (induction fs arbitrary: st)
  case Nil
  then show ?case by simp
next
  case (Cons f fs)
  let ?st1 = "st\<lparr>bf_files_processed := bf_files_processed st + 1, bf_disposed := bf_disposed st @ [f]\<rparr>"
  obtain st' where "process_files B cfg et key fs ?st1 = (BfContinue, st')" "bf_cursor st' = bf_cursor ?st1"
    using Cons.IH[of ?st1] Cons.prems by auto
  then show ?case using Cons.prems by (simp add: process_file_def shape_file_rows_def Let_def)
qed

text \<open>
  C35. The guard against re-fetching one page for ever does not cover files with nothing to push: a full page whose files all carry the
  creation date it was listed from, none of them past the cutoff, of which some file is not in the checkpoint and those that are not have
  no rows, is listed again without end; no number of listings suffices.\<close>

theorem backfill_spins:
  assumes raw: "be_list B et since = Inr raw" "raw \<noteq> []" "b_page_size cfg \<le> length raw"
    and files: "\<forall>f \<in> set raw. f_created f = since \<and> before_until (be_elf B) until f
                  \<and> (at_boundary (bf_cursor st) f \<or> be_download B f = ([], DlDone))"
    and left: "\<exists>f \<in> set raw. \<not> at_boundary (bf_cursor st) f"
  shows "fst (list_loop B cfg until et key fuel since st) = BfWaiting"
  using files left
proof (induction fuel arbitrary: st)
  case 0
  then show ?case by simp
next
  case (Suc fuel)
  let ?files = "page_files (be_elf B) until (bf_cursor st) (page_of B raw)"
  have h: "hd (page_of B raw) \<in> set raw" "last (page_of B raw) \<in> set raw"
    using raw(2) by (metis hd_in_set last_in_set set_page_of(1) set_page_of(3))+
  have "?files \<noteq> []" using Suc.prems by (auto simp: page_files_def filter_empty_conv)
  moreover obtain st1 where st1: "process_files B cfg et key ?files st = (BfContinue, st1)" "bf_cursor st1 = bf_cursor st"
    using process_files_empty[of ?files B cfg et key st] Suc.prems(1) by (auto simp: page_files_def)
  ultimately show ?case
    using Suc.IH[of st1] Suc.prems raw h by (simp add: list_loop_step)
qed

section \<open>Witnesses\<close>

lemma demo_retries:
  "push_with_retry (counted (\<lambda>b s. (Inl RetryableSinkError, s))) [] ((), 0) = (Aborted, [1, 2, 4, 8, 16, 30, 30, 30, 30], ((), 10))"
  by (simp add: push_with_retry_def MAX_CONSECUTIVE_PUSH_FAILURES_def BF_BACKOFF_BASE_def BF_BACKOFF_MAX_def eval_nat_numeral counted_apply)

theorem push_with_retry_bounded_witness:
  "length [1, 2, 4, 8, 16, 30, 30, 30, 30 :: seconds] \<le> 9 \<and>
   fst (push_with_retry (counted (\<lambda>b s. (Inl RetryableSinkError, s))) [] ((), 0)) = Aborted"
  using push_with_retry_bounded[OF demo_retries] by (simp add: demo_retries)

definition demo_bf_cfg :: "nat \<Rightarrow> bf_config" where
  "demo_bf_cfg n = \<lparr>b_types = [demo_type], b_sm_fields = [], b_timestamp_column = ''TIMESTAMP_DERIVED'', b_static_labels = [],
     b_max_entries = 1, b_max_bytes = 0, b_page_size = n, b_ingest_timestamps = False, b_interval = ''Hourly'', b_org = [],
     b_legacy_fallback = False\<rparr>"

definition demo_bf :: "(batch \<Rightarrow> 's \<Rightarrow> (sink_error + unit) \<times> 's) \<Rightarrow> nat \<Rightarrow> ('s, string \<rightharpoonup> string, unit) bf_env" where
  "demo_bf do_push n = \<lparr>be_elf = demo_env, be_iso_format = (\<lambda>t. []), be_push = do_push, be_load = (\<lambda>k d. (Inr (d k), d)),
     be_commit = (\<lambda>k v d. (Inr (), d(k \<mapsto> v))), be_loads = Map.empty,
     be_dumps = (\<lambda>lc ids. (case lc of None \<Rightarrow> [] | Some t \<Rightarrow> t) @ concat ids),
     be_list = (\<lambda>et. demo_pages n demo_table), be_download = demo_dl, be_since_literal = (\<lambda>t. [])\<rparr>"

definition demo_bf_start :: "'s \<Rightarrow> ('s, string \<rightharpoonup> string) bf_state" where
  "demo_bf_start s = \<lparr>bf_sink = s, bf_store = Map.empty, bf_clock = 0, bf_files_processed = 0, bf_rows_attempted = 0,
     bf_bytes_attempted = 0, bf_cursor = \<lparr>last_created = None, done_ids = []\<rparr>, bf_rejected = [], bf_disposed = [], bf_commits = []\<rparr>"

definition demo_bf_run :: "bf_end \<times> (unit, string \<rightharpoonup> string) bf_state" where
  "demo_bf_run = backfill_type (demo_bf (\<lambda>b s. (Inr (), s)) 5) (demo_bf_cfg 5) 0 None 3 ''Login'' (demo_bf_start ())"

lemma demo_bf_run_end:
  "fst demo_bf_run = BfContinue" "bf_disposed (snd demo_bf_run) = demo_table"
  "bf_commits (snd demo_bf_run) = [(\<lparr>last_created = Some ''00'', done_ids = [''A'']\<rparr>, 1)]"
  by code_simp+

lemma demo_bf_listing: "listing_ok (demo_bf do_push 5) (demo_bf_cfg 5) et (set demo_table) demo_lit"
  by (auto simp: listing_ok_def demo_bf_def demo_pages_def elf_listing_def demo_table_def demo_file_def created_or_min_def
      parse_created_def demo_env_def demo_date_def demo_lit_def ts_def inj_on_def)

lemma demo_bf_load:
  "0 < b_page_size (demo_bf_cfg 5)"
  "load_raw (demo_bf do_push 5) (demo_bf_cfg 5) ''Login'' (bf_store (demo_bf_start s)) = (Inr None, Map.empty)"
  "parse_cursor (demo_bf do_push 5) None = Some \<lparr>last_created = None, done_ids = []\<rparr>"
  by (simp_all add: demo_bf_cfg_def load_raw_def demo_bf_def demo_bf_start_def parse_cursor_def)

lemma demo_bf_run_eq:
  "backfill_type (demo_bf (\<lambda>b s. (Inr (), s)) 5) (demo_bf_cfg 5) 0 None 3 ''Login'' (demo_bf_start ()) = (BfContinue, snd demo_bf_run)"
  using demo_bf_run_end(1) by (simp add: demo_bf_run_def prod_eq_iff)

lemma demo_bf_window:
  "demo_file ''A'' ''00'' \<in> bf_window (demo_bf do_push 5) 0 None (set demo_table) demo_lit \<lparr>last_created = None, done_ids = []\<rparr>"
  by (simp add: bf_window_def demo_table_def first_since_def demo_bf_def demo_lit_def created_or_min_def parse_created_def demo_env_def
      demo_date_def demo_file_def at_boundary_def before_until_def)

theorem backfill_resume_safe_witness: "demo_file ''A'' ''00'' \<in> set (take 1 (bf_disposed (snd demo_bf_run)))"
proof (rule backfill_resume_safe[OF demo_bf_listing demo_bf_load demo_bf_run_eq _ demo_bf_window])
  show "(\<lparr>last_created = Some ''00'', done_ids = [''A'']\<rparr>, 1) \<in> set (drop (length (bf_commits (demo_bf_start ()))) (bf_commits (snd demo_bf_run)))"
    by (simp add: demo_bf_run_end(3) demo_bf_start_def)
  show "covers demo_lit (be_elf (demo_bf (\<lambda>b s. (Inr (), s)) 5)) \<lparr>last_created = Some ''00'', done_ids = [''A'']\<rparr> (demo_file ''A'' ''00'')"
    by (simp add: covers_def at_boundary_def demo_file_def)
qed

theorem backfill_complete_witness:
  "bf_window (demo_bf (\<lambda>b (s :: unit). (Inr (), s)) 5) 0 None (set demo_table) demo_lit \<lparr>last_created = None, done_ids = []\<rparr>
     \<subseteq> set (bf_disposed (snd demo_bf_run))"
proof (rule backfill_complete[OF demo_bf_listing demo_bf_load demo_bf_run_eq])
  show "\<not> stuck_page (demo_bf (\<lambda>b (s :: unit). (Inr (), s)) 5) (demo_bf_cfg 5) ''Login''"
    by (auto simp: stuck_page_def demo_bf_def demo_bf_cfg_def demo_pages_def elf_listing_def demo_table_def)
qed

text \<open>A page of one file, with no rows.\<close>

theorem backfill_spins_witness:
  "fst (list_loop (demo_bf (\<lambda>b s. (Inr (), s)) 1\<lparr>be_list := \<lambda>et since. Inr [demo_file ''B'' ''000'']\<rparr>) (demo_bf_cfg 1) None ''Login'' ''k''
          100 ''000'' (demo_bf_start ())) = BfWaiting"
  by (rule backfill_spins[where raw = "[demo_file ''B'' ''000'']"])
    (simp_all add: demo_bf_def demo_bf_cfg_def demo_file_def demo_dl_def before_until_def at_boundary_def demo_bf_start_def)

text \<open>A file of one row, accepted by the server.\<close>

definition demo_accept :: "(nat, batch) sink_env" where
  "demo_accept = example_env (\<lambda>req n. (Response 204 None, Suc n))"

definition demo_settle :: "bf_end \<times> (nat sink_state, string \<rightharpoonup> string) bf_state" where
  "demo_settle = process_file (demo_bf (push demo_accept) 5) (demo_bf_cfg 5) ''Login'' ''k'' (demo_file ''A'' ''00'')
     [[(''N'', VStr ''1'')]] (demo_bf_start fresh_sink)"

lemma demo_settle_end: "fst demo_settle = BfContinue"
  by code_simp

lemma demo_settle_entries:
  obtains es clock where "shape_file_rows (be_elf (demo_bf (push demo_accept) 5)) (be_iso_format (demo_bf (push demo_accept) 5)) (demo_bf_cfg 5)
      ''Login'' ''k'' (demo_file ''A'' ''00'') [[(''N'', VStr ''1'')]] (bf_clock (demo_bf_start fresh_sink)) = Some (es, clock)"
    "list_all entry_ok es" "length es = 1"
proof -
  let ?r = "shape_file_rows (be_elf (demo_bf (push demo_accept) 5)) (be_iso_format (demo_bf (push demo_accept) 5)) (demo_bf_cfg 5)
      ''Login'' ''k'' (demo_file ''A'' ''00'') [[(''N'', VStr ''1'')]] (bf_clock (demo_bf_start fresh_sink))"
  have "map_option (\<lambda>(es, clock). list_all entry_ok es \<and> length es = 1) ?r = Some True" by code_simp
  then show ?thesis using that by (cases ?r) auto
qed

theorem backfill_file_settled_witness:
  "\<exists>es rej. length es = 1 \<and> bf_rejected (snd demo_settle) = rej \<and> set (concat rej) \<subseteq> set es \<and>
     image_mset (delivered_form (line_cap demo_accept)) (mset es)
       \<subseteq># loki_settled (bf_sink (snd demo_settle)) + image_mset (delivered_form (line_cap demo_accept)) (mset (concat rej))"
proof -
  obtain es clock where es: "shape_file_rows (be_elf (demo_bf (push demo_accept) 5)) (be_iso_format (demo_bf (push demo_accept) 5)) (demo_bf_cfg 5)
      ''Login'' ''k'' (demo_file ''A'' ''00'') [[(''N'', VStr ''1'')]] (bf_clock (demo_bf_start fresh_sink)) = Some (es, clock)"
    "list_all entry_ok es" "length es = 1" by (rule demo_settle_entries)
  have run: "process_file (demo_bf (push demo_accept) 5) (demo_bf_cfg 5) ''Login'' ''k'' (demo_file ''A'' ''00'')
     [[(''N'', VStr ''1'')]] (demo_bf_start fresh_sink) = (BfContinue, snd demo_settle)"
    using demo_settle_end by (simp add: demo_settle_def prod_eq_iff)
  have sink: "be_push (demo_bf (push demo_accept) 5) = push demo_accept" by (simp add: demo_bf_def)
  from backfill_file_settled[OF run sink es(1,2)] es(3) show ?thesis
    by (auto simp: demo_bf_start_def fresh_sink_def loki_settled_def handled_def)
qed

end
