(* ===== verification/ConfigText.thy ===== *)
theory ConfigText
  imports PyInt
begin

section \<open>config.py: durations and environment references\<close>

text \<open>
  \<^verbatim>\<open>src/sf2loki/config.py\<close>: the shorthand of durations (\<^verbatim>\<open>1h30m\<close>) and the \<^verbatim>\<open>${VAR}\<close>
  references of the values of a YAML file. The two regular expressions are scanners: neither pattern can match in two ways at one position.
  Seconds are rational, the binary rounding of \<^verbatim>\<open>float\<close> is left out.

  Results: the shorthand accepts exactly the non-empty sequences of numbers with a unit and gives their sum; a template is expanded
  reference by reference, values are not scanned again, and the first undefined variable is the error.
\<close>

subsection \<open>Durations\<close>

definition DURATION_UNIT_SECONDS :: "(string \<times> rat) list" where
  "DURATION_UNIT_SECONDS =
     [(''ms'', 1 / 1000), (''s'', 1), (''m'', 60), (''h'', 3600), (''d'', 86400), (''w'', 604800)]"

text \<open>A number and a unit at the start of a string, as \<open>(digits, fraction, unit)\<close>, and the rest. The units are tried in the order of
  the pattern.\<close>

type_synonym duration_token = "string \<times> string \<times> string"

definition unit_at :: "string \<Rightarrow> string option" where
  "unit_at s = find (startswith s) (map fst DURATION_UNIT_SECONDS)"

definition fraction_at :: "string \<Rightarrow> string" where
  "fraction_at s = (case s of [] \<Rightarrow> [] | c # r \<Rightarrow> if c = CHR ''.'' then takeWhile is_digit r else [])"

definition token_text :: "duration_token \<Rightarrow> string" where
  "token_text t = (case t of (ds, fs, u) \<Rightarrow> ds @ (if fs = [] then [] else CHR ''.'' # fs) @ u)"

definition token_at :: "string \<Rightarrow> duration_token option" where
  "token_at s =
     (let ds = takeWhile is_digit s; r = dropWhile is_digit s; fs = fraction_at r;
          r1 = (if fs = [] then r else drop (Suc (length fs)) r)
      in if ds = [] then None else map_option (\<lambda>u. (ds, fs, u)) (unit_at r1))"

text \<open>\<^verbatim>\<open>finditer\<close>: the matches from left to right; \<open>skip\<close> characters belong to the last one.\<close>

fun find_tokens :: "nat \<Rightarrow> string \<Rightarrow> duration_token list" where
  "find_tokens skip [] = []"
| "find_tokens (Suc skip) (c # s) = find_tokens skip s"
| "find_tokens 0 (c # s) =
     (case token_at (c # s) of
        None \<Rightarrow> find_tokens 0 s
      | Some t \<Rightarrow> t # find_tokens (length (token_text t) - 1) s)"

definition token_seconds :: "duration_token \<Rightarrow> rat" where
  "token_seconds t =
     (case t of (ds, fs, u) \<Rightarrow>
        of_nat (nat_of_digits (ds @ fs)) / 10 ^ length fs * the (map_of DURATION_UNIT_SECONDS u))"

text \<open>\<open>None\<close>: the value is handed on unchanged.\<close>

definition parse_duration :: "string \<Rightarrow> rat option" where
  "parse_duration s =
     (let tokens = find_tokens 0 s in
      if tokens = [] \<or> sum_list (map (length \<circ> token_text) tokens) \<noteq> length s then None
      else Some (sum_list (map token_seconds tokens)))"

subsection \<open>References\<close>

definition name_start :: "char \<Rightarrow> bool" where
  "name_start c \<longleftrightarrow> CHR ''A'' \<le> c \<and> c \<le> CHR ''Z'' \<or> CHR ''a'' \<le> c \<and> c \<le> CHR ''z'' \<or> c = CHR ''_''"

definition name_char :: "char \<Rightarrow> bool" where
  "name_char c \<longleftrightarrow> name_start c \<or> is_digit c"

text \<open>The variable of a reference at the start of a string.\<close>

definition env_ref :: "string \<Rightarrow> string option" where
  "env_ref s =
     (if \<not> startswith s ''${'' then None
      else (let name = takeWhile name_char (drop 2 s); r = dropWhile name_char (drop 2 s) in
            if name \<noteq> [] \<and> name_start (hd name) \<and> startswith r ''}'' then Some name else None))"

fun subst_env :: "(string \<rightharpoonup> string) \<Rightarrow> nat \<Rightarrow> string \<Rightarrow> string + string" where
  "subst_env environ skip [] = Inr []"
| "subst_env environ (Suc skip) (c # s) = subst_env environ skip s"
| "subst_env environ 0 (c # s) =
     (case env_ref (c # s) of
        None \<Rightarrow> map_sum id ((#) c) (subst_env environ 0 s)
      | Some name \<Rightarrow>
          (case environ name of
             None \<Rightarrow> Inl name
           | Some v \<Rightarrow> map_sum id ((@) v) (subst_env environ (length name + 2) s)))"

text \<open>A YAML document; keys are kept, scalars that are not strings too.\<close>

datatype 'x yaml = YStr string | YDict "('x \<times> 'x yaml) list" | YList "'x yaml list" | YOther 'x

fun interpolate_env :: "(string \<rightharpoonup> string) \<Rightarrow> 'x yaml \<Rightarrow> string + 'x yaml"
  and interpolate_items :: "(string \<rightharpoonup> string) \<Rightarrow> ('x \<times> 'x yaml) list \<Rightarrow> string + ('x \<times> 'x yaml) list"
  and interpolate_list :: "(string \<rightharpoonup> string) \<Rightarrow> 'x yaml list \<Rightarrow> string + 'x yaml list" where
  "interpolate_env environ (YStr s) = map_sum id YStr (subst_env environ 0 s)"
| "interpolate_env environ (YDict kvs) = map_sum id YDict (interpolate_items environ kvs)"
| "interpolate_env environ (YList vs) = map_sum id YList (interpolate_list environ vs)"
| "interpolate_env environ (YOther x) = Inr (YOther x)"
| "interpolate_items environ [] = Inr []"
| "interpolate_items environ ((k, v) # kvs) =
     (case interpolate_env environ v of
        Inl name \<Rightarrow> Inl name
      | Inr v1 \<Rightarrow> map_sum id ((#) (k, v1)) (interpolate_items environ kvs))"
| "interpolate_list environ [] = Inr []"
| "interpolate_list environ (v # vs) =
     (case interpolate_env environ v of
        Inl name \<Rightarrow> Inl name
      | Inr v1 \<Rightarrow> map_sum id ((#) v1) (interpolate_list environ vs))"

section \<open>The grammar of durations\<close>

definition token_ok :: "duration_token \<Rightarrow> bool" where
  "token_ok t \<longleftrightarrow> (case t of (ds, fs, u) \<Rightarrow> isdigit ds \<and> list_all is_digit fs \<and> u \<in> set (map fst DURATION_UNIT_SECONDS))"

lemma unit_digit_free: "u \<in> set (map fst DURATION_UNIT_SECONDS) \<Longrightarrow> u \<noteq> [] \<and> \<not> is_digit (hd u) \<and> hd u \<noteq> CHR ''.''"
  by (auto simp: DURATION_UNIT_SECONDS_def is_digit_def less_eq_char_def)

lemma token_text_length: "token_ok t \<Longrightarrow> 0 < length (token_text t)"
  by (auto simp: token_ok_def token_text_def isdigit_def split: prod.splits)

lemma token_text_hd: "token_ok t \<Longrightarrow> token_text t \<noteq> [] \<and> is_digit (hd (token_text t))"
  by (cases t; cases "fst t") (auto simp: token_ok_def token_text_def isdigit_def)

lemma startswith_append_unit:
  assumes "u \<in> set (map fst DURATION_UNIT_SECONDS)" "rest = [] \<or> is_digit (hd rest)"
  shows "unit_at (u @ rest) = Some u"
  using assms by (cases rest) (auto simp: DURATION_UNIT_SECONDS_def unit_at_def startswith_def is_digit_def less_eq_char_def)

lemma unit_at_Some: "unit_at s = Some u \<Longrightarrow> u \<in> set (map fst DURATION_UNIT_SECONDS) \<and> (\<exists>r. s = u @ r)"
  unfolding unit_at_def find_Some_iff startswith_def by (metis append_take_drop_id nth_mem)

lemma takeWhile_digits:
  "list_all is_digit ds \<Longrightarrow> r = [] \<or> \<not> is_digit (hd r) \<Longrightarrow> takeWhile is_digit (ds @ r) = ds \<and> dropWhile is_digit (ds @ r) = r"
  by (induction ds; cases r) auto

lemma token_at_text:
  assumes "token_ok t" "rest = [] \<or> is_digit (hd rest)"
  shows "token_at (token_text t @ rest) = Some t"
proof -
  obtain ds fs u where t: "t = (ds, fs, u)" by (cases t)
  then have ds: "ds \<noteq> []" "list_all is_digit ds" and fs: "list_all is_digit fs" and u: "u \<in> set (map fst DURATION_UNIT_SECONDS)"
    using assms(1) by (auto simp: token_ok_def isdigit_def)
  note u0 = unit_digit_free[OF u]
  let ?r = "(if fs = [] then [] else CHR ''.'' # fs) @ u @ rest"
  have "\<not> is_digit (hd ?r)" using u0 by (auto simp: is_digit_def less_eq_char_def hd_append)
  then have split: "takeWhile is_digit (ds @ ?r) = ds" "dropWhile is_digit (ds @ ?r) = ?r"
    using takeWhile_digits[OF ds(2), of ?r] by blast+
  obtain c v where cv: "u = c # v" "c \<noteq> CHR ''.''" using u0 by (cases u) auto
  have "fraction_at ?r = fs"
    using u0 takeWhile_digits[OF fs, of "u @ rest"] cv by (auto simp: fraction_at_def)
  moreover have "(if fs = [] then ?r else drop (Suc (length fs)) ?r) = u @ rest" by simp
  ultimately show ?thesis
    using split ds(1) startswith_append_unit[OF u assms(2)] t by (cases "fs = []") (simp_all add: token_at_def token_text_def Let_def)
qed

lemma fraction_split:
  "r = (if fraction_at r = [] then [] else CHR ''.'' # fraction_at r) @ (if fraction_at r = [] then r else drop (Suc (length (fraction_at r))) r)"
  by (cases r) (simp_all add: fraction_at_def dropWhile_eq_drop[symmetric])

lemma token_at_Some:
  assumes "token_at s = Some t"
  shows "token_ok t \<and> (\<exists>r. s = token_text t @ r)"
proof -
  let ?ds = "takeWhile is_digit s" and ?r = "dropWhile is_digit s"
  let ?fs = "fraction_at ?r"
  let ?r1 = "if ?fs = [] then ?r else drop (Suc (length ?fs)) ?r"
  obtain u where u: "unit_at ?r1 = Some u" "t = (?ds, ?fs, u)" "?ds \<noteq> []"
    using assms by (auto simp: token_at_def Let_def split: if_splits)
  obtain r where r: "?r1 = u @ r" "u \<in> set (map fst DURATION_UNIT_SECONDS)" using unit_at_Some[OF u(1)] by auto
  have "?r = (if ?fs = [] then [] else CHR ''.'' # ?fs) @ ?r1" by (rule fraction_split)
  then have "s = token_text t @ r" using r(1) u(2) takeWhile_dropWhile_id[of is_digit s] by (auto simp: token_text_def)
  moreover have "list_all is_digit ?ds" "list_all is_digit ?fs"
    by (auto simp: list_all_iff fraction_at_def split: list.splits if_splits dest: set_takeWhileD)
  ultimately show ?thesis using r(2) u by (auto simp: token_ok_def isdigit_def)
qed

lemma find_tokens_skip: "find_tokens n s = find_tokens 0 (drop n s)"
  by (induction n s rule: find_tokens.induct) auto

lemma find_tokens_match:
  assumes "token_at s = Some t"
  shows "find_tokens 0 s = t # find_tokens 0 (drop (length (token_text t)) s)"
proof -
  have "0 < length (token_text t)" using token_text_length token_at_Some[OF assms] by blast
  moreover have "s \<noteq> []" using assms by (auto simp: token_at_def)
  ultimately show ?thesis using assms find_tokens_skip[of "length (token_text t) - 1" "tl s"]
    by (cases s) (simp_all add: drop_Cons')
qed

lemma find_tokens_concat:
  "list_all token_ok ts \<Longrightarrow> find_tokens 0 (concat (map token_text ts)) = ts"
proof (induction ts)
  case (Cons t ts)
  let ?rest = "concat (map token_text ts)"
  have "?rest = [] \<or> is_digit (hd ?rest)"
    using Cons.prems token_text_hd by (cases ts) auto
  then show ?case using Cons find_tokens_match[OF token_at_text[of t ?rest]] by simp
qed simp

lemma find_tokens_cover:
  "sum_list (map (length \<circ> token_text) (find_tokens 0 s)) \<le> length s \<and>
   (sum_list (map (length \<circ> token_text) (find_tokens 0 s)) = length s \<longrightarrow>
      list_all token_ok (find_tokens 0 s) \<and> s = concat (map token_text (find_tokens 0 s)))"
proof (induction "length s" arbitrary: s rule: less_induct)
  case less
  show ?case
  proof (cases "token_at s")
    case None
    then show ?thesis using less[of "tl s"] by (cases s) fastforce+
  next
    case (Some t)
    then obtain r where r: "token_ok t" "s = token_text t @ r" using token_at_Some by blast
    then have "length r < length s" using token_text_length by simp
    from less[OF this] show ?thesis using find_tokens_match[OF Some] r by simp
  qed
qed

text \<open>
  C38. \<^verbatim>\<open>_parse_duration\<close> accepts exactly the texts of one or more numbers, each with an optional fraction and one of the six
  units, and gives the sum of their values; every other string is handed on unchanged.\<close>

theorem parse_duration_exact:
  "parse_duration s = Some x \<longleftrightarrow>
     (\<exists>ts. ts \<noteq> [] \<and> list_all token_ok ts \<and> s = concat (map token_text ts) \<and> x = sum_list (map token_seconds ts))"
proof
  assume "parse_duration s = Some x"
  then show "\<exists>ts. ts \<noteq> [] \<and> list_all token_ok ts \<and> s = concat (map token_text ts) \<and> x = sum_list (map token_seconds ts)"
    using find_tokens_cover[of s] by (intro exI[of _ "find_tokens 0 s"]) (auto simp: parse_duration_def Let_def split: if_splits)
next
  assume "\<exists>ts. ts \<noteq> [] \<and> list_all token_ok ts \<and> s = concat (map token_text ts) \<and> x = sum_list (map token_seconds ts)"
  then show "parse_duration s = Some x" by (auto simp: parse_duration_def find_tokens_concat length_concat comp_def)
qed

section \<open>Templates\<close>

datatype part = Lit string | Ref string

fun part_text :: "part \<Rightarrow> string" where
  "part_text (Lit s) = s"
| "part_text (Ref name) = ''${'' @ name @ ''}''"

fun part_ok :: "part \<Rightarrow> bool" where
  "part_ok (Lit s) \<longleftrightarrow> CHR ''$'' \<notin> set s"
| "part_ok (Ref name) \<longleftrightarrow> name \<noteq> [] \<and> name_start (hd name) \<and> list_all name_char name"

text \<open>The expansion, left to right: the first undefined variable is the error.\<close>

fun expand :: "(string \<rightharpoonup> string) \<Rightarrow> part list \<Rightarrow> string + string" where
  "expand environ [] = Inr []"
| "expand environ (Lit s # ps) = map_sum id ((@) s) (expand environ ps)"
| "expand environ (Ref name # ps) =
     (case environ name of None \<Rightarrow> Inl name | Some v \<Rightarrow> map_sum id ((@) v) (expand environ ps))"

lemma subst_env_skip: "subst_env environ n s = subst_env environ 0 (drop n s)"
  by (induction environ n s rule: subst_env.induct) auto

lemma env_ref_none: "c \<noteq> CHR ''$'' \<Longrightarrow> env_ref (c # s) = None"
  by (simp add: env_ref_def startswith_def)

lemma env_ref_some:
  assumes "part_ok (Ref name)"
  shows "env_ref (part_text (Ref name) @ rest) = Some name"
proof -
  have "\<not> name_char (CHR ''}'')" by (simp add: name_char_def name_start_def is_digit_def less_eq_char_def)
  then have "takeWhile name_char (name @ CHR ''}'' # rest) = name" "dropWhile name_char (name @ CHR ''}'' # rest) = CHR ''}'' # rest"
    using assms by (simp_all add: takeWhile_append2 dropWhile_append2 list_all_iff)
  then show ?thesis using assms by (simp add: env_ref_def startswith_def)
qed

lemma subst_env_lit:
  "CHR ''$'' \<notin> set s \<Longrightarrow> subst_env environ 0 (s @ rest) = map_sum id ((@) s) (subst_env environ 0 rest)"
  by (induction s; cases "subst_env environ 0 rest") (auto simp: env_ref_none)

lemma subst_env_ref:
  assumes "part_ok (Ref name)"
  shows "subst_env environ 0 (part_text (Ref name) @ rest) =
    (case environ name of None \<Rightarrow> Inl name | Some v \<Rightarrow> map_sum id ((@) v) (subst_env environ 0 rest))"
  using env_ref_some[OF assms, of rest] subst_env_skip[of environ "length name + 2" "CHR ''{'' # name @ CHR ''}'' # rest"]
  by (simp split: option.split)

text \<open>
  \<^verbatim>\<open>_interpolate_env\<close> on a string: text without a dollar sign is kept, every reference is replaced by its variable, the
  replacement is not scanned again, and the first reference to an unset variable is the error that is raised.\<close>

theorem interpolate_template:
  assumes "list_all part_ok ps"
  shows "interpolate_env environ (YStr (concat (map part_text ps))) = map_sum id YStr (expand environ ps)"
proof -
  have "subst_env environ 0 (concat (map part_text ps)) = expand environ ps"
    using assms
  proof (induction ps)
    case (Cons p ps)
    then show ?case using subst_env_ref[of _ environ] subst_env_lit[of _ environ] by (cases p) (auto split: option.splits simp del: part_text.simps(2))
  qed simp
  then show ?thesis by simp
qed

theorem interpolate_template_witness:
  "interpolate_env [''A'' \<mapsto> ''${B}''] (YStr ''x${A}y'') = Inr (YStr ''x${B}y'' :: unit yaml)"
  using interpolate_template[of "[Lit ''x'', Ref ''A'', Lit ''y'']" "[''A'' \<mapsto> ''${B}'']"]
  by (simp add: name_start_def name_char_def less_eq_char_def)

end
