(* ===== verification/Config.thy ===== *)
theory Config
  imports ConfigText Auth OrgView ElfSource Base64 Egress
begin

section \<open>config.py: validation, orgs, secrets\<close>

text \<open>
  \<^verbatim>\<open>src/sf2loki/config.py\<close>. The records hold the fields that a validator, a bound or a secret depends on, as pydantic hands them over;
  its reading of YAML scalars and environment variables is the parameter \<open>parse\<close> of \<open>load_config\<close>. A model is checked after the
  models inside it; of several errors one is kept. Files are read through \<open>rd\<close>. A blank secret counts as false, as in the library.

  Results: a configuration that loads is well-formed, and so is its view of any one org; its orgs can always form a token request; a
  transform never removes a column promoted to a label; enabled telemetry has credentials.
\<close>

datatype config_error =
    InvalidField | UsernameRequired | GenericLoginHost | BadUsername | BadEventType | ReservedLabel | BadLabelName | BadTransform
  | NoEventTypes | DroppedLabel | NoBucket | RenewTooSlow | BothTopologies | NoOrg | DuplicateOrg | TopLevelSources
  | CannotRead | SecretRequired | NoTelemetryCredentials | UnknownOrg | NotMapping | UndefinedVariable string

subsection \<open>Patterns\<close>

text \<open>\<^verbatim>\<open>re.match\<close> of \<^verbatim>\<open>^[...]+$\<close>: the dollar sign also matches before a final line feed.\<close>

definition chomp :: "string \<Rightarrow> string" where
  "chomp s = (if s \<noteq> [] \<and> last s = CHR 10 then butlast s else s)"

definition soql_identifier :: "string \<Rightarrow> bool" where
  "soql_identifier s \<longleftrightarrow> s \<noteq> [] \<and> list_all name_char s"

definition sf_username_match :: "string \<Rightarrow> bool" where
  "sf_username_match s \<longleftrightarrow> chomp s \<noteq> [] \<and> list_all (\<lambda>c. name_char c \<or> c \<in> set ''.%+-@'') (chomp s)"

definition label_name_match :: "string \<Rightarrow> bool" where
  "label_name_match s \<longleftrightarrow> chomp s \<noteq> [] \<and> name_start (hd (chomp s)) \<and> list_all name_char (chomp s)"

definition RESERVED_LABEL_KEYS :: "string list" where
  "RESERVED_LABEL_KEYS = [''source'', ''event_type'', ''job'', ''sf_org_id'', ''environment'', ''org'']"

definition sample_ok :: "rat \<Rightarrow> bool" where
  "sample_ok r \<longleftrightarrow> 0 < r \<and> r \<le> 1"

subsection \<open>Salesforce\<close>

datatype sf_environment = Production | Sandbox

record limits_settings =
  lm_enabled :: bool
  lm_poll_interval :: seconds

record sf_settings =
  cs_login_url :: string
  cs_environment :: sf_environment
  cs_auth_mode :: auth_mode
  cs_client_id :: string
  cs_client_secret :: "string option"
  cs_client_secret_file :: "string option"
  cs_username :: string
  cs_private_key_file :: "string option"
  cs_private_key :: "string option"
  cs_api_version :: string
  cs_org_id :: "string option"
  cs_token_ttl :: int
  cs_limits :: limits_settings

definition generic_hosts :: "string list" where
  "generic_hosts = [''https://login.salesforce.com'', ''https://test.salesforce.com'']"

definition validate_salesforce :: "sf_settings \<Rightarrow> config_error + sf_settings" where
  "validate_salesforce s =
     (let s1 = (if cs_login_url s = []
                then s\<lparr>cs_login_url := (if cs_environment s = Sandbox then ''https://test.salesforce.com'' else ''https://login.salesforce.com'')\<rparr>
                else s)
      in if cs_client_id s = [] then Inl InvalidField
         else if cs_auth_mode s1 = JwtBearer \<and> cs_username s1 = [] then Inl UsernameRequired
         else if cs_auth_mode s1 = ClientCredentials \<and> cs_login_url s1 \<in> set generic_hosts then Inl GenericLoginHost
         else Inr s1)"

subsection \<open>Sources\<close>

text \<open>An item of \<^verbatim>\<open>event_types\<close> is a bare name or a mapping.\<close>

definition coerce_event_type :: "string + elf_type \<Rightarrow> elf_type" where
  "coerce_event_type v = (case v of Inl s \<Rightarrow> \<lparr>t_name = s, t_sm_fields = None, t_labels = [], t_sample = 1\<rparr> | Inr t \<Rightarrow> t)"

fun label_error :: "string list \<Rightarrow> config_error option" where
  "label_error [] = None"
| "label_error (l # ls) =
     (if l \<in> set RESERVED_LABEL_KEYS then Some ReservedLabel
      else if \<not> label_name_match l then Some BadLabelName
      else label_error ls)"

definition type_error :: "elf_type \<Rightarrow> config_error option" where
  "type_error t =
     (if t_name t = [] \<or> \<not> sample_ok (t_sample t) then Some InvalidField
      else if t_name t \<noteq> EVENT_TYPE_WILDCARD \<and> \<not> soql_identifier (chomp (t_name t)) then Some BadEventType
      else label_error (t_labels t))"

fun first_error :: "('a \<Rightarrow> config_error option) \<Rightarrow> 'a list \<Rightarrow> config_error option" where
  "first_error f [] = None"
| "first_error f (x # xs) = (case f x of None \<Rightarrow> first_error f xs | Some e \<Rightarrow> Some e)"

definition rule_error :: "(string \<Rightarrow> bool) \<Rightarrow> transform_rule \<Rightarrow> config_error option" where
  "rule_error re_ok r = (if rule_valid re_ok r then None else Some BadTransform)"

record elf_settings =
  e_enabled :: bool
  e_hourly :: bool
  e_types :: "elf_type list"
  e_exclude :: "string list"
  e_poll_interval :: seconds
  e_lookback :: seconds
  e_timestamp_column :: string
  e_page_size :: int
  e_download_max_age :: seconds
  e_settle_window :: seconds
  e_settle_set :: bool
  e_transforms :: "transform_rule list"
  e_concurrency :: int

definition dropped_fields :: "transform_rule list \<Rightarrow> string list" where
  "dropped_fields rules = concat (map rule_fields (filter (\<lambda>r. rule_action r = DropField) rules))"

definition validate_elf :: "(string \<Rightarrow> bool) \<Rightarrow> elf_settings \<Rightarrow> config_error + elf_settings" where
  "validate_elf re_ok s =
     (case first_error type_error (e_types s) of
        Some e \<Rightarrow> Inl e
      | None \<Rightarrow>
          (case first_error (rule_error re_ok) (e_transforms s) of
             Some e \<Rightarrow> Inl e
           | None \<Rightarrow>
               (let s1 = (if \<not> e_settle_set s \<and> e_hourly s then s\<lparr>e_settle_window := 300, e_settle_set := True\<rparr> else s) in
                if e_concurrency s < 1 then Inl InvalidField
                else if e_enabled s1 \<and> e_types s1 = [] then Inl NoEventTypes
                else if list_ex (\<lambda>t. list_ex (\<lambda>l. l \<in> set (dropped_fields (e_transforms s1))) (t_labels t)) (e_types s1) then Inl DroppedLabel
                else Inr s1)))"

record apex_settings =
  x_enabled :: bool
  x_poll_interval :: seconds
  x_lookback :: seconds
  x_users :: "string list"
  x_max_body_bytes :: int
  x_sample :: rat
  x_transforms :: "transform_rule list"

definition apex_settings_error :: "(string \<Rightarrow> bool) \<Rightarrow> apex_settings \<Rightarrow> config_error option" where
  "apex_settings_error re_ok s =
     (if x_max_body_bytes s \<le> 0 \<or> \<not> sample_ok (x_sample s) then Some InvalidField
      else (case first_error (rule_error re_ok) (x_transforms s) of
              Some e \<Rightarrow> Some e
            | None \<Rightarrow> if list_all sf_username_match (x_users s) then None else Some BadUsername))"

datatype replay_choice = ReplayLatest | ReplayEarliest | ReplayCustom

record pubsub_settings =
  p_enabled :: bool
  p_endpoint :: string
  p_default_num_requested :: int
  p_replay_preset :: replay_choice
  p_topics :: "string list"
  p_include :: "string list"
  p_exclude :: "string list"
  p_rediscovery_interval :: seconds
  p_sample :: "(string \<times> rat) list"
  p_transforms :: "transform_rule list"
  p_bridge_max_bytes :: int

definition pubsub_settings_error :: "(string \<Rightarrow> bool) \<Rightarrow> pubsub_settings \<Rightarrow> config_error option" where
  "pubsub_settings_error re_ok s =
     (if p_default_num_requested s < 1 \<or> 100 < p_default_num_requested s \<or> p_bridge_max_bytes s < 0
        \<or> \<not> list_all (\<lambda>(g, r). sample_ok r) (p_sample s) then Some InvalidField
      else first_error (rule_error re_ok) (p_transforms s))"

record object_settings =
  b_name :: string
  b_timestamp_field :: string
  b_poll_interval :: seconds
  b_lookback :: seconds
  b_sample :: rat
  b_big_object :: bool
  b_max_catchup_records :: int

definition object_settings_error :: "object_settings \<Rightarrow> config_error option" where
  "object_settings_error s =
     (if soql_identifier (b_name s) \<and> soql_identifier (b_timestamp_field s) \<and> sample_ok (b_sample s) \<and> 0 \<le> b_max_catchup_records s
      then None else Some InvalidField)"

record objects_settings =
  o_enabled :: bool
  o_objects :: "object_settings list"
  o_transforms :: "transform_rule list"

definition objects_settings_error :: "(string \<Rightarrow> bool) \<Rightarrow> objects_settings \<Rightarrow> config_error option" where
  "objects_settings_error re_ok s =
     (case first_error object_settings_error (o_objects s) of
        Some e \<Rightarrow> Some e
      | None \<Rightarrow> first_error (rule_error re_ok) (o_transforms s))"

record sources_settings =
  so_pubsub :: pubsub_settings
  so_objects :: objects_settings
  so_elf :: elf_settings
  so_apex :: apex_settings
  so_allow_overlap :: bool
  so_transform_salt :: "string option"
  so_transform_salt_file :: "string option"

definition validate_sources :: "(string \<Rightarrow> bool) \<Rightarrow> sources_settings \<Rightarrow> config_error + sources_settings" where
  "validate_sources re_ok s =
     (case pubsub_settings_error re_ok (so_pubsub s) of
        Some e \<Rightarrow> Inl e
      | None \<Rightarrow> (case objects_settings_error re_ok (so_objects s) of
        Some e \<Rightarrow> Inl e
      | None \<Rightarrow> (case validate_elf re_ok (so_elf s) of
        Inl e \<Rightarrow> Inl e
      | Inr elf \<Rightarrow> (case apex_settings_error re_ok (so_apex s) of
        Some e \<Rightarrow> Inl e
      | None \<Rightarrow> Inr (s\<lparr>so_elf := elf\<rparr>)))))"

text \<open>\<^verbatim>\<open>SourcesConfig()\<close> after its validators; equality of models does not look at which fields were set.\<close>

definition default_sources :: sources_settings where
  "default_sources =
     \<lparr>so_pubsub = \<lparr>p_enabled = True, p_endpoint = ''api.pubsub.salesforce.com:7443'', p_default_num_requested = 100,
                   p_replay_preset = ReplayCustom, p_topics = [], p_include = [''*''], p_exclude = [], p_rediscovery_interval = 3600,
                   p_sample = [], p_transforms = [], p_bridge_max_bytes = 134217728\<rparr>,
      so_objects = \<lparr>o_enabled = False, o_objects = [], o_transforms = []\<rparr>,
      so_elf = \<lparr>e_enabled = False, e_hourly = True, e_types = [], e_exclude = [], e_poll_interval = 3600, e_lookback = 86400,
                e_timestamp_column = ''TIMESTAMP_DERIVED'', e_page_size = 1000, e_download_max_age = 86400, e_settle_window = 300,
                e_settle_set = True, e_transforms = [], e_concurrency = 4\<rparr>,
      so_apex = \<lparr>x_enabled = False, x_poll_interval = 60, x_lookback = 3600, x_users = [], x_max_body_bytes = 5242880, x_sample = 1,
                 x_transforms = []\<rparr>,
      so_allow_overlap = False, so_transform_salt = None, so_transform_salt_file = None\<rparr>"

definition same_sources :: "sources_settings \<Rightarrow> sources_settings \<Rightarrow> bool" where
  "same_sources a b \<longleftrightarrow>
     a\<lparr>so_elf := (so_elf a)\<lparr>e_settle_set := True\<rparr>\<rparr> = b\<lparr>so_elf := (so_elf b)\<lparr>e_settle_set := True\<rparr>\<rparr>"

subsection \<open>Sink, state, coordination, telemetry\<close>

datatype loki_encoding = Protobuf | JsonEncoding
datatype loki_compression = Snappy | Gzip | NoCompression

record batch_settings =
  bt_max_entries :: int
  bt_max_bytes :: int
  bt_flush_interval :: seconds
  bt_max_line_bytes :: int
  bt_queue_maxsize :: int
  bt_queue_max_bytes :: int

record loki_settings =
  l_url :: string
  l_tenant_id :: "string option"
  l_auth_token_file :: "string option"
  l_auth_token :: "string option"
  l_encoding :: loki_encoding
  l_compression :: loki_compression
  l_batch :: batch_settings
  l_egress :: egress_config
  l_labels :: labelset
  l_structured_metadata_fields :: "string list"

definition loki_settings_error :: "loki_settings \<Rightarrow> config_error option" where
  "loki_settings_error s =
     (if l_url s \<noteq> [] \<and> 100 \<le> bt_queue_maxsize (l_batch s) \<and> 0 \<le> bt_queue_max_bytes (l_batch s) \<and> 0 \<le> max_lines_per_second (l_egress s)
         \<and> 0 \<le> max_bytes_per_second (l_egress s) \<and> 0 \<le> daily_byte_budget (l_egress s)
      then None else Some InvalidField)"

datatype state_kind = FileState | S3State | GcsState

record s3_settings =
  s3_bucket :: string
  s3_key :: string
  s3_region :: "string option"
  s3_endpoint_url :: "string option"

record gcs_settings =
  gcs_bucket :: string
  gcs_object_name :: string
  gcs_service_file :: "string option"

record state_settings =
  st_store :: state_kind
  st_path :: string
  st_s3 :: s3_settings
  st_gcs :: gcs_settings

definition state_settings_error :: "state_settings \<Rightarrow> config_error option" where
  "state_settings_error s =
     (if st_store s = S3State \<and> s3_bucket (st_s3 s) = [] then Some NoBucket
      else if st_store s = GcsState \<and> gcs_bucket (st_gcs s) = [] then Some NoBucket
      else None)"

record file_lease_settings =
  fl_path :: string
  fl_ttl :: seconds
  fl_renew_interval :: seconds
  fl_holder_id :: string

definition file_lease_error :: "file_lease_settings \<Rightarrow> config_error option" where
  "file_lease_error s = (if fl_renew_interval s * 2 \<ge> fl_ttl s then Some RenewTooSlow else None)"

record k8s_lease_settings =
  kl_namespace :: string
  kl_name :: string
  kl_identity :: string
  kl_lease_duration :: seconds
  kl_renew_interval :: seconds
  kl_kubeconfig :: "string option"

definition k8s_lease_error :: "k8s_lease_settings \<Rightarrow> config_error option" where
  "k8s_lease_error s = (if kl_renew_interval s * 2 \<ge> kl_lease_duration s then Some RenewTooSlow else None)"

datatype coordinate_kind = NoopCoordination | FileLeaseCoordination | K8sLeaseCoordination

record coordinate_settings =
  co_type :: coordinate_kind
  co_file_lease :: file_lease_settings
  co_k8s_lease :: k8s_lease_settings

definition coordinate_settings_error :: "coordinate_settings \<Rightarrow> config_error option" where
  "coordinate_settings_error s =
     (case file_lease_error (co_file_lease s) of Some e \<Rightarrow> Some e | None \<Rightarrow> k8s_lease_error (co_k8s_lease s))"

record telemetry_settings =
  tl_enabled :: bool
  tl_endpoint :: string
  tl_basic :: bool
  tl_user :: string
  tl_token :: "string option"
  tl_token_file :: "string option"
  tl_headers :: labelset
  tl_export_interval :: seconds
  tl_resource_attributes :: labelset

text \<open>\<^verbatim>\<open>log_level\<close> is lower-cased before it is compared with the levels.\<close>

definition LOG_LEVELS :: "string list" where
  "LOG_LEVELS = [''debug'', ''info'', ''warning'', ''warn'', ''error'', ''critical'']"

record service_settings =
  sv_log_level :: string
  sv_log_format :: string
  sv_health_addr :: string
  sv_shutdown_grace :: seconds
  sv_unready_after_sink_failing :: seconds
  sv_telemetry :: telemetry_settings

definition validate_service :: "service_settings \<Rightarrow> config_error + service_settings" where
  "validate_service s =
     (if lower (sv_log_level s) \<in> set LOG_LEVELS \<and> sv_log_format s \<in> {''json'', ''logfmt''}
      then Inr (s\<lparr>sv_log_level := lower (sv_log_level s)\<rparr>) else Inl InvalidField)"

subsection \<open>Orgs\<close>

record org_settings =
  og_name :: string
  og_salesforce :: sf_settings
  og_sources :: sources_settings

record config =
  g_salesforce :: "sf_settings option"
  g_orgs :: "org_settings list"
  g_sources :: sources_settings
  g_loki :: loki_settings
  g_state :: state_settings
  g_coordinate :: coordinate_settings
  g_service :: service_settings

abbreviation g_telemetry :: "config \<Rightarrow> telemetry_settings" where
  "g_telemetry cfg \<equiv> sv_telemetry (g_service cfg)"

definition validate_org :: "(string \<Rightarrow> bool) \<Rightarrow> org_settings \<Rightarrow> config_error + org_settings" where
  "validate_org re_ok o1 =
     (if \<not> org_name_ok (og_name o1) then Inl InvalidField
      else (case validate_salesforce (og_salesforce o1) of
              Inl e \<Rightarrow> Inl e
            | Inr sf \<Rightarrow> map_sum id (\<lambda>src. o1\<lparr>og_salesforce := sf, og_sources := src\<rparr>) (validate_sources re_ok (og_sources o1))))"

fun map_checked :: "('a \<Rightarrow> 'e + 'b) \<Rightarrow> 'a list \<Rightarrow> 'e + 'b list" where
  "map_checked f [] = Inr []"
| "map_checked f (x # xs) = (case f x of Inl e \<Rightarrow> Inl e | Inr y \<Rightarrow> map_sum id ((#) y) (map_checked f xs))"

definition topology_error :: "config \<Rightarrow> config_error option" where
  "topology_error cfg =
     (if g_salesforce cfg \<noteq> None \<and> g_orgs cfg \<noteq> [] then Some BothTopologies
      else if g_salesforce cfg = None \<and> g_orgs cfg = [] then Some NoOrg
      else if g_orgs cfg \<noteq> [] \<and> \<not> distinct (map og_name (g_orgs cfg)) then Some DuplicateOrg
      else if g_orgs cfg \<noteq> [] \<and> \<not> same_sources (g_sources cfg) default_sources then Some TopLevelSources
      else None)"

definition validate_optional :: "sf_settings option \<Rightarrow> config_error + sf_settings option" where
  "validate_optional sf = (case sf of None \<Rightarrow> Inr None | Some s \<Rightarrow> map_sum id Some (validate_salesforce s))"

definition validate_config :: "(string \<Rightarrow> bool) \<Rightarrow> config \<Rightarrow> config_error + config" where
  "validate_config re_ok cfg =
     (case (validate_optional (g_salesforce cfg), map_checked (validate_org re_ok) (g_orgs cfg), validate_sources re_ok (g_sources cfg),
            validate_service (g_service cfg)) of
        (Inr sf, Inr orgs, Inr src, Inr srv) \<Rightarrow>
          (let cfg1 = cfg\<lparr>g_salesforce := sf, g_orgs := orgs, g_sources := src, g_service := srv\<rparr> in
           case (loki_settings_error (g_loki cfg1), state_settings_error (g_state cfg1), coordinate_settings_error (g_coordinate cfg1),
                 topology_error cfg1) of
             (None, None, None, None) \<Rightarrow> Inr cfg1
           | (Some e, _, _, _) \<Rightarrow> Inl e
           | (_, Some e, _, _) \<Rightarrow> Inl e
           | (_, _, Some e, _) \<Rightarrow> Inl e
           | (_, _, _, Some e) \<Rightarrow> Inl e)
      | (Inl e, _, _, _) \<Rightarrow> Inl e
      | (_, Inl e, _, _) \<Rightarrow> Inl e
      | (_, _, Inl e, _) \<Rightarrow> Inl e
      | (_, _, _, Inl e) \<Rightarrow> Inl e)"

text \<open>\<open>None\<close> is the failed assertion, which the validator rules out.\<close>

definition resolved_orgs :: "config \<Rightarrow> org_settings list option" where
  "resolved_orgs cfg =
     (if g_orgs cfg \<noteq> [] then Some (g_orgs cfg)
      else map_option (\<lambda>sf. [\<lparr>og_name = [], og_salesforce = sf, og_sources = g_sources cfg\<rparr>]) (g_salesforce cfg))"

text \<open>The note is kept as the name it mentions.\<close>

definition select_org :: "config \<Rightarrow> string option \<Rightarrow> (config_error + org_settings \<times> string option) option" where
  "select_org cfg name =
     map_option (\<lambda>orgs.
       case (if name = None \<or> name = Some [] then Some (hd orgs) else find (\<lambda>o1. Some (og_name o1) = name) orgs) of
         None \<Rightarrow> Inl UnknownOrg
       | Some chosen \<Rightarrow> Inr (chosen, if 1 < length (filter (\<lambda>o1. og_name o1 \<noteq> []) orgs) then Some (og_name chosen) else None))
     (resolved_orgs cfg)"

definition as_single_org_view :: "config \<Rightarrow> org_settings \<Rightarrow> config" where
  "as_single_org_view cfg o1 = cfg\<lparr>g_salesforce := Some (og_salesforce o1), g_sources := og_sources o1, g_orgs := []\<rparr>"

subsection \<open>Secrets\<close>

text \<open>A read of a file, and what leaves \<^verbatim>\<open>load\<close>: \<open>Escaped\<close> is an exception that is not a \<^verbatim>\<open>ConfigError\<close>.\<close>

datatype read_result = FileText string | ReadOSError | ReadUndecodable
datatype load_exc = ConfigError config_error | Escaped

definition resolve_secret_file :: "(string \<Rightarrow> read_result) \<Rightarrow> string option \<Rightarrow> string option \<Rightarrow> load_exc + string option" where
  "resolve_secret_file rd file existing =
     (case (existing, file) of
        (Some v, _) \<Rightarrow> Inr (Some v)
      | (None, None) \<Rightarrow> Inr None
      | (None, Some f) \<Rightarrow>
          (case rd f of
             FileText t \<Rightarrow> Inr (Some (strip t))
           | ReadOSError \<Rightarrow> Inl (ConfigError CannotRead)
           | ReadUndecodable \<Rightarrow> Inl Escaped))"

definition resolve_salesforce_secrets :: "(string \<Rightarrow> read_result) \<Rightarrow> sf_settings \<Rightarrow> load_exc + sf_settings" where
  "resolve_salesforce_secrets rd s =
     (case cs_auth_mode s of
        ClientCredentials \<Rightarrow>
          (case resolve_secret_file rd (cs_client_secret_file s) (cs_client_secret s) of
             Inl e \<Rightarrow> Inl e
           | Inr None \<Rightarrow> Inl (ConfigError SecretRequired)
           | Inr (Some v) \<Rightarrow> Inr (s\<lparr>cs_client_secret := Some v\<rparr>))
      | JwtBearer \<Rightarrow>
          (case resolve_secret_file rd (cs_private_key_file s) (cs_private_key s) of
             Inl e \<Rightarrow> Inl e
           | Inr None \<Rightarrow> Inl (ConfigError SecretRequired)
           | Inr (Some v) \<Rightarrow> Inr (s\<lparr>cs_private_key := Some v\<rparr>)))"

definition resolve_org_secrets :: "(string \<Rightarrow> read_result) \<Rightarrow> org_settings \<Rightarrow> load_exc + org_settings" where
  "resolve_org_secrets rd o1 =
     (case resolve_salesforce_secrets rd (og_salesforce o1) of
        Inl e \<Rightarrow> Inl e
      | Inr sf \<Rightarrow>
          map_sum id (\<lambda>salt. o1\<lparr>og_salesforce := sf, og_sources := (og_sources o1)\<lparr>so_transform_salt := salt\<rparr>\<rparr>)
            (resolve_secret_file rd (so_transform_salt_file (og_sources o1)) (so_transform_salt (og_sources o1))))"

definition or_blank :: "string option \<Rightarrow> string" where
  "or_blank v = (case v of None \<Rightarrow> [] | Some s \<Rightarrow> s)"

text \<open>\<^verbatim>\<open>a or b\<close> for the user and for the token.\<close>

definition telemetry_user :: "telemetry_settings \<Rightarrow> loki_settings \<Rightarrow> string" where
  "telemetry_user t l = (if tl_user t \<noteq> [] then tl_user t else or_blank (l_tenant_id l))"

definition telemetry_token :: "telemetry_settings \<Rightarrow> loki_settings \<Rightarrow> string" where
  "telemetry_token t l = (if or_blank (tl_token t) \<noteq> [] then or_blank (tl_token t) else or_blank (l_auth_token l))"

text \<open>The orgs of a single-org configuration are views on its own objects, so their secrets are set there.\<close>

definition with_orgs :: "config \<Rightarrow> org_settings list \<Rightarrow> config" where
  "with_orgs cfg orgs =
     (if g_orgs cfg \<noteq> [] then cfg\<lparr>g_orgs := orgs\<rparr>
      else cfg\<lparr>g_salesforce := Some (og_salesforce (hd orgs)), g_sources := og_sources (hd orgs)\<rparr>)"

definition resolve_secrets :: "(string \<Rightarrow> read_result) \<Rightarrow> config \<Rightarrow> load_exc + config" where
  "resolve_secrets rd cfg =
     (case resolved_orgs cfg of
        None \<Rightarrow> Inl Escaped
      | Some orgs \<Rightarrow> (case map_checked (resolve_org_secrets rd) orgs of
        Inl e \<Rightarrow> Inl e
      | Inr orgs1 \<Rightarrow> (case resolve_secret_file rd (l_auth_token_file (g_loki cfg)) (l_auth_token (g_loki cfg)) of
        Inl e \<Rightarrow> Inl e
      | Inr tok \<Rightarrow> (case resolve_secret_file rd (tl_token_file (g_telemetry cfg)) (tl_token (g_telemetry cfg)) of
        Inl e \<Rightarrow> Inl e
      | Inr ttok \<Rightarrow>
          (let l = (g_loki cfg)\<lparr>l_auth_token := tok\<rparr>; t = (g_telemetry cfg)\<lparr>tl_token := ttok\<rparr> in
           if tl_enabled t \<and> tl_basic t \<and> \<not> (telemetry_user t l \<noteq> [] \<and> telemetry_token t l \<noteq> []) then Inl (ConfigError NoTelemetryCredentials)
           else Inr ((with_orgs cfg orgs1)\<lparr>g_loki := l, g_service := (g_service cfg)\<lparr>sv_telemetry := t\<rparr>\<rparr>))))))"

definition telemetry_headers :: "telemetry_settings \<Rightarrow> loki_settings \<Rightarrow> labelset" where
  "telemetry_headers t l =
     dict_merge
       (if tl_basic t \<and> telemetry_user t l \<noteq> [] \<and> telemetry_token t l \<noteq> []
        then [(''Authorization'', ''Basic '' @ b64encode (utf8_encode (map of_char (telemetry_user t l @ '':'' @ telemetry_token t l))))]
        else [])
       (tl_headers t)"

text \<open>\<open>yaml\<close> reads the text of the file: \<open>None\<close> is a syntax error, \<open>Some None\<close> a false value (an empty document). \<open>parse\<close> stands for the
  field parsing of pydantic and its settings.\<close>

definition load_config ::
  "(string \<Rightarrow> read_result) \<Rightarrow> (string \<Rightarrow> 'x yaml option option) \<Rightarrow> (string \<rightharpoonup> string) \<Rightarrow> (('x \<times> 'x yaml) list \<Rightarrow> config option)
     \<Rightarrow> (string \<Rightarrow> bool) \<Rightarrow> string option \<Rightarrow> load_exc + config" where
  "load_config rd yaml environ parse re_ok path =
     (case (case path of
              None \<Rightarrow> Inr []
            | Some p \<Rightarrow>
                (case rd p of
                   ReadOSError \<Rightarrow> Inl (ConfigError CannotRead)
                 | ReadUndecodable \<Rightarrow> Inl Escaped
                 | FileText raw \<Rightarrow>
                     (case yaml raw of
                        None \<Rightarrow> Inl Escaped
                      | Some None \<Rightarrow> Inr []
                      | Some (Some (YDict kvs)) \<Rightarrow> map_sum (ConfigError \<circ> UndefinedVariable) id (interpolate_items environ kvs)
                      | Some (Some _) \<Rightarrow> Inl (ConfigError NotMapping)))) of
        Inl e \<Rightarrow> Inl e
      | Inr data \<Rightarrow>
          (case parse data of
             None \<Rightarrow> Inl (ConfigError InvalidField)
           | Some raw_cfg \<Rightarrow>
               (case validate_config re_ok raw_cfg of
                  Inl e \<Rightarrow> Inl (ConfigError e)
                | Inr cfg \<Rightarrow> resolve_secrets rd cfg)))"

section \<open>Well-formed configurations\<close>

text \<open>What the credentials of an org need for its mode of authentication.\<close>

definition sf_ready :: "sf_settings \<Rightarrow> bool" where
  "sf_ready s \<longleftrightarrow> cs_client_id s \<noteq> [] \<and> cs_login_url s \<noteq> [] \<and>
     (case cs_auth_mode s of
        JwtBearer \<Rightarrow> cs_username s \<noteq> [] \<and> cs_private_key s \<noteq> None
      | ClientCredentials \<Rightarrow> cs_login_url s \<notin> set generic_hosts \<and> cs_client_secret s \<noteq> None)"

text \<open>Every validator accepts the configuration as it is, its orgs are known apart and have their secrets, and telemetry that
  needs credentials has them.\<close>

definition config_ok :: "(string \<Rightarrow> bool) \<Rightarrow> config \<Rightarrow> bool" where
  "config_ok re_ok cfg \<longleftrightarrow>
     validate_config re_ok cfg = Inr cfg \<and>
     (case resolved_orgs cfg of
        None \<Rightarrow> False
      | Some orgs \<Rightarrow> orgs \<noteq> [] \<and> distinct (map og_name orgs) \<and> list_all (\<lambda>o1. sf_ready (og_salesforce o1)) orgs
          \<and> list_all (\<lambda>o1. og_name o1 = [] \<longleftrightarrow> g_orgs cfg = []) orgs) \<and>
     (tl_enabled (g_telemetry cfg) \<and> tl_basic (g_telemetry cfg) \<longrightarrow>
        telemetry_user (g_telemetry cfg) (g_loki cfg) \<noteq> [] \<and> telemetry_token (g_telemetry cfg) (g_loki cfg) \<noteq> [])"

lemma validate_salesforce_idem:
  "validate_salesforce s = Inr s1 \<Longrightarrow> validate_salesforce s1 = Inr s1"
  by (auto simp: validate_salesforce_def Let_def generic_hosts_def split: if_splits)

lemma validate_salesforce_fixed:
  "validate_salesforce s = Inr s \<longleftrightarrow> cs_client_id s \<noteq> [] \<and> cs_login_url s \<noteq> [] \<and> (cs_auth_mode s = JwtBearer \<longrightarrow> cs_username s \<noteq> [])
     \<and> (cs_auth_mode s = ClientCredentials \<longrightarrow> cs_login_url s \<notin> set generic_hosts)"
proof (cases "cs_login_url s = []")
  case True
  have "s\<lparr>cs_login_url := u\<rparr> \<noteq> s" if "u \<noteq> []" for u
  proof
    assume eq: "s\<lparr>cs_login_url := u\<rparr> = s"
    have "cs_login_url (s\<lparr>cs_login_url := u\<rparr>) = cs_login_url s" by (simp only: eq)
    then show False using True that by simp
  qed
  then show ?thesis using True by (auto simp: validate_salesforce_def Let_def)
qed (auto simp: validate_salesforce_def)

lemma resolve_salesforce_valid:
  assumes valid: "validate_salesforce s = Inr s" and res: "resolve_salesforce_secrets rd s = Inr s1"
  shows "validate_salesforce s1 = Inr s1 \<and> sf_ready s1"
proof (cases "cs_auth_mode s")
  case JwtBearer
  with res obtain v where "s1 = s\<lparr>cs_private_key := Some v\<rparr>"
    by (auto simp: resolve_salesforce_secrets_def split: sum.splits option.splits)
  then show ?thesis using valid JwtBearer by (simp add: validate_salesforce_fixed sf_ready_def)
next
  case ClientCredentials
  with res obtain v where "s1 = s\<lparr>cs_client_secret := Some v\<rparr>"
    by (auto simp: resolve_salesforce_secrets_def split: sum.splits option.splits)
  then show ?thesis using valid ClientCredentials by (simp add: validate_salesforce_fixed sf_ready_def)
qed

lemma validate_elf_idem:
  assumes "validate_elf re_ok s = Inr s1"
  shows "validate_elf re_ok s1 = Inr s1"
proof -
  have none: "first_error type_error (e_types s) = None" "first_error (rule_error re_ok) (e_transforms s) = None"
    using assms by (simp_all add: validate_elf_def split: option.splits)
  show ?thesis
  proof (cases "\<not> e_settle_set s \<and> e_hourly s")
    case True
    then have "s1 = s\<lparr>e_settle_window := 300, e_settle_set := True\<rparr>" using assms none by (simp add: validate_elf_def Let_def split: if_splits)
    then show ?thesis using assms none True by (simp add: validate_elf_def Let_def split: if_splits)
  next
    case False
    then have "s1 = s" using assms none by (simp add: validate_elf_def split: if_splits)
    then show ?thesis using assms by simp
  qed
qed

lemma validate_sources_idem: "validate_sources re_ok s = Inr s1 \<Longrightarrow> validate_sources re_ok s1 = Inr s1"
  by (auto simp: validate_sources_def dest: validate_elf_idem split: option.splits sum.splits)

lemma validate_sources_salt:
  "validate_sources re_ok s = Inr s \<Longrightarrow> validate_sources re_ok (s\<lparr>so_transform_salt := v\<rparr>) = Inr (s\<lparr>so_transform_salt := v\<rparr>)"
  by (cases s) (auto simp: validate_sources_def split: option.splits sum.splits)

lemma map_sum_Inr: "map_sum f g r = Inr y \<longleftrightarrow> (\<exists>x. r = Inr x \<and> y = g x)"
  by (cases r) auto

lemma validate_org_valid:
  assumes "validate_org re_ok a = Inr b"
  shows "validate_org re_ok b = Inr b \<and> og_name b = og_name a \<and> org_name_ok (og_name b) \<and> validate_salesforce (og_salesforce b) = Inr (og_salesforce b)
    \<and> validate_sources re_ok (og_sources b) = Inr (og_sources b)"
proof -
  obtain sf src where ok: "org_name_ok (og_name a)" "validate_salesforce (og_salesforce a) = Inr sf"
      "validate_sources re_ok (og_sources a) = Inr src" and b: "b = a\<lparr>og_salesforce := sf, og_sources := src\<rparr>"
    using assms by (auto simp: validate_org_def map_sum_Inr split: if_splits sum.splits)
  then show ?thesis using validate_salesforce_idem[OF ok(2)] validate_sources_idem[OF ok(3)]
    by (simp add: validate_org_def)
qed

lemma map_checked_Inr: "map_checked f xs = Inr ys \<longleftrightarrow> list_all2 (\<lambda>x y. f x = Inr y) xs ys"
  by (induction xs arbitrary: ys) (auto simp: map_sum_Inr list_all2_Cons1 split: sum.splits)

lemma map_checked_fixed: "map_checked f xs = Inr xs \<longleftrightarrow> list_all (\<lambda>x. f x = Inr x) xs"
  by (simp add: map_checked_Inr list_all2_same list_all_iff)

text \<open>The secrets of an org change neither its name nor its validity.\<close>

lemma resolve_org_valid:
  assumes "validate_salesforce (og_salesforce a) = Inr (og_salesforce a)" "validate_sources re_ok (og_sources a) = Inr (og_sources a)"
    and "resolve_org_secrets rd a = Inr b"
  shows "og_name b = og_name a \<and> validate_salesforce (og_salesforce b) = Inr (og_salesforce b) \<and> sf_ready (og_salesforce b)
    \<and> validate_sources re_ok (og_sources b) = Inr (og_sources b)"
proof -
  obtain sf salt where "resolve_salesforce_secrets rd (og_salesforce a) = Inr sf"
      "b = a\<lparr>og_salesforce := sf, og_sources := (og_sources a)\<lparr>so_transform_salt := salt\<rparr>\<rparr>"
    using assms(3) by (auto simp: resolve_org_secrets_def map_sum_Inr split: sum.splits)
  then show ?thesis using resolve_salesforce_valid[OF assms(1)] validate_sources_salt[OF assms(2)] by simp
qed

lemma lower_levels: "l \<in> set LOG_LEVELS \<Longrightarrow> lower l = l"
  by (auto simp: LOG_LEVELS_def lower_def lower_char_def less_eq_char_def)

lemma validate_service_idem: "validate_service s = Inr s1 \<Longrightarrow> validate_service s1 = Inr s1"
  by (auto simp: validate_service_def lower_levels split: if_splits)

lemma validate_service_fixed:
  "validate_service s = Inr s \<longleftrightarrow> sv_log_level s \<in> set LOG_LEVELS \<and> sv_log_format s \<in> {''json'', ''logfmt''}" (is "?l \<longleftrightarrow> ?r")
proof
  assume ?l
  then have r: "lower (sv_log_level s) \<in> set LOG_LEVELS" "sv_log_format s \<in> {''json'', ''logfmt''}"
      and eq: "s\<lparr>sv_log_level := lower (sv_log_level s)\<rparr> = s"
    by (simp_all add: validate_service_def split: if_splits)
  have "sv_log_level (s\<lparr>sv_log_level := lower (sv_log_level s)\<rparr>) = sv_log_level s" by (simp only: eq)
  then show ?r using r by simp
qed (simp add: validate_service_def lower_levels)

lemma validate_service_telemetry:
  "validate_service s = Inr s \<Longrightarrow> validate_service (s\<lparr>sv_telemetry := t\<rparr>) = Inr (s\<lparr>sv_telemetry := t\<rparr>)"
  by (simp add: validate_service_fixed)

lemma validate_config_fixed:
  "validate_config re_ok cfg = Inr cfg \<longleftrightarrow>
     validate_optional (g_salesforce cfg) = Inr (g_salesforce cfg) \<and> list_all (\<lambda>o1. validate_org re_ok o1 = Inr o1) (g_orgs cfg)
     \<and> validate_sources re_ok (g_sources cfg) = Inr (g_sources cfg) \<and> validate_service (g_service cfg) = Inr (g_service cfg)
     \<and> loki_settings_error (g_loki cfg) = None
     \<and> state_settings_error (g_state cfg) = None \<and> coordinate_settings_error (g_coordinate cfg) = None \<and> topology_error cfg = None"
    (is "?l \<longleftrightarrow> ?r")
proof
  assume l: ?l
  then obtain sf orgs src srv where v: "validate_optional (g_salesforce cfg) = Inr sf" "map_checked (validate_org re_ok) (g_orgs cfg) = Inr orgs"
      "validate_sources re_ok (g_sources cfg) = Inr src" "validate_service (g_service cfg) = Inr srv"
    by (auto simp: validate_config_def split: sum.splits prod.splits)
  let ?cfg = "cfg\<lparr>g_salesforce := sf, g_orgs := orgs, g_sources := src, g_service := srv\<rparr>"
  have e: "?cfg = cfg" "loki_settings_error (g_loki cfg) = None" "state_settings_error (g_state cfg) = None"
      "coordinate_settings_error (g_coordinate cfg) = None" "topology_error ?cfg = None"
    using l v by (auto simp: validate_config_def Let_def split: option.splits)
  then have "g_salesforce cfg = sf" "g_orgs cfg = orgs" "g_sources cfg = src" "g_service cfg = srv" by (metis config.select_convs config.surjective config.update_convs)+
  then show ?r using v e(2-4) e(5)[unfolded e(1)] by (simp add: map_checked_fixed)
next
  assume ?r
  then show ?l by (simp add: validate_config_def map_checked_fixed[symmetric])
qed

abbreviation org_valid :: "(string \<Rightarrow> bool) \<Rightarrow> org_settings \<Rightarrow> bool" where
  "org_valid re_ok o1 \<equiv> validate_salesforce (og_salesforce o1) = Inr (og_salesforce o1) \<and> validate_sources re_ok (og_sources o1) = Inr (og_sources o1)"

lemma validate_org_fixed: "validate_org re_ok o1 = Inr o1 \<longleftrightarrow> org_name_ok (og_name o1) \<and> org_valid re_ok o1"
  using validate_org_valid[of re_ok o1 o1] by (auto simp: validate_org_def)

lemma validate_optional_fixed: "validate_optional v = Inr v \<longleftrightarrow> (\<forall>s. v = Some s \<longrightarrow> validate_salesforce s = Inr s)"
  by (cases v) (auto simp: validate_optional_def map_sum_Inr)

lemma validate_config_idem:
  assumes "validate_config re_ok raw_cfg = Inr cfg"
  shows "validate_config re_ok cfg = Inr cfg"
proof -
  obtain sf orgs src srv where v: "validate_optional (g_salesforce raw_cfg) = Inr sf" "map_checked (validate_org re_ok) (g_orgs raw_cfg) = Inr orgs"
      "validate_sources re_ok (g_sources raw_cfg) = Inr src" "validate_service (g_service raw_cfg) = Inr srv"
    using assms by (auto simp: validate_config_def split: sum.splits prod.splits)
  have e: "cfg = raw_cfg\<lparr>g_salesforce := sf, g_orgs := orgs, g_sources := src, g_service := srv\<rparr>" "loki_settings_error (g_loki cfg) = None"
      "state_settings_error (g_state cfg) = None" "coordinate_settings_error (g_coordinate cfg) = None" "topology_error cfg = None"
    using assms v by (auto simp: validate_config_def Let_def split: option.splits)
  have "validate_optional sf = Inr sf"
    using v(1) by (auto simp: validate_optional_def map_sum_Inr dest: validate_salesforce_idem split: option.splits)
  moreover have "list_all (\<lambda>o1. validate_org re_ok o1 = Inr o1) orgs"
    using v(2) validate_org_valid by (fastforce simp: map_checked_Inr list_all2_conv_all_nth list_all_length)
  ultimately show ?thesis using e validate_sources_idem[OF v(3)] validate_service_idem[OF v(4)] by (simp add: validate_config_fixed)
qed

lemma org_name_ok_nonempty [simp]: "\<not> org_name_ok []"
  by (simp add: org_name_ok_def)

text \<open>The orgs of a valid configuration.\<close>

lemma resolved_valid:
  assumes "validate_config re_ok cfg = Inr cfg"
  shows "\<exists>orgs. resolved_orgs cfg = Some orgs \<and> orgs \<noteq> [] \<and> distinct (map og_name orgs) \<and> list_all (org_valid re_ok) orgs
    \<and> list_all (\<lambda>o1. og_name o1 = [] \<longleftrightarrow> g_orgs cfg = []) orgs"
proof (cases "g_orgs cfg = []")
  case True
  then obtain sf where "g_salesforce cfg = Some sf" "validate_salesforce sf = Inr sf"
    using assms by (auto simp: validate_config_fixed topology_error_def validate_optional_fixed split: if_splits)
  then show ?thesis using True assms by (auto simp: resolved_orgs_def validate_config_fixed)
next
  case False
  have "list_all (\<lambda>o1. org_name_ok (og_name o1) \<and> org_valid re_ok o1) (g_orgs cfg)"
    using assms by (simp add: validate_config_fixed validate_org_fixed)
  moreover have "distinct (map og_name (g_orgs cfg))" using assms False by (auto simp: validate_config_fixed topology_error_def split: if_splits)
  ultimately show ?thesis using False by (auto simp: resolved_orgs_def list_all_iff)
qed

lemma resolve_secrets_ok:
  assumes v: "validate_config re_ok cfg = Inr cfg" and r: "resolve_secrets rd cfg = Inr cfg1"
  shows "config_ok re_ok cfg1"
proof -
  obtain orgs where orgs: "resolved_orgs cfg = Some orgs" "orgs \<noteq> []" "distinct (map og_name orgs)" "list_all (org_valid re_ok) orgs"
      "list_all (\<lambda>o1. og_name o1 = [] \<longleftrightarrow> g_orgs cfg = []) orgs"
    using resolved_valid[OF v] by blast
  from r orgs(1) obtain orgs1 tok ttok where ch: "map_checked (resolve_org_secrets rd) orgs = Inr orgs1"
      "resolve_secret_file rd (l_auth_token_file (g_loki cfg)) (l_auth_token (g_loki cfg)) = Inr tok"
      "resolve_secret_file rd (tl_token_file (g_telemetry cfg)) (tl_token (g_telemetry cfg)) = Inr ttok"
    by (auto simp: resolve_secrets_def split: sum.splits)
  define l where "l = (g_loki cfg)\<lparr>l_auth_token := tok\<rparr>"
  define t where "t = (g_telemetry cfg)\<lparr>tl_token := ttok\<rparr>"
  have creds: "tl_enabled t \<and> tl_basic t \<longrightarrow> telemetry_user t l \<noteq> [] \<and> telemetry_token t l \<noteq> []"
      and cfg1: "cfg1 = (with_orgs cfg orgs1)\<lparr>g_loki := l, g_service := (g_service cfg)\<lparr>sv_telemetry := t\<rparr>\<rparr>"
    using r orgs(1) ch unfolding l_def t_def by (auto simp: resolve_secrets_def Let_def split: if_splits)
  have res: "list_all2 (\<lambda>a b. resolve_org_secrets rd a = Inr b) orgs orgs1" using ch(1) by (simp add: map_checked_Inr)
  have each: "og_name b = og_name a \<and> org_valid re_ok b \<and> sf_ready (og_salesforce b)"
    if "a \<in> set orgs" "resolve_org_secrets rd a = Inr b" for a b
    using resolve_org_valid[OF _ _ that(2)] orgs(4) that(1) by (auto simp: list_all_iff)
  have names: "map og_name orgs1 = map og_name orgs"
    using res each by (simp add: list_all2_conv_all_nth list_eq_iff_nth_eq)
  have ok: "list_all (\<lambda>o1. org_valid re_ok o1 \<and> sf_ready (og_salesforce o1)) orgs1"
    using res each unfolding list_all2_conv_all_nth list_all_length by (metis (no_types, lifting) nth_mem)
  have loki: "loki_settings_error l = loki_settings_error (g_loki cfg)" by (simp add: l_def loki_settings_error_def)
  have srv: "validate_service ((g_service cfg)\<lparr>sv_telemetry := t\<rparr>) = Inr ((g_service cfg)\<lparr>sv_telemetry := t\<rparr>)"
    using v by (simp add: validate_config_fixed validate_service_telemetry)
  have ne: "orgs1 \<noteq> []" using orgs(2) names by auto
  show ?thesis
  proof (cases "g_orgs cfg = []")
    case True
    then obtain o1 where o1: "orgs1 = [o1]" using orgs(1) names by (cases orgs1) (auto simp: resolved_orgs_def)
    have eq: "cfg1 = cfg\<lparr>g_salesforce := Some (og_salesforce o1), g_sources := og_sources o1, g_loki := l,
        g_service := (g_service cfg)\<lparr>sv_telemetry := t\<rparr>\<rparr>"
      using cfg1 True o1 by (simp add: with_orgs_def)
    have "validate_config re_ok cfg1 = Inr cfg1"
      using v True ok o1 loki srv eq by (auto simp: validate_config_fixed validate_optional_fixed topology_error_def split: if_splits)
    then show ?thesis using True ok o1 creds eq by (simp add: config_ok_def resolved_orgs_def)
  next
    case False
    then have orgs_eq: "orgs = g_orgs cfg" using orgs(1) by (simp add: resolved_orgs_def)
    have eq: "cfg1 = cfg\<lparr>g_orgs := orgs1, g_loki := l, g_service := (g_service cfg)\<lparr>sv_telemetry := t\<rparr>\<rparr>" using cfg1 False by (simp add: with_orgs_def)
    have "list_all (\<lambda>o1. org_name_ok (og_name o1)) (g_orgs cfg)"
      using v by (simp add: validate_config_fixed validate_org_fixed list_all_iff)
    then have "list_all org_name_ok (map og_name orgs1)" using names orgs_eq by (simp add: list.pred_map comp_def)
    then have ok_names: "list_all (\<lambda>o1. org_name_ok (og_name o1)) orgs1" by (simp add: list.pred_map comp_def)
    then have "validate_config re_ok cfg1 = Inr cfg1"
      using v False ok ok_names loki srv eq names orgs_eq ne
      by (auto simp: validate_config_fixed validate_org_fixed topology_error_def list_all_iff split: if_splits)
    then show ?thesis using False ok ok_names creds eq ne names orgs(3) by (auto simp: config_ok_def resolved_orgs_def list_all_iff)
  qed
qed

lemma load_config_ok:
  assumes "load_config rd yaml environ parse re_ok path = Inr cfg"
  shows "config_ok re_ok cfg"
proof -
  obtain raw_cfg cfg0 where "validate_config re_ok raw_cfg = Inr cfg0" "resolve_secrets rd cfg0 = Inr cfg"
    using assms by (auto simp: load_config_def split: sum.splits option.splits)
  then show ?thesis using resolve_secrets_ok[OF validate_config_idem] by blast
qed

lemma select_org_member:
  assumes "resolved_orgs cfg = Some orgs" "orgs \<noteq> []" "select_org cfg name = Some (Inr (o1, note))"
  shows "o1 \<in> set orgs"
  using assms by (auto simp: select_org_def find_Some_iff split: option.splits if_splits)

lemma single_org_view_ok:
  assumes ok: "config_ok re_ok cfg" and sel: "select_org cfg name = Some (Inr (o1, note))"
  shows "config_ok re_ok (as_single_org_view cfg o1)"
proof -
  have v: "validate_config re_ok cfg = Inr cfg" using ok by (simp add: config_ok_def)
  obtain orgs where orgs: "resolved_orgs cfg = Some orgs" "orgs \<noteq> []" "list_all (org_valid re_ok) orgs" using resolved_valid[OF v] by blast
  have o1: "o1 \<in> set orgs" by (rule select_org_member[OF orgs(1,2) sel])
  then have "org_valid re_ok o1" "sf_ready (og_salesforce o1)" using orgs ok by (auto simp: list_all_iff config_ok_def)
  then show ?thesis
    using v ok by (auto simp: config_ok_def as_single_org_view_def validate_config_fixed validate_optional_fixed topology_error_def resolved_orgs_def)
qed

text \<open>
  C23. A configuration that loads is well-formed: every validator accepts it as it is (defaults filled in and secrets resolved), it has at least one
  org, org names are distinct and empty only in single-org mode, each org has what its mode of authentication needs, and enabled basic
  telemetry has credentials. The view of any selectable org that the commands use is well-formed again.\<close>

theorem load_config_well_formed:
  assumes "load_config rd yaml environ parse re_ok path = Inr cfg"
  shows "config_ok re_ok cfg \<and> (\<forall>name o1 note. select_org cfg name = Some (Inr (o1, note)) \<longrightarrow> config_ok re_ok (as_single_org_view cfg o1))"
  using load_config_ok[OF assms] single_org_view_ok by blast

section \<open>What the components may rely on\<close>

subsection \<open>Authentication\<close>

definition auth_config_of :: "sf_settings \<Rightarrow> sf_config" where
  "auth_config_of s =
     \<lparr>sf_login_url = cs_login_url s, sf_client_id = cs_client_id s, sf_username = cs_username s, sf_private_key = cs_private_key s,
      sf_client_secret = cs_client_secret s, sf_auth_mode = cs_auth_mode s, sf_token_ttl = cs_token_ttl s, sf_org_id = cs_org_id s,
      sf_api_version = cs_api_version s\<rparr>"

lemma ready_form: "sf_ready s \<Longrightarrow> au_cfg env = auth_config_of s \<Longrightarrow> fst (token_form env o0) \<noteq> None"
  by (auto simp: sf_ready_def auth_config_of_def token_form_def mint_jwt_def split: auth_mode.splits prod.splits)

text \<open>
  The assertions of the token provider on its key and its secret never fail: for every org of a loaded configuration a token request can be
  formed, and a client-credentials request never goes to a login host that rejects it.\<close>

theorem loaded_org_authenticates:
  assumes "load_config rd yaml environ parse re_ok path = Inr cfg" "resolved_orgs cfg = Some orgs" "o1 \<in> set orgs"
    "au_cfg env = auth_config_of (og_salesforce o1)"
  shows "fst (token_form env o0) \<noteq> None \<and> (sf_auth_mode (au_cfg env) = ClientCredentials \<longrightarrow> sf_login_url (au_cfg env) \<notin> set generic_hosts)"
proof -
  have "sf_ready (og_salesforce o1)" using load_config_ok[OF assms(1)] assms(2,3) by (auto simp: config_ok_def list_all_iff)
  then show ?thesis using ready_form[OF _ assms(4)] assms(4) by (auto simp: sf_ready_def auth_config_of_def)
qed

subsection \<open>Promoted columns\<close>

lemma pget_map_of: "pget p k = Some v \<Longrightarrow> map_of p k \<noteq> None"
  by (auto simp: pget_def split: option.splits)

lemma rewrite_fields_keys: "rewrite_fields g ks p = Some (b, q, cs) \<Longrightarrow> map_of q l = None \<longleftrightarrow> map_of p l = None"
  by (induction g ks p rule: rewrite_fields.induct) (auto simp: update_conv split: option.splits if_splits dest: pget_map_of)

lemma fold_delete_keys: "l \<notin> set ks \<Longrightarrow> map_of (fold AList.delete ks p) l = map_of p l"
  by (induction ks arbitrary: p) (auto simp: delete_conv)

lemma compile_rule_keeps:
  assumes "compile_rule L salt source metrics i r = Some c" "c p = Some (b, q, cs)" "rule_action r = DropField \<longrightarrow> l \<notin> set (rule_fields r)"
  shows "map_of q l = None \<longleftrightarrow> map_of p l = None"
  using assms
  by (cases "rule_action r")
    (auto simp: compile_rule_def make_hash_def make_mask_def make_regex_def make_drop_field_def make_drop_row_def fold_delete_keys
      simp del: map_of_eq_None_iff dest!: rewrite_fields_keys[where l = l] split: if_splits)

lemma pipeline_keeps:
  assumes "compile_from L salt source metrics i rules = Some cs" "apply_pipeline cs p = Some (Some q, counts)" "l \<notin> set (dropped_fields rules)"
  shows "map_of q l = None \<longleftrightarrow> map_of p l = None"
  using assms
proof (induction rules arbitrary: i cs p counts)
  case (Cons r rules)
  obtain c cs' where c: "compile_rule L salt source metrics i r = Some c" "compile_from L salt source metrics (Suc i) rules = Some cs'" "cs = c # cs'"
    using Cons.prems(1) by (auto split: option.splits)
  obtain q1 n1 n2 where q1: "c p = Some (False, q1, n1)" "apply_pipeline cs' q1 = Some (Some q, n2)"
    using Cons.prems(2) c(3) by (auto split: option.splits prod.splits bool.splits)
  have "map_of q1 l = None \<longleftrightarrow> map_of p l = None"
    by (rule compile_rule_keeps[OF c(1) q1(1)]) (use Cons.prems(3) in \<open>auto simp: dropped_fields_def\<close>)
  moreover have "l \<notin> set (dropped_fields rules)" using Cons.prems(3) by (auto simp: dropped_fields_def)
  ultimately show ?case using Cons.IH[OF c(2) q1(2)] by simp
qed simp

lemma valid_elf_labels:
  "validate_elf re_ok s = Inr s \<Longrightarrow> t \<in> set (e_types s) \<Longrightarrow> l \<in> set (t_labels t) \<Longrightarrow> l \<notin> set (dropped_fields (e_transforms s))"
  by (auto simp: validate_elf_def list_ex_iff Let_def split: option.splits if_splits)

lemma sources_elf: "validate_sources re_ok s = Inr s \<Longrightarrow> validate_elf re_ok (so_elf s) = Inr (so_elf s)"
  by (auto simp: validate_sources_def split: option.splits sum.splits dest: arg_cong[of _ _ so_elf])

text \<open>
  C26. In a loaded configuration the transforms of the EventLogFile source never remove a column that an event type promotes to a label: in every row
  that is kept the column is present exactly if it was present in the file.\<close>

theorem promoted_columns_survive:
  assumes "load_config rd yaml environ parse re_ok path = Inr cfg" "resolved_orgs cfg = Some orgs" "o1 \<in> set orgs"
    and "t \<in> set (e_types (so_elf (og_sources o1)))" "l \<in> set (t_labels t)"
    and "compile_rules L salt source metrics (e_transforms (so_elf (og_sources o1))) = Some cs" "apply_pipeline cs p = Some (Some q, counts)"
  shows "map_of q l = None \<longleftrightarrow> map_of p l = None"
proof -
  have "validate_config re_ok cfg = Inr cfg" using load_config_ok[OF assms(1)] by (simp add: config_ok_def)
  from resolved_valid[OF this] have "validate_sources re_ok (og_sources o1) = Inr (og_sources o1)" using assms(2,3) by (auto simp: list_all_iff)
  then have "l \<notin> set (dropped_fields (e_transforms (so_elf (og_sources o1))))" using valid_elf_labels[OF sources_elf] assms(4,5) by blast
  then show ?thesis using pipeline_keeps assms(6,7) by (simp add: compile_rules_def)
qed

subsection \<open>Telemetry\<close>

lemma latin_bytes: "byte_list (utf8_encode (map of_char s))"
proof -
  have "(of_char c :: nat) < 256" for c :: char by (cases c) simp
  then have "\<forall>b \<in> set (encode_cp (of_char c)). b < 256" for c :: char
    using less_trans[of "of_char c :: nat" 256 65536] by (auto simp: encode_cp_def)
  then show ?thesis by (auto simp: utf8_encode_def list_all_iff)
qed

text \<open>With enabled basic telemetry and no header of its own, the export header decodes to the user and the token.\<close>

lemma telemetry_authorized:
  assumes "load_config rd yaml environ parse re_ok path = Inr cfg" "tl_enabled (g_telemetry cfg)" "tl_basic (g_telemetry cfg)"
    "''Authorization'' \<notin> fst ` set (tl_headers (g_telemetry cfg))"
  shows "\<exists>v. map_of (telemetry_headers (g_telemetry cfg) (g_loki cfg)) ''Authorization'' = Some (''Basic '' @ v) \<and>
    b64decode v = Some (utf8_encode (map of_char (telemetry_user (g_telemetry cfg) (g_loki cfg) @ '':'' @ telemetry_token (g_telemetry cfg) (g_loki cfg))))"
proof -
  have "telemetry_user (g_telemetry cfg) (g_loki cfg) \<noteq> []" "telemetry_token (g_telemetry cfg) (g_loki cfg) \<noteq> []"
    using load_config_ok[OF assms(1)] assms(2,3) by (simp_all add: config_ok_def)
  moreover have "map_of (rev (tl_headers (g_telemetry cfg))) ''Authorization'' = None"
    using assms(4) by (simp add: map_of_eq_None_iff)
  ultimately show ?thesis using assms(3) b64_roundtrip[OF latin_bytes] by (simp add: telemetry_headers_def map_of_dict_merge del: map_append)
qed

subsection \<open>Names in queries\<close>

lemma name_char_quotes [simp]: "\<not> name_char (CHR 39)" "\<not> name_char (CHR 92)"
  by (simp_all add: name_char_def name_start_def is_digit_def less_eq_char_def)

lemma chomp_set: "c \<in> set s \<Longrightarrow> c \<noteq> CHR 10 \<Longrightarrow> c \<in> set (chomp s)"
  by (cases s rule: rev_cases) (auto simp: chomp_def)

lemma first_error_None: "first_error f xs = None \<longleftrightarrow> list_all (\<lambda>x. f x = None) xs"
  by (induction xs) (auto split: option.splits)

text \<open>Neither a quote nor a backslash.\<close>

definition plain :: "string \<Rightarrow> bool" where
  "plain s \<longleftrightarrow> CHR 39 \<notin> set s \<and> CHR 92 \<notin> set s"

lemma plain_chars: "list_all P s \<Longrightarrow> \<not> P (CHR 39) \<Longrightarrow> \<not> P (CHR 92) \<Longrightarrow> plain s"
  by (auto simp: plain_def list_all_iff)

lemma plain_chomp: "plain (chomp s) \<Longrightarrow> plain s"
  using chomp_set[of "CHR 39" s] chomp_set[of "CHR 92" s] by (auto simp: plain_def)

lemma username_plain: "sf_username_match s \<Longrightarrow> plain s"
  by (rule plain_chomp, rule plain_chars[of "\<lambda>c. name_char c \<or> c \<in> set ''.%+-@''"]) (simp_all add: sf_username_match_def)

lemma identifier_plain: "soql_identifier s \<Longrightarrow> plain s"
  by (rule plain_chars[of name_char]) (simp_all add: soql_identifier_def)

lemma valid_sources_plain:
  assumes "validate_sources re_ok s = Inr s"
  shows "list_all plain (x_users (so_apex s) @ map t_name (e_types (so_elf s)) @ map b_name (o_objects (so_objects s))
    @ map b_timestamp_field (o_objects (so_objects s)))"
proof -
  have "apex_settings_error re_ok (so_apex s) = None" "objects_settings_error re_ok (so_objects s) = None" "validate_elf re_ok (so_elf s) = Inr (so_elf s)"
    using assms sources_elf[OF assms] by (auto simp: validate_sources_def split: option.splits sum.splits)
  then have "list_all sf_username_match (x_users (so_apex s))" "list_all (\<lambda>o1. object_settings_error o1 = None) (o_objects (so_objects s))"
      "list_all (\<lambda>t. type_error t = None) (e_types (so_elf s))"
    by (auto simp: apex_settings_error_def objects_settings_error_def validate_elf_def first_error_None split: option.splits if_splits)
  then show ?thesis
    by (auto simp: list_all_iff object_settings_error_def type_error_def plain_def[of "''*''"] EVENT_TYPE_WILDCARD_def
        intro: username_plain identifier_plain plain_chomp[OF identifier_plain] split: if_splits)
qed

text \<open>
  What a loaded configuration puts into SOQL text is free of quotes and backslashes: usernames of the Apex log source, EventLogFile event types,
  names and timestamp fields of event objects.\<close>

theorem loaded_names_soql_safe:
  assumes "load_config rd yaml environ parse re_ok path = Inr cfg" "resolved_orgs cfg = Some orgs" "o1 \<in> set orgs"
  shows "list_all plain (x_users (so_apex (og_sources o1)) @ map t_name (e_types (so_elf (og_sources o1)))
    @ map b_name (o_objects (so_objects (og_sources o1))) @ map b_timestamp_field (o_objects (so_objects (og_sources o1))))"
proof -
  have "validate_config re_ok cfg = Inr cfg" using load_config_ok[OF assms(1)] by (simp add: config_ok_def)
  from resolved_valid[OF this] have "validate_sources re_ok (og_sources o1) = Inr (og_sources o1)" using assms(2,3) by (auto simp: list_all_iff)
  then show ?thesis by (rule valid_sources_plain)
qed

text \<open>The patterns let one final line feed through, and a secret file of white space is a secret.\<close>

lemma username_final_newline: "sf_username_match ''svc@example.com'' \<and> sf_username_match (''svc@example.com'' @ [CHR 10])"
  by (simp add: sf_username_match_def chomp_def name_char_def name_start_def is_digit_def less_eq_char_def)

lemma blank_secret_accepted: "rd f = FileText [CHR 10] \<Longrightarrow> resolve_secret_file rd (Some f) None = Inr (Some [])"
  by (simp add: resolve_secret_file_def strip_def is_space_def)

section \<open>Witnesses\<close>

definition demo_sf :: sf_settings where
  "demo_sf = \<lparr>cs_login_url = [], cs_environment = Sandbox, cs_auth_mode = JwtBearer, cs_client_id = ''id'', cs_client_secret = None,
     cs_client_secret_file = None, cs_username = ''svc@example.com'', cs_private_key_file = Some ''key'', cs_private_key = None,
     cs_api_version = ''60.0'', cs_org_id = None, cs_token_ttl = 3600000000, cs_limits = \<lparr>lm_enabled = False, lm_poll_interval = 300\<rparr>\<rparr>"

definition demo_elf_settings :: elf_settings where
  "demo_elf_settings = \<lparr>e_enabled = True, e_hourly = True, e_types = [\<lparr>t_name = ''Login'', t_sm_fields = None, t_labels = [''USER_TYPE''], t_sample = 1\<rparr>],
     e_exclude = [], e_poll_interval = 3600, e_lookback = 86400, e_timestamp_column = ''TIMESTAMP_DERIVED'', e_page_size = 1000,
     e_download_max_age = 86400, e_settle_window = 0, e_settle_set = False,
     e_transforms = [\<lparr>rule_action = DropField, rule_fields = [''SOURCE_IP''], rule_match = [], rule_pattern = None, rule_replacement = [], rule_name = []\<rparr>],
     e_concurrency = 4\<rparr>"

definition demo_raw_config :: config where
  "demo_raw_config = \<lparr>g_salesforce = Some demo_sf, g_orgs = [], g_sources = default_sources\<lparr>so_elf := demo_elf_settings\<rparr>,
     g_loki = \<lparr>l_url = ''http://loki'', l_tenant_id = None, l_auth_token_file = None, l_auth_token = None, l_encoding = Protobuf, l_compression = Snappy,
               l_batch = \<lparr>bt_max_entries = 1000, bt_max_bytes = 1048576, bt_flush_interval = 1, bt_max_line_bytes = 262144, bt_queue_maxsize = 10000,
                          bt_queue_max_bytes = 0\<rparr>,
               l_egress = \<lparr>max_lines_per_second = 0, max_bytes_per_second = 0, daily_byte_budget = 0, cfg_budget_action = Pause\<rparr>,
               l_labels = [], l_structured_metadata_fields = []\<rparr>,
     g_state = \<lparr>st_store = FileState, st_path = ''state.json'', st_s3 = \<lparr>s3_bucket = [], s3_key = ''k'', s3_region = None, s3_endpoint_url = None\<rparr>,
                st_gcs = \<lparr>gcs_bucket = [], gcs_object_name = ''k'', gcs_service_file = None\<rparr>\<rparr>,
     g_coordinate = \<lparr>co_type = NoopCoordination, co_file_lease = \<lparr>fl_path = ''p'', fl_ttl = 30, fl_renew_interval = 10, fl_holder_id = []\<rparr>,
                     co_k8s_lease = \<lparr>kl_namespace = ''default'', kl_name = ''sf2loki-leader'', kl_identity = [], kl_lease_duration = 30,
                                     kl_renew_interval = 10, kl_kubeconfig = None\<rparr>\<rparr>,
     g_service = \<lparr>sv_log_level = ''INFO'', sv_log_format = ''json'', sv_health_addr = '':8080'', sv_shutdown_grace = 25,
                  sv_unready_after_sink_failing = 900,
                  sv_telemetry = \<lparr>tl_enabled = False, tl_endpoint = [], tl_basic = True, tl_user = [], tl_token = None, tl_token_file = None,
                                  tl_headers = [], tl_export_interval = 60, tl_resource_attributes = []\<rparr>\<rparr>\<rparr>"

definition demo_loaded :: config where
  "demo_loaded = demo_raw_config\<lparr>
     g_salesforce := Some (demo_sf\<lparr>cs_login_url := ''https://test.salesforce.com'', cs_private_key := Some ''K''\<rparr>),
     g_sources := default_sources\<lparr>so_elf := demo_elf_settings\<lparr>e_settle_window := 300, e_settle_set := True\<rparr>\<rparr>,
     g_service := (g_service demo_raw_config)\<lparr>sv_log_level := ''info''\<rparr>\<rparr>"

lemma demo_load:
  "load_config (\<lambda>f. FileText ''K'') (\<lambda>s. Some (None :: unit yaml option)) Map.empty (\<lambda>kvs. Some demo_raw_config) (\<lambda>s. True) None = Inr demo_loaded"
  by code_simp

definition demo_org :: org_settings where
  "demo_org = \<lparr>og_name = [], og_salesforce = the (g_salesforce demo_loaded), og_sources = g_sources demo_loaded\<rparr>"

lemma demo_orgs: "resolved_orgs demo_loaded = Some [demo_org]"
  by (simp add: resolved_orgs_def demo_loaded_def demo_raw_config_def demo_org_def)

theorem load_config_well_formed_witness:
  "config_ok (\<lambda>s. True) demo_loaded \<and> config_ok (\<lambda>s. True) (as_single_org_view demo_loaded demo_org)"
proof -
  have "select_org demo_loaded None = Some (Inr (demo_org, None))"
    unfolding select_org_def demo_orgs by (simp add: demo_org_def)
  then show ?thesis using load_config_well_formed[OF demo_load] by blast
qed

definition demo_auth :: "unit auth_env" where
  "demo_auth = \<lparr>au_cfg = auth_config_of (og_salesforce demo_org), au_now = (\<lambda>o0. (0, o0)), au_post = (\<lambda>u f o0. (Inl TransportError, o0)),
     au_userinfo = (\<lambda>u t o0. (Inl TransportError, o0)), au_jwt_encode = (\<lambda>c k. k), au_retry_mint = id, au_retry_org = id\<rparr>"

theorem loaded_org_authenticates_witness: "fst (token_form demo_auth ()) \<noteq> None"
  using loaded_org_authenticates[OF demo_load demo_orgs, of demo_org demo_auth "()"] by (simp add: demo_auth_def)

theorem loaded_names_soql_safe_witness: "plain ''Login''"
  using loaded_names_soql_safe[OF demo_load demo_orgs, of demo_org]
  by (simp add: demo_org_def demo_loaded_def demo_elf_settings_def)

definition demo_lib :: lib where
  "demo_lib = \<lparr>sha256hex = id, re_sub = (\<lambda>p r s. Some s), fnmatchcase = (=)\<rparr>"

lemma demo_compiled:
  "compile_rules demo_lib [] ''eventlogfile'' False (e_transforms (so_elf (og_sources demo_org))) = Some [make_drop_field [''SOURCE_IP'']]"
  by (simp add: demo_org_def demo_loaded_def demo_elf_settings_def compile_rules_def compile_rule_def)

lemma demo_applied:
  "apply_pipeline [make_drop_field [''SOURCE_IP'']] [(''USER_TYPE'', VStr ''S''), (''SOURCE_IP'', VStr ''1'')] = Some (Some [(''USER_TYPE'', VStr ''S'')], [])"
  by (simp add: make_drop_field_def)

theorem promoted_columns_survive_witness:
  "map_of [(''USER_TYPE'', VStr ''S'')] ''USER_TYPE'' = None \<longleftrightarrow> map_of [(''USER_TYPE'', VStr ''S''), (''SOURCE_IP'', VStr ''1'')] ''USER_TYPE'' = None"
  by (rule promoted_columns_survive[OF demo_load demo_orgs _ _ _ demo_compiled demo_applied,
        of "\<lparr>t_name = ''Login'', t_sm_fields = None, t_labels = [''USER_TYPE''], t_sample = 1\<rparr>"])
    (simp_all add: demo_org_def demo_loaded_def demo_elf_settings_def)

end
