(* ===== verification/Wiring.thy ===== *)
theory Wiring
  imports Config PubSubSource
begin

section \<open>app.py: the composition root\<close>

text \<open>
  \<^verbatim>\<open>_build_org_sources\<close> and \<^verbatim>\<open>App.build\<close> of \<^verbatim>\<open>src/sf2loki/app.py\<close> with \<^verbatim>\<open>build_store\<close> of
  \<^verbatim>\<open>state/__init__.py\<close>. Nothing is started here: a built object is the settings it is given. \<open>available\<close> says which optional
  packages are installed; HTTP clients, metrics, logging and the startup banner are left out.

  Results: without \<open>allow_overlap\<close> no category reaches an org twice for any outcome of discovery, except between a discovered topic and
  a discovered file type, where it does; the fence, the epoch and the exclusive lock are wired exactly as the coordinator needs them; every
  source of a multi-org deployment is scoped to its org, and only the first org falls back to old checkpoints.
\<close>

subsection \<open>The sources of an org\<close>

datatype built_source =
    BuiltPubSub pubsub_config
  | BuiltObjects objects_settings
  | BuiltElf elf_config
  | BuiltApex apex_settings

definition preset_of :: "replay_choice \<Rightarrow> preset" where
  "preset_of r = (case r of ReplayLatest \<Rightarrow> LATEST | ReplayEarliest \<Rightarrow> EARLIEST | ReplayCustom \<Rightarrow> CUSTOM)"

definition micros :: "seconds \<Rightarrow> int" where
  "micros s = \<lfloor>s * 1000000\<rfloor>"

definition pubsub_of :: "pubsub_settings \<Rightarrow> string list \<Rightarrow> pubsub_config" where
  "pubsub_of s owned =
     \<lparr>cfg_topics = p_topics s, cfg_include = p_include s, cfg_exclude = p_exclude s, replay_preset = preset_of (p_replay_preset s),
      cfg_sample = p_sample s, reconnect_backoff = 1, max_backoff = 30, bridge_max_bytes = p_bridge_max_bytes s, owned_categories = owned\<rparr>"

definition elf_of :: "elf_settings \<Rightarrow> string list \<Rightarrow> elf_config" where
  "elf_of s owned =
     \<lparr>c_types = e_types s, c_exclude = e_exclude s, c_lookback = micros (e_lookback s), c_timestamp_column = e_timestamp_column s,
      c_settle_window = micros (e_settle_window s), c_download_max_age = micros (e_download_max_age s), c_exclude_categories = owned\<rparr>"

record org_sources =
  bs_sources :: "built_source list"
  bs_topics :: "string list"
  bs_objects :: "string list"
  bs_types :: "string list"

definition stored_objects :: "sources_settings \<Rightarrow> string list" where
  "stored_objects s = (if o_enabled (so_objects s) then map b_name (o_objects (so_objects s)) else [])"

definition elf_event_types :: "sources_settings \<Rightarrow> string list" where
  "elf_event_types s =
     (if e_enabled (so_elf s) then filter (\<lambda>n. n \<noteq> EVENT_TYPE_WILDCARD) (map t_name (e_types (so_elf s))) else [])"

definition pubsub_owned :: "sources_settings \<Rightarrow> string list" where
  "pubsub_owned s =
     (if so_allow_overlap s then []
      else map category_of_stored_object (stored_objects s) @ map category_of_elf (elf_event_types s))"

definition elf_owned :: "sources_settings \<Rightarrow> string list \<Rightarrow> string list" where
  "elf_owned s topics =
     (if so_allow_overlap s then [] else map category_of_pubsub topics @ map category_of_stored_object (stored_objects s))"

text \<open>\<open>fnm\<close> is \<^verbatim>\<open>fnmatch\<close>; \<open>Inl\<close> is the error of the overlap guard.\<close>

definition build_org_sources ::
  "(string \<Rightarrow> string \<Rightarrow> bool) \<Rightarrow> org_settings \<Rightarrow> (string, member set) dict + org_sources" where
  "build_org_sources fnm o1 =
     (let s = og_sources o1;
          pubsub = pubsub_of (so_pubsub s) (pubsub_owned s);
          topics = (if p_enabled (so_pubsub s) then explicit_topics fnm pubsub else []);
          sources = (if p_enabled (so_pubsub s) then [BuiltPubSub pubsub] else [])
            @ (if o_enabled (so_objects s) then [BuiltObjects (so_objects s)] else [])
            @ (if e_enabled (so_elf s) then [BuiltElf (elf_of (so_elf s) (elf_owned s topics))] else [])
            @ (if x_enabled (so_apex s) then [BuiltApex (so_apex s)] else [])
      in case check_overlap topics (stored_objects s) (elf_event_types s) (so_allow_overlap s) of
           Inl e \<Rightarrow> Inl e
         | Inr _ \<Rightarrow> Inr \<lparr>bs_sources = sources, bs_topics = topics, bs_objects = stored_objects s, bs_types = elf_event_types s\<rparr>)"

subsection \<open>Store, coordinator, application\<close>

datatype built_store = BuiltFile string bool | BuiltS3 s3_settings | BuiltGcs gcs_settings

datatype build_error = MissingExtra string | Overlapping "(string, member set) dict" | NoOrgs

definition build_store :: "(string \<Rightarrow> bool) \<Rightarrow> state_settings \<Rightarrow> bool \<Rightarrow> build_error + built_store" where
  "build_store available s exclusive =
     (case st_store s of
        S3State \<Rightarrow> if available ''aiobotocore'' then Inr (BuiltS3 (st_s3 s)) else Inl (MissingExtra ''s3'')
      | GcsState \<Rightarrow> if available ''gcloud'' then Inr (BuiltGcs (st_gcs s)) else Inl (MissingExtra ''gcs'')
      | FileState \<Rightarrow> Inr (BuiltFile (st_path s) exclusive))"

datatype built_coordinator = BuiltNoop | BuiltFileLease string | BuiltK8sLease

text \<open>The host name and process id as one string.\<close>

definition build_coordinator :: "(string \<Rightarrow> bool) \<Rightarrow> string \<Rightarrow> coordinate_settings \<Rightarrow> build_error + built_coordinator" where
  "build_coordinator available host_pid s =
     (case co_type s of
        FileLeaseCoordination \<Rightarrow>
          Inr (BuiltFileLease (if fl_holder_id (co_file_lease s) \<noteq> [] then fl_holder_id (co_file_lease s) else host_pid))
      | K8sLeaseCoordination \<Rightarrow> if available ''kubernetes_asyncio'' then Inr BuiltK8sLease else Inl (MissingExtra ''k8s'')
      | NoopCoordination \<Rightarrow> Inr BuiltNoop)"

text \<open>Only the file store has \<^verbatim>\<open>set_epoch\<close>; all stores have \<^verbatim>\<open>set_fence\<close>.\<close>

definition has_set_epoch :: "built_store \<Rightarrow> bool" where
  "has_set_epoch st = (case st of BuiltFile _ _ \<Rightarrow> True | _ \<Rightarrow> False)"

definition wires_fence :: "built_coordinator \<Rightarrow> bool" where
  "wires_fence c = (c \<noteq> BuiltNoop)"

definition wires_epoch :: "built_coordinator \<Rightarrow> built_store \<Rightarrow> bool" where
  "wires_epoch c st = ((case c of BuiltFileLease _ \<Rightarrow> True | _ \<Rightarrow> False) \<and> has_set_epoch st)"

definition environment_text :: "sf_environment \<Rightarrow> string" where
  "environment_text e = (case e of Production \<Rightarrow> ''production'' | Sandbox \<Rightarrow> ''sandbox'')"

text \<open>A source as the pipeline gets it, in the adapter of its org or raw.\<close>

definition wrap_sources :: "nat \<Rightarrow> org_settings \<Rightarrow> built_source list \<Rightarrow> (org_source option \<times> built_source) list" where
  "wrap_sources index o1 srcs =
     map (\<lambda>b. (if og_name o1 \<noteq> []
               then Some \<lparr>src_org = og_name o1, src_environment = environment_text (cs_environment (og_salesforce o1)), src_has_provider = True,
                          src_legacy_fallback = (index = 0), src_org_id = []\<rparr>
               else None, b)) srcs"

fun build_orgs ::
  "(string \<Rightarrow> string \<Rightarrow> bool) \<Rightarrow> nat \<Rightarrow> org_settings list \<Rightarrow> build_error + (org_source option \<times> built_source) list" where
  "build_orgs fnm index [] = Inr []"
| "build_orgs fnm index (o1 # orgs) =
     (case build_org_sources fnm o1 of
        Inl cs \<Rightarrow> Inl (Overlapping cs)
      | Inr b \<Rightarrow> map_sum id ((@) (wrap_sources index o1 (bs_sources b))) (build_orgs fnm (Suc index) orgs))"

datatype degraded_check = BudgetCheck | OrgAuthCheck | SinkCheck

record built_app =
  ba_store :: built_store
  ba_coordinator :: built_coordinator
  ba_fenced :: bool
  ba_epoch :: bool
  ba_sources :: "(org_source option \<times> built_source) list"
  ba_limits :: "string list"
  ba_governed :: bool
  ba_checks :: "degraded_check list"

definition build_app :: "(string \<Rightarrow> bool) \<Rightarrow> string \<Rightarrow> (string \<Rightarrow> string \<Rightarrow> bool) \<Rightarrow> config \<Rightarrow> build_error + built_app" where
  "build_app available host_pid fnm cfg =
     (case build_store available (g_state cfg) (co_type (g_coordinate cfg) = NoopCoordination) of
        Inl e \<Rightarrow> Inl e
      | Inr st \<Rightarrow> (case build_coordinator available host_pid (g_coordinate cfg) of
        Inl e \<Rightarrow> Inl e
      | Inr c \<Rightarrow> (case resolved_orgs cfg of
        None \<Rightarrow> Inl NoOrgs
      | Some orgs \<Rightarrow> (case build_orgs fnm 0 orgs of
        Inl e \<Rightarrow> Inl e
      | Inr srcs \<Rightarrow>
          (let governed = Egress.enabled (l_egress (g_loki cfg)) in
           Inr \<lparr>ba_store = st, ba_coordinator = c, ba_fenced = wires_fence c, ba_epoch = wires_epoch c st, ba_sources = srcs,
                ba_limits = map og_name (filter (\<lambda>o1. lm_enabled (cs_limits (og_salesforce o1))) orgs), ba_governed = governed,
                ba_checks = (if governed then [BudgetCheck] else [])
                  @ (if 1 < length orgs \<or> orgs \<noteq> [] \<and> og_name (hd orgs) \<noteq> [] then [OrgAuthCheck] else [])
                  @ (if 0 < sv_unready_after_sink_failing (g_service cfg) then [SinkCheck] else [])\<rparr>)))))"

section \<open>One category, one source\<close>

text \<open>What the three sources of an org take in once discovery has answered: topics, objects, file types.\<close>

definition live_topics :: "(string \<Rightarrow> string \<Rightarrow> bool) \<Rightarrow> built_source list \<Rightarrow> string list option \<Rightarrow> string set" where
  "live_topics fnm bs ds = {t. \<exists>c. BuiltPubSub c \<in> set bs \<and> t \<in> set (resolve_topics fnm c ds)}"

definition live_objects :: "built_source list \<Rightarrow> string set" where
  "live_objects bs = {n. \<exists>s. BuiltObjects s \<in> set bs \<and> n \<in> b_name ` set (o_objects s)}"

definition live_types :: "built_source list \<Rightarrow> elf_error + string list \<Rightarrow> string set" where
  "live_types bs ans = {n. \<exists>c. BuiltElf c \<in> set bs \<and> n \<in> t_name ` set (fst (resolve_event_types c ans new_elf_state))}"

lemma filter_from_set:
  "t \<in> set (filter_from fnm cfg seen tps) \<Longrightarrow>
   t \<in> set tps \<and> t \<noteq> TOPIC_WILDCARD \<and> list_ex (fnm t) (cfg_include cfg) \<and> \<not> list_ex (fnm t) (cfg_exclude cfg)"
  by (induction fnm cfg seen tps rule: filter_from.induct) (auto split: if_splits)

lemma filter_from_keeps:
  "t \<in> set tps \<Longrightarrow> t \<notin> set seen \<Longrightarrow> t \<noteq> TOPIC_WILDCARD \<Longrightarrow> list_ex (fnm t) (cfg_include cfg) \<Longrightarrow> \<not> list_ex (fnm t) (cfg_exclude cfg) \<Longrightarrow>
   t \<in> set (filter_from fnm cfg seen tps)"
  by (induction fnm cfg seen tps rule: filter_from.induct) auto

text \<open>A topic is listed and kept by the filter, or discovered and of a category no other source owns.\<close>

lemma resolve_topics_cases:
  assumes "t \<in> set (resolve_topics fnm cfg ds)"
  shows "t \<in> set (explicit_topics fnm cfg) \<or> category_of_pubsub t \<notin> set (owned_categories cfg)"
proof -
  from assms have t: "t \<noteq> TOPIC_WILDCARD" "list_ex (fnm t) (cfg_include cfg)" "\<not> list_ex (fnm t) (cfg_exclude cfg)"
      and "t \<in> set (cfg_topics cfg) \<or> (\<exists>d. ds = Some d \<and> t \<in> set (discovered_additions fnm cfg d (cfg_topics cfg)))"
    by (auto simp: resolve_topics_def filter_topics_def Let_def dest!: filter_from_set split: option.splits if_splits)
  then show ?thesis
    using filter_from_keeps[of t "cfg_topics cfg" "[]" fnm cfg]
    by (auto simp: explicit_topics_def filter_topics_def discovered_additions_def filter_owned_def split: if_splits)
qed

lemma add_discovered_set:
  "t \<in> set (add_discovered cfg r names ns) \<Longrightarrow> category_of_elf (t_name t) \<notin> set (c_exclude_categories cfg)"
  by (induction cfg r names ns rule: add_discovered.induct) (auto split: if_splits)

lemma resolve_event_types_cases:
  assumes "n \<in> t_name ` set (fst (resolve_event_types cfg ans st))"
  shows "n \<in> set (filter (\<lambda>n. n \<noteq> EVENT_TYPE_WILDCARD) (map t_name (c_types cfg))) \<or> category_of_elf n \<notin> set (c_exclude_categories cfg)"
  using assms by (auto simp: resolve_event_types_def Let_def dest: add_discovered_set split: if_splits sum.splits)

lemma built_parts:
  assumes "build_org_sources fnm o1 = Inr b"
  defines "s \<equiv> og_sources o1"
  shows "check_overlap (bs_topics b) (bs_objects b) (bs_types b) (so_allow_overlap s) = Inr ()"
    and "BuiltPubSub c \<in> set (bs_sources b) \<Longrightarrow> owned_categories c = pubsub_owned s \<and> bs_topics b = explicit_topics fnm c"
    and "BuiltObjects ob \<in> set (bs_sources b) \<Longrightarrow> ob = so_objects s \<and> o_enabled ob"
    and "BuiltElf e \<in> set (bs_sources b) \<Longrightarrow> c_exclude_categories e = elf_owned s (bs_topics b) \<and> c_types e = e_types (so_elf s) \<and> e_enabled (so_elf s)"
    and "bs_objects b = stored_objects s" "bs_types b = elf_event_types s"
  using assms by (auto simp: build_org_sources_def pubsub_of_def elf_of_def Let_def split: sum.splits if_splits)

text \<open>
  C24. Without \<open>allow_overlap\<close>, whatever discovery answers, no event category reaches an org from two sources: not from a topic and a polled
  object, not from a polled object and a file type, and from a topic and a file type only when both were discovered.\<close>

theorem one_category_one_source:
  assumes b: "build_org_sources fnm o1 = Inr b" and no: "\<not> so_allow_overlap (og_sources o1)"
  shows "(\<forall>t \<in> live_topics fnm (bs_sources b) ds. \<forall>ob \<in> live_objects (bs_sources b). category_of_pubsub t \<noteq> category_of_stored_object ob)
    \<and> (\<forall>ob \<in> live_objects (bs_sources b). \<forall>n \<in> live_types (bs_sources b) ans. category_of_stored_object ob \<noteq> category_of_elf n)
    \<and> (\<forall>t \<in> live_topics fnm (bs_sources b) ds. \<forall>n \<in> live_types (bs_sources b) ans.
         category_of_pubsub t = category_of_elf n \<longrightarrow> t \<notin> set (bs_topics b) \<and> n \<notin> set (bs_types b))"
proof -
  let ?s = "og_sources o1"
  note parts = built_parts[OF b]
  have guard: "check_overlap (bs_topics b) (stored_objects ?s) (elf_event_types ?s) False = Inr ()" using parts(1,5,6) no by simp
  note free = no_overlap[OF guard]
  have T: "t \<in> set (bs_topics b) \<or> category_of_pubsub t \<notin> category_of_stored_object ` set (stored_objects ?s) \<union> category_of_elf ` set (elf_event_types ?s)"
    if t: "t \<in> live_topics fnm (bs_sources b) ds" for t
    using t parts(2) no by (auto simp: live_topics_def pubsub_owned_def dest!: resolve_topics_cases)
  have N: "n \<in> set (elf_event_types ?s) \<or> category_of_elf n \<notin> category_of_pubsub ` set (bs_topics b) \<union> category_of_stored_object ` set (stored_objects ?s)"
    if n: "n \<in> live_types (bs_sources b) ans" for n
  proof -
    obtain e where e: "BuiltElf e \<in> set (bs_sources b)" "n \<in> t_name ` set (fst (resolve_event_types e ans new_elf_state))"
      using n by (auto simp: live_types_def)
    from resolve_event_types_cases[OF e(2)] show ?thesis
      using parts(4)[OF e(1)] no by (auto simp: elf_owned_def elf_event_types_def)
  qed
  have O: "ob \<in> set (stored_objects ?s)" if "ob \<in> live_objects (bs_sources b)" for ob
    using that parts(3) by (auto simp: live_objects_def stored_objects_def)
  show ?thesis
  proof (intro conjI ballI impI)
    fix t ob assume "t \<in> live_topics fnm (bs_sources b) ds" "ob \<in> live_objects (bs_sources b)"
    then show "category_of_pubsub t \<noteq> category_of_stored_object ob" using T[of t] O[of ob] free by blast
  next
    fix ob n assume "ob \<in> live_objects (bs_sources b)" "n \<in> live_types (bs_sources b) ans"
    then show "category_of_stored_object ob \<noteq> category_of_elf n" using N[of n] O[of ob] free by (metis UnCI imageI)
  next
    fix t n assume "t \<in> live_topics fnm (bs_sources b) ds" "n \<in> live_types (bs_sources b) ans" "category_of_pubsub t = category_of_elf n"
    then show "t \<notin> set (bs_topics b)" "n \<notin> set (bs_types b)" using T[of t] N[of n] free parts(6) by (metis UnCI imageI)+
  qed
qed

section \<open>Fences and orgs\<close>

lemma build_app_parts:
  assumes "build_app available host_pid fnm cfg = Inr app"
  obtains orgs where "resolved_orgs cfg = Some orgs" "build_orgs fnm 0 orgs = Inr (ba_sources app)"
    "build_store available (g_state cfg) (co_type (g_coordinate cfg) = NoopCoordination) = Inr (ba_store app)"
    "build_coordinator available host_pid (g_coordinate cfg) = Inr (ba_coordinator app)"
    "ba_fenced app = wires_fence (ba_coordinator app)" "ba_epoch app = wires_epoch (ba_coordinator app) (ba_store app)"
  using assms by (auto simp: build_app_def Let_def split: sum.splits option.splits)

text \<open>Under a coordinator the store is fenced and takes no lock of its own, the epoch is checked exactly for the file lease on the file
  store, and a single instance has the lock and no fence.\<close>

lemma fences_wired:
  assumes "build_app available host_pid fnm cfg = Inr app"
  shows "(ba_fenced app \<longleftrightarrow> co_type (g_coordinate cfg) \<noteq> NoopCoordination)
    \<and> (ba_epoch app \<longleftrightarrow> co_type (g_coordinate cfg) = FileLeaseCoordination \<and> st_store (g_state cfg) = FileState)
    \<and> (st_store (g_state cfg) = FileState \<longrightarrow> ba_store app = BuiltFile (st_path (g_state cfg)) (co_type (g_coordinate cfg) = NoopCoordination))"
proof -
  obtain orgs where parts: "build_store available (g_state cfg) (co_type (g_coordinate cfg) = NoopCoordination) = Inr (ba_store app)"
      "build_coordinator available host_pid (g_coordinate cfg) = Inr (ba_coordinator app)"
      "ba_fenced app = wires_fence (ba_coordinator app)" "ba_epoch app = wires_epoch (ba_coordinator app) (ba_store app)"
    using build_app_parts[OF assms] by blast
  then show ?thesis
    by (cases "st_store (g_state cfg)"; cases "co_type (g_coordinate cfg)")
      (auto simp: build_store_def build_coordinator_def wires_fence_def wires_epoch_def has_set_epoch_def split: if_splits
        dest!: sym[of "Inr _"] sym[of _ "ba_store app"] sym[of _ "ba_coordinator app"])
qed

lemma build_orgs_exact:
  assumes "build_orgs fnm k orgs = Inr srcs"
  shows "\<exists>bss. length bss = length orgs \<and> (\<forall>i < length orgs. build_org_sources fnm (orgs ! i) = Inr (bss ! i))
    \<and> srcs = concat (map (\<lambda>i. wrap_sources (k + i) (orgs ! i) (bs_sources (bss ! i))) [0..<length orgs])"
  using assms
proof (induction orgs arbitrary: k srcs)
  case (Cons o1 orgs)
  obtain built rest where built: "build_org_sources fnm o1 = Inr built" "build_orgs fnm (Suc k) orgs = Inr rest"
      "srcs = wrap_sources k o1 (bs_sources built) @ rest"
    using Cons.prems by (auto simp: map_sum_Inr split: sum.splits)
  obtain bss where bss: "length bss = length orgs" "\<forall>i < length orgs. build_org_sources fnm (orgs ! i) = Inr (bss ! i)"
      "rest = concat (map (\<lambda>i. wrap_sources (Suc k + i) (orgs ! i) (bs_sources (bss ! i))) [0..<length orgs])"
    using Cons.IH[OF built(2)] by blast
  have "\<forall>i < length (o1 # orgs). build_org_sources fnm ((o1 # orgs) ! i) = Inr ((built # bss) ! i)"
    using built(1) bss(2) by (auto simp: nth_Cons split: nat.splits)
  moreover have "srcs = concat (map (\<lambda>i. wrap_sources (k + i) ((o1 # orgs) ! i) (bs_sources ((built # bss) ! i))) [0..<length (o1 # orgs)])"
    using built(3) bss(3) by (simp add: upt_conv_Cons map_Suc_upt[symmetric] o_def del: upt_Suc)
  ultimately show ?case using bss(1) by (intro exI[of _ "built # bss"]) simp
qed simp

text \<open>The adapter a source of the \<open>i\<close>-th org is due: none without an \<^verbatim>\<open>orgs\<close> list, else the org's name and environment, with the fallback
  to unprefixed keys for the first.\<close>

definition due_adapter :: "bool \<Rightarrow> nat \<Rightarrow> org_settings \<Rightarrow> org_source option" where
  "due_adapter multi i o1 =
     (if multi then Some \<lparr>src_org = og_name o1, src_environment = environment_text (cs_environment (og_salesforce o1)), src_has_provider = True,
                          src_legacy_fallback = (i = 0), src_org_id = []\<rparr>
      else None)"

text \<open>
  C25. The application built from a loaded configuration. Its sources are, org by org and in order, exactly the sources built from that org's own
  settings, each in the adapter with this org's name and environment, where exactly the first org falls back to unprefixed checkpoints; in
  single-org mode each is used as it is. No two orgs have the same name, so no two adapters of different orgs share a prefix. The store is fenced
  exactly under a coordinator, and then a file store takes no lock of its own.\<close>

theorem build_app_scoped:
  assumes load: "load_config rd yaml environ parse re_ok path = Inr cfg" and app: "build_app available host_pid fnm cfg = Inr app"
  shows "(\<exists>orgs bss. resolved_orgs cfg = Some orgs \<and> distinct (map og_name orgs) \<and> (g_orgs cfg \<noteq> [] \<longrightarrow> orgs = g_orgs cfg)
        \<and> length bss = length orgs \<and> (\<forall>i < length orgs. build_org_sources fnm (orgs ! i) = Inr (bss ! i))
        \<and> ba_sources app = concat (map (\<lambda>i. map (Pair (due_adapter (g_orgs cfg \<noteq> []) i (orgs ! i))) (bs_sources (bss ! i))) [0..<length orgs]))
    \<and> (ba_fenced app \<longleftrightarrow> co_type (g_coordinate cfg) \<noteq> NoopCoordination)
    \<and> (st_store (g_state cfg) = FileState \<longrightarrow> ba_store app = BuiltFile (st_path (g_state cfg)) (co_type (g_coordinate cfg) = NoopCoordination))"
proof -
  obtain orgs where orgs: "resolved_orgs cfg = Some orgs" "build_orgs fnm 0 orgs = Inr (ba_sources app)" using build_app_parts[OF app] by blast
  have ok: "distinct (map og_name orgs)" "list_all (\<lambda>o1. og_name o1 = [] \<longleftrightarrow> g_orgs cfg = []) orgs"
    using load_config_ok[OF load] orgs(1) by (simp_all add: config_ok_def)
  obtain bss where bss: "length bss = length orgs" "\<forall>i < length orgs. build_org_sources fnm (orgs ! i) = Inr (bss ! i)"
      "ba_sources app = concat (map (\<lambda>i. wrap_sources i (orgs ! i) (bs_sources (bss ! i))) [0..<length orgs])"
    using build_orgs_exact[OF orgs(2)] by auto
  have "wrap_sources i (orgs ! i) bs = map (Pair (due_adapter (g_orgs cfg \<noteq> []) i (orgs ! i))) bs" if "i < length orgs" for i bs
    using ok(2) that by (auto simp: wrap_sources_def due_adapter_def list_all_length)
  then have "map (\<lambda>i. wrap_sources i (orgs ! i) (bs_sources (bss ! i))) [0..<length orgs]
      = map (\<lambda>i. map (Pair (due_adapter (g_orgs cfg \<noteq> []) i (orgs ! i))) (bs_sources (bss ! i))) [0..<length orgs]"
    by (intro map_cong) auto
  with bss(3) have srcs: "ba_sources app
      = concat (map (\<lambda>i. map (Pair (due_adapter (g_orgs cfg \<noteq> []) i (orgs ! i))) (bs_sources (bss ! i))) [0..<length orgs])"
    by (rule subst[rotated])
  have multi: "g_orgs cfg \<noteq> [] \<longrightarrow> orgs = g_orgs cfg" using orgs(1) by (auto simp: resolved_orgs_def split: if_splits)
  show ?thesis
    by (intro conjI exI[of _ orgs] exI[of _ bss])
      (use fences_wired[OF app] in \<open>auto intro: orgs(1) ok(1) multi[rule_format] bss(1) bss(2)[rule_format] srcs\<close>)
qed

section \<open>Two wildcards\<close>

definition star :: "string \<Rightarrow> string \<Rightarrow> bool" where
  "star name pat = (pat = ''*'' \<or> pat = name)"

definition wildcard_org :: org_settings where
  "wildcard_org = \<lparr>og_name = [], og_salesforce = og_salesforce demo_org,
     og_sources = default_sources\<lparr>so_pubsub := (so_pubsub default_sources)\<lparr>p_topics := [''*'']\<rparr>,
       so_elf := (so_elf default_sources)\<lparr>e_enabled := True, e_types := [coerce_event_type (Inl ''*'')]\<rparr>\<rparr>\<rparr>"

lemma wildcard_built:
  "build_org_sources star wildcard_org =
     Inr \<lparr>bs_sources = [BuiltPubSub (pubsub_of (so_pubsub (og_sources wildcard_org)) []), BuiltElf (elf_of (so_elf (og_sources wildcard_org)) [])],
          bs_topics = [], bs_objects = [], bs_types = []\<rparr>"
  by (simp add: build_org_sources_def wildcard_org_def default_sources_def pubsub_owned_def elf_owned_def stored_objects_def elf_event_types_def
      explicit_topics_def filter_topics_def pubsub_of_def TOPIC_WILDCARD_def EVENT_TYPE_WILDCARD_def coerce_event_type_def check_overlap_def
      collisions_def categorised_def)

text \<open>
  With wildcards on both sides and \<open>allow_overlap\<close> off, a category found by both discoveries is taken in twice: the login stream and the
  login files of one org.\<close>

theorem double_wildcard_overlaps:
  "\<exists>b. build_org_sources star wildcard_org = Inr b \<and> \<not> so_allow_overlap (og_sources wildcard_org) \<and>
     ''/event/LoginEventStream'' \<in> live_topics star (bs_sources b) (Some [''/event/LoginEventStream'']) \<and>
     ''Login'' \<in> live_types (bs_sources b) (Inr [''Login'']) \<and>
     category_of_pubsub ''/event/LoginEventStream'' = category_of_elf ''Login''"
proof -
  have "''/event/LoginEventStream'' \<in> set (resolve_topics star (pubsub_of (so_pubsub (og_sources wildcard_org)) []) (Some [''/event/LoginEventStream'']))"
    by (simp add: resolve_topics_def filter_topics_def discovered_additions_def filter_owned_def pubsub_of_def wildcard_org_def default_sources_def
        TOPIC_WILDCARD_def star_def)
  moreover have "''Login'' \<in> t_name ` set (fst (resolve_event_types (elf_of (so_elf (og_sources wildcard_org)) []) (Inr [''Login'']) new_elf_state))"
    by (simp add: resolve_event_types_def elf_of_def wildcard_org_def discover_def coerce_event_type_def EVENT_TYPE_WILDCARD_def default_sources_def Let_def)
  moreover have "\<not> so_allow_overlap (og_sources wildcard_org)" by (simp add: wildcard_org_def default_sources_def)
  ultimately show ?thesis using login_channels(1,4) unfolding wildcard_built live_topics_def live_types_def by auto
qed

section \<open>Witnesses\<close>

text \<open>The same org: the rest of what discovery may find is disjoint.\<close>

theorem one_category_one_source_witness:
  "\<exists>b. build_org_sources star wildcard_org = Inr b \<and>
     (\<forall>ob. ob \<in> live_objects (bs_sources b) \<longrightarrow> category_of_stored_object ob \<noteq> ''login'')"
proof -
  let ?b = "\<lparr>bs_sources = [BuiltPubSub (pubsub_of (so_pubsub (og_sources wildcard_org)) []), BuiltElf (elf_of (so_elf (og_sources wildcard_org)) [])],
          bs_topics = [], bs_objects = [], bs_types = []\<rparr>"
  have "\<not> so_allow_overlap (og_sources wildcard_org)" by (simp add: wildcard_org_def default_sources_def)
  note h = one_category_one_source[OF wildcard_built this, of "Some [''/event/LoginEventStream'']" "Inr []"]
  have "''/event/LoginEventStream'' \<in> live_topics star (bs_sources ?b) (Some [''/event/LoginEventStream''])"
    by (simp add: live_topics_def resolve_topics_def filter_topics_def discovered_additions_def filter_owned_def pubsub_of_def wildcard_org_def
        default_sources_def TOPIC_WILDCARD_def star_def)
  then have "\<forall>ob. ob \<in> live_objects (bs_sources ?b) \<longrightarrow> category_of_stored_object ob \<noteq> ''login''"
    using h login_channels(1) by (metis (no_types, lifting))
  then show ?thesis using wildcard_built by blast
qed

definition demo_built :: "build_error + built_app" where
  "demo_built = build_app (\<lambda>s. False) ''h-1'' star demo_loaded"

lemma demo_built_app: "\<exists>app w b. demo_built = Inr app \<and> (w, b) \<in> set (ba_sources app)"
proof -
  have "case demo_built of Inr app \<Rightarrow> length (ba_sources app) = 2 | Inl _ \<Rightarrow> False" by code_simp
  then obtain app where "demo_built = Inr app" "ba_sources app \<noteq> []" by (fastforce split: sum.splits)
  then show ?thesis by (metis list.set_intros(1) neq_Nil_conv surj_pair)
qed

theorem build_app_scoped_witness:
  "\<exists>app w b. demo_built = Inr app \<and> (w, b) \<in> set (ba_sources app) \<and> w = None \<and> \<not> ba_fenced app \<and> ba_store app = BuiltFile ''state.json'' True"
proof -
  obtain app w b where a: "demo_built = Inr app" "(w, b) \<in> set (ba_sources app)" using demo_built_app by blast
  have demo: "g_orgs demo_loaded = []" by (simp add: demo_loaded_def demo_raw_config_def)
  note h = build_app_scoped[OF demo_load a(1)[unfolded demo_built_def]]
  then have "w = None" using a(2) demo by (auto simp: due_adapter_def)
  moreover have "\<not> ba_fenced app" "ba_store app = BuiltFile ''state.json'' True" using h by (simp_all add: demo_loaded_def demo_raw_config_def)
  ultimately show ?thesis using a by blast
qed

end
