(* ===== verification/Spec2Isabelle.thy ===== *)
theory Spec2Isabelle
  imports Pipeline ObjectStore OrgView FileLease K8sLease Overlap StateCmd ObjectsSource Lifecycle PubSubBridge ElfCycle ElfClient Apex Backfill Wiring
begin

text \<open>
  \<^bold>\<open>A verification development for sf2loki.\<close>

  sf2loki is a daemon that reads event monitoring data from Salesforce and pushes it to Grafana
  Loki. Sources yield log entries, each with a checkpoint token; a pipeline labels them, buffers
  them in two lanes with a byte budget, batches them, passes each batch by the egress governor,
  pushes it to the sink, and only then commits the last token of each key to a checkpoint store,
  from which the sources resume. A coordinator decides which of several replicas runs the pipeline,
  and a fence in the store keeps a replica that lost its leadership from committing. All paths below
  are under \<^verbatim>\<open>src/src/sf2loki/\<close>.

  \<^bold>\<open>Conventions.\<close> Pure functions are functions; a stateful operation takes and returns
  its state record; a raised exception is the left side of a sum or \<open>None\<close>. Code with awaits is
  cut at them, so that whatever other tasks or replicas do lies between two steps. Input from
  outside (clock readings, answers of servers, outcomes of writes, wake-ups) is an argument; a loop
  that waits for such input recurses over the list of inputs, and a list that is used up gives an
  outcome of its own (waiting), never a result. Durations and monotonic clocks are rational seconds;
  a \<^verbatim>\<open>datetime\<close> is an integer number of microseconds. Python integers are unbounded and
  are \<open>int\<close> or \<open>nat\<close>.

  \<^bold>\<open>Theories and the code they model.\<close>

  \<^item> \<^verbatim>\<open>Prelude\<close>, \<^verbatim>\<open>Utf8\<close>, \<^verbatim>\<open>PyInt\<close>: strings, dictionaries as association lists in
    insertion order, UTF-8, \<^verbatim>\<open>int()\<close> and \<^verbatim>\<open>str()\<close> of integers with their round trip.
  \<^item> \<^verbatim>\<open>Model\<close>: \<^verbatim>\<open>model.py\<close>; entries, tokens, the memoized line length and its invariant.
  \<^item> \<^verbatim>\<open>Shaping\<close>: \<^verbatim>\<open>shaping.py\<close>; sampling, severity, routing of fields, the line cap,
    timestamps. The line cap respects its bound, never splits a code point, keeps the longest prefix.
  \<^item> \<^verbatim>\<open>Transforms\<close>: \<^verbatim>\<open>transforms.py\<close> and \<^verbatim>\<open>TransformRule\<close>; redaction is
    non-interfering.
  \<^item> \<^verbatim>\<open>Labels\<close>: \<^verbatim>\<open>sinks/loki/labels.py\<close> and the grouping of
    \<^verbatim>\<open>sinks/loki/push.py\<close>; rendering of label sets is injective.
  \<^item> \<^verbatim>\<open>Retry\<close>, \<^verbatim>\<open>Sink\<close>: \<^verbatim>\<open>sinks/loki/sink.py\<close>; five attempts per request, the
    splitting of rejected batches (a recursion on the batch length), capping, authentication
    failures. Every entry is delivered once or counted as dropped. The locale \<open>sink_contract\<close> is
    what the pipeline relies on, interpreted on the sink.
  \<^item> \<^verbatim>\<open>StoreSpec\<close>: \<^verbatim>\<open>state/base.py\<close>; the locale \<open>checkpoint_store\<close>, with client
    lemmas on runs of commits.
  \<^item> \<^verbatim>\<open>FileStore\<close>: \<^verbatim>\<open>state/file_store.py\<close>; interpretation of the contract, single
    writer under the lock, durability, the epoch fence and what breaks it.
  \<^item> \<^verbatim>\<open>ObjectStore\<close>: \<^verbatim>\<open>state/s3_store.py\<close>, \<^verbatim>\<open>state/gcs_store.py\<close>; locales for
    conditional puts and for stores built on them, no lost update for either store.
  \<^item> \<^verbatim>\<open>OrgView\<close>: \<^verbatim>\<open>state/org_view.py\<close>, \<^verbatim>\<open>sources/org_adapter.py\<close>; the view is
    again a checkpoint store (a sublocale), orgs do not see each other.
  \<^item> \<^verbatim>\<open>Egress\<close>: \<^verbatim>\<open>egress.py\<close>; the rate cap over any interleaving of lanes, the daily
    budget, both waits.
  \<^item> \<^verbatim>\<open>Pipeline\<close>: the \<^verbatim>\<open>Pipeline\<close> class of \<^verbatim>\<open>app.py\<close>; the locale
    \<open>pipeline_seam\<close>, at-least-once delivery over the Loki sink and the file store, the byte budget
    of a lane.
  \<^item> \<^verbatim>\<open>Coordinator\<close>: \<^verbatim>\<open>coordinate/base.py\<close>; the locale \<open>coordinator_loop\<close> for the
    alternation of the two callbacks, interpreted on three coordinators.
  \<^item> \<^verbatim>\<open>FileLease\<close>: \<^verbatim>\<open>coordinate/file_lease.py\<close>; a system of replicas on one lease file
    as a step relation, the condition on its steps under which the invariant on epochs holds, its
    composition with the file store's fence, and runs outside the condition in which the epochs fail.
  \<^item> \<^verbatim>\<open>K8sLease\<close>: \<^verbatim>\<open>coordinate/k8s_lease.py\<close>; runs against the history of a Lease object,
    takeover only after a full observed duration.
  \<^item> \<^verbatim>\<open>Lifecycle\<close>: \<^verbatim>\<open>obs/health.py\<close> and the leadership callbacks, startup probe and
    shutdown of \<^verbatim>\<open>app.py\<close>; one pipeline per term under any run of a coordinator.
  \<^item> \<^verbatim>\<open>Overlap\<close>: \<^verbatim>\<open>sources/overlap.py\<close>; the guard agrees with its declarative meaning.
  \<^item> \<^verbatim>\<open>StateCmd\<close>: \<^verbatim>\<open>statecmd.py\<close> over the file store; effect of each command for each
    exit code.
  \<^item> \<^verbatim>\<open>Base64\<close>: the two functions of the Python library, with their round trip.
  \<^item> \<^verbatim>\<open>PubSubClient\<close>: \<^verbatim>\<open>salesforce/avro_codec.py\<close> and \<^verbatim>\<open>salesforce/pubsub_client.py\<close>; a
    subscription yields the topic's log without gaps, stuck topics are reported once.
  \<^item> \<^verbatim>\<open>PubSubSource\<close>: \<^verbatim>\<open>sources/pubsub_source.py\<close>, one topic; the locale \<open>subscription\<close> is what
    the topic's loop relies on, interpreted on the client; exact resumption over reconnects and restarts.
  \<^item> \<^verbatim>\<open>PubSubBridge\<close>: the same module, all topics; the queue between them and the generator as a
    step relation, its end, its backpressure and the topics it subscribes to.
  \<^item> \<^verbatim>\<open>ObjectsSource\<close>: \<^verbatim>\<open>sources/eventlog_objects_source.py\<close>; both drains, tokens, scheduling.
  \<^item> \<^verbatim>\<open>Auth\<close>: \<^verbatim>\<open>auth/jwt_auth.py\<close>; what a mint sends and raises, one mint at a time for any number of tasks.
  \<^item> \<^verbatim>\<open>Rest\<close>: \<^verbatim>\<open>salesforce/soql_client.py\<close>, \<^verbatim>\<open>limits_client.py\<close>, \<^verbatim>\<open>metadata_client.py\<close>,
    \<^verbatim>\<open>obs/limits_poller.py\<close>; the locale \<open>bearer_source\<close> is what the retry after a 401 relies on, interpreted on the provider and on
    the EventLogFile client; complete queries over pages.
  \<^item> \<^verbatim>\<open>Csv\<close>: the reader of the Python library with \<^verbatim>\<open>DictReader\<close>, and the round trip of quoted tables.
  \<^item> \<^verbatim>\<open>ElfClient\<close>: \<^verbatim>\<open>salesforce/eventlogfile_client.py\<close> over the three before; exact downloads, which errors leave.
  \<^item> \<^verbatim>\<open>ElfSource\<close>: \<^verbatim>\<open>sources/eventlogfile_source.py\<close>, one event type; tokens never stand for rows that were
    not gone through.
  \<^item> \<^verbatim>\<open>ElfCycle\<close>: the same module, the concurrent cycle as a step relation; bounded, never stuck, complete.
  \<^item> \<^verbatim>\<open>Apex\<close>: \<^verbatim>\<open>salesforce/apexlog_client.py\<close>, \<^verbatim>\<open>sources/apexlog_source.py\<close>; a poll against a table of logs.

  \<^item> \<^verbatim>\<open>Backfill\<close>: \<^verbatim>\<open>backfill.py\<close>; a stopped backfill resumes without passing over a file, its end, its rows with the
    Loki sink through \<open>sink_contract\<close>, a listing that never ends.

  \<^item> \<^verbatim>\<open>ConfigText\<close>, \<^verbatim>\<open>Config\<close>: \<^verbatim>\<open>config.py\<close>; the duration shorthand and its grammar, environment references, the
    validators, orgs and secrets. What loads is well-formed, and gives the token provider and the transforms what they rely on.

  \<^item> \<^verbatim>\<open>Wiring\<close>: \<^verbatim>\<open>App.build\<close> of \<^verbatim>\<open>app.py\<close>, \<^verbatim>\<open>state/__init__.py\<close>; what is built from a configuration, one source per
    category over the guard and both discoveries, scoping of orgs and fences.

  \<^bold>\<open>How the results fit together.\<close> A source's token is sound and resumable
  (\<open>elo_tokens_sound\<close>, \<open>asc_cycle_complete\<close>, \<open>pubsub_resume_exact\<close>, \<open>elf_resume_safe\<close>, \<open>apex_poll_exact\<close>, \<open>backfill_resume_safe\<close>); the pipeline commits a token only after the
  entries before it were delivered or counted (\<open>pipeline_at_least_once\<close>, over
  \<open>push_accounting\<close> and \<open>file_commit_durable\<close>); orgs sharing a store stay apart
  (\<open>org_isolation\<close>); and of several replicas, under the condition on their steps that \<^verbatim>\<open>FileLease\<close> names,
  only the one with the newest epoch can commit (\<open>lease_epochs_fence\<close>, \<open>epoch_fence_holds\<close>, composed in
  \<open>deposed_leader_cannot_commit\<close>). Each result that shows a limit of the code states the
  schedule or the configuration that reaches it.

  \<^bold>\<open>Bounds.\<close> The sink makes at most five attempts and the object stores four, as in the
  code. Lists of answers and wake-ups have no bound; a statement that a loop ends says how many
  answers are enough (for the ascending drain, more than the table's size divided by the page size of
  200). Where the number of requests is fuel (pages of a query, listings of a poll), running out of it is an outcome of its own, and
  the theorem says what fuel rules it out.

  \<^bold>\<open>Parameters.\<close> SHA-256, JSON, the date parsers, regular expressions and fnmatch, the HTTP,
  S3, GCS and Kubernetes services and the gRPC and retry libraries are arguments, with the
  behaviour a statement relies on as a named hypothesis.

  \<^bold>\<open>Not modelled.\<close> How pydantic reads scalars, the command line, logging and metrics (what
  the components count is kept where a result depends on it), the documentation generator and the
  doctor, which only print; byte encodings of the push request; task creation and cancellation.
\<close>

end
